(* ===== verification/Prelude.thy ===== *)
theory Prelude
  imports Main "HOL-Library.Word" "HOL-Library.Monad_Syntax" "HOL-Library.Sublist"
begin

section \<open>Prelude: bytes, memory blocks and shared lemmas\<close>

text \<open>
  Shared vocabulary of the development.  A memory block (the \<open>contents\<close> of an intset, the
  bytes of a listpack) is a list of 8-bit words.  Reads and writes are checked: an access that
  leaves the block is \<open>None\<close>, so that a theorem concluding \<open>Some\<close> is also a theorem of memory
  safety.  The model is of a little-endian host, where the byte-order macros of
  \<^verbatim>\<open>endianconv.h\<close> (\<^verbatim>\<open>memrev16ifbe\<close>, \<^verbatim>\<open>intrev32ifbe\<close>, \dots) are the identity.
\<close>

named_theorems mem_simps \<open>successful accesses to memory blocks\<close>
named_theorems codec_simps \<open>decoding what was encoded\<close>

type_synonym byte = "8 word"

subsection \<open>Checked accesses to a block\<close>

definition mem_read :: "byte list \<Rightarrow> nat \<Rightarrow> nat \<Rightarrow> byte list option" where
  "mem_read bs off n = (if off + n \<le> length bs then Some (take n (drop off bs)) else None)"

definition mem_write :: "byte list \<Rightarrow> nat \<Rightarrow> byte list \<Rightarrow> byte list option" where
  "mem_write bs off src =
     (if off + length src \<le> length bs
      then Some (take off bs @ src @ drop (off + length src) bs) else None)"

definition mem_move :: "byte list \<Rightarrow> nat \<Rightarrow> nat \<Rightarrow> nat \<Rightarrow> byte list option" where
  "mem_move bs dst src n = do { x \<leftarrow> mem_read bs src n; mem_write bs dst x }"

text \<open>
  Growing or shrinking an allocation.  The bytes that \<open>realloc\<close> adds are indeterminate: the
  function \<open>fill\<close> gives the value found at each new offset, and every theorem holds for all of
  them.
\<close>

definition mem_realloc :: "(nat \<Rightarrow> byte) \<Rightarrow> byte list \<Rightarrow> nat \<Rightarrow> byte list" where
  "mem_realloc fill bs n = take n bs @ map fill [length bs..<n]"

lemma mem_readI [mem_simps]:
  "off + n \<le> length bs \<Longrightarrow> mem_read bs off n = Some (take n (drop off bs))"
  by (simp add: mem_read_def)

lemma mem_writeI [mem_simps]:
  "off + length src \<le> length bs \<Longrightarrow>
   mem_write bs off src = Some (take off bs @ src @ drop (off + length src) bs)"
  by (simp add: mem_write_def)

lemma mem_write_length: "mem_write bs off src = Some bs' \<Longrightarrow> length bs' = length bs"
  by (auto simp: mem_write_def split: if_splits)

lemma length_mem_realloc [simp]: "length (mem_realloc fill bs n) = n"
  by (simp add: mem_realloc_def)

lemma take_mem_realloc: "k \<le> n \<Longrightarrow> k \<le> length bs \<Longrightarrow> take k (mem_realloc fill bs n) = take k bs"
  by (simp add: mem_realloc_def)

lemma length_2E: "length xs = 2 \<Longrightarrow> (\<And>x y. xs = [x, y] \<Longrightarrow> P) \<Longrightarrow> P"
  by (auto simp: numeral_2_eq_2 length_Suc_conv)

lemma mem_write_at [simp]:
  "length A = n \<Longrightarrow> mem_write (A @ x # B) n [y] = Some (A @ y # B)"
  by (auto simp: mem_write_def)

subsection \<open>Little-endian integers of any width\<close>

text \<open>
  \<open>le_bytes n v\<close> is what storing \<open>v\<close> into an \<open>n\<close>-byte integer leaves in memory: the low \<open>n\<close>
  bytes of its two's complement.  \<open>le_nat\<close> and \<open>le_int\<close> read a block back as an unsigned and as
  a signed integer.
\<close>

fun le_bytes :: "nat \<Rightarrow> int \<Rightarrow> byte list" where
  "le_bytes 0 v = []"
| "le_bytes (Suc n) v = word_of_int v # le_bytes n (v div 256)"

fun le_nat :: "byte list \<Rightarrow> nat" where
  "le_nat [] = 0"
| "le_nat (b # bs) = unat b + 256 * le_nat bs"

definition sign_extend :: "nat \<Rightarrow> nat \<Rightarrow> int" where
  "sign_extend n u = (if u < 2 ^ (8 * n - 1) then int u else int u - 2 ^ (8 * n))"

definition le_int :: "byte list \<Rightarrow> int" where
  "le_int bs = sign_extend (length bs) (le_nat bs)"

definition int_range :: "nat \<Rightarrow> int \<Rightarrow> bool" where
  "int_range n v \<longleftrightarrow> - (2 ^ (8 * n - 1)) \<le> v \<and> v < 2 ^ (8 * n - 1)"

lemma length_le_bytes [simp]: "length (le_bytes n v) = n"
  by (induction n arbitrary: v) auto

lemma unat_byte_less [simp]: "unat (b::byte) < 256"
  using unsigned_less [of b] by simp

lemma le_nat_bound: "le_nat bs < 256 ^ length bs"
proof (induction bs)
  case (Cons b bs)
  have "unat b < 256" by (rule unat_byte_less)
  with Cons show ?case by (simp only: le_nat.simps length_Cons power_Suc)
qed simp

lemma uint_word_of_int_byte [simp]: "uint (word_of_int v :: byte) = v mod 256"
  by (simp add: uint_word_of_int take_bit_eq_mod)

lemma int_le_nat_le_bytes: "int (le_nat (le_bytes n v)) = v mod 256 ^ n"
proof (induction n arbitrary: v)
  case (Suc n)
  have "v mod (256 * 256 ^ n) = 256 * (v div 256 mod 256 ^ n) + v mod 256"
    by (rule zmod_zmult2_eq) simp
  with Suc show ?case by simp
qed simp

lemma le_int_le_bytes [codec_simps]:
  assumes "int_range n v" and "0 < n"
  shows "le_int (le_bytes n v) = v"
proof -
  let ?h = "2 ^ (8 * n - 1) :: int"
  have two: "(256::int) ^ n = 2 * ?h"
  proof -
    have "(256::int) ^ n = 2 ^ (8 * n)" by (simp add: power_mult)
    also have "\<dots> = 2 ^ Suc (8 * n - 1)" using assms(2) by simp
    finally show ?thesis by (simp only: power_Suc)
  qed
  have whole: "(2::int) ^ (8 * n) = 2 * ?h" using two by (simp add: power_mult)
  have nn: "?h = int (2 ^ (8 * n - 1))" by simp
  have rng: "- ?h \<le> v" "v < ?h" using assms(1) by (auto simp: int_range_def)
  have eq: "int (le_nat (le_bytes n v)) = (if 0 \<le> v then v else v + 2 * ?h)"
  proof (cases "0 \<le> v")
    case True
    with rng show ?thesis unfolding int_le_nat_le_bytes two by simp
  next
    case False
    have "v mod (2 * ?h) = (v + 2 * ?h) mod (2 * ?h)" by simp
    also have "\<dots> = v + 2 * ?h"
      using False rng by (intro mod_pos_pos_trivial) linarith+
    finally show ?thesis using False unfolding int_le_nat_le_bytes two by simp
  qed
  have "le_nat (le_bytes n v) < 2 ^ (8 * n - 1) \<longleftrightarrow> 0 \<le> v"
  proof -
    have "le_nat (le_bytes n v) < 2 ^ (8 * n - 1) \<longleftrightarrow> int (le_nat (le_bytes n v)) < ?h"
      unfolding nn by (simp only: of_nat_less_iff)
    also have "\<dots> \<longleftrightarrow> 0 \<le> v" unfolding eq using rng by simp
    finally show ?thesis .
  qed
  then show ?thesis unfolding le_int_def sign_extend_def length_le_bytes eq whole by simp
qed

lemma mod_256_cases:
  assumes "(u::nat) < 256"
  shows "(int u + 128) mod 256 - 128 = (if u < 128 then int u else int u - 256)"
proof (cases "u < 128")
  case True
  then have "0 \<le> int u + 128" "int u + 128 < 256" by linarith+
  with True show ?thesis by (simp only: mod_pos_pos_trivial if_True)
next
  case False
  then have r: "0 \<le> int u + 128 - 256" "int u + 128 - 256 < 256" using assms by linarith+
  have "(int u + 128) mod 256 = (int u + 128 - 256) mod 256" by (simp only: minus_mod_self2)
  then show ?thesis using False r by (simp only: mod_pos_pos_trivial if_False)
qed

lemma sint_byte: "sint (c::byte) = (if unat c < 128 then int (unat c) else int (unat c) - 256)"
proof -
  have "sint c = (int (unat c) + 128) mod 256 - 128"
    by (simp add: sint_uint signed_take_bit_eq_take_bit_shift take_bit_eq_mod)
  then show ?thesis by (simp only: mod_256_cases [OF unat_byte_less])
qed

lemma le_bytes_mod: "le_bytes n (v mod 256 ^ n) = le_bytes n v"
proof (induction n arbitrary: v)
  case (Suc n)
  have "v mod (256 * 256 ^ n) = 256 * (v div 256 mod 256 ^ n) + v mod 256"
    by (rule zmod_zmult2_eq) simp
  then have "(v mod 256 ^ Suc n) div 256 = v div 256 mod 256 ^ n"
    and "(v mod 256 ^ Suc n) mod 256 = v mod 256" by simp_all
  moreover have "word_of_int x = (word_of_int y :: byte)" if "x mod 256 = y mod 256" for x y
    using that by (simp add: word_of_int_eq_iff take_bit_eq_mod)
  ultimately show ?case using Suc [of "v div 256"] by (metis le_bytes.simps(2))
qed simp

lemma le_bytes_le_nat: "le_bytes (length bs) (int (le_nat bs)) = bs"
proof (induction bs)
  case (Cons b bs)
  have "(int (le_nat (b # bs))) div 256 = int (le_nat bs)"
    using uint_bounded [of b] by (simp add: div_pos_pos_trivial)
  moreover have z: "(256::byte) = 0" by simp
  have "256 * word_of_nat (le_nat bs) = (0::byte)" by (simp only: z mult_zero_left)
  then have "word_of_int (int (le_nat (b # bs))) = b" by simp
  ultimately show ?case using Cons by (simp only: list.size le_bytes.simps add_Suc_right add_0_right)
qed simp

lemma sign_extend_mod:
  assumes "u < 256 ^ n"
  shows "sign_extend n u mod 256 ^ n = int u"
proof -
  have "(256::int) ^ n = 2 ^ (8 * n)" by (simp add: power_mult)
  moreover have "int u mod 256 ^ n = int u"
    using assms by (intro mod_pos_pos_trivial) (auto simp flip: of_nat_power)
  ultimately show ?thesis by (simp add: sign_extend_def)
qed

lemma le_bytes_le_int [codec_simps]:
  "length bs = n \<Longrightarrow> le_bytes n (le_int bs) = bs"
  using le_bytes_mod [of n "le_int bs"] sign_extend_mod [OF le_nat_bound, of bs] le_bytes_le_nat [of bs]
  by (simp add: le_int_def)

lemma int_range_le_int:
  assumes "0 < length bs"
  shows "int_range (length bs) (le_int bs)"
proof -
  let ?n = "length bs"
  let ?h = "2 ^ (8 * ?n - 1) :: int"
  have two: "(2::int) ^ (8 * ?n) = 2 * ?h"
    using assms by (metis Suc_pred' length_greater_0_conv list.size(3) mult_pos_pos power_Suc zero_less_numeral)
  have "int (le_nat bs) < 2 ^ (8 * ?n)"
    using le_nat_bound [of bs] by (simp add: power_mult flip: of_nat_power) 
  moreover have "le_nat bs < 2 ^ (8 * ?n - 1) \<longleftrightarrow> int (le_nat bs) < ?h"
    by (simp flip: of_nat_less_iff)
  ultimately show ?thesis unfolding int_range_def le_int_def sign_extend_def two by auto
qed

subsection \<open>Interface: arrays of fixed-width records\<close>

text \<open>
  A codec writes a value as \<open>w\<close> bytes and reads it back.  Inside the locale the checked
  block accesses at multiples of \<open>w\<close> are shown to be list operations on the encoded values;
  the components that keep arrays in a block use these facts through an interpretation.
\<close>

locale fixed_codec =
  fixes enc :: "'a \<Rightarrow> byte list"
    and dec :: "byte list \<Rightarrow> 'a"
    and w :: nat
    and ok :: "'a \<Rightarrow> bool"
  assumes width_pos: "0 < w"
    and enc_length: "length (enc v) = w"
    and dec_enc: "ok v \<Longrightarrow> dec (enc v) = v"
    and enc_dec: "length bs = w \<Longrightarrow> enc (dec bs) = bs"
    and ok_dec: "length bs = w \<Longrightarrow> ok (dec bs)"
begin

lemma length_array [simp]: "length (concat (map enc vs)) = length vs * w"
  by (induction vs) (simp_all add: enc_length)

lemma take_array: "take (i * w) (concat (map enc vs)) = concat (map enc (take i vs))"
proof (induction vs arbitrary: i)
  case (Cons v vs)
  then show ?case by (cases i) (simp_all add: enc_length)
qed simp

lemma drop_array: "drop (i * w) (concat (map enc vs)) = concat (map enc (drop i vs))"
proof (induction vs arbitrary: i)
  case (Cons v vs)
  then show ?case by (cases i) (simp_all add: enc_length)
qed simp

lemma read_array:
  assumes "i < length vs" "list_all ok vs"
  shows "map_option dec (mem_read (concat (map enc vs) @ rest) (i * w) w) = Some (vs ! i)"
proof -
  have "Suc i * w \<le> length vs * w" using assms(1) by (intro mult_le_mono1) simp
  then have le: "i * w + w \<le> length vs * w" by simp
  have "drop i vs = vs ! i # drop (Suc i) vs" using assms(1) by (simp add: Cons_nth_drop_Suc)
  then have "take w (drop (i * w) (concat (map enc vs) @ rest)) = enc (vs ! i)"
    using le by (simp add: drop_array enc_length)
  moreover have "ok (vs ! i)" using assms by (simp add: list_all_length)
  ultimately show ?thesis using le by (simp add: mem_read_def dec_enc)
qed

lemma write_array:
  assumes "i < length vs"
  shows "mem_write (concat (map enc vs)) (i * w) (enc v) = Some (concat (map enc (vs[i := v])))"
proof -
  have "Suc i * w \<le> length vs * w" using assms by (intro mult_le_mono1) simp
  moreover have "i * w + w = Suc i * w" by simp
  ultimately show ?thesis
    using assms by (simp only: mem_write_def enc_length length_array if_True take_array drop_array
        upd_conv_take_nth_drop map_append list.map concat_append concat.simps append.simps)
qed

lemma move_array:
  assumes "from + n \<le> length vs" "to + n \<le> length vs"
  shows "mem_move (concat (map enc vs)) (to * w) (from * w) (n * w)
    = Some (concat (map enc (take to vs @ take n (drop from vs) @ drop (to + n) vs)))"
proof -
  have sum: "a * w + n * w = (a + n) * w" for a by (simp add: add_mult_distrib)
  have le: "(from + n) * w \<le> length vs * w" "(to + n) * w \<le> length vs * w"
    using assms by (simp_all add: mult_le_mono1)
  have len: "length (take n (drop from vs)) = n" using assms by simp
  show ?thesis
    using le by (simp only: mem_move_def mem_read_def mem_write_def sum length_array if_True
        take_array drop_array len bind.bind_lunit map_append concat_append)
qed

lemma array_cases:
  assumes "length bs = n * w"
  obtains vs where "bs = concat (map enc vs)" "length vs = n" "list_all ok vs"
proof -
  have "\<exists>vs. bs = concat (map enc vs) \<and> length vs = n \<and> list_all ok vs"
    using assms
  proof (induction n arbitrary: bs)
    case (Suc n)
    then obtain vs where "drop w bs = concat (map enc vs)" "length vs = n" "list_all ok vs"
      by (metis add_diff_cancel_left' length_drop mult_Suc)
    moreover have "enc (dec (take w bs)) = take w bs" "ok (dec (take w bs))"
      using Suc.prems by (simp_all add: enc_dec ok_dec)
    ultimately show ?case
      by (intro exI [of _ "dec (take w bs) # vs"]) (metis append_take_drop_id concat.simps(2)
          length_Cons list.map(2) list.pred_inject(2))
  qed simp
  then show ?thesis using that by blast
qed

end

interpretation le_codec: fixed_codec "le_bytes (Suc k)" le_int "Suc k" "int_range (Suc k)" for k
proof unfold_locales
  show "int_range (Suc k) v \<Longrightarrow> le_int (le_bytes (Suc k) v) = v" for v
    by (rule le_int_le_bytes) simp_all
  show "length bs = Suc k \<Longrightarrow> le_bytes (Suc k) (le_int bs) = bs" for bs
    by (rule le_bytes_le_int)
  show "length bs = Suc k \<Longrightarrow> int_range (Suc k) (le_int bs)" for bs
    using int_range_le_int [of bs] by simp
qed simp_all

end
