(* ===== verification/Glob.thy ===== *)
theory Glob
  imports Prelude
begin

section \<open>Glob-style pattern matching (util.c)\<close>

text \<open>
  \<open>stringmatchlen\<close> of \<^verbatim>\<open>util.c\<close>, the matcher behind KEYS, SCAN MATCH, PSUBSCRIBE, CONFIG GET and
  the ACL key patterns.  \<open>pattern\<close> and \<open>patternLen\<close> move together in the source, so the model
  carries the remaining pattern as a list; a read at or past its end sees the terminating NUL
  that every sds string has (\<open>pat_at\<close>).  The reference is the language of a pattern: \<open>parse_glob\<close> reads
  the pattern as a sequence of tokens and \<open>glob_lang\<close> says which strings they stand for.  In between
  is \<open>glob\<close>, the matcher without the \<open>skipLongerMatches\<close> cut and without the nesting limit.
\<close>

abbreviation "ch_star \<equiv> (42::byte)"
abbreviation "ch_question \<equiv> (63::byte)"
abbreviation "ch_open \<equiv> (91::byte)"
abbreviation "ch_backslash \<equiv> (92::byte)"
abbreviation "ch_close \<equiv> (93::byte)"
abbreviation "ch_caret \<equiv> (94::byte)"
abbreviation "ch_dash \<equiv> (45::byte)"

definition pat_at :: "byte list \<Rightarrow> nat \<Rightarrow> byte" where
  "pat_at p i = (if i < length p then p ! i else 0)"

definition tolower :: "int \<Rightarrow> int" where
  "tolower c = (if 65 \<le> c \<and> c \<le> 90 then c + 32 else c)"

definition char_eq :: "bool \<Rightarrow> byte \<Rightarrow> byte \<Rightarrow> bool" where
  "char_eq nocase a b = (if \<not> nocase then a = b else tolower (sint a) = tolower (sint b))"

definition in_class_range :: "bool \<Rightarrow> byte \<Rightarrow> byte \<Rightarrow> byte \<Rightarrow> bool" where
  "in_class_range nocase a b c =
     (let start = (if sint a > sint b then sint b else sint a);
          end = (if sint a > sint b then sint a else sint b);
          c = sint c;
          start = (if nocase then tolower start else start);
          end = (if nocase then tolower end else end);
          c = (if nocase then tolower c else c)
      in c \<ge> start \<and> c \<le> end)"

text \<open>
  The \<open>while(1)\<close> loop over a bracket class; \<open>c\<close> is \<open>string[0]\<close>.  The result is the match flag
  and the pattern after the closing \<open>pattern++\<close> of the main loop: past the \<open>]\<close>, or at the end
  of a class that is never closed (where the source steps back and forth again).
\<close>

function class_loop :: "bool \<Rightarrow> byte \<Rightarrow> byte list \<Rightarrow> bool \<Rightarrow> bool \<times> byte list" where
  "class_loop nocase c p match =
     (if pat_at p 0 = ch_backslash \<and> length p \<ge> 2 then
        class_loop nocase c (drop 2 p) (match \<or> p ! 1 = c)
      else if pat_at p 0 = ch_close then (match, drop 1 p)
      else if p = [] then (match, [])
      else if length p \<ge> 3 \<and> p ! 1 = ch_dash then
        class_loop nocase c (drop 3 p) (match \<or> in_class_range nocase (p ! 0) (p ! 2) c)
      else class_loop nocase c (drop 1 p) (match \<or> char_eq nocase (p ! 0) c))"
  by pat_completeness auto
termination
  by (relation "measure (\<lambda>(nocase, c, p, match). length p)") auto

declare class_loop.simps [simp del]

text \<open>
  The cases of the \<open>switch\<close> other than \<open>*\<close>, for a pattern that is not empty: whether \<open>string[0]\<close>
  matches, and the pattern after \<open>pattern++\<close>.
\<close>

definition match_elem :: "bool \<Rightarrow> byte list \<Rightarrow> byte \<Rightarrow> bool \<times> byte list" where
  "match_elem nocase p c =
     (if pat_at p 0 = ch_question then (True, drop 1 p)
      else if pat_at p 0 = ch_open then
        (let p = drop 1 p;
             neg = (pat_at p 0 = ch_caret);
             p = (if neg then drop 1 p else p);
             (match, p) = class_loop nocase c p False
         in (if neg then \<not> match else match, p))
      else
        (let p = (if pat_at p 0 = ch_backslash \<and> length p \<ge> 2 then drop 1 p else p)
         in (char_eq nocase (pat_at p 0) c, drop 1 p)))"

fun skip_stars :: "byte list \<Rightarrow> byte list" where
  "skip_stars (a # b # p) = (if b = ch_star then skip_stars (b # p) else a # b # p)"
| "skip_stars p = p"

lemma length_skip_stars [simp]: "length (skip_stars p) \<le> length p"
  by (induction p rule: skip_stars.induct) auto

lemma skip_stars_Nil [simp]: "skip_stars p = [] \<longleftrightarrow> p = []"
  by (induction p rule: skip_stars.induct) auto

lemma class_loop_shorter: "length (snd (class_loop nocase c p m)) \<le> length p"
proof (induction nocase c p m rule: class_loop.induct)
  case (1 nocase c p m)
  show ?case
    using 1 by (subst class_loop.simps) (auto intro: le_trans)
qed

lemma match_elem_shorter: "p \<noteq> [] \<Longrightarrow> length (snd (match_elem nocase p c)) < length p"
  using class_loop_shorter [of nocase c "drop 1 p" False] class_loop_shorter [of nocase c "drop 2 p" False]
  by (cases p) (auto simp: match_elem_def Let_def split: prod.splits)

text \<open>
  The main loop, the recursion on \<open>*\<close> and its inner loop over the string.  The second
  component of the result is \<open>*skipLongerMatches\<close> after the call.
\<close>

function (sequential)
  stringmatchlen_impl :: "bool \<Rightarrow> byte list \<Rightarrow> byte list \<Rightarrow> bool \<Rightarrow> nat \<Rightarrow> bool \<times> bool"
  and match_loop :: "bool \<Rightarrow> byte list \<Rightarrow> byte list \<Rightarrow> bool \<Rightarrow> nat \<Rightarrow> bool \<times> bool"
  and star_loop :: "bool \<Rightarrow> byte list \<Rightarrow> byte list \<Rightarrow> bool \<Rightarrow> nat \<Rightarrow> bool \<times> bool"
where
  "stringmatchlen_impl nocase p s skip nesting =
     (if nesting > 1000 then (False, skip) else match_loop nocase p s skip nesting)"
| "match_loop nocase p s skip nesting =
     (if p = [] \<or> s = [] then (p = [] \<and> s = [], skip)
      else if pat_at p 0 = ch_star then
        (let p' = skip_stars p in
         if length p' = 1 then (True, skip)
         else star_loop nocase (drop 1 p') s skip nesting)
      else
        (let m = match_elem nocase p (hd s); s' = tl s in
         if \<not> fst m then (False, skip)
         else if s' = [] then (dropWhile (\<lambda>b. b = ch_star) (snd m) = [], skip)
         else match_loop nocase (snd m) s' skip nesting))"
| "star_loop nocase p s skip nesting =
     (if s = [] then (False, True)
      else
        (let r = stringmatchlen_impl nocase p s skip (nesting + 1) in
         if fst r then (True, snd r)
         else if snd r then (False, snd r)
         else star_loop nocase p (tl s) (snd r) nesting))"
  by pat_completeness auto
termination
proof (relation "measures
    [\<lambda>x. case x of Inl (nc, p, s, sk, n) \<Rightarrow> length p
         | Inr (Inl (nc, p, s, sk, n)) \<Rightarrow> length p
         | Inr (Inr (nc, p, s, sk, n)) \<Rightarrow> length p,
     \<lambda>x. case x of Inl (nc, p, s, sk, n) \<Rightarrow> length s
         | Inr (Inl (nc, p, s, sk, n)) \<Rightarrow> length s
         | Inr (Inr (nc, p, s, sk, n)) \<Rightarrow> length s,
     \<lambda>x. case x of Inl _ \<Rightarrow> 1 | Inr (Inl _) \<Rightarrow> 0 | Inr (Inr _) \<Rightarrow> 2]", goal_cases)
  case (3 nc p s sk n x)
  then show ?case using length_skip_stars [of p] by (cases p) (auto simp: less_Suc_eq_le intro: diff_less_Suc)
next
  case (4 nc p s sk n x xa)
  then show ?case using match_elem_shorter [of p nc "hd s"] by auto
qed auto

declare stringmatchlen_impl.simps [simp del] match_loop.simps [simp del] star_loop.simps [simp del]

definition stringmatchlen :: "byte list \<Rightarrow> byte list \<Rightarrow> bool \<Rightarrow> bool" where
  "stringmatchlen pattern str nocase = fst (stringmatchlen_impl nocase pattern str False 0)"

text \<open>\<open>stringmatch\<close> takes C strings: what precedes the first NUL.\<close>

definition stringmatch :: "byte list \<Rightarrow> byte list \<Rightarrow> bool \<Rightarrow> bool" where
  "stringmatch pattern str nocase =
     stringmatchlen (takeWhile (\<lambda>b. b \<noteq> 0) pattern) (takeWhile (\<lambda>b. b \<noteq> 0) str) nocase"

subsection \<open>The reference matcher\<close>

function glob :: "bool \<Rightarrow> byte list \<Rightarrow> byte list \<Rightarrow> bool" where
  "glob nocase p s =
     (if p = [] then s = []
      else if pat_at p 0 = ch_star then list_ex (glob nocase (drop 1 p)) (suffixes s)
      else (case s of [] \<Rightarrow> False
            | c # s' \<Rightarrow> fst (match_elem nocase p c) \<and> glob nocase (snd (match_elem nocase p c)) s'))"
  by pat_completeness auto
termination
  by (relation "measure (\<lambda>(nocase, p, s). length p)") (auto simp: match_elem_shorter)

declare glob.simps [simp del]

text \<open>The number of stars bounds the nesting of the recursion.\<close>

definition stars :: "byte list \<Rightarrow> nat" where
  "stars p = length (filter (\<lambda>b. b = ch_star) p)"

lemma stars_simps [simp]:
  "stars [] = 0"
  "stars (b # p) = (if b = ch_star then Suc (stars p) else stars p)"
  by (simp_all add: stars_def)

lemma stars_drop: "stars (drop n p) \<le> stars p"
proof (induction p arbitrary: n)
  case (Cons b p)
  show ?case using Cons [of "n - 1"] by (cases n) auto
qed simp

lemma glob_Nil: "glob nocase [] s \<longleftrightarrow> s = []"
  by (simp add: glob.simps)

lemma glob_star: "glob nocase (ch_star # p) s \<longleftrightarrow> (\<exists>t. suffix t s \<and> glob nocase p t)"
  by (subst glob.simps) (auto simp: pat_at_def list_ex_iff)

lemma glob_elem:
  assumes "p \<noteq> []" "pat_at p 0 \<noteq> ch_star"
  shows "glob nocase p [] = False"
    and "glob nocase p (c # s)
      \<longleftrightarrow> fst (match_elem nocase p c) \<and> glob nocase (snd (match_elem nocase p c)) s"
  using assms by (simp_all add: glob.simps [of nocase p])

text \<open>Where a class ends does not depend on the character it is matched against.\<close>

lemma class_loop_rest: "snd (class_loop nocase c p m) = snd (class_loop nocase d p m')"
proof (induction nocase c p m arbitrary: m' rule: class_loop.induct)
  case (1 nocase c p m)
  show ?case
    using 1 by (subst class_loop.simps, subst class_loop.simps [of nocase d]) auto
qed

lemma match_elem_rest: "snd (match_elem nocase p c) = snd (match_elem nocase p d)"
  using class_loop_rest [of nocase c _ False d False]
  by (auto simp: match_elem_def Let_def split_beta)

lemma class_loop_drop: "\<exists>k. snd (class_loop nocase c p m) = drop k p"
proof (induction nocase c p m rule: class_loop.induct)
  case (1 nocase c p m)
  show ?case
    using 1 by (subst class_loop.simps) (auto simp: drop_drop intro: exI [of _ 0])
qed

lemma match_elem_drop: "\<exists>k. snd (match_elem nocase p c) = drop k p"
  using class_loop_drop [of nocase c "drop 1 p" False] class_loop_drop [of nocase c "drop 2 p" False]
  by (auto simp: match_elem_def Let_def split_beta drop_drop numeral_2_eq_2)

lemma stars_match_elem: "stars (snd (match_elem nocase p c)) \<le> stars p"
  using match_elem_drop [of nocase p c] stars_drop by metis

lemma glob_only_stars: "glob nocase p [] \<longleftrightarrow> dropWhile (\<lambda>b. b = ch_star) p = []"
proof (induction p)
  case (Cons b p)
  show ?case
    by (cases "b = ch_star") (simp_all add: glob_star Cons glob_elem pat_at_def)
qed (simp add: glob_Nil)

lemma skip_stars_star:
  assumes "pat_at p 0 = ch_star" "p \<noteq> []"
  obtains q where "skip_stars p = ch_star # q" "q = [] \<or> pat_at q 0 \<noteq> ch_star"
    "stars q < stars p" "\<And>s. glob nocase p s = glob nocase (ch_star # q) s"
proof -
  have "\<exists>q. skip_stars p = ch_star # q \<and> (q = [] \<or> pat_at q 0 \<noteq> ch_star) \<and> stars q < stars p
          \<and> (\<forall>s. glob nocase p s = glob nocase (ch_star # q) s)"
    using assms
  proof (induction p rule: skip_stars.induct)
    case (1 a b p)
    then have a: "a = ch_star" by (simp add: pat_at_def)
    show ?case
    proof (cases "b = ch_star")
      case True
      have "glob nocase (ch_star # ch_star # p) s = glob nocase (ch_star # p) s" for s
        by (auto simp: glob_star intro: suffix_order.trans)
      with 1 True a show ?thesis by (auto simp: pat_at_def)
    qed (use a in \<open>simp add: pat_at_def\<close>)
  qed (simp_all add: pat_at_def)
  then show ?thesis using that by blast
qed

subsection \<open>The language of a pattern\<close>

datatype class_item = Exactly byte | Letter byte | Between byte byte

datatype glob_token = AnyString | AnyByte | Literal byte | OneOf "class_item list" | NoneOf "class_item list"

function parse_class :: "byte list \<Rightarrow> class_item list \<times> byte list" where
  "parse_class p =
     (case p of
        [] \<Rightarrow> ([], [])
      | a # q \<Rightarrow>
          if a = ch_close then ([], q)
          else if a = ch_backslash \<and> q \<noteq> [] then apfst ((#) (Exactly (hd q))) (parse_class (tl q))
          else if length q \<ge> 2 \<and> hd q = ch_dash
          then apfst ((#) (Between a (q ! 1))) (parse_class (drop 2 q))
          else apfst ((#) (Letter a)) (parse_class q))"
  by pat_completeness auto
termination
  by (relation "measure length") auto

declare parse_class.simps [simp del]

lemma parse_class_shorter: "length (snd (parse_class p)) \<le> length p"
proof (induction p rule: parse_class.induct)
  case (1 p)
  then show ?case by (subst parse_class.simps) (fastforce split: list.split)
qed

definition parse_token :: "byte list \<Rightarrow> glob_token \<times> byte list" where
  "parse_token p =
     (case p of
        [] \<Rightarrow> (AnyString, [])
      | a # q \<Rightarrow>
          if a = ch_star then (AnyString, q)
          else if a = ch_question then (AnyByte, q)
          else if a = ch_open then
            (if q \<noteq> [] \<and> hd q = ch_caret then apfst NoneOf (parse_class (tl q)) else apfst OneOf (parse_class q))
          else if a = ch_backslash \<and> q \<noteq> [] then (Literal (hd q), tl q)
          else (Literal a, q))"

lemma parse_token_shorter: "p \<noteq> [] \<Longrightarrow> length (snd (parse_token p)) < length p"
  using parse_class_shorter [of "tl (tl p)"] parse_class_shorter [of "tl p"]
  by (auto simp: parse_token_def less_Suc_eq_le split: list.splits)

function parse_glob :: "byte list \<Rightarrow> glob_token list" where
  "parse_glob p = (if p = [] then [] else fst (parse_token p) # parse_glob (snd (parse_token p)))"
  by pat_completeness auto
termination
  by (relation "measure length") (auto simp: parse_token_shorter)

declare parse_glob.simps [simp del]

text \<open>
  With \<open>nocase\<close>, letters and the ends of a range are compared in lower case; an escaped byte of a
  class is not.
\<close>

definition folded :: "bool \<Rightarrow> int \<Rightarrow> int" where
  "folded nocase c = (if nocase then tolower c else c)"

fun item_has :: "bool \<Rightarrow> byte \<Rightarrow> class_item \<Rightarrow> bool" where
  "item_has nocase c (Exactly b) \<longleftrightarrow> c = b"
| "item_has nocase c (Letter b) \<longleftrightarrow> folded nocase (sint c) = folded nocase (sint b)"
| "item_has nocase c (Between a b) \<longleftrightarrow>
     folded nocase (min (sint a) (sint b)) \<le> folded nocase (sint c)
     \<and> folded nocase (sint c) \<le> folded nocase (max (sint a) (sint b))"

fun token_has :: "bool \<Rightarrow> byte \<Rightarrow> glob_token \<Rightarrow> bool" where
  "token_has nocase c AnyString = False"
| "token_has nocase c AnyByte = True"
| "token_has nocase c (Literal b) \<longleftrightarrow> folded nocase (sint c) = folded nocase (sint b)"
| "token_has nocase c (OneOf items) \<longleftrightarrow> (\<exists>i \<in> set items. item_has nocase c i)"
| "token_has nocase c (NoneOf items) \<longleftrightarrow> \<not> (\<exists>i \<in> set items. item_has nocase c i)"

inductive glob_lang :: "bool \<Rightarrow> glob_token list \<Rightarrow> byte list \<Rightarrow> bool" for nocase where
  lang_nil: "glob_lang nocase [] []"
| lang_star: "glob_lang nocase ts s \<Longrightarrow> glob_lang nocase (AnyString # ts) (u @ s)"
| lang_byte: "token_has nocase c t \<Longrightarrow> glob_lang nocase ts s \<Longrightarrow> glob_lang nocase (t # ts) (c # s)"

inductive_simps glob_lang_Nil: "glob_lang nocase [] s"
inductive_simps glob_lang_Cons: "glob_lang nocase (t # ts) s"

lemma char_eq_folded: "char_eq nocase a c \<longleftrightarrow> folded nocase (sint c) = folded nocase (sint a)"
  by (auto simp: char_eq_def folded_def dest: signed_word_eqI)

lemma in_class_range_item: "in_class_range nocase a b c = item_has nocase c (Between a b)"
  by (auto simp: in_class_range_def folded_def min_def max_def Let_def)

lemma class_loop_parse:
  "class_loop nocase c p m = (m \<or> (\<exists>i \<in> set (fst (parse_class p)). item_has nocase c i), snd (parse_class p))"
proof (induction nocase c p m rule: class_loop.induct)
  case (1 nocase c p m)
  show ?case
  proof (cases p)
    case Nil
    then show ?thesis by (simp add: class_loop.simps parse_class.simps pat_at_def)
  next
    case (Cons a q)
    consider (a) "a = ch_close" | (b) b q' where "a = ch_backslash" "q = b # q'"
      | (c) b q' where "a \<noteq> ch_close" "a \<noteq> ch_backslash" "q = ch_dash # b # q'"
      | (d) "a \<noteq> ch_close" "a \<noteq> ch_backslash \<or> q = []" "\<not> (length q \<ge> 2 \<and> hd q = ch_dash)"
      by (cases q; cases "tl q") auto
    then show ?thesis
    proof cases
      case a
      show ?thesis unfolding class_loop.simps [of nocase c p] parse_class.simps [of p]
        using Cons a by (simp add: pat_at_def)
    next
      case b
      show ?thesis unfolding class_loop.simps [of nocase c p] parse_class.simps [of p]
        using Cons 1(1) b by (auto simp: pat_at_def)
    next
      case c
      show ?thesis unfolding class_loop.simps [of nocase c p] parse_class.simps [of p]
        using Cons 1(2) c by (auto simp: pat_at_def in_class_range_item)
    next
      case d
      show ?thesis unfolding class_loop.simps [of nocase c p] parse_class.simps [of p]
        using Cons 1(3) d by (cases q) (auto simp: pat_at_def char_eq_folded)
    qed
  qed
qed

lemma match_elem_parse:
  assumes "p \<noteq> []" "pat_at p 0 \<noteq> ch_star"
  shows "match_elem nocase p c = (token_has nocase c (fst (parse_token p)), snd (parse_token p))"
    "fst (parse_token p) \<noteq> AnyString"
proof -
  obtain a q where p: "p = a # q" using assms(1) by (cases p) auto
  show "match_elem nocase p c = (token_has nocase c (fst (parse_token p)), snd (parse_token p))"
    using assms(2) unfolding p
    by (cases q) (auto simp: match_elem_def parse_token_def pat_at_def class_loop_parse char_eq_folded Let_def)
  show "fst (parse_token p) \<noteq> AnyString"
    using assms(2) unfolding p by (auto simp: parse_token_def pat_at_def)
qed

lemma glob_is_lang: "glob nocase p s = glob_lang nocase (parse_glob p) s"
proof (induction nocase p s rule: glob.induct)
  case (1 nocase p s)
  show ?case
  proof (cases p)
    case Nil
    then show ?thesis by (simp add: glob_Nil parse_glob.simps glob_lang_Nil)
  next
    case (Cons a q)
    show ?thesis
    proof (cases "a = ch_star")
      case True
      have "glob nocase p s \<longleftrightarrow> (\<exists>t. suffix t s \<and> glob_lang nocase (parse_glob q) t)"
        using 1(1) Cons True by (auto simp: glob_star pat_at_def)
      moreover have "parse_glob p = AnyString # parse_glob q"
        using Cons True by (subst parse_glob.simps) (simp add: parse_token_def)
      ultimately show ?thesis by (auto simp: glob_lang_Cons suffix_def)
    next
      case False
      then have ns: "p \<noteq> []" "pat_at p 0 \<noteq> ch_star" using Cons by (simp_all add: pat_at_def)
      have "glob nocase p s \<longleftrightarrow> (\<exists>c t. s = c # t \<and> token_has nocase c (fst (parse_token p))
          \<and> glob_lang nocase (parse_glob (snd (parse_token p))) t)"
        using 1(2) ns by (cases s) (auto simp: glob_elem match_elem_parse)
      moreover have "parse_glob p = fst (parse_token p) # parse_glob (snd (parse_token p))"
        using ns by (subst parse_glob.simps) simp
      ultimately show ?thesis using match_elem_parse(2) [OF ns] by (auto simp: glob_lang_Cons)
    qed
  qed
qed

subsection \<open>The cut is sound\<close>

text \<open>
  When a call reports \<open>skipLongerMatches\<close>, no suffix of the string it was given matches its
  pattern, so the enclosing stars need not be tried on shorter suffixes.
\<close>

definition good_result :: "bool \<Rightarrow> byte list \<Rightarrow> byte list \<Rightarrow> bool \<times> bool \<Rightarrow> bool" where
  "good_result nocase p s r \<longleftrightarrow>
     fst r = glob nocase p s \<and> (snd r \<longrightarrow> (\<forall>t. suffix t s \<longrightarrow> \<not> glob nocase p t))"

lemma good_result_elem:
  assumes p: "p \<noteq> []" "pat_at p 0 \<noteq> ch_star"
    and m: "fst (match_elem nocase p c)"
    and r: "good_result nocase (snd (match_elem nocase p c)) s r"
  shows "good_result nocase p (c # s) r"
proof -
  have "\<not> glob nocase p t" if "snd r" "suffix t (c # s)" for t
  proof (cases t)
    case (Cons d t')
    with that(2) have "suffix t' s" by (auto simp: suffix_Cons dest: suffix_ConsD)
    with r that(1) have "\<not> glob nocase (snd (match_elem nocase p d)) t'"
      by (simp add: good_result_def match_elem_rest [of nocase p d c])
    then show ?thesis using p Cons by (simp add: glob_elem)
  qed (use p in \<open>simp add: glob_elem\<close>)
  then show ?thesis using p m r by (auto simp: good_result_def glob_elem)
qed

lemma impl_correct:
  "s \<noteq> [] \<Longrightarrow> \<not> skip \<Longrightarrow> nesting + stars p \<le> 1000 \<Longrightarrow>
     good_result nocase p s (stringmatchlen_impl nocase p s skip nesting)"
  and match_loop_correct:
  "s \<noteq> [] \<Longrightarrow> \<not> skip \<Longrightarrow> nesting + stars p \<le> 1000 \<Longrightarrow>
     good_result nocase p s (match_loop nocase p s skip nesting)"
  and star_loop_correct:
  "p \<noteq> [] \<Longrightarrow> pat_at p 0 \<noteq> ch_star \<Longrightarrow> \<not> skip \<Longrightarrow> nesting + 1 + stars p \<le> 1000 \<Longrightarrow>
     good_result nocase (ch_star # p) s (star_loop nocase p s skip nesting)"
proof (induction nocase p s skip nesting and nocase p s skip nesting and nocase p s skip nesting
    rule: stringmatchlen_impl_match_loop_star_loop.induct)
  case (1 nocase p s skip nesting)
  then show ?case by (simp add: stringmatchlen_impl.simps)
next
  case (2 nocase p s skip nesting)
  show ?case
  proof (cases "p = []")
    case True
    with 2(3,4) show ?thesis by (simp add: match_loop.simps good_result_def glob_Nil)
  next
    case ne: False
    show ?thesis
    proof (cases "pat_at p 0 = ch_star")
      case star: True
      obtain q where q: "skip_stars p = ch_star # q" "q = [] \<or> pat_at q 0 \<noteq> ch_star"
        "stars q < stars p" "\<And>s. glob nocase p s = glob nocase (ch_star # q) s"
        using skip_stars_star [OF star ne] by metis
      have eq: "match_loop nocase p s skip nesting
          = (if q = [] then (True, skip) else star_loop nocase q s skip nesting)"
        using ne star q(1) 2(3) by (simp add: match_loop.simps)
      show ?thesis
      proof (cases "q = []")
        case True
        with eq 2(4) q(4) show ?thesis by (auto simp: good_result_def glob_star glob_Nil)
      next
        case False
        then have "good_result nocase (ch_star # q) s (star_loop nocase q s skip nesting)"
          using 2(1) [OF _ star refl] ne 2(3,4,5) q by simp
        with eq False q(4) show ?thesis by (simp add: good_result_def)
      qed
    next
      case nostar: False
      obtain c s' where s: "s = c # s'" using 2(3) by (cases s) auto
      let ?m = "match_elem nocase p c"
      show ?thesis
      proof (cases "fst ?m \<and> s' \<noteq> []")
        case False
        with ne nostar s 2(4) show ?thesis
          by (auto simp: match_loop.simps [of nocase p] good_result_def glob_elem glob_only_stars Let_def)
      next
        case True
        have "good_result nocase (snd ?m) s' (match_loop nocase (snd ?m) s' skip nesting)"
          using 2(2) [OF _ nostar refl refl] ne s True 2(4,5) stars_match_elem [of nocase p c] by simp
        then have "good_result nocase p (c # s') (match_loop nocase (snd ?m) s' skip nesting)"
          using ne nostar True by (intro good_result_elem) auto
        moreover have "match_loop nocase p s skip nesting = match_loop nocase (snd ?m) s' skip nesting"
          using ne nostar s True by (simp add: match_loop.simps [of nocase p])
        ultimately show ?thesis using s by simp
      qed
    qed
  qed
next
  case (3 nocase p s skip nesting)
  show ?case
  proof (cases s)
    case Nil
    with 3(3,4) show ?thesis by (simp add: star_loop.simps good_result_def glob_star glob_elem)
  next
    case (Cons c s')
    let ?r = "stringmatchlen_impl nocase p s skip (nesting + 1)"
    have r: "good_result nocase p s ?r" using 3(1) Cons 3(5,6) by simp
    have rest: "good_result nocase (ch_star # p) s' (star_loop nocase p s' (snd ?r) nesting)"
      if "\<not> fst ?r" "\<not> snd ?r" using 3(2) [OF _ refl] that Cons 3(3-6) by simp
    have eq: "star_loop nocase p s skip nesting = (if fst ?r then (True, snd ?r)
        else if snd ?r then (False, snd ?r) else star_loop nocase p s' (snd ?r) nesting)"
      using Cons by (subst star_loop.simps) (simp add: Let_def)
    show ?thesis
      unfolding eq using r rest Cons
      by (auto simp: good_result_def glob_star suffix_Cons intro: suffix_order.trans)
  qed
qed

lemma stringmatchlen_glob:
  assumes "s \<noteq> []" "stars p \<le> 1000"
  shows "stringmatchlen p s nocase = glob nocase p s"
  using impl_correct [of s False 0 p nocase] assms by (simp add: stringmatchlen_def good_result_def)

lemma stringmatchlen_empty: "stringmatchlen p [] nocase \<longleftrightarrow> p = []"
  by (simp add: stringmatchlen_def stringmatchlen_impl.simps match_loop.simps)

text \<open>A pattern without special bytes matches exactly itself.\<close>

definition plain :: "byte list \<Rightarrow> bool" where
  "plain p = list_all (\<lambda>b. b \<noteq> ch_star \<and> b \<noteq> ch_question \<and> b \<noteq> ch_open \<and> b \<noteq> ch_backslash) p"

lemma match_elem_plain:
  "plain (b # p) \<Longrightarrow> match_elem False (b # p) c = (b = c, p)"
  by (simp add: plain_def match_elem_def pat_at_def char_eq_def)

lemma glob_plain: "plain p \<Longrightarrow> glob False p s \<longleftrightarrow> p = s"
proof (induction p arbitrary: s)
  case (Cons b p)
  then have "pat_at (b # p) 0 \<noteq> ch_star" "plain p" by (simp_all add: plain_def pat_at_def)
  then show ?case using Cons match_elem_plain [OF Cons.prems] by (cases s) (auto simp: glob_elem)
qed (auto simp: glob_Nil)

lemma plain_stars: "plain p \<Longrightarrow> stars p = 0"
  by (induction p) (auto simp: plain_def)

subsection \<open>Main results\<close>

text \<open>
  C4. With at most 1000 stars in the pattern, the optimised matcher, with its \<open>skipLongerMatches\<close>
  cut and its nesting limit, accepts exactly the nonempty strings of the language that the pattern
  denotes, token by token; the empty string matches only the empty pattern, not \<open>*\<close>.
\<close>

theorem stringmatchlen_equiv:
  assumes "stars p \<le> 1000"
  shows "stringmatchlen p s nocase = (if s = [] then p = [] else glob_lang nocase (parse_glob p) s)"
  using stringmatchlen_glob [OF _ assms] stringmatchlen_empty by (simp add: glob_is_lang)

theorem stringmatchlen_equiv_witness:
  "stars [ch_star, 97] \<le> 1000
   \<and> stringmatchlen [ch_star, 97] [98, 97] False
     = (if [98, 97] = ([] :: byte list) then [ch_star, 97] = ([] :: byte list)
        else glob_lang False (parse_glob [ch_star, 97]) [98, 97])"
  using stringmatchlen_equiv [of "[ch_star, 97]"] by (simp add: stars_def)

text \<open>A pattern without special bytes matches exactly the string it spells.\<close>

theorem stringmatchlen_plain:
  assumes "plain p"
  shows "stringmatchlen p s False \<longleftrightarrow> s = p"
  using stringmatchlen_glob [of s p False] stringmatchlen_empty [of p False]
    glob_plain [OF assms] plain_stars [OF assms] by (cases "s = []") auto

theorem stringmatchlen_plain_witness:
  "plain [97, 98] \<and> (stringmatchlen [97, 98] [97, 99] False \<longleftrightarrow> [97, 99] = [97, 98 :: byte])"
proof
  show p: "plain [97, 98]" by (simp add: plain_def)
  show "stringmatchlen [97, 98] [97, 99] False \<longleftrightarrow> [97, 99] = [97, 98 :: byte]"
    by (rule stringmatchlen_plain [OF p])
qed

end
