(* ===== verification/Interfaces.thy ===== *)
theory Interfaces
  imports Prelude
begin

section \<open>Interfaces: bounded sets, partial maps and lists\<close>

text \<open>
  The contracts between the containers of the program and the commands that use them.  Every
  operation of a provider can fail (\<open>None\<close>: a memory access out of bounds or a failed assertion),
  so each law also promises that it does not.  For a container the client's lemma is the same:
  any sequence of calls behaves like the same sequence on the mathematical object.
\<close>

subsection \<open>Sets with a size limit\<close>

datatype 'a set_op = SAdd 'a | SRem 'a | SMem 'a

fun run_set ::
  "('s \<Rightarrow> 'a \<Rightarrow> ('s \<times> bool) option) \<Rightarrow> ('s \<Rightarrow> 'a \<Rightarrow> ('s \<times> bool) option) \<Rightarrow> ('s \<Rightarrow> 'a \<Rightarrow> bool option)
    \<Rightarrow> 'a set_op list \<Rightarrow> 's \<Rightarrow> ('s \<times> bool list) option" where
  "run_set add rem mem [] s = Some (s, [])"
| "run_set add rem mem (oper # ops) s =
     do { (s, b) \<leftarrow> (case oper of SAdd x \<Rightarrow> add s x | SRem x \<Rightarrow> rem s x
                     | SMem x \<Rightarrow> map_option (\<lambda>b. (s, b)) (mem s x));
          (s, bs) \<leftarrow> run_set add rem mem ops s;
          Some (s, b # bs) }"

fun spec_set :: "'a set_op list \<Rightarrow> 'a set \<Rightarrow> 'a set \<times> bool list" where
  "spec_set [] S = (S, [])"
| "spec_set (SAdd x # ops) S = (let (S', bs) = spec_set ops (insert x S) in (S', (x \<notin> S) # bs))"
| "spec_set (SRem x # ops) S = (let (S', bs) = spec_set ops (S - {x}) in (S', (x \<in> S) # bs))"
| "spec_set (SMem x # ops) S = (let (S', bs) = spec_set ops S in (S', (x \<in> S) # bs))"

fun op_ok :: "('a \<Rightarrow> bool) \<Rightarrow> 'a set_op \<Rightarrow> bool" where
  "op_ok ok (SAdd x) = ok x"
| "op_ok ok (SRem x) = True"
| "op_ok ok (SMem x) = True"

locale bounded_set =
  fixes new :: 's
    and add :: "'s \<Rightarrow> 'a \<Rightarrow> ('s \<times> bool) option"
    and rem :: "'s \<Rightarrow> 'a \<Rightarrow> ('s \<times> bool) option"
    and mem :: "'s \<Rightarrow> 'a \<Rightarrow> bool option"
    and inv :: "'s \<Rightarrow> bool"
    and abs :: "'s \<Rightarrow> 'a set"
    and ok :: "'a \<Rightarrow> bool"
    and limit :: nat
  assumes inv_new: "inv new" and abs_new: "abs new = {}"
    and finite_abs: "inv s \<Longrightarrow> finite (abs s)"
    and add_law: "inv s \<Longrightarrow> ok x \<Longrightarrow> card (abs s) < limit \<Longrightarrow>
      \<exists>s'. add s x = Some (s', x \<notin> abs s) \<and> inv s' \<and> abs s' = insert x (abs s)"
    and rem_law: "inv s \<Longrightarrow>
      \<exists>s'. rem s x = Some (s', x \<in> abs s) \<and> inv s' \<and> abs s' = abs s - {x}"
    and mem_law: "inv s \<Longrightarrow> mem s x = Some (x \<in> abs s)"
begin

lemma run_refines:
  assumes "inv s" "card (abs s) + length ops \<le> limit" "list_all (op_ok ok) ops"
  shows "\<exists>s'. run_set add rem mem ops s = Some (s', snd (spec_set ops (abs s)))
    \<and> inv s' \<and> abs s' = fst (spec_set ops (abs s))"
  using assms
proof (induction ops arbitrary: s)
  case (Cons oper ops)
  show ?case
  proof (cases oper)
    case (SAdd x)
    with Cons.prems have x: "ok x" "card (abs s) < limit" by auto
    from add_law [OF Cons.prems(1) this] obtain s' where
      s': "add s x = Some (s', x \<notin> abs s)" "inv s'" "abs s' = insert x (abs s)" by blast
    have "card (abs s') \<le> Suc (card (abs s))"
      using finite_abs [OF Cons.prems(1)] by (simp add: s' card_insert_if)
    then have "card (abs s') + length ops \<le> limit" using Cons.prems(2) by simp
    from Cons.IH [OF s'(2) this] Cons.prems(3) show ?thesis
      by (auto simp: SAdd s'(1,3) split: prod.splits)
  next
    case (SRem x)
    from rem_law [OF Cons.prems(1)] obtain s' where
      s': "rem s x = Some (s', x \<in> abs s)" "inv s'" "abs s' = abs s - {x}" by blast
    have "card (abs s') \<le> card (abs s)"
      using finite_abs [OF Cons.prems(1)] by (simp add: s' card_Diff1_le)
    then have "card (abs s') + length ops \<le> limit" using Cons.prems(2) by simp
    from Cons.IH [OF s'(2) this] Cons.prems(3) show ?thesis
      by (auto simp: SRem s'(1,3) split: prod.splits)
  next
    case (SMem x)
    have "card (abs s) + length ops \<le> limit" using Cons.prems(2) by simp
    from Cons.IH [OF Cons.prems(1) this] Cons.prems(1,3) show ?thesis
      by (auto simp: SMem mem_law split: prod.splits)
  qed
qed simp

lemma run_from_new:
  assumes "length ops \<le> limit" "list_all (op_ok ok) ops"
  shows "\<exists>s'. run_set add rem mem ops new = Some (s', snd (spec_set ops {}))
    \<and> inv s' \<and> abs s' = fst (spec_set ops {})"
  using run_refines [OF inv_new, of ops] assms by (simp add: abs_new)

end

subsection \<open>Partial maps\<close>

datatype ('k, 'v) map_op = MAdd 'k 'v | MReplace 'k 'v | MDelete 'k | MFind 'k

datatype 'v map_res = MBool bool | MVal "'v option"

fun run_map ::
  "('s \<Rightarrow> 'k \<Rightarrow> 'v \<Rightarrow> ('s \<times> bool) option) \<Rightarrow> ('s \<Rightarrow> 'k \<Rightarrow> 'v \<Rightarrow> ('s \<times> bool) option)
    \<Rightarrow> ('s \<Rightarrow> 'k \<Rightarrow> ('s \<times> bool) option) \<Rightarrow> ('s \<Rightarrow> 'k \<Rightarrow> ('s \<times> 'v option) option)
    \<Rightarrow> ('k, 'v) map_op list \<Rightarrow> 's \<Rightarrow> ('s \<times> 'v map_res list) option" where
  "run_map add rep del fnd [] s = Some (s, [])"
| "run_map add rep del fnd (oper # ops) s =
     do { (s, r) \<leftarrow> (case oper of
            MAdd k v \<Rightarrow> map_option (apsnd MBool) (add s k v)
          | MReplace k v \<Rightarrow> map_option (apsnd MBool) (rep s k v)
          | MDelete k \<Rightarrow> map_option (apsnd MBool) (del s k)
          | MFind k \<Rightarrow> map_option (apsnd MVal) (fnd s k));
          (s, rs) \<leftarrow> run_map add rep del fnd ops s;
          Some (s, r # rs) }"

fun spec_map_op :: "('k, 'v) map_op \<Rightarrow> ('k \<rightharpoonup> 'v) \<Rightarrow> ('k \<rightharpoonup> 'v) \<times> 'v map_res" where
  "spec_map_op (MAdd k v) m = (if m k = None then (m(k \<mapsto> v), MBool True) else (m, MBool False))"
| "spec_map_op (MReplace k v) m = (m(k \<mapsto> v), MBool (m k = None))"
| "spec_map_op (MDelete k) m = (m(k := None), MBool (m k \<noteq> None))"
| "spec_map_op (MFind k) m = (m, MVal (m k))"

fun spec_map :: "('k, 'v) map_op list \<Rightarrow> ('k \<rightharpoonup> 'v) \<Rightarrow> ('k \<rightharpoonup> 'v) \<times> 'v map_res list" where
  "spec_map [] m = (m, [])"
| "spec_map (oper # ops) m =
     (let (m, r) = spec_map_op oper m; (m, rs) = spec_map ops m in (m, r # rs))"

locale map_store =
  fixes new :: 's
    and add :: "'s \<Rightarrow> 'k \<Rightarrow> 'v \<Rightarrow> ('s \<times> bool) option"
    and rep :: "'s \<Rightarrow> 'k \<Rightarrow> 'v \<Rightarrow> ('s \<times> bool) option"
    and del :: "'s \<Rightarrow> 'k \<Rightarrow> ('s \<times> bool) option"
    and fnd :: "'s \<Rightarrow> 'k \<Rightarrow> ('s \<times> 'v option) option"
    and inv :: "'s \<Rightarrow> bool"
    and abs :: "'s \<Rightarrow> 'k \<rightharpoonup> 'v"
  assumes inv_new: "inv new" and abs_new: "abs new = Map.empty"
    and add_law: "inv s \<Longrightarrow> \<exists>s'. add s k v = Some (s', abs s k = None)
      \<and> inv s' \<and> abs s' = (if abs s k = None then (abs s)(k \<mapsto> v) else abs s)"
    and rep_law: "inv s \<Longrightarrow> \<exists>s'. rep s k v = Some (s', abs s k = None)
      \<and> inv s' \<and> abs s' = (abs s)(k \<mapsto> v)"
    and del_law: "inv s \<Longrightarrow> \<exists>s'. del s k = Some (s', abs s k \<noteq> None)
      \<and> inv s' \<and> abs s' = (abs s)(k := None)"
    and fnd_law: "inv s \<Longrightarrow> \<exists>s'. fnd s k = Some (s', abs s k) \<and> inv s' \<and> abs s' = abs s"
begin

lemma step_refines:
  assumes "inv s"
  shows "\<exists>s'. (case oper of
            MAdd k v \<Rightarrow> map_option (apsnd MBool) (add s k v)
          | MReplace k v \<Rightarrow> map_option (apsnd MBool) (rep s k v)
          | MDelete k \<Rightarrow> map_option (apsnd MBool) (del s k)
          | MFind k \<Rightarrow> map_option (apsnd MVal) (fnd s k)) = Some (s', snd (spec_map_op oper (abs s)))
    \<and> inv s' \<and> abs s' = fst (spec_map_op oper (abs s))"
proof (cases oper)
  case (MAdd k v)
  then show ?thesis using add_law [OF assms, of k v] by auto
next
  case (MReplace k v)
  then show ?thesis using rep_law [OF assms, of k v] by auto
next
  case (MDelete k)
  then show ?thesis using del_law [OF assms, of k] by auto
next
  case (MFind k)
  then show ?thesis using fnd_law [OF assms, of k] by auto
qed

lemma run_refines:
  assumes "inv s"
  shows "\<exists>s'. run_map add rep del fnd ops s = Some (s', snd (spec_map ops (abs s)))
    \<and> inv s' \<and> abs s' = fst (spec_map ops (abs s))"
  using assms
proof (induction ops arbitrary: s)
  case (Cons oper ops)
  from step_refines [OF Cons.prems, of oper] obtain s1 where s1:
    "(case oper of
            MAdd k v \<Rightarrow> map_option (apsnd MBool) (add s k v)
          | MReplace k v \<Rightarrow> map_option (apsnd MBool) (rep s k v)
          | MDelete k \<Rightarrow> map_option (apsnd MBool) (del s k)
          | MFind k \<Rightarrow> map_option (apsnd MVal) (fnd s k)) = Some (s1, snd (spec_map_op oper (abs s)))"
    "inv s1" "abs s1 = fst (spec_map_op oper (abs s))" by blast
  from Cons.IH [OF s1(2)] s1(3) show ?case
    by (auto simp: s1(1) split: prod.splits)
qed simp

lemma run_from_new:
  "\<exists>s'. run_map add rep del fnd ops new = Some (s', snd (spec_map ops Map.empty))
    \<and> inv s' \<and> abs s' = fst (spec_map ops Map.empty)"
  using run_refines [OF inv_new, of ops] by (simp add: abs_new)

end

subsection \<open>Lists with a size limit\<close>

text \<open>
  A list is edited by index, a negative index counting from the end; an edit whose result would be
  too large (\<open>fits\<close>) is refused and leaves the list as it is.
\<close>

datatype 'a list_op = LPushHead 'a | LPushTail 'a | LInsertAt int 'a | LReplaceAt int 'a | LDelRange int nat
  | LNth int | LLen

datatype 'a list_res = LDone bool | LElem "'a option" | LNum nat

definition norm_idx :: "int \<Rightarrow> 'a list \<Rightarrow> int" where
  "norm_idx i xs = (if i < 0 then int (length xs) + i else i)"

definition idx_in :: "int \<Rightarrow> 'a list \<Rightarrow> bool" where
  "idx_in i xs \<longleftrightarrow> 0 \<le> norm_idx i xs \<and> norm_idx i xs < int (length xs)"

fun edit_list :: "'a list_op \<Rightarrow> 'a list \<Rightarrow> 'a list" where
  "edit_list (LPushHead s) xs = s # xs"
| "edit_list (LPushTail s) xs = xs @ [s]"
| "edit_list (LInsertAt i s) xs =
     (let k = nat (norm_idx i xs) in if idx_in i xs then take k xs @ s # drop k xs else xs)"
| "edit_list (LReplaceAt i s) xs = (if idx_in i xs then xs[nat (norm_idx i xs) := s] else xs)"
| "edit_list (LDelRange i n) xs =
     (let k = nat (norm_idx i xs) in if idx_in i xs then take k xs @ drop (k + n) xs else xs)"
| "edit_list (LNth i) xs = xs"
| "edit_list LLen xs = xs"

fun spec_list_op :: "('a list \<Rightarrow> bool) \<Rightarrow> 'a list_op \<Rightarrow> 'a list \<Rightarrow> 'a list \<times> 'a list_res" where
  "spec_list_op fits (LNth i) xs = (xs, LElem (if idx_in i xs then Some (xs ! nat (norm_idx i xs)) else None))"
| "spec_list_op fits LLen xs = (xs, LNum (length xs))"
| "spec_list_op fits oper xs =
     (if fits (edit_list oper xs) then (edit_list oper xs, LDone True) else (xs, LDone False))"

fun spec_list :: "('a list \<Rightarrow> bool) \<Rightarrow> 'a list_op list \<Rightarrow> 'a list \<Rightarrow> 'a list \<times> 'a list_res list" where
  "spec_list fits [] xs = (xs, [])"
| "spec_list fits (oper # ops) xs =
     (let (xs, r) = spec_list_op fits oper xs; (xs, rs) = spec_list fits ops xs in (xs, r # rs))"

fun run_list ::
  "('s \<Rightarrow> 'a list_op \<Rightarrow> ('s \<times> 'a list_res) option) \<Rightarrow> 'a list_op list \<Rightarrow> 's \<Rightarrow> ('s \<times> 'a list_res list) option" where
  "run_list app [] s = Some (s, [])"
| "run_list app (oper # ops) s =
     do { (s, r) \<leftarrow> app s oper; (s, rs) \<leftarrow> run_list app ops s; Some (s, r # rs) }"

locale packed_list =
  fixes app :: "'s \<Rightarrow> 'a list_op \<Rightarrow> ('s \<times> 'a list_res) option"
    and inv :: "'s \<Rightarrow> bool"
    and elems :: "'s \<Rightarrow> 'a list"
    and fits :: "'a list \<Rightarrow> bool"
  assumes fits_elems: "inv s \<Longrightarrow> fits (elems s)"
    and app_law: "inv s \<Longrightarrow> \<exists>s'. app s oper = Some (s', snd (spec_list_op fits oper (elems s)))
      \<and> inv s' \<and> elems s' = fst (spec_list_op fits oper (elems s))"
begin

lemma run_refines:
  assumes "inv s"
  shows "\<exists>s'. run_list app ops s = Some (s', snd (spec_list fits ops (elems s)))
    \<and> inv s' \<and> elems s' = fst (spec_list fits ops (elems s))"
  using assms
proof (induction ops arbitrary: s)
  case (Cons oper ops)
  from app_law [OF Cons.prems, of oper] obtain s1 where s1:
    "app s oper = Some (s1, snd (spec_list_op fits oper (elems s)))" "inv s1"
    "elems s1 = fst (spec_list_op fits oper (elems s))" by blast
  from Cons.IH [OF s1(2)] s1(3) show ?case by (auto simp: s1(1) split: prod.splits)
qed simp

lemma run_fits: "inv s \<Longrightarrow> fits (fst (spec_list fits ops (elems s)))"
  using run_refines [of s ops] fits_elems by metis

end

subsection \<open>Linked sequences\<close>

text \<open>
  A sequence edited at its ends and around a position.  An operation that names no position is
  refused (\<open>QFail\<close>) and leaves the sequence as it is; so does, and only then, one that allocates while the
  memory is full.
\<close>

datatype 'a seq_op = QPushHead 'a | QPushTail 'a | QInsert int 'a bool | QDel int | QNth int | QFind 'a
  | QLen | QRotateTailToHead | QRotateHeadToTail | QClear

datatype 'a seq_res = QDone | QFail | QElem "'a option" | QNum nat

fun allocates :: "'a seq_op \<Rightarrow> bool" where
  "allocates (QPushHead x) = True"
| "allocates (QPushTail x) = True"
| "allocates (QInsert i x after) = True"
| "allocates oper = False"

fun spec_seq :: "('a \<Rightarrow> 'a \<Rightarrow> bool) \<Rightarrow> 'a seq_op \<Rightarrow> 'a list \<Rightarrow> 'a list \<times> 'a seq_res" where
  "spec_seq eq (QPushHead x) xs = (x # xs, QDone)"
| "spec_seq eq (QPushTail x) xs = (xs @ [x], QDone)"
| "spec_seq eq (QInsert i x after) xs =
     (let k = nat (norm_idx i xs) + (if after then 1 else 0) in
      if idx_in i xs then (take k xs @ x # drop k xs, QDone) else (xs, QFail))"
| "spec_seq eq (QDel i) xs =
     (let k = nat (norm_idx i xs) in if idx_in i xs then (take k xs @ drop (Suc k) xs, QDone) else (xs, QFail))"
| "spec_seq eq (QNth i) xs = (xs, QElem (if idx_in i xs then Some (xs ! nat (norm_idx i xs)) else None))"
| "spec_seq eq (QFind key) xs = (xs, QElem (find (eq key) xs))"
| "spec_seq eq QLen xs = (xs, QNum (length xs))"
| "spec_seq eq QRotateTailToHead xs = (rotate (length xs - 1) xs, QDone)"
| "spec_seq eq QRotateHeadToTail xs = (rotate1 xs, QDone)"
| "spec_seq eq QClear xs = ([], QDone)"

definition spec_seq_step :: "('a \<Rightarrow> 'a \<Rightarrow> bool) \<Rightarrow> bool \<Rightarrow> 'a seq_op \<Rightarrow> 'a list \<Rightarrow> 'a list \<times> 'a seq_res" where
  "spec_seq_step eq full oper xs = (if full \<and> allocates oper then (xs, QFail) else spec_seq eq oper xs)"

fun spec_seq_run :: "('a \<Rightarrow> 'a \<Rightarrow> bool) \<Rightarrow> ('a seq_op \<times> bool) list \<Rightarrow> 'a list \<Rightarrow> 'a list \<times> 'a seq_res list" where
  "spec_seq_run eq [] xs = (xs, [])"
| "spec_seq_run eq ((oper, full) # ops) xs =
     (let (ys, r) = spec_seq_step eq full oper xs; (zs, rs) = spec_seq_run eq ops ys in (zs, r # rs))"

fun run_seq ::
  "('s \<Rightarrow> 'a seq_op \<Rightarrow> ('s \<times> 'a seq_res) option) \<Rightarrow> 'a seq_op list \<Rightarrow> 's \<Rightarrow> ('s \<times> 'a seq_res list) option" where
  "run_seq app [] s = Some (s, [])"
| "run_seq app (oper # ops) s =
     do { (s, r) \<leftarrow> app s oper; (s, rs) \<leftarrow> run_seq app ops s; Some (s, r # rs) }"

text \<open>Whether the memory is full before each of the operations.\<close>

fun full_steps ::
  "('s \<Rightarrow> 'a seq_op \<Rightarrow> ('s \<times> 'a seq_res) option) \<Rightarrow> ('s \<Rightarrow> bool) \<Rightarrow> 'a seq_op list \<Rightarrow> 's \<Rightarrow> bool list" where
  "full_steps app full [] s = []"
| "full_steps app full (oper # ops) s =
     full s # (case app s oper of None \<Rightarrow> [] | Some (s', r) \<Rightarrow> full_steps app full ops s')"

locale linked_seq =
  fixes app :: "'s \<Rightarrow> 'a seq_op \<Rightarrow> ('s \<times> 'a seq_res) option"
    and rep :: "'s \<Rightarrow> 'a list \<Rightarrow> bool"
    and eq :: "'a \<Rightarrow> 'a \<Rightarrow> bool"
    and valid :: "'a seq_op \<Rightarrow> bool"
    and full :: "'s \<Rightarrow> bool"
  assumes app_law: "rep s xs \<Longrightarrow> valid oper \<Longrightarrow>
    \<exists>s'. app s oper = Some (s', snd (spec_seq_step eq (full s) oper xs))
      \<and> rep s' (fst (spec_seq_step eq (full s) oper xs))"
begin

lemma run_refines:
  assumes "rep s xs" "list_all valid ops"
  shows "\<exists>s'. run_seq app ops s = Some (s', snd (spec_seq_run eq (zip ops (full_steps app full ops s)) xs))
    \<and> rep s' (fst (spec_seq_run eq (zip ops (full_steps app full ops s)) xs))"
  using assms
proof (induction ops arbitrary: s xs)
  case (Cons oper ops)
  from app_law [OF Cons.prems(1), of oper] Cons.prems(2) obtain s1 where
    s1: "app s oper = Some (s1, snd (spec_seq_step eq (full s) oper xs))"
      "rep s1 (fst (spec_seq_step eq (full s) oper xs))" by auto
  from Cons.IH [OF s1(2)] Cons.prems(2) show ?case
    by (auto simp: s1(1) split: prod.splits)
qed simp

end

subsection \<open>Iteration with a cursor\<close>

text \<open>
  The calls of one iteration: each is made on the store as it is then, with the cursor of the call
  before, until the cursor is back at its start value.
\<close>

fun cursor_calls :: "('s \<Rightarrow> 'c \<Rightarrow> ('c \<times> 'x list) option) \<Rightarrow> 'c \<Rightarrow> 's list \<Rightarrow> 'c \<Rightarrow> ('c \<times> 'x list) option" where
  "cursor_calls call start [] c = Some (c, [])"
| "cursor_calls call start (s # ss) c =
     do { (c, es) \<leftarrow> call s c;
          if c = start then Some (start, es)
          else do { (w, es') \<leftarrow> cursor_calls call start ss c; Some (w, es @ es') } }"

text \<open>
  A cursor is a place on a line, and so is every key (\<open>home\<close>), independently of the state of the
  store.  A call moves the cursor forward by at least \<open>block\<close> or ends the iteration, and returns
  every entry of the store whose key lies between the old place and the new one.
\<close>

locale cursor_scan =
  fixes call :: "'s \<Rightarrow> 'c \<Rightarrow> ('c \<times> 'x list) option"
    and start :: 'c
    and ok :: "'s \<Rightarrow> bool"
    and has :: "'s \<Rightarrow> 'x set"
    and key :: "'x \<Rightarrow> 'k"
    and home :: "'k \<Rightarrow> nat"
    and place :: "'c \<Rightarrow> nat"
    and good :: "'c \<Rightarrow> bool"
    and block :: nat
    and blocks :: nat
  assumes start_law: "good start" "place start = 0"
    and place_law: "good c \<Longrightarrow> place c < blocks * block"
    and call_law: "ok s \<Longrightarrow> good c \<Longrightarrow> \<exists>c' es. call s c = Some (c', es) \<and> good c' \<and> set es \<subseteq> has s
      \<and> (c' = start \<or> place c + block \<le> place c')
      \<and> (\<forall>x \<in> has s. place c \<le> home (key x) \<and> (c' = start \<or> home (key x) < place c') \<longrightarrow> x \<in> set es)"
begin

lemma calls_from:
  assumes "\<forall>s \<in> set ss. ok s" "good c" "blocks * block \<le> place c + length ss * block"
  shows "\<exists>es. cursor_calls call start ss c = Some (start, es) \<and> set es \<subseteq> (\<Union>s \<in> set ss. has s)
    \<and> (\<forall>k. (\<forall>s \<in> set ss. k \<in> key ` has s) \<and> place c \<le> home k \<longrightarrow> k \<in> key ` set es)"
  using assms
proof (induction ss arbitrary: c)
  case Nil
  with place_law [of c] show ?case by simp
next
  case (Cons s ss)
  from call_law [of s c] Cons.prems(1,2) obtain c' es where
    s: "call s c = Some (c', es)" "good c'" "set es \<subseteq> has s" "c' = start \<or> place c + block \<le> place c'"
      "\<forall>x \<in> has s. place c \<le> home (key x) \<and> (c' = start \<or> home (key x) < place c') \<longrightarrow> x \<in> set es" by auto
  show ?case
  proof (cases "c' = start")
    case True
    with s show ?thesis by auto
  next
    case False
    with s(4) Cons.prems(3) have "blocks * block \<le> place c' + length ss * block" by simp
    from Cons.IH [OF _ s(2) this] Cons.prems(1) obtain es' where
      es': "cursor_calls call start ss c' = Some (start, es')" "set es' \<subseteq> (\<Union>s \<in> set ss. has s)"
        "\<forall>k. (\<forall>s \<in> set ss. k \<in> key ` has s) \<and> place c' \<le> home k \<longrightarrow> k \<in> key ` set es'" by auto
    have "k \<in> key ` set (es @ es')" if k: "\<forall>s \<in> set (s # ss). k \<in> key ` has s" "place c \<le> home k" for k
    proof (cases "home k < place c'")
      case True
      from k(1) obtain x where "x \<in> has s" "k = key x" by auto
      with s(5) True k(2) show ?thesis by auto
    next
      case False
      then have "k \<in> key ` set es'" using es'(3) k(1) by simp
      then show ?thesis by (simp add: image_Un)
    qed
    moreover have "cursor_calls call start (s # ss) c = Some (start, es @ es')" using s(1) False es'(1) by simp
    ultimately show ?thesis using s(3) es'(2) by auto
  qed
qed

lemma iteration:
  assumes "\<forall>s \<in> set ss. ok s" "blocks \<le> length ss"
  shows "\<exists>es. cursor_calls call start ss start = Some (start, es) \<and> set es \<subseteq> (\<Union>s \<in> set ss. has s)
    \<and> (\<forall>k. (\<forall>s \<in> set ss. k \<in> key ` has s) \<longrightarrow> k \<in> key ` set es)"
  using calls_from [OF assms(1) start_law(1)] assms(2) start_law(2) by simp

end

subsection \<open>Commands on a store of bounded size\<close>

text \<open>
  Sequences of commands on a concrete and on an abstract state, with their replies, and the
  condition that every command is allowed in the abstract state it meets.
\<close>

fun run_ops :: "('op \<Rightarrow> 's \<Rightarrow> ('s \<times> 'r) option) \<Rightarrow> 'op list \<Rightarrow> 's \<Rightarrow> ('s \<times> 'r list) option" where
  "run_ops app [] s = Some (s, [])"
| "run_ops app (oper # ops) s =
     do { (s, r) \<leftarrow> app oper s; (s, rs) \<leftarrow> run_ops app ops s; Some (s, r # rs) }"

fun run_spec :: "('op \<Rightarrow> 'm \<Rightarrow> 'm \<times> 'r) \<Rightarrow> 'op list \<Rightarrow> 'm \<Rightarrow> 'm \<times> 'r list" where
  "run_spec spec [] m = (m, [])"
| "run_spec spec (oper # ops) m =
     (let (m, r) = spec oper m; (m, rs) = run_spec spec ops m in (m, r # rs))"

fun run_valid :: "('op \<Rightarrow> 'm \<Rightarrow> bool) \<Rightarrow> ('op \<Rightarrow> 'm \<Rightarrow> 'm \<times> 'r) \<Rightarrow> 'op list \<Rightarrow> 'm \<Rightarrow> bool" where
  "run_valid valid spec [] m = True"
| "run_valid valid spec (oper # ops) m = (valid oper m \<and> run_valid valid spec ops (fst (spec oper m)))"

text \<open>
  A command does what it promises as long as the store is below its capacity, and adds at most one
  element.
\<close>

locale bounded_refinement =
  fixes app :: "'op \<Rightarrow> 's \<Rightarrow> ('s \<times> 'r) option"
    and rep :: "'s \<Rightarrow> 'm \<Rightarrow> bool"
    and spec :: "'op \<Rightarrow> 'm \<Rightarrow> 'm \<times> 'r"
    and valid :: "'op \<Rightarrow> 'm \<Rightarrow> bool"
    and count :: "'m \<Rightarrow> nat"
    and cap :: nat
  assumes step_law: "rep s m \<Longrightarrow> valid oper m \<Longrightarrow> count m < cap
      \<Longrightarrow> \<exists>s'. app oper s = Some (s', snd (spec oper m)) \<and> rep s' (fst (spec oper m))"
    and count_law: "rep s m \<Longrightarrow> count (fst (spec oper m)) \<le> Suc (count m)"
begin

lemma run_refines:
  assumes "rep s m" "run_valid valid spec ops m" "count m + length ops \<le> cap"
  shows "\<exists>s'. run_ops app ops s = Some (s', snd (run_spec spec ops m)) \<and> rep s' (fst (run_spec spec ops m))"
  using assms
proof (induction ops arbitrary: s m)
  case Nil
  then show ?case by simp
next
  case (Cons oper ops)
  from step_law [OF Cons.prems(1), of oper] Cons.prems(2,3) obtain s1 where
    s1: "app oper s = Some (s1, snd (spec oper m))" "rep s1 (fst (spec oper m))" by auto
  from Cons.IH [OF s1(2)] Cons.prems(2,3) count_law [OF Cons.prems(1), of oper] obtain s2 where
    "run_ops app ops s1 = Some (s2, snd (run_spec spec ops (fst (spec oper m))))"
    "rep s2 (fst (run_spec spec ops (fst (spec oper m))))" by auto
  with s1(1) show ?case by (simp add: case_prod_unfold Let_def)
qed

end

end
