(* ===== verification/Intset.thy ===== *)
theory Intset
  imports Prelude Interfaces
begin

section \<open>Integer sets (intset.c)\<close>

text \<open>
  The sorted array of integers that backs small sets.  The model is at the level of bytes:
  \<open>is_contents\<close> is the flexible array member \<^verbatim>\<open>contents\<close>, elements are read and written at the
  width given by \<open>is_encoding\<close>, and every access is checked.  A function of the source whose name
  starts with an underscore is written with a prime here (\<^verbatim>\<open>_intsetGet\<close> is \<open>intsetGet'\<close>).
  Element values are mathematical integers, the stored bytes carry the wrap-around.
\<close>

record intset =
  is_encoding :: "32 word"
  is_length :: "32 word"
  is_contents :: "byte list"

definition INTSET_ENC_INT16 :: "32 word" where "INTSET_ENC_INT16 = 2"
definition INTSET_ENC_INT32 :: "32 word" where "INTSET_ENC_INT32 = 4"
definition INTSET_ENC_INT64 :: "32 word" where "INTSET_ENC_INT64 = 8"

lemmas enc_defs = INTSET_ENC_INT16_def INTSET_ENC_INT32_def INTSET_ENC_INT64_def

definition intsetValueEncoding :: "int \<Rightarrow> 32 word" where
  "intsetValueEncoding v =
     (if v < - (2 ^ 31) \<or> v > 2 ^ 31 - 1 then INTSET_ENC_INT64
      else if v < - (2 ^ 15) \<or> v > 2 ^ 15 - 1 then INTSET_ENC_INT32
      else INTSET_ENC_INT16)"

text \<open>The access width that the three-way branch on an encoding selects.\<close>

definition enc_width :: "32 word \<Rightarrow> nat" where
  "enc_width enc = (if enc = INTSET_ENC_INT64 then 8 else if enc = INTSET_ENC_INT32 then 4 else 2)"

definition intsetGetEncoded :: "intset \<Rightarrow> int \<Rightarrow> 32 word \<Rightarrow> int option" where
  "intsetGetEncoded is pos enc =
     (let w = enc_width enc in
      if pos < 0 then None
      else map_option le_int (mem_read (is_contents is) (nat pos * w) w))"

definition intsetGet' :: "intset \<Rightarrow> int \<Rightarrow> int option" where
  "intsetGet' is pos = intsetGetEncoded is pos (is_encoding is)"

definition intsetSet' :: "intset \<Rightarrow> int \<Rightarrow> int \<Rightarrow> intset option" where
  "intsetSet' is pos value =
     (let w = enc_width (is_encoding is) in
      if pos < 0 then None
      else do { c \<leftarrow> mem_write (is_contents is) (nat pos * w) (le_bytes w value);
                Some (is\<lparr>is_contents := c\<rparr>) })"

definition intsetNew :: intset where
  "intsetNew = \<lparr>is_encoding = INTSET_ENC_INT16, is_length = 0, is_contents = []\<rparr>"

text \<open>\<open>fill\<close> is the content of the bytes that \<^verbatim>\<open>zrealloc\<close> adds.\<close>

definition intsetResize :: "(nat \<Rightarrow> byte) \<Rightarrow> intset \<Rightarrow> 32 word \<Rightarrow> intset" where
  "intsetResize fill is len =
     is\<lparr>is_contents := mem_realloc fill (is_contents is) (unat len * unat (is_encoding is))\<rparr>"

text \<open>
  The binary search.  \<open>lo\<close> and \<open>hi\<close> (\<^verbatim>\<open>min\<close> and \<^verbatim>\<open>max\<close> in the source) are C ints that are not negative inside the loop, so their
  sum as \<^verbatim>\<open>unsigned int\<close> does not wrap.
\<close>

function intsetSearch_loop :: "intset \<Rightarrow> int \<Rightarrow> int \<Rightarrow> int \<Rightarrow> int \<Rightarrow> int \<Rightarrow> (int \<times> int \<times> int) option" where
  "intsetSearch_loop is value lo hi mid cur =
     (if hi \<ge> lo then
        do { let mid = (lo + hi) div 2;
             cur \<leftarrow> intsetGet' is mid;
             if value > cur then intsetSearch_loop is value (mid + 1) hi mid cur
             else if value < cur then intsetSearch_loop is value lo (mid - 1) mid cur
             else Some (lo, mid, cur) }
      else Some (lo, mid, cur))"
  by pat_completeness auto
termination
  by (relation "measure (\<lambda>(is, value, lo, hi, mid, cur). nat (hi + 1 - lo))") auto

declare intsetSearch_loop.simps [simp del]

text \<open>The result is the returned flag and \<open>*pos\<close>.\<close>

definition intsetSearch :: "intset \<Rightarrow> int \<Rightarrow> (bool \<times> 32 word) option" where
  "intsetSearch is value =
     (let hi = sint (is_length is - 1) in
      if is_length is = 0 then Some (False, 0)
      else do {
        last \<leftarrow> intsetGet' is hi;
        if value > last then Some (False, is_length is)
        else do {
          first \<leftarrow> intsetGet' is 0;
          if value < first then Some (False, 0)
          else do {
            (lo, mid, cur) \<leftarrow> intsetSearch_loop is value 0 hi (-1) (-1);
            if value = cur then Some (True, word_of_int mid) else Some (False, word_of_int lo) } } })"

text \<open>
  The copy loop of the upgrade, from the last element to the first.  The loop counter is a C
  int: a length that is negative as an int has no defined behaviour.
\<close>

fun intsetUpgrade_loop :: "intset \<Rightarrow> 32 word \<Rightarrow> int \<Rightarrow> nat \<Rightarrow> intset option" where
  "intsetUpgrade_loop is curenc prepend 0 = Some is"
| "intsetUpgrade_loop is curenc prepend (Suc n) =
     do { v \<leftarrow> intsetGetEncoded is (int n) curenc;
          is \<leftarrow> intsetSet' is (int n + prepend) v;
          intsetUpgrade_loop is curenc prepend n }"

definition intsetUpgradeAndAdd :: "(nat \<Rightarrow> byte) \<Rightarrow> intset \<Rightarrow> int \<Rightarrow> intset option" where
  "intsetUpgradeAndAdd fill is value =
     (let curenc = is_encoding is;
          newenc = intsetValueEncoding value;
          prepend = (if value < 0 then 1 else 0);
          is = is\<lparr>is_encoding := newenc\<rparr>;
          is = intsetResize fill is (is_length is + 1)
      in do {
        is \<leftarrow> (if sint (is_length is) < 0 then None
              else intsetUpgrade_loop is curenc prepend (nat (sint (is_length is))));
        is \<leftarrow> (if prepend = 1 then intsetSet' is 0 value
              else intsetSet' is (sint (is_length is)) value);
        Some (is\<lparr>is_length := is_length is + 1\<rparr>) })"

text \<open>The byte count of the move is a \<^verbatim>\<open>uint32_t\<close>: it wraps.\<close>

definition intsetMoveTail :: "intset \<Rightarrow> 32 word \<Rightarrow> 32 word \<Rightarrow> intset option" where
  "intsetMoveTail is from to =
     (let w = enc_width (is_encoding is);
          bytes = (is_length is - from) * of_nat w
      in do { c \<leftarrow> mem_move (is_contents is) (unat to * w) (unat from * w) (unat bytes);
              Some (is\<lparr>is_contents := c\<rparr>) })"

definition intsetAdd :: "(nat \<Rightarrow> byte) \<Rightarrow> intset \<Rightarrow> int \<Rightarrow> (intset \<times> bool) option" where
  "intsetAdd fill is value =
     (let valenc = intsetValueEncoding value in
      if valenc > is_encoding is then
        do { is \<leftarrow> intsetUpgradeAndAdd fill is value; Some (is, True) }
      else do {
        (found, pos) \<leftarrow> intsetSearch is value;
        if found then Some (is, False)
        else do {
          let is = intsetResize fill is (is_length is + 1);
          is \<leftarrow> (if pos < is_length is then intsetMoveTail is pos (pos + 1) else Some is);
          is \<leftarrow> intsetSet' is (sint pos) value;
          Some (is\<lparr>is_length := is_length is + 1\<rparr>, True) } })"

definition intsetRemove :: "(nat \<Rightarrow> byte) \<Rightarrow> intset \<Rightarrow> int \<Rightarrow> (intset \<times> bool) option" where
  "intsetRemove fill is value =
     (let valenc = intsetValueEncoding value in
      if valenc \<le> is_encoding is then
        do { (found, pos) \<leftarrow> intsetSearch is value;
             if found then
               do { let len = is_length is;
                    is \<leftarrow> (if pos < len - 1 then intsetMoveTail is (pos + 1) pos else Some is);
                    let is = intsetResize fill is (len - 1);
                    Some (is\<lparr>is_length := len - 1\<rparr>, True) }
             else Some (is, False) }
      else Some (is, False))"

definition intsetFind :: "intset \<Rightarrow> int \<Rightarrow> bool option" where
  "intsetFind is value =
     (if intsetValueEncoding value \<le> is_encoding is then map_option fst (intsetSearch is value)
      else Some False)"

text \<open>\<open>rand\<close> is the value of the C library's \<^verbatim>\<open>rand()\<close>; an empty set fails the assertion.\<close>

definition intsetRandom :: "nat \<Rightarrow> intset \<Rightarrow> int option" where
  "intsetRandom rand is =
     (if is_length is = 0 then None else intsetGet' is (int (rand mod unat (is_length is))))"

definition intsetMax :: "intset \<Rightarrow> int option" where
  "intsetMax is = intsetGet' is (sint (is_length is - 1))"

definition intsetMin :: "intset \<Rightarrow> int option" where
  "intsetMin is = intsetGet' is 0"

definition intsetGet :: "intset \<Rightarrow> 32 word \<Rightarrow> int option option" where
  "intsetGet is pos =
     (if pos < is_length is then map_option Some (intsetGet' is (sint pos)) else Some None)"

definition intsetLen :: "intset \<Rightarrow> 32 word" where
  "intsetLen is = is_length is"

definition intsetBlobLen :: "intset \<Rightarrow> nat" where
  "intsetBlobLen is = 8 + unat (is_length is) * unat (is_encoding is)"

text \<open>
  The validation of a blob of \<open>size\<close> bytes: the header is its first eight bytes, the contents
  the rest.
\<close>

fun intsetValidate_loop :: "intset \<Rightarrow> int \<Rightarrow> nat \<Rightarrow> nat \<Rightarrow> bool option" where
  "intsetValidate_loop is prev i 0 = Some True"
| "intsetValidate_loop is prev i (Suc n) =
     do { cur \<leftarrow> intsetGet' is (int i);
          if cur \<le> prev then Some False else intsetValidate_loop is cur (Suc i) n }"

definition blob_intset :: "byte list \<Rightarrow> intset" where
  "blob_intset p = \<lparr>is_encoding = of_nat (le_nat (take 4 p)),
     is_length = of_nat (le_nat (take 4 (drop 4 p))), is_contents = drop 8 p\<rparr>"

definition intsetValidateIntegrity :: "byte list \<Rightarrow> bool \<Rightarrow> bool option" where
  "intsetValidateIntegrity p deep =
     (let is = blob_intset p; size = length p in
      if size < 8 then Some False
      else if is_encoding is \<noteq> INTSET_ENC_INT64 \<and> is_encoding is \<noteq> INTSET_ENC_INT32
           \<and> is_encoding is \<noteq> INTSET_ENC_INT16 then Some False
      else
        (let record_size = unat (is_encoding is); count = unat (is_length is) in
         if 8 + count * record_size \<noteq> size then Some False
         else if count = 0 then Some False
         else if \<not> deep then Some True
         else do { prev \<leftarrow> intsetGet' is 0; intsetValidate_loop is prev 1 (count - 1) }))"

subsection \<open>Representation: the bytes of a sorted array\<close>

definition enc_ok :: "32 word \<Rightarrow> bool" where
  "enc_ok enc \<longleftrightarrow> enc = INTSET_ENC_INT16 \<or> enc = INTSET_ENC_INT32 \<or> enc = INTSET_ENC_INT64"

definition elems :: "intset \<Rightarrow> int list" where
  "elems is = (let w = enc_width (is_encoding is) in
     map (\<lambda>i. le_int (take w (drop (i * w) (is_contents is)))) [0..<unat (is_length is)])"

text \<open>
  The invariant: a legal encoding, as many bytes as the header announces, fewer than \<open>2 ^ 32\<close> of
  them (the source computes byte counts in 32 bits), at most \<open>2 ^ 31\<close> elements (positions are C
  ints), and strictly increasing elements.
\<close>

definition intset_wf :: "intset \<Rightarrow> bool" where
  "intset_wf is \<longleftrightarrow> enc_ok (is_encoding is)
     \<and> length (is_contents is) = unat (is_length is) * enc_width (is_encoding is)
     \<and> unat (is_length is) * enc_width (is_encoding is) < 2 ^ 32
     \<and> sorted_wrt (<) (elems is)"

text \<open>The same as a relation with the list of values, in the form the proofs use.\<close>

definition rep :: "intset \<Rightarrow> int list \<Rightarrow> bool" where
  "rep is vs \<longleftrightarrow> enc_ok (is_encoding is)
     \<and> is_contents is = concat (map (le_bytes (enc_width (is_encoding is))) vs)
     \<and> list_all (int_range (enc_width (is_encoding is))) vs
     \<and> unat (is_length is) = length vs
     \<and> length vs * enc_width (is_encoding is) < 2 ^ 32"

lemma enc_width_cases: "enc_width enc = 2 \<or> enc_width enc = 4 \<or> enc_width enc = 8"
  by (simp add: enc_width_def)

lemma enc_width_pos [simp]: "0 < enc_width enc" "2 \<le> enc_width enc" "enc_width enc \<le> 8"
  using enc_width_cases [of enc] by auto

lemma unat_enc: "enc_ok enc \<Longrightarrow> unat enc = enc_width enc"
  by (auto simp: enc_ok_def enc_width_def enc_defs)

lemma enc_width_Suc: obtains k where "enc_width enc = Suc k"
  using enc_width_pos(1) [of enc] by (cases "enc_width enc") auto

lemma enc_codec:
  "fixed_codec (le_bytes (enc_width enc)) le_int (enc_width enc) (int_range (enc_width enc))"
proof -
  obtain k where "enc_width enc = Suc k" by (rule enc_width_Suc)
  then show ?thesis using le_codec.fixed_codec_axioms by simp
qed

lemmas array_read = fixed_codec.read_array [OF enc_codec]
lemmas array_write = fixed_codec.write_array [OF enc_codec]
lemmas array_move = fixed_codec.move_array [OF enc_codec]
lemmas array_take = fixed_codec.take_array [OF enc_codec]
lemmas array_drop = fixed_codec.drop_array [OF enc_codec]
lemmas array_length = fixed_codec.length_array [OF enc_codec]

lemma elems_array:
  assumes "is_contents is = concat (map (le_bytes (enc_width (is_encoding is))) vs) @ rest"
    "list_all (int_range (enc_width (is_encoding is))) vs" "length vs = unat (is_length is)"
  shows "elems is = vs"
proof (rule nth_equalityI)
  show "length (elems is) = length vs" using assms by (simp add: elems_def Let_def)
  fix i assume "i < length (elems is)"
  then have i: "i < length vs" using assms by (simp add: elems_def Let_def)
  then have "map_option le_int (mem_read (is_contents is) (i * enc_width (is_encoding is))
      (enc_width (is_encoding is))) = Some (vs ! i)"
    unfolding assms(1) using assms(2) by (rule array_read)
  then show "elems is ! i = vs ! i"
    using i assms(3) by (auto simp: elems_def Let_def mem_read_def split: if_splits)
qed

lemma rep_elems: "rep is vs \<Longrightarrow> elems is = vs"
  by (rule elems_array [where rest = "[]"]) (auto simp: rep_def)

lemma rep_wf: "rep is vs \<Longrightarrow> sorted_wrt (<) vs \<Longrightarrow> intset_wf is"
  using array_length [of "is_encoding is" vs] by (auto simp: intset_wf_def rep_elems) (simp_all add: rep_def)

lemma wf_rep: assumes "intset_wf is" shows "rep is (elems is)"
proof -
  have "length (is_contents is) = unat (is_length is) * enc_width (is_encoding is)"
    using assms by (simp add: intset_wf_def)
  from fixed_codec.array_cases [OF enc_codec this] obtain vs where
    vs: "is_contents is = concat (map (le_bytes (enc_width (is_encoding is))) vs)"
    "length vs = unat (is_length is)" "list_all (int_range (enc_width (is_encoding is))) vs" by metis
  then have "rep is vs" using assms by (auto simp: rep_def intset_wf_def)
  then show ?thesis using rep_elems by metis
qed

lemma wf_sorted: "intset_wf is \<Longrightarrow> sorted_wrt (<) (elems is)"
  by (simp add: intset_wf_def)

lemma rep_len: "rep is vs \<Longrightarrow> unat (is_length is) = length vs"
  by (simp add: rep_def)

lemma rep_bytes: "rep is vs \<Longrightarrow> length vs * enc_width (is_encoding is) < 2 ^ 32"
  by (simp only: rep_def)

lemma rep_length31: assumes "rep is vs" shows "length vs < 2 ^ 31"
proof -
  have "length vs * 2 \<le> length vs * enc_width (is_encoding is)" by (intro mult_le_mono2) simp
  also have "\<dots> < 2 ^ 32" using assms by (rule rep_bytes)
  finally show ?thesis by simp
qed

lemma sint_small: assumes "unat (x :: 32 word) < 2 ^ 31" shows "sint x = int (unat x)"
proof -
  have u: "uint x = int (unat x)" by simp
  moreover have "unat x < 2147483648" using assms by simp
  ultimately have "uint x < 2147483648" by linarith
  then have "uint x < 2 ^ 31" by simp
  moreover have "0 \<le> uint x" by simp
  ultimately have "signed_take_bit 31 (uint x) = uint x"
    by (intro signed_take_bit_int_eq_self) (rule order_trans [of _ 0], simp_all)
  with u show ?thesis by (simp add: sint_uint)
qed

lemma sint_small': "unat (x :: 32 word) = n \<Longrightarrow> n < 2 ^ 31 \<Longrightarrow> sint x = int n"
  using sint_small by blast

lemma rep_sint: "rep is vs \<Longrightarrow> sint (is_length is) = int (length vs)"
  by (rule sint_small') (auto intro: rep_len dest: rep_length31)

lemma rep_sint_pred:
  assumes "rep is vs" "vs \<noteq> []"
  shows "sint (is_length is - 1) = int (length vs) - 1"
proof -
  have "is_length is \<noteq> 0" using rep_len [OF assms(1)] assms(2) by auto
  then have "unat (is_length is - 1) = length vs - 1"
    using rep_len [OF assms(1)] by (simp add: unat_minus_one)
  then have "sint (is_length is - 1) = int (length vs - 1)"
    by (rule sint_small') (use rep_length31 [OF assms(1)] in linarith)
  with assms(2) show ?thesis by (cases vs) auto
qed

lemma get_rep:
  assumes "rep is vs" "0 \<le> i" "i < int (length vs)"
  shows "intsetGet' is i = Some (vs ! nat i)"
proof -
  have "nat i < length vs" using assms by linarith
  from array_read [OF this, of "is_encoding is" "[]"] assms show ?thesis
    by (simp add: rep_def intsetGet'_def intsetGetEncoded_def Let_def)
qed

lemma get_rep_nat: "rep is vs \<Longrightarrow> i < length vs \<Longrightarrow> intsetGet' is (int i) = Some (vs ! i)"
  using get_rep [of "is" vs "int i"] by simp

subsection \<open>Search\<close>

definition ins_pos :: "int \<Rightarrow> int list \<Rightarrow> nat \<Rightarrow> bool" where
  "ins_pos v vs pos \<longleftrightarrow> pos \<le> length vs \<and> (\<forall>i < pos. vs ! i < v) \<and> (\<forall>i < length vs. pos \<le> i \<longrightarrow> v < vs ! i)"

definition search_result :: "int \<Rightarrow> int list \<Rightarrow> int \<times> int \<times> int \<Rightarrow> bool" where
  "search_result v vs r = (case r of (lo, mid, cur) \<Rightarrow>
     if v = cur then 0 \<le> mid \<and> mid < int (length vs) \<and> vs ! nat mid = v
     else 0 \<le> lo \<and> ins_pos v vs (nat lo))"

lemma intsetSearch_loop_correct:
  assumes "rep is vs" "sorted_wrt (<) vs" "0 \<le> lo" "lo \<le> hi + 1" "hi < int (length vs)"
    "\<forall>i < nat lo. vs ! i < v" "\<forall>i < length vs. hi < int i \<longrightarrow> v < vs ! i"
    "lo \<le> hi \<or> v \<noteq> cur"
  shows "\<exists>r. intsetSearch_loop is v lo hi mid cur = Some r \<and> search_result v vs r"
  using assms
proof (induction "is" v lo hi mid cur rule: intsetSearch_loop.induct)
  case (1 "is" v lo hi mid cur)
  note assms = "1.prems"(1,2)
  let ?m = "(lo + hi) div 2"
  show ?case
  proof (cases "lo \<le> hi")
    case False
    then have "lo = hi + 1" "v \<noteq> cur" using "1.prems" by auto
    then have "search_result v vs (lo, mid, cur)"
      using "1.prems" by (auto simp: search_result_def ins_pos_def)
    with False show ?thesis by (simp add: intsetSearch_loop.simps)
  next
    case True
    then have m: "lo \<le> ?m" "?m \<le> hi" by auto
    then have mn: "0 \<le> ?m" "?m < int (length vs)" "nat ?m < length vs" using "1.prems" by linarith+
    have get: "intsetGet' is ?m = Some (vs ! nat ?m)" using get_rep [OF assms(1) mn(1,2)] .
    have unf: "intsetSearch_loop is v lo hi mid cur =
        (if v > vs ! nat ?m then intsetSearch_loop is v (?m + 1) hi ?m (vs ! nat ?m)
         else if v < vs ! nat ?m then intsetSearch_loop is v lo (?m - 1) ?m (vs ! nat ?m)
         else Some (lo, ?m, vs ! nat ?m))"
      using True get by (subst intsetSearch_loop.simps) (simp add: Let_def)
    consider "v > vs ! nat ?m" | "v < vs ! nat ?m" | "v = vs ! nat ?m" by linarith
    then show ?thesis
    proof cases
      case gt: 1
      have "\<forall>i < nat (?m + 1). vs ! i < v"
      proof (intro allI impI)
        fix i assume "i < nat (?m + 1)"
        then have "i \<le> nat ?m" using mn by linarith
        then show "vs ! i < v" using assms(2) gt mn(3)
          by (cases "i = nat ?m") (auto dest: sorted_wrt_nth_less [of "(<)" vs i "nat ?m"])
      qed
      then show ?thesis using "1.IH"(1) [OF True refl get gt] gt "1.prems" m mn unf by auto
    next
      case lt: 2
      have "\<forall>i < length vs. ?m - 1 < int i \<longrightarrow> v < vs ! i"
      proof (intro allI impI)
        fix i assume i: "i < length vs" "?m - 1 < int i"
        then have "nat ?m \<le> i" using mn by linarith
        then show "v < vs ! i" using assms(2) lt i(1)
          by (cases "i = nat ?m") (auto dest: sorted_wrt_nth_less [of "(<)" vs "nat ?m" i])
      qed
      then show ?thesis using "1.IH"(2) [OF True refl get _ lt] lt "1.prems" m mn unf by auto
    next
      case 3
      then show ?thesis using unf mn by (simp add: search_result_def)
    qed
  qed
qed

lemma unat_of_nat32 [simp]: "n < 2 ^ 32 \<Longrightarrow> unat (of_nat n :: 32 word) = n"
  by (simp add: unat_of_nat take_bit_eq_mod)

lemma sint_of_nat32: "n < 2 ^ 31 \<Longrightarrow> sint (of_nat n :: 32 word) = int n"
  by (rule sint_small') simp_all

lemma sorted_nth_mono:
  "sorted_wrt (<) (vs :: int list) \<Longrightarrow> i \<le> j \<Longrightarrow> j < length vs \<Longrightarrow> vs ! i \<le> vs ! j"
  by (cases "i = j") (auto dest: sorted_wrt_nth_less [of "(<)" vs i j])

lemma ins_pos_notin: "ins_pos v vs pos \<Longrightarrow> v \<notin> set vs"
  by (auto simp: ins_pos_def in_set_conv_nth) (metis less_irrefl not_le)

definition found_at :: "int \<Rightarrow> int list \<Rightarrow> nat \<Rightarrow> bool" where
  "found_at v vs pos \<longleftrightarrow> pos < length vs \<and> vs ! pos = v"

lemma intsetSearch_rep:
  assumes r: "rep is vs" and s: "sorted_wrt (<) vs"
  shows "\<exists>pos. intsetSearch is v = Some (v \<in> set vs, of_nat pos)
    \<and> (if v \<in> set vs then found_at v vs pos else ins_pos v vs pos)"
proof (cases "vs = []")
  case True
  then have "is_length is = 0" using rep_len [OF r] by (simp add: unat_eq_zero)
  with True show ?thesis by (intro exI [of _ 0]) (simp add: intsetSearch_def ins_pos_def)
next
  case False
  let ?n = "length vs"
  have n: "0 < ?n" "is_length is \<noteq> 0" using False rep_len [OF r] by auto
  have hi: "intsetGet' is (int ?n - 1) = Some (vs ! (?n - 1))"
    using get_rep [OF r, of "int ?n - 1"] n by (simp add: nat_diff_distrib)
  have lo: "intsetGet' is 0 = Some (vs ! 0)" using get_rep [OF r, of 0] n by simp
  have len: "is_length is = of_nat ?n" using rep_len [OF r, symmetric] by simp
  have unf: "intsetSearch is v = (if v > vs ! (?n - 1) then Some (False, of_nat ?n)
      else if v < vs ! 0 then Some (False, of_nat 0)
      else do { (lo, mid, cur) \<leftarrow> intsetSearch_loop is v 0 (int ?n - 1) (-1) (-1);
                if v = cur then Some (True, word_of_int mid) else Some (False, word_of_int lo) })"
    using n hi lo len rep_sint_pred [OF r False] by (simp add: intsetSearch_def)
  consider "v > vs ! (?n - 1)" | "\<not> v > vs ! (?n - 1)" "v < vs ! 0"
    | "\<not> v > vs ! (?n - 1)" "\<not> v < vs ! 0" by linarith
  then show ?thesis
  proof cases
    case 1
    have "vs ! i < v" if "i < ?n" for i
      using sorted_nth_mono [OF s, of i "?n - 1"] that 1 by linarith
    then have "ins_pos v vs ?n" by (simp add: ins_pos_def)
    with 1 unf ins_pos_notin show ?thesis by (intro exI [of _ ?n]) auto
  next
    case 2
    have "v < vs ! i" if "i < ?n" for i
      using sorted_nth_mono [OF s, of 0 i] that 2 by linarith
    then have "ins_pos v vs 0" by (simp add: ins_pos_def)
    with 2 unf ins_pos_notin show ?thesis by (intro exI [of _ 0]) auto
  next
    case 3
    obtain a mid cur where loop: "intsetSearch_loop is v 0 (int ?n - 1) (-1) (-1) = Some (a, mid, cur)"
      and res: "search_result v vs (a, mid, cur)"
      using intsetSearch_loop_correct [OF r s, of 0 "int ?n - 1" v] n by fastforce
    show ?thesis
    proof (cases "v = cur")
      case True
      then have "found_at v vs (nat mid)" "word_of_int mid = (of_nat (nat mid) :: 32 word)"
        using res by (auto simp: search_result_def found_at_def)
      moreover from this have "v \<in> set vs" by (auto simp: found_at_def)
      ultimately show ?thesis using 3 unf loop True by (intro exI [of _ "nat mid"]) simp
    next
      case False
      then have "ins_pos v vs (nat a)" "word_of_int a = (of_nat (nat a) :: 32 word)"
        using res by (auto simp: search_result_def)
      with ins_pos_notin 3 unf loop False show ?thesis by (intro exI [of _ "nat a"]) auto
    qed
  qed
qed

subsection \<open>Insertion without upgrade\<close>

definition int64 :: "int \<Rightarrow> bool" where
  "int64 v \<longleftrightarrow> int_range 8 v"

lemma value_fits:
  assumes "int64 v" "enc_ok enc" "\<not> intsetValueEncoding v > enc"
  shows "int_range (enc_width enc) v"
  using assms by (auto simp: int64_def int_range_def intsetValueEncoding_def enc_ok_def enc_width_def
      enc_defs split: if_splits)

definition intset_room :: "intset \<Rightarrow> bool" where
  "intset_room is \<longleftrightarrow> unat (is_length is) + 1 < 2 ^ 29"

lemma room_bytes:
  assumes "rep is vs" "intset_room is"
  shows "(length vs + 1) * enc_width enc < 2 ^ 32" "length vs + 1 < 2 ^ 29"
proof -
  show n: "length vs + 1 < 2 ^ 29" using assms rep_len by (simp add: intset_room_def)
  have "(length vs + 1) * enc_width enc \<le> (length vs + 1) * 8" by (intro mult_le_mono2) simp
  also have "\<dots> < 2 ^ 32" using n by simp
  finally show "(length vs + 1) * enc_width enc < 2 ^ 32" .
qed

lemma unat_Suc_length:
  assumes "rep is vs" "intset_room is"
  shows "unat (is_length is + 1) = length vs + 1"
  using room_bytes(2) [OF assms] rep_len [OF assms(1)]
  by (simp add: unat_word_ariths)

lemma resize_grow:
  assumes "rep is vs" "intset_room is"
  shows "\<exists>x. int_range (enc_width (is_encoding is)) x \<and>
    is_contents (intsetResize fill is (is_length is + 1))
      = concat (map (le_bytes (enc_width (is_encoding is))) (vs @ [x]))"
proof -
  let ?w = "enc_width (is_encoding is)"
  let ?c = "is_contents is"
  have w: "unat (is_encoding is) = ?w" using assms by (auto simp: rep_def intro: unat_enc)
  have c: "?c = concat (map (le_bytes ?w) vs)" using assms by (simp add: rep_def)
  have lc: "length ?c = length vs * ?w" using c array_length by simp
  define junk where "junk = map fill [length ?c..<(length vs + 1) * ?w]"
  have lj: "length junk = ?w" by (simp add: junk_def lc)
  have "is_contents (intsetResize fill is (is_length is + 1)) = ?c @ junk"
    using unat_Suc_length [OF assms] lc by (simp add: intsetResize_def mem_realloc_def w junk_def)
  moreover have "le_bytes ?w (le_int junk) = junk" using lj by (rule le_bytes_le_int)
  moreover have "int_range ?w (le_int junk)" using int_range_le_int [of junk] lj by simp
  ultimately show ?thesis using c by (intro exI [of _ "le_int junk"]) simp
qed

lemma set_array:
  assumes "is_contents is = concat (map (le_bytes (enc_width (is_encoding is))) vs)" "0 \<le> i"
    "nat i < length vs"
  shows "intsetSet' is i v
    = Some (is\<lparr>is_contents := concat (map (le_bytes (enc_width (is_encoding is))) (vs[nat i := v]))\<rparr>)"
  using assms by (simp add: intsetSet'_def Let_def array_write)

lemma moveTail_array:
  assumes "is_contents is = concat (map (le_bytes (enc_width (is_encoding is))) vs)"
    "from \<le> n" "unat (is_length is) = n" "n * enc_width (is_encoding is) < 2 ^ 32"
    "n \<le> length vs" "to + (n - from) \<le> length vs" "to < 2 ^ 32"
  shows "intsetMoveTail is (of_nat from) (of_nat to)
    = Some (is\<lparr>is_contents := concat (map (le_bytes (enc_width (is_encoding is)))
        (take to vs @ take (n - from) (drop from vs) @ drop (to + (n - from)) vs))\<rparr>)"
proof -
  let ?w = "enc_width (is_encoding is)"
  have "n * 1 \<le> n * ?w" by (intro mult_le_mono2) (simp add: Suc_le_eq)
  then have small: "n < 2 ^ 32" using assms(4) by linarith
  have le: "(n - from) * ?w < 2 ^ 32"
    by (rule le_less_trans [OF _ assms(4)]) (simp add: mult_le_mono1)
  have "is_length is = of_nat n" using assms(3) [symmetric] by simp
  then have "(is_length is - of_nat from) * of_nat ?w = (of_nat ((n - from) * ?w) :: 32 word)"
    using assms(2) by (simp add: of_nat_diff)
  then have "unat ((is_length is - of_nat from) * of_nat ?w) = (n - from) * ?w"
    using le by (simp only: unat_of_nat32)
  moreover have "unat (of_nat from :: 32 word) = from" "unat (of_nat to :: 32 word) = to"
    using assms small by (simp_all)
  ultimately show ?thesis
    using assms(1,2,5,6) array_move [of "from" "n - from" vs to "is_encoding is"]
    by (simp add: intsetMoveTail_def Let_def)
qed

text \<open>Inserting a value at its position, and what it does to order and content.\<close>

abbreviation ins_at :: "int \<Rightarrow> int list \<Rightarrow> nat \<Rightarrow> int list" where
  "ins_at v vs pos \<equiv> take pos vs @ v # drop pos vs"

lemma sorted_ins_at:
  assumes "sorted_wrt (<) vs" "ins_pos v vs pos"
  shows "sorted_wrt (<) (ins_at v vs pos)"
proof -
  have "\<forall>x \<in> set (take pos vs). x < v" "\<forall>x \<in> set (drop pos vs). v < x"
    using assms(2) by (auto simp: ins_pos_def in_set_conv_nth)
  moreover have "sorted_wrt (<) (take pos vs @ drop pos vs)" using assms(1) by simp
  ultimately show ?thesis by (auto simp: sorted_wrt_append) (meson less_trans)
qed

lemma set_ins_at: "set (ins_at v vs pos) = insert v (set vs)"
  by (metis Un_insert_right append_take_drop_id list.simps(15) set_append)

lemma add_no_upgrade:
  assumes r: "rep is vs" and room: "intset_room is" and p: "pos \<le> length vs"
    and v: "int_range (enc_width (is_encoding is)) v"
  shows "\<exists>is'. (do { let is = intsetResize fill is (is_length is + 1);
          is \<leftarrow> (if of_nat pos < is_length is then intsetMoveTail is (of_nat pos) (of_nat pos + 1) else Some is);
          is \<leftarrow> intsetSet' is (sint (of_nat pos :: 32 word)) v;
          Some (is\<lparr>is_length := is_length is + 1\<rparr>, True) }) = Some (is', True)
      \<and> rep is' (ins_at v vs pos)"
proof -
  let ?w = "enc_width (is_encoding is)" and ?n = "length vs"
  let ?enc = "\<lambda>vs. concat (map (le_bytes ?w) vs)"
  obtain x where x: "int_range ?w x"
    and c: "is_contents (intsetResize fill is (is_length is + 1)) = ?enc (vs @ [x])"
    using resize_grow [OF r room] by blast
  define is1 where "is1 = intsetResize fill is (is_length is + 1)"
  have is1: "is_contents is1 = ?enc (vs @ [x])" "is_length is1 = is_length is"
    "is_encoding is1 = is_encoding is" using c by (simp_all add: is1_def intsetResize_def)
  note n29 = room_bytes [OF r room]
  have lt: "(of_nat pos < is_length is) \<longleftrightarrow> pos < ?n"
    using p n29(2) rep_len [OF r] by (simp add: word_less_nat_alt)
  have sp: "sint (of_nat pos :: 32 word) = int pos" using p n29(2) by (intro sint_of_nat32) simp
  define ys where "ys = (if pos < ?n then take (Suc pos) vs @ drop pos vs else vs @ [x])"
  have ys: "length ys = Suc ?n" "ys[pos := v] = ins_at v vs pos"
    using p by (auto simp: ys_def list_update_append upd_conv_take_nth_drop min_def)
  have mv: "(if of_nat pos < is_length is1 then intsetMoveTail is1 (of_nat pos) (of_nat pos + 1) else Some is1)
      = Some (is1\<lparr>is_contents := ?enc ys\<rparr>)"
  proof (cases "pos < ?n")
    case True
    have "intsetMoveTail is1 (of_nat pos) (of_nat (Suc pos)) = Some (is1\<lparr>is_contents :=
        ?enc (take (Suc pos) (vs @ [x]) @ take (?n - pos) (drop pos (vs @ [x]))
          @ drop (Suc pos + (?n - pos)) (vs @ [x]))\<rparr>)"
      using moveTail_array [of is1 "vs @ [x]" pos ?n "Suc pos"] is1 rep_len [OF r] rep_bytes [OF r] True n29(2)
      by simp
    with True lt is1 show ?thesis by (simp add: ys_def add.commute)
  next
    case False
    with lt is1 show ?thesis by (simp add: ys_def) 
  qed
  have st: "intsetSet' (is1\<lparr>is_contents := ?enc ys\<rparr>) (int pos) v
      = Some (is1\<lparr>is_contents := ?enc (ins_at v vs pos)\<rparr>)"
    using set_array [of "is1\<lparr>is_contents := ?enc ys\<rparr>" ys "int pos" v] is1 ys p by simp
  have "rep (is1\<lparr>is_contents := ?enc (ins_at v vs pos), is_length := is_length is + 1\<rparr>) (ins_at v vs pos)"
    using r v p n29(1) unat_Suc_length [OF r room] is1
    by (auto simp: rep_def list_all_iff dest: in_set_takeD in_set_dropD)
  then show ?thesis unfolding Let_def is1_def [symmetric] mv bind.bind_lunit sp st using is1(2)
    by (intro exI) (rule conjI, rule refl, simp)
qed

subsection \<open>Upgrade: widening the elements in place\<close>

text \<open>
  While the loop has \<open>k\<close> elements left, the first \<open>k\<close> elements are still readable at the old
  width and the others are already stored at the new width, shifted by \<open>prepend\<close>.
\<close>

lemma take_mem_write:
  "mem_write bs off src = Some bs' \<Longrightarrow> n \<le> off \<Longrightarrow> take n bs' = take n bs"
  by (auto simp: mem_write_def min_def split: if_splits)

lemma drop_mem_write:
  "mem_write bs off src = Some bs' \<Longrightarrow> drop off bs' = src @ drop (off + length src) bs"
  by (auto simp: mem_write_def split: if_splits)

lemma upgrade_loop_correct:
  fixes e0 :: "32 word" and "is" :: intset
  defines "w0 \<equiv> enc_width e0" and "w1 \<equiv> enc_width (is_encoding is)"
  assumes e0: "w0 \<le> w1" and p: "prepend \<le> 1" and vs: "list_all (int_range w0) vs"
    and "length c = (length vs + 1) * w1" "k \<le> length vs"
    and "take (k * w0) c = concat (map (le_bytes w0) (take k vs))"
    and "drop ((k + prepend) * w1) c = concat (map (le_bytes w1) (drop k vs)) @ tail"
  shows "\<exists>c'. intsetUpgrade_loop (is\<lparr>is_contents := c\<rparr>) e0 (int prepend) k = Some (is\<lparr>is_contents := c'\<rparr>)
    \<and> length c' = length c \<and> drop (prepend * w1) c' = concat (map (le_bytes w1) vs) @ tail"
  using assms(6-)
proof (induction k arbitrary: c)
  case 0
  then show ?case by (intro exI [of _ c]) simp
next
  case (Suc k)
  let ?v = "vs ! k"
  have kn: "k < length vs" using Suc.prems(2) by simp
  have c: "c = concat (map (le_bytes w0) (take (Suc k) vs)) @ drop (Suc k * w0) c"
    using Suc.prems(3) by (metis append_take_drop_id)
  have "map_option le_int (mem_read c (k * w0) w0) = Some ?v"
    using array_read [of k "take (Suc k) vs" e0 "drop (Suc k * w0) c"] kn vs c
    by (simp add: w0_def list_all_iff) (metis in_set_takeD)
  then have rd: "intsetGetEncoded (is\<lparr>is_contents := c\<rparr>) (int k) e0 = Some ?v"
    by (simp add: intsetGetEncoded_def Let_def w0_def)
  have fit: "(k + prepend) * w1 + w1 \<le> length c"
  proof -
    have "(k + prepend + 1) * w1 \<le> (length vs + 1) * w1" using kn p by (intro mult_le_mono1) simp
    then show ?thesis using Suc.prems(1) by simp
  qed
  then obtain c2 where wr: "mem_write c ((k + prepend) * w1) (le_bytes w1 ?v) = Some c2"
    by (simp add: mem_write_def)
  have st: "intsetSet' (is\<lparr>is_contents := c\<rparr>) (int k + int prepend) ?v = Some (is\<lparr>is_contents := c2\<rparr>)"
    using wr by (simp add: intsetSet'_def Let_def w1_def nat_add_distrib)
  have "k * w0 \<le> (k + prepend) * w1" using e0 by (intro mult_le_mono) simp_all
  then have "take (k * w0) c2 = take (k * w0) (take (Suc k * w0) c)"
    using take_mem_write [OF wr] by (simp add: min_def)
  also have "\<dots> = concat (map (le_bytes w0) (take k (take (Suc k) vs)))"
    using array_take [of k e0 "take (Suc k) vs", folded w0_def] by (simp only: Suc.prems(3))
  also have "\<dots> = concat (map (le_bytes w0) (take k vs))" by (simp add: min_def)
  finally have old: "take (k * w0) c2 = concat (map (le_bytes w0) (take k vs))" .
  have new: "drop ((k + prepend) * w1) c2 = concat (map (le_bytes w1) (drop k vs)) @ tail"
    using drop_mem_write [OF wr] Suc.prems(4) kn
    by (simp add: Cons_nth_drop_Suc [symmetric] add.commute)
  from Suc.IH [OF _ _ old new] mem_write_length [OF wr] Suc.prems(1) kn rd st show ?case by simp
qed

lemma upgrade_extreme:
  assumes "enc_ok enc" "intsetValueEncoding v > enc" "int_range (enc_width enc) x"
  shows "if v < 0 then v < x else x < v"
  using assms by (auto simp: enc_ok_def enc_width_def enc_defs intsetValueEncoding_def int_range_def
      split: if_splits)

lemma upgrade_encoding:
  assumes "int64 v" "enc_ok enc" "intsetValueEncoding v > enc"
  shows "enc_ok (intsetValueEncoding v)" "int_range (enc_width (intsetValueEncoding v)) v"
    "enc_width enc \<le> enc_width (intsetValueEncoding v)"
    "int_range (enc_width enc) x \<Longrightarrow> int_range (enc_width (intsetValueEncoding v)) x"
  using assms by (auto simp: enc_ok_def enc_width_def enc_defs intsetValueEncoding_def int64_def int_range_def
      split: if_splits)

lemma intsetUpgradeAndAdd_rep:
  assumes r: "rep is vs" and room: "intset_room is" and v: "int64 v"
    and up: "intsetValueEncoding v > is_encoding is"
  shows "\<exists>is'. intsetUpgradeAndAdd fill is v = Some is'
    \<and> rep is' (if v < 0 then v # vs else vs @ [v])"
proof -
  define ne where "ne = intsetValueEncoding v"
  define w0 w1 where "w0 = enc_width (is_encoding is)" and "w1 = enc_width ne"
  let ?n = "length vs"
  define prepend :: nat where "prepend = (if v < 0 then 1 else 0)"
  have e: "enc_ok (is_encoding is)" "list_all (int_range w0) vs"
    "is_contents is = concat (map (le_bytes w0) vs)"
    using r by (simp_all add: rep_def w0_def)
  note enc = upgrade_encoding [OF v e(1) up, folded ne_def w0_def w1_def]
  define is1 where "is1 = is\<lparr>is_encoding := ne\<rparr>"
  define c where "c = is_contents (intsetResize fill is1 (is_length is1 + 1))"
  have res: "intsetResize fill is1 (is_length is1 + 1) = is1\<lparr>is_contents := c\<rparr>"
    by (simp add: c_def intsetResize_def is1_def)
  have w1: "unat ne = w1" unfolding w1_def using enc(1) by (rule unat_enc)
  have lc: "length c = (?n + 1) * w1"
    using unat_Suc_length [OF r room] w1 by (simp add: c_def intsetResize_def is1_def)
  have le: "?n * w0 \<le> (?n + 1) * w1" using enc(3) by (intro mult_le_mono) simp_all
  have old: "take (?n * w0) c = concat (map (le_bytes w0) (take ?n vs))"
    using le array_length [of "is_encoding is" vs] e(3) unat_Suc_length [OF r room] w1
    by (simp add: c_def intsetResize_def is1_def take_mem_realloc w0_def)
  have "\<exists>c'. intsetUpgrade_loop (is1\<lparr>is_contents := c\<rparr>) (is_encoding is) (int prepend) ?n
      = Some (is1\<lparr>is_contents := c'\<rparr>) \<and> length c' = length c
      \<and> drop (prepend * w1) c' = concat (map (le_bytes w1) vs) @ drop ((?n + prepend) * w1) c"
    using upgrade_loop_correct [of "is_encoding is" is1 prepend vs c ?n "drop ((?n + prepend) * w1) c"]
      enc(3) e(2) lc old by (simp add: is1_def w0_def w1_def prepend_def)
  then obtain c' where loop: "intsetUpgrade_loop (is1\<lparr>is_contents := c\<rparr>) (is_encoding is) (int prepend) ?n
      = Some (is1\<lparr>is_contents := c'\<rparr>)"
    and lc': "length c' = (?n + 1) * w1"
    and drop: "drop (prepend * w1) c' = concat (map (le_bytes w1) vs) @ drop ((?n + prepend) * w1) c"
    using lc by auto
  have junk: "\<exists>x. bs = le_bytes w1 x" if "length bs = w1" for bs
    using le_bytes_le_int [OF that] by metis
  define ys where "ys x = (if v < 0 then x # vs else vs @ [x])" for x
  have "\<exists>x. c' = concat (map (le_bytes w1) (ys x))"
  proof (cases "v < 0")
    case True
    have "c' = take w1 c' @ concat (map (le_bytes w1) vs)"
      using drop lc True by (metis One_nat_def append_Nil2 append_take_drop_id drop_all le_refl mult_1 prepend_def)
    moreover obtain x where "take w1 c' = le_bytes w1 x" using junk lc' by force
    ultimately show ?thesis using True by (intro exI [of _ x]) (simp add: ys_def)
  next
    case False
    obtain x where "drop (?n * w1) c = le_bytes w1 x" using junk [of "drop (?n * w1) c"] lc by auto
    then show ?thesis using False drop by (intro exI [of _ x]) (simp add: ys_def prepend_def)
  qed
  then obtain x where c': "c' = concat (map (le_bytes w1) (ys x))" by blast
  define i where "i = (if v < 0 then 0 else int ?n)"
  have ys: "0 \<le> i" "nat i < length (ys x)" "(ys x)[nat i := v] = ys v"
    by (auto simp: i_def ys_def list_update_append)
  have enc1: "is_encoding is1 = ne" "is_length is1 = is_length is" by (simp_all add: is1_def)
  have st: "intsetSet' (is1\<lparr>is_contents := c'\<rparr>) i v = Some (is1\<lparr>is_contents := concat (map (le_bytes w1) (ys v))\<rparr>)"
    using set_array [of "is1\<lparr>is_contents := c'\<rparr>" "ys x" i v] ys c' enc1 by (simp add: w1_def)
  have s: "sint (is_length is) = int ?n" by (rule rep_sint [OF r])
  have "intsetUpgradeAndAdd fill is v
      = Some (is1\<lparr>is_contents := concat (map (le_bytes w1) (ys v)), is_length := is_length is + 1\<rparr>)"
    using loop st res s enc1
    by (cases "v < 0") (simp_all add: intsetUpgradeAndAdd_def Let_def ne_def [symmetric] is1_def [symmetric]
        prepend_def i_def)
  moreover have "rep (is1\<lparr>is_contents := concat (map (le_bytes w1) (ys v)), is_length := is_length is + 1\<rparr>) (ys v)"
    using enc e(2) room_bytes(1) [OF r room, of ne] unat_Suc_length [OF r room]
    by (auto simp: rep_def enc1 w1_def ys_def list_all_iff is1_def)
  ultimately show ?thesis by (simp add: ys_def)
qed

subsection \<open>The operations on the set of elements\<close>

theorem intsetAdd_correct:
  assumes wf: "intset_wf is" and room: "intset_room is" and v: "int64 v"
  shows "\<exists>is'. intsetAdd fill is v = Some (is', v \<notin> set (elems is))
    \<and> intset_wf is' \<and> set (elems is') = insert v (set (elems is))"
proof -
  let ?vs = "elems is"
  have r: "rep is ?vs" and s: "sorted_wrt (<) ?vs" using wf by (auto intro: wf_rep wf_sorted)
  have e: "enc_ok (is_encoding is)" using r by (simp add: rep_def)
  show ?thesis
  proof (cases "intsetValueEncoding v > is_encoding is")
    case True
    let ?ys = "if v < 0 then v # ?vs else ?vs @ [v]"
    obtain is' where is': "intsetUpgradeAndAdd fill is v = Some is'" "rep is' ?ys"
      using intsetUpgradeAndAdd_rep [OF r room v True] by blast
    have ext: "if v < 0 then v < x else x < v" if "x \<in> set ?vs" for x
      using upgrade_extreme [OF e True] r that by (simp add: rep_def list_all_iff)
    then have notin: "v \<notin> set ?vs" by (metis less_irrefl)
    have "sorted_wrt (<) ?ys" using s ext by (auto simp: sorted_wrt_append)
    with is'(2) have "intset_wf is'" "elems is' = ?ys" by (auto intro: rep_wf rep_elems)
    with is'(1) True notin show ?thesis by (simp add: intsetAdd_def)
  next
    case False
    obtain pos where srch: "intsetSearch is v = Some (v \<in> set ?vs, of_nat pos)"
      and pos: "if v \<in> set ?vs then found_at v ?vs pos else ins_pos v ?vs pos"
      using intsetSearch_rep [OF r s] by blast
    show ?thesis
    proof (cases "v \<in> set ?vs")
      case True
      with False srch wf show ?thesis by (auto simp: intsetAdd_def insert_absorb)
    next
      case notin: False
      with pos have ip: "ins_pos v ?vs pos" by simp
      then have "pos \<le> length ?vs" by (simp add: ins_pos_def)
      from add_no_upgrade [OF r room this value_fits [OF v e False], of fill]
      obtain is' where "intsetAdd fill is v = Some (is', True)" "rep is' (ins_at v ?vs pos)"
        using False notin srch by (auto simp: intsetAdd_def Let_def)
      with sorted_ins_at [OF s ip] notin set_ins_at show ?thesis
        by (metis rep_elems rep_wf)
    qed
  qed
qed

lemma remove_rep:
  assumes r: "rep is vs" and p: "pos < length vs"
  shows "\<exists>is'. (do { let len = is_length is;
          is \<leftarrow> (if of_nat pos < len - 1 then intsetMoveTail is (of_nat pos + 1) (of_nat pos) else Some is);
          let is = intsetResize fill is (len - 1);
          Some (is\<lparr>is_length := len - 1\<rparr>, True) }) = Some (is', True)
      \<and> rep is' (take pos vs @ drop (Suc pos) vs)"
proof -
  let ?w = "enc_width (is_encoding is)" and ?n = "length vs"
  let ?enc = "\<lambda>vs. concat (map (le_bytes ?w) vs)"
  have c: "is_contents is = ?enc vs" "enc_ok (is_encoding is)" "list_all (int_range ?w) vs"
    using r by (simp_all add: rep_def)
  have n31: "?n < 2 ^ 31" by (rule rep_length31 [OF r])
  have nz: "is_length is \<noteq> 0" using p rep_len [OF r] by auto
  then have len1: "unat (is_length is - 1) = ?n - 1" using rep_len [OF r] by (simp add: unat_minus_one)
  have lt: "(of_nat pos < is_length is - 1) \<longleftrightarrow> Suc pos < ?n"
    using p n31 len1 by (auto simp: word_less_nat_alt)
  define ys where "ys = (if Suc pos < ?n then take pos vs @ drop (Suc pos) vs @ [last vs] else vs)"
  have mv: "(if of_nat pos < is_length is - 1 then intsetMoveTail is (of_nat pos + 1) (of_nat pos) else Some is)
      = Some (is\<lparr>is_contents := ?enc ys\<rparr>)"
  proof (cases "Suc pos < ?n")
    case True
    have "drop (pos + (?n - Suc pos)) vs = [last vs]"
      using True by (cases vs rule: rev_cases) auto
    moreover have "intsetMoveTail is (of_nat (Suc pos)) (of_nat pos) = Some (is\<lparr>is_contents :=
        ?enc (take pos vs @ take (?n - Suc pos) (drop (Suc pos) vs) @ drop (pos + (?n - Suc pos)) vs)\<rparr>)"
      using moveTail_array [of "is" vs "Suc pos" ?n pos] c rep_len [OF r] rep_bytes [OF r] True n31
      by simp
    ultimately show ?thesis using True lt by (simp add: ys_def add.commute)
  next
    case False
    with lt c show ?thesis by (simp add: ys_def)
  qed
  have "?n - 1 = pos" if "\<not> Suc pos < ?n" using that p by simp
  then have ys: "length ys = ?n" "take (?n - 1) ys = take pos vs @ drop (Suc pos) vs"
    using p by (auto simp: ys_def)
  have "mem_realloc fill (?enc ys) ((?n - 1) * ?w) = take ((?n - 1) * ?w) (?enc ys)"
    using array_length [of "is_encoding is" ys] ys(1) by (simp add: mem_realloc_def)
  also have "\<dots> = ?enc (take pos vs @ drop (Suc pos) vs)" unfolding array_take ys(2) ..
  finally have re: "intsetResize fill (is\<lparr>is_contents := ?enc ys\<rparr>) (is_length is - 1)
      = is\<lparr>is_contents := ?enc (take pos vs @ drop (Suc pos) vs)\<rparr>"
    using len1 unat_enc [OF c(2)] by (simp add: intsetResize_def)
  have "(?n - 1) * ?w \<le> ?n * ?w" by (intro mult_le_mono1) simp
  then have "(?n - 1) * ?w < 2 ^ 32" using rep_bytes [OF r] by linarith
  then have "rep (is\<lparr>is_contents := ?enc (take pos vs @ drop (Suc pos) vs), is_length := is_length is - 1\<rparr>)
      (take pos vs @ drop (Suc pos) vs)"
    using c p len1 by (auto simp: rep_def list_all_iff dest: in_set_takeD in_set_dropD)
  then show ?thesis unfolding Let_def mv bind.bind_lunit re
    by (intro exI) (rule conjI, rule refl, simp)
qed

lemma remove_at_sorted:
  assumes "sorted_wrt (<) (vs :: int list)" "pos < length vs"
  shows "sorted_wrt (<) (take pos vs @ drop (Suc pos) vs)"
    "set (take pos vs @ drop (Suc pos) vs) = set vs - {vs ! pos}"
proof -
  have vs: "vs = take pos vs @ vs ! pos # drop (Suc pos) vs" using assms(2) by (rule id_take_nth_drop)
  have "sorted_wrt (<) (take pos vs @ vs ! pos # drop (Suc pos) vs)" using assms(1) vs by simp
  then show "sorted_wrt (<) (take pos vs @ drop (Suc pos) vs)" by (auto simp: sorted_wrt_append)
  have "distinct vs" using assms(1) by (simp add: strict_sorted_iff)
  then have "vs ! pos \<notin> set (take pos vs)" "vs ! pos \<notin> set (drop (Suc pos) vs)"
    by (subst (asm) vs, simp)+
  moreover have "set vs = set (take pos vs) \<union> {vs ! pos} \<union> set (drop (Suc pos) vs)"
    by (subst vs) simp
  ultimately show "set (take pos vs @ drop (Suc pos) vs) = set vs - {vs ! pos}" by auto
qed

lemma too_wide_not_member:
  assumes "rep is vs" "intsetValueEncoding v > is_encoding is"
  shows "v \<notin> set vs"
proof
  assume "v \<in> set vs"
  then have "int_range (enc_width (is_encoding is)) v" "enc_ok (is_encoding is)"
    using assms(1) by (auto simp: rep_def list_all_iff)
  from upgrade_extreme [OF this(2) assms(2) this(1)] show False by (simp split: if_splits)
qed

theorem intsetRemove_correct:
  assumes wf: "intset_wf is"
  shows "\<exists>is'. intsetRemove fill is v = Some (is', v \<in> set (elems is))
    \<and> intset_wf is' \<and> set (elems is') = set (elems is) - {v}"
proof -
  let ?vs = "elems is"
  have r: "rep is ?vs" and s: "sorted_wrt (<) ?vs" using wf by (auto intro: wf_rep wf_sorted)
  show ?thesis
  proof (cases "intsetValueEncoding v \<le> is_encoding is")
    case False
    then have "v \<notin> set ?vs" using too_wide_not_member [OF r] by auto
    with False wf show ?thesis by (simp add: intsetRemove_def)
  next
    case True
    obtain pos where srch: "intsetSearch is v = Some (v \<in> set ?vs, of_nat pos)"
      and pos: "if v \<in> set ?vs then found_at v ?vs pos else ins_pos v ?vs pos"
      using intsetSearch_rep [OF r s] by blast
    show ?thesis
    proof (cases "v \<in> set ?vs")
      case False
      with True srch wf show ?thesis by (simp add: intsetRemove_def)
    next
      case mem: True
      with pos have p: "pos < length ?vs" "?vs ! pos = v" by (auto simp: found_at_def)
      from remove_rep [OF r p(1), of fill] obtain is' where
        "intsetRemove fill is v = Some (is', True)" "rep is' (take pos ?vs @ drop (Suc pos) ?vs)"
        using True mem srch by (auto simp: intsetRemove_def Let_def)
      with remove_at_sorted [OF s p(1)] p(2) mem show ?thesis by (metis rep_elems rep_wf)
    qed
  qed
qed

theorem intsetFind_correct:
  assumes wf: "intset_wf is"
  shows "intsetFind is v = Some (v \<in> set (elems is))"
  using intsetSearch_rep [OF wf_rep [OF wf] wf_sorted [OF wf], of v]
    too_wide_not_member [OF wf_rep [OF wf], of v]
  by (auto simp: intsetFind_def)

subsection \<open>Access by position\<close>

lemma intsetGet_correct:
  assumes wf: "intset_wf is"
  shows "intsetGet is pos = Some (if unat pos < length (elems is) then Some (elems is ! unat pos) else None)"
proof -
  have r: "rep is (elems is)" by (rule wf_rep [OF wf])
  show ?thesis
  proof (cases "unat pos < length (elems is)")
    case True
    then have "sint pos = int (unat pos)" using rep_length31 [OF r] by (intro sint_small) linarith
    then have "intsetGet' is (sint pos) = Some (elems is ! unat pos)"
      using get_rep_nat [OF r True] by (simp only:)
    with True rep_len [OF r] show ?thesis by (simp add: intsetGet_def word_less_nat_alt)
  qed (use rep_len [OF r] in \<open>simp add: intsetGet_def word_less_nat_alt\<close>)
qed

lemma intsetMin_Max_correct:
  assumes wf: "intset_wf is" and ne: "elems is \<noteq> []"
  shows "intsetMin is = Some (Min (set (elems is)))" "intsetMax is = Some (Max (set (elems is)))"
proof -
  let ?vs = "elems is"
  have r: "rep is ?vs" and s: "sorted_wrt (<) ?vs" using wf by (auto intro: wf_rep wf_sorted)
  have n: "0 < length ?vs" using ne by simp
  have "Min (set ?vs) = ?vs ! 0"
    using sorted_nth_mono [OF s, of 0] n by (intro Min_eqI) (auto simp: in_set_conv_nth)
  moreover have "intsetMin is = Some (?vs ! 0)" using get_rep [OF r, of 0] n by (simp add: intsetMin_def)
  ultimately show "intsetMin is = Some (Min (set ?vs))" by simp
  have "v \<le> ?vs ! (length ?vs - 1)" if v: "v \<in> set ?vs" for v
  proof -
    obtain i where "i < length ?vs" "?vs ! i = v" using v by (auto simp: in_set_conv_nth)
    then show ?thesis using sorted_nth_mono [OF s, of i "length ?vs - 1"] by auto
  qed
  then have "Max (set ?vs) = ?vs ! (length ?vs - 1)" using n by (intro Max_eqI) simp_all
  moreover have "intsetMax is = Some (?vs ! (length ?vs - 1))"
    using get_rep [OF r, of "int (length ?vs) - 1"] n rep_sint_pred [OF r ne]
    by (simp add: intsetMax_def nat_diff_distrib)
  ultimately show "intsetMax is = Some (Max (set ?vs))" by simp
qed

lemma intsetRandom_correct:
  assumes wf: "intset_wf is" and ne: "elems is \<noteq> []"
  shows "\<exists>v \<in> set (elems is). intsetRandom rnd is = Some v"
proof -
  have r: "rep is (elems is)" by (rule wf_rep [OF wf])
  have n: "unat (is_length is) = length (elems is)" by (rule rep_len [OF r])
  have lt: "rnd mod length (elems is) < length (elems is)" using ne by simp
  have "is_length is \<noteq> 0" using n ne by auto
  with get_rep [OF r, of "int (rnd mod length (elems is))"] lt show ?thesis
    by (intro bexI [of _ "elems is ! (rnd mod length (elems is))"])
       (simp_all add: intsetRandom_def n del: of_nat_mod)
qed

subsection \<open>Validation of untrusted blobs\<close>

lemma validate_loop_correct:
  assumes "rep is vs" "i + n = length vs"
  shows "intsetValidate_loop is prev i n = Some (sorted_wrt (<) (prev # drop i vs))"
  using assms(2)
proof (induction n arbitrary: prev i)
  case (Suc n)
  then have i: "i < length vs" by simp
  then have "intsetGet' is (int i) = Some (vs ! i)" using get_rep [OF assms(1), of "int i"] by simp
  moreover have "drop i vs = vs ! i # drop (Suc i) vs" using i by (simp add: Cons_nth_drop_Suc)
  ultimately show ?case using Suc.IH [of "Suc i" "vs ! i"] Suc.prems by auto
qed simp

theorem intsetValidateIntegrity_correct:
  assumes "length p < 2 ^ 32"
  shows "intsetValidateIntegrity p True
    = Some (8 \<le> length p \<and> is_length (blob_intset p) \<noteq> 0 \<and> intset_wf (blob_intset p))"
proof -
  let ?is = "blob_intset p"
  let ?w = "enc_width (is_encoding ?is)" and ?n = "unat (is_length ?is)"
  have lc: "length (is_contents ?is) = length p - 8" by (simp add: blob_intset_def)
  show ?thesis
  proof (cases "8 \<le> length p \<and> enc_ok (is_encoding ?is) \<and> 8 + ?n * ?w = length p \<and> ?n \<noteq> 0")
    case False
    then show ?thesis
      using lc unat_enc [of "is_encoding ?is"]
      by (auto simp: intsetValidateIntegrity_def Let_def intset_wf_def enc_ok_def unat_eq_zero)
  next
    case True
    then have "length (is_contents ?is) = ?n * ?w" using lc by linarith
    from fixed_codec.array_cases [OF enc_codec this] obtain vs where
      vs: "is_contents ?is = concat (map (le_bytes ?w) vs)" "length vs = ?n" "list_all (int_range ?w) vs"
      by metis
    have r: "rep ?is vs" using True vs assms by (simp add: rep_def)
    then have el: "elems ?is = vs" by (rule rep_elems)
    have "0 < length vs" using vs(2) True by linarith
    then have "intsetGet' ?is 0 = Some (vs ! 0)" using get_rep_nat [OF r, of 0] by simp
    moreover have "vs ! 0 # drop 1 vs = vs" using \<open>0 < length vs\<close> by (cases vs) auto
    then have "intsetValidate_loop ?is (vs ! 0) 1 (?n - 1) = Some (sorted_wrt (<) vs)"
      using validate_loop_correct [OF r, of 1 "?n - 1" "vs ! 0"] vs(2) \<open>0 < length vs\<close>
      by (metis Suc_pred' add.commute plus_1_eq_Suc)
    moreover have "\<not> (is_encoding ?is \<noteq> INTSET_ENC_INT64 \<and> is_encoding ?is \<noteq> INTSET_ENC_INT32
        \<and> is_encoding ?is \<noteq> INTSET_ENC_INT16)" using True by (auto simp: enc_ok_def)
    moreover have "unat (is_encoding ?is) = ?w" using True by (auto intro: unat_enc)
    ultimately have "intsetValidateIntegrity p True = Some (sorted_wrt (<) vs)"
      using True by (simp only: intsetValidateIntegrity_def Let_def if_False) simp
    moreover have "intset_wf ?is \<longleftrightarrow> sorted_wrt (<) vs"
      using r rep_wf [OF r] wf_sorted [of ?is] el by auto
    ultimately show ?thesis using True by auto
  qed
qed

subsection \<open>The 32-bit byte count\<close>

text \<open>
  At \<open>2 ^ 29\<close> elements of eight bytes the byte count of the move is \<open>2 ^ 32\<close>, which is 0 in 32
  bits: making room at the front moves nothing.
\<close>

lemma intsetMoveTail_wraps:
  assumes "is_encoding is = INTSET_ENC_INT64" "is_length is = 2 ^ 29"
    "length (is_contents is) = (2 ^ 29 + 1) * 8"
  shows "intsetMoveTail is 0 1 = Some is"
  using assms by (simp add: intsetMoveTail_def enc_width_def enc_defs mem_move_def mem_read_def mem_write_def)

subsection \<open>The intset as a bounded set\<close>

lemma card_elems: "intset_wf is \<Longrightarrow> card (set (elems is)) = unat (is_length is)"
  using wf_sorted [of "is"] rep_len [OF wf_rep [of "is"]]
  by (simp add: distinct_card strict_sorted_iff)

lemma intsetNew_wf: "intset_wf intsetNew" "set (elems intsetNew) = {}" "intset_room intsetNew"
  by (simp_all add: intset_wf_def intset_room_def intsetNew_def enc_ok_def elems_def)

interpretation is_set: bounded_set intsetNew "intsetAdd fill" "intsetRemove fill" intsetFind
  intset_wf "\<lambda>is. set (elems is)" int64 "2 ^ 29 - 1" for fill
proof (unfold_locales, goal_cases)
  case (4 s x)
  then have "intset_room s" by (simp add: card_elems intset_room_def)
  with 4 show ?case using intsetAdd_correct [of s x fill] by blast
qed (simp_all add: intsetNew_wf intsetRemove_correct intsetFind_correct)

subsection \<open>Main results\<close>

text \<open>
  C1. Refinement.  Any sequence of up to \<open>2 ^ 29 - 1\<close> additions, removals and membership tests of
  64-bit integers on a new intset runs without leaving its memory, answers every call like a
  mathematical set, and ends in a well-formed (strictly sorted) intset holding that set.
\<close>

theorem intset_refines_set:
  assumes "length ops < 2 ^ 29" "list_all (op_ok int64) ops"
  shows "\<exists>is. run_set (intsetAdd fill) (intsetRemove fill) intsetFind ops intsetNew
      = Some (is, snd (spec_set ops {}))
    \<and> intset_wf is \<and> set (elems is) = fst (spec_set ops {})"
  using is_set.run_from_new [of ops fill] assms by simp

theorem intset_refines_set_witness:
  "\<exists>is. run_set (intsetAdd (\<lambda>_. 7)) (intsetRemove (\<lambda>_. 7)) intsetFind
      [SAdd 5, SAdd (- 70000), SMem 5, SRem 5, SMem 5] intsetNew
      = Some (is, [True, True, True, True, False])
    \<and> intset_wf is \<and> set (elems is) = {- 70000}"
  using intset_refines_set [of "[SAdd 5, SAdd (- 70000), SMem 5, SRem 5, SMem 5]" "\<lambda>_. 7"]
  by (simp add: int64_def int_range_def insert_Diff_if)

text \<open>
  C5. Addition.  On a well-formed intset with room, \<open>intsetAdd\<close> succeeds, reports whether the value
  is new, keeps the elements strictly sorted and adds exactly the value, also when it has to widen
  the encoding of every element.
\<close>

theorem intsetAdd_spec:
  assumes "intset_wf is" "intset_room is" "int64 v"
  shows "\<exists>is'. intsetAdd fill is v = Some (is', v \<notin> set (elems is))
    \<and> intset_wf is' \<and> set (elems is') = insert v (set (elems is))"
  by (rule intsetAdd_correct [OF assms])

theorem intsetAdd_spec_witness:
  "\<exists>is'. intsetAdd (\<lambda>_. 0) intsetNew 70000 = Some (is', 70000 \<notin> set (elems intsetNew))
    \<and> intset_wf is' \<and> set (elems is') = insert 70000 (set (elems intsetNew))"
  by (rule intsetAdd_spec) (simp_all add: intsetNew_wf int64_def int_range_def)

text \<open>
  C7. Access.  \<open>intsetGet\<close> returns the element at a position below the length and 0 otherwise;
  \<open>intsetMin\<close>, \<open>intsetMax\<close> and \<open>intsetRandom\<close> of a nonempty intset return its least and greatest
  element and some element.
\<close>

theorem intset_access:
  assumes "intset_wf is" "elems is \<noteq> []"
  shows "intsetGet is pos
      = Some (if unat pos < length (elems is) then Some (elems is ! unat pos) else None)
    \<and> intsetMin is = Some (Min (set (elems is))) \<and> intsetMax is = Some (Max (set (elems is)))
    \<and> (\<exists>v \<in> set (elems is). intsetRandom rnd is = Some v)"
  using intsetGet_correct intsetMin_Max_correct intsetRandom_correct assms by blast

theorem intset_access_witness:
  "\<exists>is. intset_wf is \<and> elems is \<noteq> [] \<and> intsetMin is = Some (Min (set (elems is)))"
proof -
  obtain "is" where i: "intset_wf is" "set (elems is) = {3}"
    using intsetAdd_correct [of intsetNew 3 "\<lambda>_. 0"] intsetNew_wf
    by (auto simp: int64_def int_range_def)
  then have ne: "elems is \<noteq> []" by auto
  from intset_access [OF i(1) ne] i(1) ne show ?thesis by blast
qed

text \<open>
  C6. Validation of blobs below 4 GB, reading no byte outside of the blob.  With the deep check
  \<open>intsetValidateIntegrity\<close> accepts exactly the blobs that hold a nonempty well-formed intset; without
  it, exactly the blobs with a known encoding, at least one element and the size that the header says,
  whose elements may be in any order and occur more than once.
\<close>

theorem intsetValidateIntegrity_exact:
  assumes "length p < 2 ^ 32"
  shows "intsetValidateIntegrity p deep
    = Some (8 \<le> length p \<and> is_length (blob_intset p) \<noteq> 0 \<and> enc_ok (is_encoding (blob_intset p))
        \<and> length p = 8 + unat (is_length (blob_intset p)) * enc_width (is_encoding (blob_intset p))
        \<and> (deep \<longrightarrow> intset_wf (blob_intset p)))"
proof (cases deep)
  case True
  have "length (is_contents (blob_intset p)) = length p - 8" by (simp add: blob_intset_def)
  with True show ?thesis by (auto simp: intsetValidateIntegrity_correct [OF assms] intset_wf_def)
next
  case False
  with unat_enc [of "is_encoding (blob_intset p)"] show ?thesis
    by (auto simp: intsetValidateIntegrity_def Let_def enc_ok_def unat_eq_zero)
qed

text \<open>The elements 9 and 3 are out of order, which only the deep check notices.\<close>

theorem intsetValidateIntegrity_exact_witness:
  "intsetValidateIntegrity [2, 0, 0, 0, 2, 0, 0, 0, 9, 0, 3, 0] False = Some True
   \<and> intsetValidateIntegrity [2, 0, 0, 0, 2, 0, 0, 0, 9, 0, 3, 0] True = Some False"
proof -
  let ?p = "[2, 0, 0, 0, 2, 0, 0, 0, 9, 0, 3, 0 :: byte]"
  have b: "blob_intset ?p = \<lparr>is_encoding = 2, is_length = 2, is_contents = [9, 0, 3, 0]\<rparr>"
    by (simp add: blob_intset_def)
  have "enc_ok 2" "enc_width 2 = 2" by (simp_all add: enc_ok_def enc_width_def INTSET_ENC_INT16_def INTSET_ENC_INT32_def INTSET_ENC_INT64_def)
  moreover have "[0..<2] = [0, 1 :: nat]" by (simp add: upt_rec)
  then have "elems (blob_intset ?p) = [9, 3]"
    by (simp add: b elems_def \<open>enc_width 2 = 2\<close> le_int_def sign_extend_def)
  then have "\<not> intset_wf (blob_intset ?p)" by (simp add: intset_wf_def)
  ultimately show ?thesis
    using intsetValidateIntegrity_exact [of ?p False] intsetValidateIntegrity_exact [of ?p True] by (simp add: b)
qed

text \<open>
  C9. The byte count of \<open>intsetMoveTail\<close> is computed in 32 bits.  With \<open>2 ^ 29\<close> elements of eight bytes
  it wraps to 0, and making room at the front moves nothing: the set type admits up to \<open>2 ^ 30\<close>
  elements in an intset.
\<close>

theorem intsetMoveTail_wraps_to_zero:
  assumes "is_encoding is = INTSET_ENC_INT64" "is_length is = 2 ^ 29"
    "length (is_contents is) = (2 ^ 29 + 1) * 8"
  shows "intsetMoveTail is 0 1 = Some is"
  by (rule intsetMoveTail_wraps [OF assms])

theorem intsetMoveTail_wraps_to_zero_witness:
  "intsetMoveTail \<lparr>is_encoding = INTSET_ENC_INT64, is_length = 2 ^ 29,
      is_contents = replicate ((2 ^ 29 + 1) * 8) 0\<rparr> 0 1
    = Some \<lparr>is_encoding = INTSET_ENC_INT64, is_length = 2 ^ 29,
      is_contents = replicate ((2 ^ 29 + 1) * 8) 0\<rparr>"
  by (rule intsetMoveTail_wraps_to_zero) simp_all

end
