(* ===== verification/Util.thy ===== *)
theory Util
  imports Prelude
begin

section \<open>Strings and numbers (util.c)\<close>

text \<open>
  The decimal conversions of \<^verbatim>\<open>util.c\<close> (\<open>digits10\<close>, \<open>sdigits10\<close>, \<open>ull2string\<close>, \<open>ll2string\<close>,
  \<open>string2ll\<close>, \<open>string2l\<close>), the hexadecimal parser, and the buffer helpers \<open>mempbrk\<close> and
  \<open>memmapchars\<close>.  Strings are byte lists.  A buffer that a function writes into is a memory
  block, every write to it is checked.  The reference definition is \<open>decimal\<close>.
\<close>

abbreviation "ch_minus \<equiv> (45::byte)"
abbreviation "ch_0 \<equiv> (48::byte)"
abbreviation "ch_1 \<equiv> (49::byte)"
abbreviation "ch_9 \<equiv> (57::byte)"

definition ULLONG_MAX :: nat where "ULLONG_MAX = 2 ^ 64 - 1"
definition LLONG_MAX :: int where "LLONG_MAX = 2 ^ 63 - 1"
definition LLONG_MIN :: int where "LLONG_MIN = - (2 ^ 63)"
definition LONG_STR_SIZE :: nat where "LONG_STR_SIZE = 21"

subsection \<open>Searching and mapping the bytes of a buffer\<close>

fun mempbrk :: "byte list \<Rightarrow> byte list \<Rightarrow> nat option" where
  "mempbrk [] chars = None"
| "mempbrk (c # s) chars = (if c \<in> set chars then Some 0 else map_option Suc (mempbrk s chars))"

fun mapchar :: "byte \<Rightarrow> byte list \<Rightarrow> byte list \<Rightarrow> byte" where
  "mapchar c (f # from) (t # to) = (if c = f then t else mapchar c from to)"
| "mapchar c _ _ = c"

definition memmapchars :: "byte list \<Rightarrow> byte list \<Rightarrow> byte list \<Rightarrow> byte list" where
  "memmapchars s from to = map (\<lambda>c. mapchar c from to) s"

subsection \<open>Decimal output\<close>

fun digits10 :: "nat \<Rightarrow> nat" where
  "digits10 v =
     (if v < 10 then 1
      else if v < 100 then 2
      else if v < 1000 then 3
      else if v < 1000000000000 then
        (if v < 100000000 then
           (if v < 1000000 then
              (if v < 10000 then 4 else 5 + (if v \<ge> 100000 then 1 else 0))
            else 7 + (if v \<ge> 10000000 then 1 else 0))
         else if v < 10000000000 then 9 + (if v \<ge> 1000000000 then 1 else 0)
         else 11 + (if v \<ge> 100000000000 then 1 else 0))
      else 12 + digits10 (v div 1000000000000))"

declare digits10.simps [simp del]

definition sdigits10 :: "int \<Rightarrow> nat" where
  "sdigits10 v =
     (if v < 0 then digits10 (if v \<noteq> LLONG_MIN then nat (- v) else nat LLONG_MAX + 1) + 1
      else digits10 (nat v))"

definition digit_pairs :: "byte list" where
  "digit_pairs = map of_char
    (''0001020304050607080910111213141516171819''
   @ ''2021222324252627282930313233343536373839''
   @ ''4041424344454647484950515253545556575859''
   @ ''6061626364656667686970717273747576777879''
   @ ''8081828384858687888990919293949596979899'')"

function ull2string_loop :: "byte list \<Rightarrow> nat \<Rightarrow> nat \<Rightarrow> (byte list \<times> nat \<times> nat) option" where
  "ull2string_loop dst next value =
     (if value \<ge> 100 then
        do { let i = (value mod 100) * 2;
             dst \<leftarrow> mem_write dst next [digit_pairs ! (i + 1)];
             dst \<leftarrow> mem_write dst (next - 1) [digit_pairs ! i];
             ull2string_loop dst (next - 2) (value div 100) }
      else Some (dst, next, value))"
  by pat_completeness auto
termination
  by (relation "measure (\<lambda>(dst, next, value). value)") auto

declare ull2string_loop.simps [simp del]

text \<open>
  The buffer argument is the memory at \<open>dst\<close>; \<open>dstlen\<close> is the size the caller passes.  The
  result is the memory after the call and the returned length.
\<close>

definition ull2string :: "byte list \<Rightarrow> nat \<Rightarrow> nat \<Rightarrow> (byte list \<times> nat) option" where
  "ull2string dst dstlen value =
     (let len = digits10 value in
      if len \<ge> dstlen then
        (if dstlen > 0 then do { dst \<leftarrow> mem_write dst 0 [0]; Some (dst, 0) } else Some (dst, 0))
      else do {
        let next = len - 1;
        dst \<leftarrow> mem_write dst (next + 1) [0];
        (dst, next, value) \<leftarrow> ull2string_loop dst next value;
        dst \<leftarrow> (if value < 10 then mem_write dst next [ch_0 + of_nat value]
               else do {
                 let i = value * 2;
                 dst \<leftarrow> mem_write dst next [digit_pairs ! (i + 1)];
                 mem_write dst (next - 1) [digit_pairs ! i] });
        Some (dst, len) })"

definition ll2string :: "byte list \<Rightarrow> nat \<Rightarrow> int \<Rightarrow> (byte list \<times> nat) option" where
  "ll2string dst dstlen svalue =
     (if svalue < 0 then
        (let value = (if svalue \<noteq> LLONG_MIN then nat (- svalue) else nat LLONG_MAX + 1) in
         if dstlen < 2 then
           (if dstlen > 0 then do { dst \<leftarrow> mem_write dst 0 [0]; Some (dst, 0) } else Some (dst, 0))
         else do {
           dst \<leftarrow> mem_write dst 0 [ch_minus];
           (rest, len) \<leftarrow> ull2string (drop 1 dst) (dstlen - 1) value;
           Some (take 1 dst @ rest, if len = 0 then 0 else len + 1) })
      else do {
        (dst, len) \<leftarrow> ull2string dst dstlen (nat svalue);
        Some (dst, if len = 0 then 0 else len) })"

subsection \<open>Decimal input\<close>

fun string2ll_loop :: "byte list \<Rightarrow> nat \<Rightarrow> (nat \<times> byte list) option" where
  "string2ll_loop [] v = Some (v, [])"
| "string2ll_loop (c # p) v =
     (if ch_0 \<le> c \<and> c \<le> ch_9 then
        (if v > ULLONG_MAX div 10 then None
         else if v * 10 > ULLONG_MAX - unat (c - ch_0) then None
         else string2ll_loop p (v * 10 + unat (c - ch_0)))
      else Some (v, c # p))"

definition string2ll :: "byte list \<Rightarrow> int option" where
  "string2ll s =
     (if s = [] \<or> length s \<ge> LONG_STR_SIZE then None
      else if length s = 1 \<and> hd s = ch_0 then Some 0
      else
        (let negative = (hd s = ch_minus); p = (if negative then tl s else s) in
         if p = [] then None
         else if ch_1 \<le> hd p \<and> hd p \<le> ch_9 then
           (case string2ll_loop (tl p) (unat (hd p - ch_0)) of
              None \<Rightarrow> None
            | Some (v, rest) \<Rightarrow>
                if rest \<noteq> [] then None
                else if negative then
                  (if int v > - (LLONG_MIN + 1) + 1 then None else Some (- int v))
                else (if int v > LLONG_MAX then None else Some (int v)))
         else None))"

definition string2l :: "byte list \<Rightarrow> int option" where
  "string2l s = (case string2ll s of None \<Rightarrow> None
     | Some llval \<Rightarrow> if llval < LLONG_MIN \<or> llval > LLONG_MAX then None else Some llval)"

subsection \<open>Hexadecimal input\<close>

definition safe_is_c_in_range :: "byte \<Rightarrow> byte \<Rightarrow> byte \<Rightarrow> bool" where
  "safe_is_c_in_range c start end \<longleftrightarrow> sint c \<ge> sint start \<and> sint c \<le> sint end"

definition base_16_char_type :: "byte \<Rightarrow> int" where
  "base_16_char_type c =
     (if safe_is_c_in_range c 48 57 then 0
      else if safe_is_c_in_range c 97 102 then 1
      else if safe_is_c_in_range c 65 70 then 2
      else -1)"

text \<open>
  The loop reads \<open>src[curr_char_idx]\<close> before it compares the index with \<open>slen\<close>: the read is
  checked against the block \<open>src\<close>.  The result is the returned code, with the value that
  \<open>*result_output\<close> receives when the code is 1.
\<close>

datatype hex_result = HexOverflow | HexOk nat

function string2ul_base16_loop :: "byte list \<Rightarrow> nat \<Rightarrow> nat \<Rightarrow> nat \<Rightarrow> hex_result option" where
  "string2ul_base16_loop src slen idx result =
     do { c \<leftarrow> mem_read src idx 1;
          let char_type = base_16_char_type (hd c);
          if char_type \<noteq> -1 \<and> idx < slen then
            (let curr_val = unat (hd c - [48, 97 - 10, 65 - 10] ! nat char_type) in
             if result > ULLONG_MAX div 16 \<or> result > (ULLONG_MAX - curr_val) div 16
             then Some HexOverflow
             else string2ul_base16_loop src slen (idx + 1) (result * 16 + curr_val))
          else Some (HexOk result) }"
  by pat_completeness auto
termination
  by (relation "measure (\<lambda>(src, slen, idx, result). slen - idx)") auto

declare string2ul_base16_loop.simps [simp del]

definition string2ul_base16_async_signal_safe :: "byte list \<Rightarrow> nat \<Rightarrow> hex_result option" where
  "string2ul_base16_async_signal_safe src slen = string2ul_base16_loop src slen 0 0"

subsection \<open>The reference: decimal notation\<close>

fun dec_nat :: "nat \<Rightarrow> byte list" where
  "dec_nat v = (if v < 10 then [ch_0 + of_nat v]
                else dec_nat (v div 10) @ [ch_0 + of_nat (v mod 10)])"

declare dec_nat.simps [simp del]

definition decimal :: "int \<Rightarrow> byte list" where
  "decimal v = (if v < 0 then ch_minus # dec_nat (nat (- v)) else dec_nat (nat v))"

definition is_digit :: "byte \<Rightarrow> bool" where
  "is_digit c \<longleftrightarrow> ch_0 \<le> c \<and> c \<le> ch_9"

definition dec_val :: "nat \<Rightarrow> byte list \<Rightarrow> nat" where
  "dec_val v ds = foldl (\<lambda>v c. v * 10 + unat (c - ch_0)) v ds"

lemma dec_val_simps [simp]:
  "dec_val v [] = v"
  "dec_val v (c # ds) = dec_val (v * 10 + unat (c - ch_0)) ds"
  "dec_val v (ds @ [c]) = dec_val v ds * 10 + unat (c - ch_0)"
  by (simp_all add: dec_val_def)

lemma dec_nat_small: "v < 10 \<Longrightarrow> dec_nat v = [ch_0 + of_nat v]"
  by (simp add: dec_nat.simps [of v])

lemma dec_nat_step: "10 \<le> v \<Longrightarrow> dec_nat v = dec_nat (v div 10) @ [ch_0 + of_nat (v mod 10)]"
  by (simp add: dec_nat.simps [of v])

lemma dec_nat_snoc: "0 < v \<Longrightarrow> d < 10 \<Longrightarrow> dec_nat (v * 10 + d) = dec_nat v @ [ch_0 + of_nat d]"
  by (subst dec_nat_step) auto

lemma dec_nat_step2:
  assumes "100 \<le> v"
  shows "dec_nat v = dec_nat (v div 100)
    @ [ch_0 + of_nat (v mod 100 div 10), ch_0 + of_nat (v mod 100 mod 10)]"
proof -
  have "v mod 100 = 10 * (v div 10 mod 10) + v mod 10"
    using mod_mult2_eq [of v 10 10] by simp
  then have "v div 10 mod 10 = v mod 100 div 10" "v mod 10 = v mod 100 mod 10" by simp_all
  moreover have "v div 10 div 10 = v div 100" by (simp flip: div_mult2_eq)
  moreover have "10 \<le> v div 10" using assms by linarith
  ultimately show ?thesis using assms
    by (simp add: dec_nat_step [of v] dec_nat_step [of "v div 10"])
qed

lemma dec_nat_not_Nil [simp]: "dec_nat v \<noteq> []"
  by (simp add: dec_nat.simps [of v])

lemma dec_nat_bounds:
  "v < 10 ^ length (dec_nat v) \<and> (0 < v \<longrightarrow> 10 ^ (length (dec_nat v) - 1) \<le> v)"
proof (induction v rule: dec_nat.induct)
  case (1 v)
  show ?case
  proof (cases "v < 10")
    case False
    then have IH: "v div 10 < 10 ^ length (dec_nat (v div 10))"
      "10 ^ (length (dec_nat (v div 10)) - 1) \<le> v div 10" using 1 by auto
    have len: "length (dec_nat v) = Suc (length (dec_nat (v div 10)))"
      using False by (simp add: dec_nat_step)
    have pos: "0 < length (dec_nat (v div 10))" by simp
    have "10 * 10 ^ (length (dec_nat (v div 10)) - 1) \<le> v" using IH(2) by linarith
    moreover have "v < 10 * 10 ^ length (dec_nat (v div 10))" using IH(1) by linarith
    ultimately show ?thesis unfolding len using pos
      by (metis diff_Suc_1 power_Suc Suc_pred)
  qed (simp add: dec_nat_small)
qed

lemma digit_count_unique:
  assumes "v < 10 ^ a" "10 ^ (a - 1) \<le> v" "v < 10 ^ b" "10 ^ (b - 1) \<le> (v::nat)"
    "0 < a" "0 < b"
  shows "a = b"
proof (rule ccontr)
  assume "a \<noteq> b"
  then consider "a \<le> b - 1" | "b \<le> a - 1" using assms(5,6) by linarith
  then show False
  proof cases
    case 1
    then have "(10::nat) ^ a \<le> 10 ^ (b - 1)" by (intro power_increasing) auto
    with assms show False by linarith
  next
    case 2
    then have "(10::nat) ^ b \<le> 10 ^ (a - 1)" by (intro power_increasing) auto
    with assms show False by linarith
  qed
qed

lemma digits10_bounds:
  "0 < digits10 v \<and> v < 10 ^ digits10 v \<and> (10 \<le> v \<longrightarrow> 10 ^ (digits10 v - 1) \<le> v)"
proof (induction v rule: digits10.induct)
  case (1 v)
  show ?case
  proof (cases "v < 1000000000000")
    case True
    then have "digits10 v = (if v < 10 then 1 else if v < 100 then 2 else if v < 1000 then 3
      else if v < 10000 then 4 else if v < 100000 then 5 else if v < 1000000 then 6
      else if v < 10000000 then 7 else if v < 100000000 then 8 else if v < 1000000000 then 9
      else if v < 10000000000 then 10 else if v < 100000000000 then 11 else 12)"
      by (subst digits10.simps) simp
    with True show ?thesis by simp
  next
    case False
    let ?w = "v div 1000000000000"
    have d: "digits10 v = 12 + digits10 ?w" using False by (subst digits10.simps) simp
    from 1 False have IH: "0 < digits10 ?w" "?w < 10 ^ digits10 ?w"
      "10 \<le> ?w \<longrightarrow> 10 ^ (digits10 ?w - 1) \<le> ?w" by auto
    have lo: "10 ^ (digits10 ?w - 1) \<le> ?w"
    proof (cases "10 \<le> ?w")
      case False
      then have "digits10 ?w = 1" by (subst digits10.simps) simp
      moreover have "1 \<le> ?w" using \<open>\<not> v < 1000000000000\<close> by (simp add: div_greater_zero_iff)
      ultimately show ?thesis by simp
    qed (use IH in simp)
    obtain k where k: "digits10 ?w = Suc k" using IH(1) by (cases "digits10 ?w") auto
    have big: "(10::nat) ^ 12 = 1000000000000" by simp
    have "v < 10 ^ Suc k * 1000000000000"
      using IH(2) unfolding k by (simp only: div_less_iff_less_mult)
    then have "v < 10 ^ (Suc k + 12)" by (simp only: power_add big)
    moreover have "10 ^ k * 1000000000000 \<le> v"
      using lo unfolding k by (simp only: diff_Suc_1 less_eq_div_iff_mult_less_eq)
    then have "10 ^ (k + 12) \<le> v" by (simp only: power_add big)
    moreover have "digits10 v = Suc k + 12" "digits10 v - 1 = k + 12" using d k by simp_all
    ultimately show ?thesis by (simp only:) simp
  qed
qed

lemma digits10_eq: "digits10 v = length (dec_nat v)"
proof (cases "v < 10")
  case True
  then show ?thesis by (simp add: digits10.simps [of v] dec_nat_small)
next
  case False
  then show ?thesis
    using dec_nat_bounds [of v] digits10_bounds [of v]
    by (intro digit_count_unique [of v]) auto
qed

subsection \<open>Output is decimal notation\<close>

lemma digit_pairs_eq:
  "digit_pairs = concat (map (\<lambda>k. [ch_0 + of_nat (k div 10), ch_0 + of_nat (k mod 10)]) [0..<100])"
  by (simp add: digit_pairs_def upt_rec)

lemma nth_concat_pairs:
  "k < n \<Longrightarrow> concat (map (\<lambda>k. [f k, g k]) [m..<m + n]) ! (k * 2) = f (m + k)
     \<and> concat (map (\<lambda>k. [f k, g k]) [m..<m + n]) ! Suc (k * 2) = g (m + k)"
proof (induction n arbitrary: m k)
  case (Suc n)
  have "[m..<m + Suc n] = m # [Suc m..<Suc m + n]" by (simp add: upt_rec)
  with Suc.IH [of "k - 1" "Suc m"] Suc.prems show ?case by (cases k) simp_all
qed simp

lemma digit_pairs_nth:
  assumes "k < 100"
  shows "digit_pairs ! (k * 2) = ch_0 + of_nat (k div 10)"
    and "digit_pairs ! Suc (k * 2) = ch_0 + of_nat (k mod 10)"
  using nth_concat_pairs [of k 100 "\<lambda>k. ch_0 + of_nat (k div 10)" "\<lambda>k. ch_0 + of_nat (k mod 10)" 0]
    assms by (simp_all add: digit_pairs_eq)

lemma ull2string_loop_correct:
  "length A = length (dec_nat v) \<Longrightarrow>
   \<exists>r t. ull2string_loop (A @ suf) (length A - 1) v
           = Some (take (length (dec_nat r)) A @ t @ suf, length (dec_nat r) - 1, r)
       \<and> dec_nat v = dec_nat r @ t \<and> r < 100"
proof (induction v arbitrary: A suf rule: less_induct)
  case (less v)
  show ?case
  proof (cases "100 \<le> v")
    case False
    then show ?thesis
      by (intro exI [of _ v] exI [of _ "[]"]) (simp add: ull2string_loop.simps less.prems)
  next
    case True
    let ?k = "v mod 100"
    let ?d1 = "ch_0 + of_nat (?k div 10) :: byte" and ?d0 = "ch_0 + of_nat (?k mod 10) :: byte"
    have dec: "dec_nat v = dec_nat (v div 100) @ [?d1, ?d0]" by (rule dec_nat_step2 [OF True])
    then have len: "length A = length (dec_nat (v div 100)) + 2" using less.prems by simp
    define B where "B = take (length (dec_nat (v div 100))) A"
    have "\<exists>x y. A = B @ [x, y]"
    proof -
      have "length (drop (length (dec_nat (v div 100))) A) = 2" using len by simp
      then obtain x y where "drop (length (dec_nat (v div 100))) A = [x, y]"
        by (rule length_2E)
      then show ?thesis unfolding B_def by (metis append_take_drop_id)
    qed
    then obtain x y where A: "A = B @ [x, y]" by blast
    have lB: "length B = length (dec_nat (v div 100))" using len by (simp add: B_def)
    have w1: "mem_write (B @ x # y # suf) (Suc (length B)) [?d0] = Some (B @ x # ?d0 # suf)"
      using mem_write_at [of "B @ [x]" "Suc (length B)" y suf ?d0] by simp
    have step: "ull2string_loop (A @ suf) (length A - 1) v
        = ull2string_loop (B @ [?d1, ?d0] @ suf) (length B - 1) (v div 100)"
      using True digit_pairs_nth [of ?k] w1
      by (subst ull2string_loop.simps) (simp add: A)
    have "v div 100 < v" using True by simp
    from less.IH [OF this lB, of "[?d1, ?d0] @ suf"] obtain r t where
      "ull2string_loop (B @ [?d1, ?d0] @ suf) (length B - 1) (v div 100)
         = Some (take (length (dec_nat r)) B @ t @ [?d1, ?d0] @ suf, length (dec_nat r) - 1, r)"
      and rt: "dec_nat (v div 100) = dec_nat r @ t" "r < 100" by blast
    moreover have "take (length (dec_nat r)) B = take (length (dec_nat r)) A"
      using lB rt(1) by (simp add: A)
    ultimately show ?thesis
      using step dec by (intro exI [of _ r] exI [of _ "t @ [?d1, ?d0]"]) simp
  qed
qed

lemma ull2string_correct:
  assumes "digits10 v < dstlen" "dstlen \<le> length dst"
  shows "ull2string dst dstlen v
    = Some (dec_nat v @ [0] @ drop (Suc (digits10 v)) dst, digits10 v)"
proof -
  let ?n = "length (dec_nat v)"
  have n: "digits10 v = ?n" by (rule digits10_eq)
  define A where "A = take ?n dst"
  define suf where "suf = drop (Suc ?n) dst"
  have lA: "length A = ?n" using assms by (simp add: A_def n)
  have dst: "dst = A @ dst ! ?n # suf"
    using assms by (simp add: A_def suf_def n id_take_nth_drop [symmetric])
  have w0: "mem_write dst ?n [0] = Some (A @ 0 # suf)"
    using mem_write_at [OF lA, of "dst ! ?n" suf 0] dst by simp
  from ull2string_loop_correct [OF lA, of "0 # suf"] obtain r t where
    loop: "ull2string_loop (A @ 0 # suf) (?n - 1) v
      = Some (take (length (dec_nat r)) A @ t @ 0 # suf, length (dec_nat r) - 1, r)"
    and dec: "dec_nat v = dec_nat r @ t" and r: "r < 100" using lA by auto
  show ?thesis
  proof (cases "r < 10")
    case True
    have dr: "dec_nat r = [ch_0 + of_nat r]" using True by (rule dec_nat_small)
    obtain x where "take (length (dec_nat r)) A = [x]"
      using dr dec lA by (cases A) auto
    with True loop w0 dr dec assms(1) show ?thesis
      unfolding ull2string_def n suf_def [symmetric]
      using mem_write_at [of "[]" 0 x "t @ 0 # suf" "ch_0 + of_nat r"]
      by (simp add: Let_def suf_def)
  next
    case False
    have dr: "dec_nat r = [ch_0 + of_nat (r div 10), ch_0 + of_nat (r mod 10)]"
      using False r by (simp add: dec_nat_step [of r] dec_nat_small)
    have "length (take (length (dec_nat r)) A) = 2" using dr dec lA by simp
    then obtain x y where "take (length (dec_nat r)) A = [x, y]"
      by (rule length_2E)
    with False loop w0 dr dec assms(1) show ?thesis
      unfolding ull2string_def n suf_def [symmetric]
      using mem_write_at [of "[x]" 1 y "t @ 0 # suf" "ch_0 + of_nat (r mod 10)"]
        mem_write_at [of "[]" 0 x "(ch_0 + of_nat (r mod 10)) # t @ 0 # suf" "ch_0 + of_nat (r div 10)"]
        digit_pairs_nth [OF r]
      by (simp add: Let_def suf_def)
  qed
qed

lemma sdigits10_eq:
  "LLONG_MIN \<le> v \<Longrightarrow> sdigits10 v = length (decimal v)"
  by (auto simp: sdigits10_def decimal_def digits10_eq LLONG_MIN_def LLONG_MAX_def)

lemma ll2string_correct:
  assumes "LLONG_MIN \<le> v" "sdigits10 v < dstlen" "dstlen \<le> length dst"
  shows "ll2string dst dstlen v
    = Some (decimal v @ [0] @ drop (Suc (sdigits10 v)) dst, sdigits10 v)"
proof (cases "v < 0")
  case False
  then have "digits10 (nat v) < dstlen" using assms(2) by (simp add: sdigits10_def)
  from ull2string_correct [OF this assms(3)] False show ?thesis
    by (simp add: ll2string_def sdigits10_def decimal_def digits10_eq)
next
  case True
  define u where "u = nat (- v)"
  have u: "(if v \<noteq> LLONG_MIN then nat (- v) else nat LLONG_MAX + 1) = u"
    by (simp add: u_def LLONG_MIN_def LLONG_MAX_def)
  have sd: "sdigits10 v = Suc (digits10 u)" using True u by (simp add: sdigits10_def)
  then have len: "digits10 u < dstlen - 1" "dstlen \<ge> 2" using assms(2) by auto
  obtain x rest where dst: "dst = x # rest" using assms len by (cases dst) auto
  then have "dstlen - 1 \<le> length rest" using assms(3) by simp
  from ull2string_correct [OF len(1) this] show ?thesis
    using True len(2) u mem_write_at [of "[]" 0 x rest ch_minus]
    by (simp add: ll2string_def dst sd decimal_def u_def digits10_eq)
qed

lemma ll2string_too_small:
  assumes "LLONG_MIN \<le> v" "dstlen \<le> sdigits10 v" "dstlen \<le> length dst"
  shows "\<exists>dst'. ll2string dst dstlen v = Some (dst', 0) \<and> length dst' = length dst"
proof -
  have small: "\<exists>d'. ull2string d n u = Some (d', 0) \<and> length d' = length d"
    if "n \<le> digits10 u" "n \<le> length d" for d n u
    using that by (auto simp: ull2string_def mem_write_def Let_def)
  show ?thesis
  proof (cases "v < 0 \<and> dstlen \<ge> 2")
    case True
    define u where "u = nat (- v)"
    have u: "(if v \<noteq> LLONG_MIN then nat (- v) else nat LLONG_MAX + 1) = u"
      by (simp add: u_def LLONG_MIN_def LLONG_MAX_def)
    obtain x rest where dst: "dst = x # rest" using assms True by (cases dst) auto
    have "dstlen - 1 \<le> digits10 u" using True u assms(2) by (simp add: sdigits10_def)
    moreover have "dstlen - 1 \<le> length rest" using assms(3) dst by simp
    ultimately obtain d' where "ull2string rest (dstlen - 1) u = Some (d', 0)"
      "length d' = length rest" using small by blast
    with True u mem_write_at [of "[]" 0 x rest ch_minus] show ?thesis
      by (simp add: ll2string_def dst)
  next
    case False
    then show ?thesis using assms small [of dstlen "nat v" dst]
      by (auto simp: ll2string_def mem_write_def sdigits10_def)
  qed
qed

subsection \<open>Input accepts exactly decimal notation\<close>

lemma dec_val_ge: "v \<le> dec_val v ds"
proof (induction ds arbitrary: v)
  case (Cons c ds)
  then show ?case by (metis dec_val_simps(2) le_add1 le_add2 le_trans mult.commute mult_le_mono1
      nat_mult_1 one_le_numeral)
qed simp

lemma string2ll_loop_eq:
  assumes "list_all is_digit ds" "dec_val v ds \<le> ULLONG_MAX"
  shows "string2ll_loop ds v = Some (dec_val v ds, [])"
  using assms
proof (induction ds arbitrary: v)
  case (Cons c ds)
  have "v * 10 + unat (c - ch_0) \<le> ULLONG_MAX"
    using Cons.prems(2) dec_val_ge [of "v * 10 + unat (c - ch_0)" ds] by simp
  with Cons show ?case by (auto simp: is_digit_def ULLONG_MAX_def)
qed simp

lemma string2ll_loop_sound:
  "string2ll_loop ds v = Some (w, []) \<Longrightarrow> list_all is_digit ds \<and> w = dec_val v ds"
  by (induction ds arbitrary: v) (auto simp: is_digit_def split: if_splits)

lemma digit_of_nat: "d < 10 \<Longrightarrow> is_digit (ch_0 + of_nat d) \<and> unat (ch_0 + of_nat d - ch_0) = d"
  by (simp add: is_digit_def word_le_nat_alt unat_word_ariths unat_of_nat)

lemma nat_of_digit: "is_digit c \<Longrightarrow> unat (c - ch_0) < 10 \<and> ch_0 + of_nat (unat (c - ch_0)) = c"
  by (auto simp: is_digit_def word_le_nat_alt unat_sub_if')

lemma dec_nat_digits:
  assumes "0 < n"
  shows "\<exists>d ds. dec_nat n = (ch_0 + of_nat d) # ds \<and> 0 < d \<and> d < 10
           \<and> list_all is_digit ds \<and> dec_val d ds = n"
  using assms
proof (induction n rule: dec_nat.induct)
  case (1 n)
  show ?case
  proof (cases "n < 10")
    case True
    with 1(2) show ?thesis by (simp add: dec_nat_small)
  next
    case False
    moreover have "0 < n div 10" using False by (simp add: div_greater_zero_iff)
    ultimately obtain d ds where "dec_nat (n div 10) = (ch_0 + of_nat d) # ds" "0 < d" "d < 10"
      "list_all is_digit ds" "dec_val d ds = n div 10" using 1 by blast
    with False digit_of_nat [of "n mod 10"] show ?thesis
      by (intro exI [of _ d] exI [of _ "ds @ [ch_0 + of_nat (n mod 10)]"]) (simp add: dec_nat_step)
  qed
qed

lemma dec_nat_dec_val:
  "0 < v \<Longrightarrow> list_all is_digit ds \<Longrightarrow> dec_nat (dec_val v ds) = dec_nat v @ ds"
proof (induction ds rule: rev_induct)
  case (snoc c ds)
  then have "0 < dec_val v ds" using dec_val_ge [of v ds] by linarith
  with snoc nat_of_digit [of c] show ?case by (simp add: dec_nat_snoc)
qed simp

lemma length_decimal_bound:
  assumes "LLONG_MIN \<le> v" "v \<le> LLONG_MAX"
  shows "length (decimal v) < LONG_STR_SIZE"
proof -
  have "length (dec_nat n) \<le> 19" if "n \<le> 2 ^ 63" for n
  proof (rule ccontr)
    assume c: "\<not> length (dec_nat n) \<le> 19"
    then have "0 < n" by (cases "n = 0") (auto simp: dec_nat_small)
    then have "10 ^ (length (dec_nat n) - 1) \<le> n" using dec_nat_bounds [of n] by simp
    moreover have "(10::nat) ^ 19 \<le> 10 ^ (length (dec_nat n) - 1)"
      using c by (intro power_increasing) auto
    ultimately have "(10::nat) ^ 19 \<le> 2 ^ 63" using that by linarith
    then show False by simp
  qed
  moreover have "nat (- v) \<le> 2 ^ 63" "nat v \<le> 2 ^ 63"
    using assms by (auto simp: LLONG_MIN_def LLONG_MAX_def)
  ultimately show ?thesis by (fastforce simp: decimal_def LONG_STR_SIZE_def less_Suc_eq_le)
qed

lemma string2ll_decimal:
  assumes "LLONG_MIN \<le> v" "v \<le> LLONG_MAX"
  shows "string2ll (decimal v) = Some v"
proof (cases "v = 0")
  case True
  then show ?thesis by (simp add: string2ll_def decimal_def dec_nat_small LONG_STR_SIZE_def)
next
  case False
  define u where "u = nat \<bar>v\<bar>"
  then have "0 < u" using False by simp
  from dec_nat_digits [OF this] obtain d ds where
    dec: "dec_nat u = (ch_0 + of_nat d) # ds" and d: "0 < d" "d < 10"
    and ds: "list_all is_digit ds" "dec_val d ds = u" by blast
  have u64: "int u \<le> 2 ^ 63" using assms by (auto simp: u_def LLONG_MIN_def LLONG_MAX_def)
  then have "dec_val d ds \<le> ULLONG_MAX" using ds(2) by (simp add: ULLONG_MAX_def)
  then have loop: "string2ll_loop ds d = Some (u, [])" using string2ll_loop_eq ds by auto
  have hd: "ch_1 \<le> ch_0 + of_nat d" "ch_0 + of_nat d \<le> ch_9" "unat (ch_0 + of_nat d - ch_0 :: byte) = d"
    "(ch_0 + of_nat d :: byte) \<noteq> ch_minus" "(ch_0 + of_nat d :: byte) \<noteq> ch_0"
  proof -
    have "d = 1 \<or> d = 2 \<or> d = 3 \<or> d = 4 \<or> d = 5 \<or> d = 6 \<or> d = 7 \<or> d = 8 \<or> d = 9"
      using d by arith
    then show "ch_1 \<le> ch_0 + of_nat d" "ch_0 + of_nat d \<le> ch_9" "unat (ch_0 + of_nat d - ch_0 :: byte) = d"
      "(ch_0 + of_nat d :: byte) \<noteq> ch_minus" "(ch_0 + of_nat d :: byte) \<noteq> ch_0" by auto
  qed
  have "length (decimal v) < LONG_STR_SIZE" using length_decimal_bound assms by blast
  then show ?thesis
  proof (cases "v < 0")
    case True
    then have "decimal v = ch_minus # (ch_0 + of_nat d) # ds" "v = - int u" "int u \<le> 2 ^ 63"
      using dec u64 by (simp_all add: decimal_def u_def)
    with \<open>length (decimal v) < LONG_STR_SIZE\<close> loop hd show ?thesis
      by (simp add: string2ll_def LLONG_MIN_def)
  next
    case False
    then have "decimal v = (ch_0 + of_nat d) # ds" "v = int u" "int u \<le> LLONG_MAX"
      using dec assms(2) by (simp_all add: decimal_def u_def)
    with \<open>length (decimal v) < LONG_STR_SIZE\<close> loop hd show ?thesis
      by (simp add: string2ll_def)
  qed
qed

lemma string2ll_sound:
  assumes "string2ll s = Some v"
  shows "LLONG_MIN \<le> v \<and> v \<le> LLONG_MAX \<and> s = decimal v"
proof (cases "s = [ch_0]")
  case True
  with assms show ?thesis
    by (simp add: string2ll_def decimal_def dec_nat_small LLONG_MIN_def LLONG_MAX_def LONG_STR_SIZE_def)
next
  case False
  define p where "p = (if hd s = ch_minus then tl s else s)"
  from assms have "s \<noteq> []" by (auto simp: string2ll_def)
  with False assms obtain w where p: "p \<noteq> []" "ch_1 \<le> hd p" "hd p \<le> ch_9"
    and loop: "string2ll_loop (tl p) (unat (hd p - ch_0)) = Some (w, [])"
    and v: "v = (if hd s = ch_minus then - int w else int w)"
    and rng: "if hd s = ch_minus then int w \<le> - (LLONG_MIN + 1) + 1 else int w \<le> LLONG_MAX"
    by (cases s) (auto simp: string2ll_def p_def Let_def split: if_splits option.splits prod.splits)
  let ?d = "unat (hd p - ch_0)"
  have dig: "is_digit (hd p)" using p by (auto simp: is_digit_def word_le_nat_alt)
  have d0: "0 < ?d" using p by (auto simp: word_le_nat_alt unat_sub_if')
  from string2ll_loop_sound [OF loop] have w: "list_all is_digit (tl p)" "w = dec_val ?d (tl p)"
    by auto
  have "dec_nat w = p"
    using dec_nat_dec_val [OF d0 w(1)] w(2) nat_of_digit [OF dig] p(1) by (simp add: dec_nat_small)
  moreover have "0 < w" using d0 w(2) dec_val_ge [of ?d "tl p"] by linarith
  ultimately show ?thesis using v rng \<open>s \<noteq> []\<close>
    by (cases s) (auto simp: decimal_def p_def LLONG_MIN_def LLONG_MAX_def split: if_splits)
qed

subsection \<open>The hexadecimal parser\<close>

definition hex_digit :: "byte \<Rightarrow> nat option" where
  "hex_digit c = (if 48 \<le> c \<and> c \<le> 57 then Some (unat c - 48)
     else if 97 \<le> c \<and> c \<le> 102 then Some (unat c - 87)
     else if 65 \<le> c \<and> c \<le> 70 then Some (unat c - 55) else None)"

fun hex_val :: "nat \<Rightarrow> byte list \<Rightarrow> nat" where
  "hex_val v [] = v"
| "hex_val v (c # cs) = (case hex_digit c of None \<Rightarrow> v | Some d \<Rightarrow> hex_val (v * 16 + d) cs)"

lemma safe_is_c_in_range_ascii:
  assumes "unat a < 128" "unat b < 128"
  shows "safe_is_c_in_range c a b \<longleftrightarrow> unat a \<le> unat c \<and> unat c \<le> unat b"
proof (cases "unat c < 128")
  case True
  with assms show ?thesis
    by (simp only: safe_is_c_in_range_def sint_byte if_True of_nat_le_iff)
next
  case False
  then have "int (unat c) - 256 < int (unat a)" using unat_byte_less [of c] by linarith
  with False assms show ?thesis
    by (simp only: safe_is_c_in_range_def sint_byte if_True if_False) linarith
qed

lemma base_16_char_type_eq:
  "base_16_char_type c = (if 48 \<le> unat c \<and> unat c \<le> 57 then 0
     else if 97 \<le> unat c \<and> unat c \<le> 102 then 1 else if 65 \<le> unat c \<and> unat c \<le> 70 then 2 else -1)"
  by (simp add: base_16_char_type_def safe_is_c_in_range_ascii)

lemma hex_digit_eq:
  "hex_digit c = (if 48 \<le> unat c \<and> unat c \<le> 57 then Some (unat c - 48)
     else if 97 \<le> unat c \<and> unat c \<le> 102 then Some (unat c - 87)
     else if 65 \<le> unat c \<and> unat c \<le> 70 then Some (unat c - 55) else None)"
  by (simp add: hex_digit_def word_le_nat_alt)

lemma unat_minus_byte: "unat k \<le> unat (c::byte) \<Longrightarrow> unat (c - k) = unat c - unat k"
  by (simp add: unat_sub word_le_nat_alt)

lemma base_16_char_type_hex:
  "base_16_char_type c = -1 \<longleftrightarrow> hex_digit c = None"
  "hex_digit c = Some d \<Longrightarrow> unat (c - [48, 97 - 10, 65 - 10] ! nat (base_16_char_type c)) = d"
proof -
  show "base_16_char_type c = -1 \<longleftrightarrow> hex_digit c = None"
    by (simp add: base_16_char_type_eq hex_digit_eq)
  assume h: "hex_digit c = Some d"
  then consider "48 \<le> unat c" "unat c \<le> 57" | "97 \<le> unat c" "unat c \<le> 102"
    | "65 \<le> unat c" "unat c \<le> 70" by (auto simp: hex_digit_eq split: if_splits)
  then show "unat (c - [48, 97 - 10, 65 - 10] ! nat (base_16_char_type c)) = d"
    using h by cases (simp_all add: base_16_char_type_eq hex_digit_eq unat_minus_byte)
qed

lemma hex_digit_less: "hex_digit c = Some d \<Longrightarrow> d < 16"
  by (auto simp: hex_digit_eq split: if_splits)

lemma hex_overflow_check:
  assumes "d < 16"
  shows "(r > ULLONG_MAX div 16 \<or> r > (ULLONG_MAX - d) div 16) \<longleftrightarrow> r * 16 + d > ULLONG_MAX"
  using assms by (auto simp: ULLONG_MAX_def)

lemma hex_val_ge: "v \<le> hex_val v cs"
proof (induction cs arbitrary: v)
  case (Cons c cs)
  show ?case
  proof (cases "hex_digit c")
    case (Some d)
    have "v \<le> v * 16 + d" by simp
    with Cons [of "v * 16 + d"] Some show ?thesis by simp
  qed simp
qed simp

text \<open>
  The digits read are the hexadecimal prefix of the first \<open>slen\<close> bytes.  The block holds one
  more byte than \<open>slen\<close> (the terminator of a C string), which the loop reads.
\<close>

lemma string2ul_base16_loop_correct:
  assumes "slen < length src" "idx \<le> slen" "r \<le> ULLONG_MAX"
  shows "string2ul_base16_loop src slen idx r
    = Some (let v = hex_val r (take (slen - idx) (drop idx src))
            in if v \<le> ULLONG_MAX then HexOk v else HexOverflow)"
  using assms
proof (induction src slen idx r rule: string2ul_base16_loop.induct)
  case (1 src slen idx r)
  have rd: "mem_read src idx 1 = Some [src ! idx]"
    using 1(2,3) by (simp add: mem_read_def take_Suc hd_drop_conv_nth)
  show ?case
  proof (cases "idx < slen \<and> hex_digit (src ! idx) \<noteq> None")
    case False
    then have "hex_val r (take (slen - idx) (drop idx src)) = r"
      using 1(2,3) by (cases "idx < slen") (auto simp: take_Cons' Cons_nth_drop_Suc [symmetric])
    with False 1(4) rd show ?thesis
      by (auto simp: string2ul_base16_loop.simps [of src slen idx r] base_16_char_type_hex)
  next
    case True
    then obtain d where d: "hex_digit (src ! idx) = Some d" and lt: "idx < slen" by auto
    have sub: "take (slen - idx) (drop idx src)
        = src ! idx # take (slen - (idx + 1)) (drop (idx + 1) src)"
      using lt 1(2) by (simp add: Cons_nth_drop_Suc [symmetric] take_Cons')
    have unf: "string2ul_base16_loop src slen idx r =
        (if r * 16 + d > ULLONG_MAX then Some HexOverflow
         else string2ul_base16_loop src slen (idx + 1) (r * 16 + d))"
      using rd d lt base_16_char_type_hex [of "src ! idx"] hex_overflow_check [OF hex_digit_less [OF d], of r]
      by (subst string2ul_base16_loop.simps) (auto simp: Let_def)
    show ?thesis
    proof (cases "r * 16 + d > ULLONG_MAX")
      case True
      then show ?thesis using unf sub d hex_val_ge [of "r * 16 + d" "take (slen - (idx + 1)) (drop (idx + 1) src)"]
        by (simp add: Let_def)
    next
      case False
      have "string2ul_base16_loop src slen (idx + 1) (r * 16 + d)
          = Some (let v = hex_val (r * 16 + d) (take (slen - (idx + 1)) (drop (idx + 1) src))
                  in if v \<le> ULLONG_MAX then HexOk v else HexOverflow)"
        using 1(1) [OF rd refl] lt d base_16_char_type_hex [of "src ! idx"] False
          hex_overflow_check [OF hex_digit_less [OF d], of r] 1(2) by simp
      with False unf sub d show ?thesis by simp
    qed
  qed
qed

subsection \<open>Main results\<close>

text \<open>
  C2. \<open>string2ll\<close> accepts exactly the canonical decimal notation of the 64-bit integers, and returns
  the number written: no leading zeros, no plus sign, no spaces, no \<open>-0\<close>, no overflow.
\<close>

theorem string2ll_iff:
  "string2ll s = Some v \<longleftrightarrow> LLONG_MIN \<le> v \<and> v \<le> LLONG_MAX \<and> s = decimal v"
  using string2ll_decimal string2ll_sound by blast

text \<open>
  C3. \<open>ll2string\<close> never writes outside the destination.  When the buffer has room for the digits, the
  sign and the terminator it holds the decimal notation of the number, which \<open>string2ll\<close> reads
  back; otherwise the returned length is 0.
\<close>

theorem ll2string_roundtrip:
  assumes "LLONG_MIN \<le> v" "v \<le> LLONG_MAX" "dstlen \<le> length dst"
  shows "\<exists>dst'. ll2string dst dstlen v
      = Some (dst', if length (decimal v) < dstlen then length (decimal v) else 0)
    \<and> length dst' = length dst
    \<and> (length (decimal v) < dstlen \<longrightarrow>
        take (length (decimal v)) dst' = decimal v \<and> dst' ! length (decimal v) = 0
        \<and> string2ll (take (length (decimal v)) dst') = Some v)"
proof (cases "length (decimal v) < dstlen")
  case True
  then show ?thesis
    using ll2string_correct [OF assms(1) _ assms(3)] assms string2ll_decimal [OF assms(1,2)]
    by (auto simp: sdigits10_eq)
next
  case False
  then show ?thesis using ll2string_too_small [OF assms(1) _ assms(3)] assms by (auto simp: sdigits10_eq)
qed

theorem ll2string_roundtrip_witness:
  "\<exists>dst'. ll2string (replicate 21 1) 21 (- 1234567)
      = Some (dst', if length (decimal (- 1234567)) < 21 then length (decimal (- 1234567)) else 0)
    \<and> length dst' = length (replicate 21 (1::byte))
    \<and> (length (decimal (- 1234567)) < 21 \<longrightarrow>
        take (length (decimal (- 1234567))) dst' = decimal (- 1234567)
        \<and> dst' ! length (decimal (- 1234567)) = 0
        \<and> string2ll (take (length (decimal (- 1234567))) dst') = Some (- 1234567))"
  by (rule ll2string_roundtrip) (simp_all add: LLONG_MIN_def LLONG_MAX_def)

text \<open>
  C8. \<open>string2ul_base16_async_signal_safe\<close> reads the longest hexadecimal prefix of the first
  \<open>slen\<close> bytes, upper or lower case, and reports an overflow exactly when its value does not fit
  64 bits, provided a byte follows the \<open>slen\<close> bytes.
\<close>

theorem string2ul_base16_correct:
  assumes "slen < length src"
  shows "string2ul_base16_async_signal_safe src slen
    = Some (if hex_val 0 (take slen src) \<le> ULLONG_MAX then HexOk (hex_val 0 (take slen src))
            else HexOverflow)"
  using string2ul_base16_loop_correct [OF assms, of 0 0]
  by (simp add: string2ul_base16_async_signal_safe_def ULLONG_MAX_def Let_def)

theorem string2ul_base16_correct_witness:
  "string2ul_base16_async_signal_safe [49, 70, 103, 0] 3
    = Some (if hex_val 0 (take 3 [49, 70, 103, 0]) \<le> ULLONG_MAX
            then HexOk (hex_val 0 (take 3 [49, 70, 103, 0])) else HexOverflow)
   \<and> hex_val 0 (take 3 [49, 70, 103, 0]) = 31"
  using string2ul_base16_correct [of 3 "[49, 70, 103, 0]"]
  by (simp add: hex_digit_def)

lemma string2ul_base16_loop_overread:
  assumes "list_all (\<lambda>c. hex_digit c \<noteq> None) (drop idx src)" "idx \<le> length src"
    "hex_val r (drop idx src) \<le> ULLONG_MAX"
  shows "string2ul_base16_loop src (length src) idx r = None"
  using assms
proof (induction src "length src" idx r rule: string2ul_base16_loop.induct)
  case (1 src idx r)
  show ?case
  proof (cases "idx < length src")
    case False
    then have "mem_read src idx 1 = None" by (simp add: mem_read_def)
    then show ?thesis by (subst string2ul_base16_loop.simps) simp
  next
    case True
    then have dr: "drop idx src = src ! idx # drop (idx + 1) src" by (simp add: Cons_nth_drop_Suc)
    with 1(2) obtain d where d: "hex_digit (src ! idx) = Some d" by auto
    have rd: "mem_read src idx 1 = Some [src ! idx]"
      using True by (simp add: mem_read_def take_Suc hd_drop_conv_nth)
    have v: "hex_val (r * 16 + d) (drop (idx + 1) src) \<le> ULLONG_MAX"
      using 1(4) unfolding dr by (simp add: d)
    then have nov: "r * 16 + d \<le> ULLONG_MAX" using hex_val_ge le_trans by blast
    have "string2ul_base16_loop src (length src) (idx + 1) (r * 16 + d) = None"
      using 1(1) [OF rd refl] True d base_16_char_type_hex [of "src ! idx"] nov v 1(2)
        hex_overflow_check [OF hex_digit_less [OF d], of r] dr by auto
    then show ?thesis
      using rd d True base_16_char_type_hex [of "src ! idx"] nov
        hex_overflow_check [OF hex_digit_less [OF d], of r]
      by (subst string2ul_base16_loop.simps) (auto simp: Let_def)
  qed
qed

text \<open>
  C10. The loop reads \<open>src[slen]\<close> before it compares the index with \<open>slen\<close>: on a block of exactly
  \<open>slen\<close> bytes, all of them hexadecimal digits of a value that fits, the read is out of bounds.
\<close>

theorem string2ul_base16_overread:
  assumes "list_all (\<lambda>c. hex_digit c \<noteq> None) src" "hex_val 0 src \<le> ULLONG_MAX"
  shows "string2ul_base16_async_signal_safe src (length src) = None"
  using string2ul_base16_loop_overread [of 0 src 0] assms
  by (simp add: string2ul_base16_async_signal_safe_def)

theorem string2ul_base16_overread_witness:
  "string2ul_base16_async_signal_safe [49, 70] (length [49, 70 :: byte]) = None"
  by (rule string2ul_base16_overread) (simp_all add: hex_digit_def ULLONG_MAX_def)

end
