(* ===== verification/Listpack.thy ===== *)
theory Listpack
  imports Util Interfaces
begin

section \<open>Listpacks (listpack.c): the model\<close>

text \<open>
  A listpack is one block of memory: four bytes of total length, two bytes with the number of
  elements (65535 when it is not known), the entries, and a byte \<open>0xFF\<close>.  An entry is an encoded
  integer or string followed by its length, written so that it can be read from the right.  The
  block \<open>lp\<close> is the whole allocation, which may be longer than the listpack; a pointer into it is
  an offset, and a function that only reads forward from a pointer takes the bytes from the
  pointer to the end of the allocation.  An access outside the allocation and a failed assertion
  are \<open>None\<close>; NULL, as a result, is the inner \<open>None\<close>.
\<close>

subsection \<open>The allocator\<close>

text \<open>
  \<open>lp_malloc\<close> and \<open>lp_realloc\<close> call the allocator, which may give more bytes than asked for
  (\<open>usable\<close>) and leaves them with any contents (\<open>fill\<close>).  They do not return NULL: \<^verbatim>\<open>zmalloc.c\<close> aborts
  the process when memory is exhausted.
\<close>

record lp_env =
  usable :: "nat \<Rightarrow> nat"
  fill :: "nat \<Rightarrow> byte"

definition usable_ok :: "lp_env \<Rightarrow> bool" where
  "usable_ok env \<longleftrightarrow> (\<forall>n. n \<le> usable env n)"

definition lp_malloc :: "lp_env \<Rightarrow> nat \<Rightarrow> byte list" where
  "lp_malloc env sz = map (fill env) [0..<usable env sz]"

definition lp_realloc :: "lp_env \<Rightarrow> byte list \<Rightarrow> nat \<Rightarrow> byte list" where
  "lp_realloc env lp sz = mem_realloc (fill env) lp (usable env sz)"

abbreviation (input) lp_malloc_size :: "byte list \<Rightarrow> nat" where
  "lp_malloc_size lp \<equiv> length lp"

subsection \<open>Constants and header\<close>

definition LP_HDR_SIZE :: nat where "LP_HDR_SIZE = 6"
definition LP_HDR_NUMELE_UNKNOWN :: nat where "LP_HDR_NUMELE_UNKNOWN = 65535"
definition LISTPACK_MAX_SAFETY_SIZE :: nat where "LISTPACK_MAX_SAFETY_SIZE = 2 ^ 30"
definition LP_INTBUF_SIZE :: nat where "LP_INTBUF_SIZE = 21"

definition LP_ENCODING_IS_7BIT_UINT :: "byte \<Rightarrow> bool" where
  "LP_ENCODING_IS_7BIT_UINT b \<longleftrightarrow> and b 0x80 = 0"
definition LP_ENCODING_IS_6BIT_STR :: "byte \<Rightarrow> bool" where
  "LP_ENCODING_IS_6BIT_STR b \<longleftrightarrow> and b 0xC0 = 0x80"
definition LP_ENCODING_IS_13BIT_INT :: "byte \<Rightarrow> bool" where
  "LP_ENCODING_IS_13BIT_INT b \<longleftrightarrow> and b 0xE0 = 0xC0"
definition LP_ENCODING_IS_12BIT_STR :: "byte \<Rightarrow> bool" where
  "LP_ENCODING_IS_12BIT_STR b \<longleftrightarrow> and b 0xF0 = 0xE0"

abbreviation LP_ENCODING_16BIT_INT :: byte where "LP_ENCODING_16BIT_INT \<equiv> 0xF1"
abbreviation LP_ENCODING_24BIT_INT :: byte where "LP_ENCODING_24BIT_INT \<equiv> 0xF2"
abbreviation LP_ENCODING_32BIT_INT :: byte where "LP_ENCODING_32BIT_INT \<equiv> 0xF3"
abbreviation LP_ENCODING_64BIT_INT :: byte where "LP_ENCODING_64BIT_INT \<equiv> 0xF4"
abbreviation LP_ENCODING_32BIT_STR :: byte where "LP_ENCODING_32BIT_STR \<equiv> 0xF0"
abbreviation LP_EOF :: byte where "LP_EOF \<equiv> 0xFF"

text \<open>Reading one byte at an offset.\<close>

definition byte_at :: "byte list \<Rightarrow> nat \<Rightarrow> byte option" where
  "byte_at lp p = (if p < length lp then Some (lp ! p) else None)"

text \<open>Four bytes, and two bytes, put together by shifts and ors: their little-endian value.\<close>

definition lpGetTotalBytes :: "byte list \<Rightarrow> nat option" where
  "lpGetTotalBytes lp = map_option le_nat (mem_read lp 0 4)"

definition lpGetNumElements :: "byte list \<Rightarrow> nat option" where
  "lpGetNumElements lp = map_option le_nat (mem_read lp 4 2)"

definition lpSetTotalBytes :: "byte list \<Rightarrow> nat \<Rightarrow> byte list option" where
  "lpSetTotalBytes lp v = mem_write lp 0 (le_bytes 4 (int v))"

definition lpSetNumElements :: "byte list \<Rightarrow> int \<Rightarrow> byte list option" where
  "lpSetNumElements lp v = mem_write lp 4 (le_bytes 2 v)"

definition lpBytes :: "byte list \<Rightarrow> nat option" where
  "lpBytes lp = lpGetTotalBytes lp"

definition ASSERT_INTEGRITY :: "byte list \<Rightarrow> nat \<Rightarrow> unit option" where
  "ASSERT_INTEGRITY lp p =
     do { bytes \<leftarrow> lpGetTotalBytes lp; if p \<ge> LP_HDR_SIZE \<and> p < bytes then Some () else None }"

definition ASSERT_INTEGRITY_LEN :: "byte list \<Rightarrow> nat \<Rightarrow> nat \<Rightarrow> unit option" where
  "ASSERT_INTEGRITY_LEN lp p len =
     do { bytes \<leftarrow> lpGetTotalBytes lp; if p \<ge> LP_HDR_SIZE \<and> p + len < bytes then Some () else None }"

definition lpSafeToAdd :: "byte list option \<Rightarrow> nat \<Rightarrow> bool option" where
  "lpSafeToAdd lp add =
     do { len \<leftarrow> (case lp of None \<Rightarrow> Some 0 | Some lp \<Rightarrow> lpGetTotalBytes lp);
          Some (\<not> len + add > LISTPACK_MAX_SAFETY_SIZE) }"

definition lpNew :: "lp_env \<Rightarrow> nat \<Rightarrow> byte list option" where
  "lpNew env capacity =
     do { let lp = lp_malloc env (if capacity > LP_HDR_SIZE + 1 then capacity else LP_HDR_SIZE + 1);
          lp \<leftarrow> lpSetTotalBytes lp (LP_HDR_SIZE + 1);
          lp \<leftarrow> lpSetNumElements lp 0;
          mem_write lp LP_HDR_SIZE [LP_EOF] }"

definition lpShrinkToFit :: "lp_env \<Rightarrow> byte list \<Rightarrow> byte list option" where
  "lpShrinkToFit env lp =
     do { sz \<leftarrow> lpGetTotalBytes lp;
          Some (if sz < lp_malloc_size lp then lp_realloc env lp sz else lp) }"

subsection \<open>Encoding\<close>

text \<open>\<open>lpStringToInt64\<close> is a copy of \<open>string2ll\<close>, with the same loop.\<close>

definition lpStringToInt64 :: "byte list \<Rightarrow> int option" where
  "lpStringToInt64 s =
     (if s = [] \<or> length s \<ge> LONG_STR_SIZE then None
      else if length s = 1 \<and> hd s = ch_0 then Some 0
      else
        (let negative = (hd s = ch_minus); p = (if negative then tl s else s) in
         if p = [] then None
         else if ch_1 \<le> hd p \<and> hd p \<le> ch_9 then
           (case string2ll_loop (tl p) (unat (hd p - ch_0)) of
              None \<Rightarrow> None
            | Some (v, rest) \<Rightarrow>
                if rest \<noteq> [] then None
                else if negative then
                  (if int v > - (LLONG_MIN + 1) + 1 then None else Some (- int v))
                else (if int v > LLONG_MAX then None else Some (int v)))
         else None))"

text \<open>The bytes of \<open>intenc\<close>; \<open>*enclen\<close> is their number.\<close>

definition lpEncodeIntegerGetType :: "int \<Rightarrow> byte list" where
  "lpEncodeIntegerGetType v =
     (if v \<ge> 0 \<and> v \<le> 127 then [word_of_int v]
      else if v \<ge> -4096 \<and> v \<le> 4095 then
        (let v = (if v < 0 then 2 ^ 13 + v else v) in
         [or (word_of_int (v div 2 ^ 8)) 0xC0, word_of_int v])
      else if v \<ge> -32768 \<and> v \<le> 32767 then
        LP_ENCODING_16BIT_INT # le_bytes 2 (if v < 0 then 2 ^ 16 + v else v)
      else if v \<ge> -8388608 \<and> v \<le> 8388607 then
        LP_ENCODING_24BIT_INT # le_bytes 3 (if v < 0 then 2 ^ 24 + v else v)
      else if v \<ge> -2147483648 \<and> v \<le> 2147483647 then
        LP_ENCODING_32BIT_INT # le_bytes 4 (if v < 0 then 2 ^ 32 + v else v)
      else LP_ENCODING_64BIT_INT # le_bytes 8 (v mod 2 ^ 64))"

text \<open>\<open>Inl\<close> the integer encoding, \<open>Inr\<close> the length of the string encoding.\<close>

definition lpEncodeGetType :: "byte list \<Rightarrow> byte list + nat" where
  "lpEncodeGetType ele =
     (case lpStringToInt64 ele of
        Some v \<Rightarrow> Inl (lpEncodeIntegerGetType v)
      | None \<Rightarrow>
          (let sz = length ele in
           Inr (if sz < 64 then 1 + sz else if sz < 4096 then 2 + sz else 5 + sz)))"

text \<open>The bytes of \<open>buf\<close>; the result of the C function is their number.\<close>

definition lpEncodeBacklen :: "nat \<Rightarrow> byte list" where
  "lpEncodeBacklen l =
     (if l \<le> 127 then [of_nat l]
      else if l < 16383 then [of_nat (l div 2 ^ 7), or (of_nat (l mod 128)) 128]
      else if l < 2097151 then
        [of_nat (l div 2 ^ 14), or (of_nat (l div 2 ^ 7 mod 128)) 128, or (of_nat (l mod 128)) 128]
      else if l < 268435455 then
        [of_nat (l div 2 ^ 21), or (of_nat (l div 2 ^ 14 mod 128)) 128,
         or (of_nat (l div 2 ^ 7 mod 128)) 128, or (of_nat (l mod 128)) 128]
      else
        [of_nat (l div 2 ^ 28), or (of_nat (l div 2 ^ 21 mod 128)) 128, or (of_nat (l div 2 ^ 14 mod 128)) 128,
         or (of_nat (l div 2 ^ 7 mod 128)) 128, or (of_nat (l mod 128)) 128])"

function lpDecodeBacklen_loop :: "byte list \<Rightarrow> int \<Rightarrow> nat \<Rightarrow> nat \<Rightarrow> nat option" where
  "lpDecodeBacklen_loop lp p val shift =
     (if p < 0 then None
      else do {
        b \<leftarrow> byte_at lp (nat p);
        let val = or val (push_bit shift (unat (and b 127)));
        if and b 128 = 0 then Some val
        else if shift + 7 > 28 then Some ULLONG_MAX
        else lpDecodeBacklen_loop lp (p - 1) val (shift + 7) })"
  by pat_completeness auto
termination
  by (relation "measure (\<lambda>(lp, p, val, shift). 28 - shift)") auto

declare lpDecodeBacklen_loop.simps [simp del]

definition lpDecodeBacklen :: "byte list \<Rightarrow> int \<Rightarrow> nat option" where
  "lpDecodeBacklen lp p = lpDecodeBacklen_loop lp p 0 0"

definition lpEncodeString :: "byte list \<Rightarrow> byte list" where
  "lpEncodeString s =
     (let len = length s in
      if len < 64 then or (of_nat len) 0x80 # s
      else if len < 4096 then or (of_nat (len div 2 ^ 8)) 0xE0 # of_nat len # s
      else LP_ENCODING_32BIT_STR # le_bytes 4 (int len) @ s)"

subsection \<open>Navigation\<close>

definition LP_ENCODING_6BIT_STR_LEN :: "byte \<Rightarrow> nat" where
  "LP_ENCODING_6BIT_STR_LEN b = unat (and b 0x3F)"

definition LP_ENCODING_12BIT_STR_LEN :: "byte list \<Rightarrow> nat option" where
  "LP_ENCODING_12BIT_STR_LEN p =
     do { b0 \<leftarrow> byte_at p 0; b1 \<leftarrow> byte_at p 1; Some (unat (and b0 0xF) * 2 ^ 8 + unat b1) }"

definition LP_ENCODING_32BIT_STR_LEN :: "byte list \<Rightarrow> nat option" where
  "LP_ENCODING_32BIT_STR_LEN p = map_option le_nat (mem_read p 1 4)"

text \<open>The result is a \<^verbatim>\<open>uint32_t\<close>: the sum for a string with a 32-bit length wraps around.\<close>

definition lpCurrentEncodedSizeUnsafe :: "byte list \<Rightarrow> nat option" where
  "lpCurrentEncodedSizeUnsafe p =
     do { b \<leftarrow> byte_at p 0;
          if LP_ENCODING_IS_7BIT_UINT b then Some 1
          else if LP_ENCODING_IS_6BIT_STR b then Some (1 + LP_ENCODING_6BIT_STR_LEN b)
          else if LP_ENCODING_IS_13BIT_INT b then Some 2
          else if b = LP_ENCODING_16BIT_INT then Some 3
          else if b = LP_ENCODING_24BIT_INT then Some 4
          else if b = LP_ENCODING_32BIT_INT then Some 5
          else if b = LP_ENCODING_64BIT_INT then Some 9
          else if LP_ENCODING_IS_12BIT_STR b then map_option (\<lambda>n. 2 + n) (LP_ENCODING_12BIT_STR_LEN p)
          else if b = LP_ENCODING_32BIT_STR
          then map_option (\<lambda>n. (5 + n) mod 2 ^ 32) (LP_ENCODING_32BIT_STR_LEN p)
          else if b = LP_EOF then Some 1
          else Some 0 }"

definition lpCurrentEncodedSizeBytes :: "byte list \<Rightarrow> nat option" where
  "lpCurrentEncodedSizeBytes p =
     do { b \<leftarrow> byte_at p 0;
          Some (if LP_ENCODING_IS_7BIT_UINT b then 1
                else if LP_ENCODING_IS_6BIT_STR b then 1
                else if LP_ENCODING_IS_13BIT_INT b then 1
                else if b = LP_ENCODING_16BIT_INT then 1
                else if b = LP_ENCODING_24BIT_INT then 1
                else if b = LP_ENCODING_32BIT_INT then 1
                else if b = LP_ENCODING_64BIT_INT then 1
                else if LP_ENCODING_IS_12BIT_STR b then 2
                else if b = LP_ENCODING_32BIT_STR then 5
                else if b = LP_EOF then 1
                else 0) }"

definition lpSkip :: "byte list \<Rightarrow> nat \<Rightarrow> nat option" where
  "lpSkip lp p =
     do { entrylen \<leftarrow> lpCurrentEncodedSizeUnsafe (drop p lp);
          Some (p + (entrylen + length (lpEncodeBacklen entrylen))) }"

text \<open>\<open>lpValidateNext\<close> returns whether the entry is valid, and the pointer it leaves in \<open>*pp\<close>.\<close>

definition lpValidateNext :: "byte list \<Rightarrow> nat option \<Rightarrow> nat \<Rightarrow> (bool \<times> nat option) option" where
  "lpValidateNext lp pp lpbytes =
     (let OUT_OF_RANGE = (\<lambda>p. p < LP_HDR_SIZE \<or> p + 1 > lpbytes) in
      case pp of
        None \<Rightarrow> Some (False, pp)
      | Some p \<Rightarrow>
          if OUT_OF_RANGE p then Some (False, pp)
          else do {
            b \<leftarrow> byte_at lp p;
            if b = LP_EOF then Some (True, None)
            else do {
              lenbytes \<leftarrow> lpCurrentEncodedSizeBytes (drop p lp);
              if lenbytes = 0 then Some (False, pp)
              else if OUT_OF_RANGE (p + lenbytes) then Some (False, pp)
              else do {
                sz \<leftarrow> lpCurrentEncodedSizeUnsafe (drop p lp);
                let encodedBacklen = length (lpEncodeBacklen sz);
                let entrylen = sz + encodedBacklen;
                if OUT_OF_RANGE (p + entrylen) then Some (False, pp)
                else do {
                  prevlen \<leftarrow> lpDecodeBacklen lp (int (p + entrylen) - 1);
                  if (prevlen + encodedBacklen) mod 2 ^ 64 \<noteq> entrylen then Some (False, pp)
                  else Some (True, Some (p + entrylen)) } } } })"

definition lpAssertValidEntry :: "byte list \<Rightarrow> nat \<Rightarrow> nat \<Rightarrow> unit option" where
  "lpAssertValidEntry lp lpbytes p =
     do { (ok, pp) \<leftarrow> lpValidateNext lp (Some p) lpbytes; if ok then Some () else None }"

definition lpFirst :: "byte list \<Rightarrow> nat option option" where
  "lpFirst lp =
     do { let p = LP_HDR_SIZE;
          b \<leftarrow> byte_at lp p;
          if b = LP_EOF then Some None
          else do { bytes \<leftarrow> lpBytes lp; lpAssertValidEntry lp bytes p; Some (Some p) } }"

definition lpNext :: "byte list \<Rightarrow> nat \<Rightarrow> nat option option" where
  "lpNext lp p =
     do { p \<leftarrow> lpSkip lp p;
          b \<leftarrow> byte_at lp p;
          if b = LP_EOF then Some None
          else do { bytes \<leftarrow> lpBytes lp; lpAssertValidEntry lp bytes p; Some (Some p) } }"

definition lpPrev :: "byte list \<Rightarrow> nat \<Rightarrow> nat option option" where
  "lpPrev lp p =
     (if p = LP_HDR_SIZE then Some None
      else do {
        prevlen \<leftarrow> lpDecodeBacklen lp (int p - 1);
        let prevlen = (prevlen + length (lpEncodeBacklen prevlen)) mod 2 ^ 64;
        let q = int p - 1 - (int prevlen - 1);
        if q < 0 then None
        else do { bytes \<leftarrow> lpBytes lp; lpAssertValidEntry lp bytes (nat q); Some (Some (nat q)) } })"

definition lpLast :: "byte list \<Rightarrow> nat option option" where
  "lpLast lp = do { bytes \<leftarrow> lpGetTotalBytes lp; if bytes = 0 then None else lpPrev lp (bytes - 1) }"

text \<open>
  The loops of \<open>lpLength\<close> and \<open>lpSeek\<close> follow \<open>lpNext\<close> and \<open>lpPrev\<close>.  The pointer moves by at least
  one byte and stays in the block, so that the length of the block bounds the number of rounds:
  it is the fuel, and \<open>None\<close> when it runs out.
\<close>

fun lpCount_loop :: "byte list \<Rightarrow> nat \<Rightarrow> nat option \<Rightarrow> nat \<Rightarrow> nat option" where
  "lpCount_loop lp 0 p count = None"
| "lpCount_loop lp (Suc fuel) p count =
     (case p of None \<Rightarrow> Some count
      | Some p \<Rightarrow> do { p \<leftarrow> lpNext lp p; lpCount_loop lp fuel p (count + 1) })"

definition lpLength :: "byte list \<Rightarrow> (byte list \<times> nat) option" where
  "lpLength lp =
     do { numele \<leftarrow> lpGetNumElements lp;
          if numele \<noteq> LP_HDR_NUMELE_UNKNOWN then Some (lp, numele)
          else do {
            p \<leftarrow> lpFirst lp;
            count \<leftarrow> lpCount_loop lp (length lp + 1) p 0;
            lp \<leftarrow> (if count < LP_HDR_NUMELE_UNKNOWN then lpSetNumElements lp (int count) else Some lp);
            Some (lp, count) } }"

fun seek_forward :: "byte list \<Rightarrow> nat \<Rightarrow> nat option \<Rightarrow> nat option option" where
  "seek_forward lp 0 ele = Some ele"
| "seek_forward lp (Suc index) ele =
     (case ele of None \<Rightarrow> Some None
      | Some p \<Rightarrow> do { ele \<leftarrow> lpNext lp p; seek_forward lp index ele })"

fun seek_backward :: "byte list \<Rightarrow> nat \<Rightarrow> nat option \<Rightarrow> nat option option" where
  "seek_backward lp 0 ele = Some ele"
| "seek_backward lp (Suc index) ele =
     (case ele of None \<Rightarrow> Some None
      | Some p \<Rightarrow> do { ele \<leftarrow> lpPrev lp p; seek_backward lp index ele })"

definition lpSeek :: "byte list \<Rightarrow> int \<Rightarrow> nat option option" where
  "lpSeek lp index =
     do { numele \<leftarrow> lpGetNumElements lp;
          if numele \<noteq> LP_HDR_NUMELE_UNKNOWN then
            (let index = (if index < 0 then int numele + index else index) in
             if index < 0 then Some None
             else if index \<ge> int numele then Some None
             else if index > int numele div 2 then
               (let index = index - int numele in
                do { ele \<leftarrow> lpLast lp; seek_backward lp (nat (- 1 - index)) ele })
             else do { ele \<leftarrow> lpFirst lp; seek_forward lp (nat index) ele })
          else if index < 0 then do { ele \<leftarrow> lpLast lp; seek_backward lp (nat (- 1 - index)) ele }
          else do { ele \<leftarrow> lpFirst lp; seek_forward lp (nat index) ele } }"

subsection \<open>Reading an element\<close>

text \<open>
  \<open>lpGetWithSize\<close> with \<open>intbuf\<close> NULL: an integer, or the bytes of a string at an offset from the
  pointer and of a length, together with \<open>*entry_size\<close> (\<open>None\<close> when it is not written).
\<close>

datatype lp_value = LpInt int | LpStr nat nat

definition uval_to_int :: "nat \<Rightarrow> nat \<Rightarrow> nat \<Rightarrow> int" where
  "uval_to_int uval negstart negmax =
     (if uval \<ge> negstart then - int (negmax - uval) - 1 else int uval)"

definition lpGetWithSize :: "byte list \<Rightarrow> (lp_value \<times> nat option) option" where
  "lpGetWithSize p =
     do { b \<leftarrow> byte_at p 0;
          if LP_ENCODING_IS_7BIT_UINT b then
            Some (LpInt (uval_to_int (unat (and b 0x7f)) ULLONG_MAX 0), Some 2)
          else if LP_ENCODING_IS_6BIT_STR b then
            (let count = LP_ENCODING_6BIT_STR_LEN b in
             Some (LpStr 1 count, Some (1 + count + length (lpEncodeBacklen (count + 1)))))
          else if LP_ENCODING_IS_13BIT_INT b then
            do { b1 \<leftarrow> byte_at p 1;
                 Some (LpInt (uval_to_int (unat (and b 0x1f) * 2 ^ 8 + unat b1) (2 ^ 12) 8191), Some 3) }
          else if b = LP_ENCODING_16BIT_INT then
            do { d \<leftarrow> mem_read p 1 2; Some (LpInt (uval_to_int (le_nat d) (2 ^ 15) (2 ^ 16 - 1)), Some 4) }
          else if b = LP_ENCODING_24BIT_INT then
            do { d \<leftarrow> mem_read p 1 3; Some (LpInt (uval_to_int (le_nat d) (2 ^ 23) (2 ^ 24 - 1)), Some 5) }
          else if b = LP_ENCODING_32BIT_INT then
            do { d \<leftarrow> mem_read p 1 4; Some (LpInt (uval_to_int (le_nat d) (2 ^ 31) (2 ^ 32 - 1)), Some 6) }
          else if b = LP_ENCODING_64BIT_INT then
            do { d \<leftarrow> mem_read p 1 8; Some (LpInt (uval_to_int (le_nat d) (2 ^ 63) ULLONG_MAX), Some 10) }
          else if LP_ENCODING_IS_12BIT_STR b then
            do { count \<leftarrow> LP_ENCODING_12BIT_STR_LEN p;
                 Some (LpStr 2 count, Some (2 + count + length (lpEncodeBacklen (count + 2)))) }
          else if b = LP_ENCODING_32BIT_STR then
            do { count \<leftarrow> LP_ENCODING_32BIT_STR_LEN p;
                 Some (LpStr 5 count, Some (5 + count + length (lpEncodeBacklen (count + 5)))) }
          else Some (LpInt (uval_to_int (12345678900000000 + unat b) ULLONG_MAX 0), None) }"

definition lpGetValue :: "byte list \<Rightarrow> lp_value option" where
  "lpGetValue p = map_option fst (lpGetWithSize p)"

text \<open>\<open>lpGet\<close> with a buffer: always the bytes of a string.\<close>

definition lpGet :: "byte list \<Rightarrow> byte list \<Rightarrow> byte list option" where
  "lpGet p intbuf =
     do { v \<leftarrow> lpGetValue p;
          case v of
            LpStr off count \<Rightarrow> mem_read p off count
          | LpInt val \<Rightarrow> do { (buf, count) \<leftarrow> ll2string intbuf LP_INTBUF_SIZE val; mem_read buf 0 count } }"

definition lpGetIntegerValue :: "byte list \<Rightarrow> int option option" where
  "lpGetIntegerValue p =
     do { v \<leftarrow> lpGetValue p; Some (case v of LpInt val \<Rightarrow> Some val | LpStr off count \<Rightarrow> None) }"

definition lpCompare :: "byte list \<Rightarrow> byte list \<Rightarrow> bool option" where
  "lpCompare p s =
     do { b \<leftarrow> byte_at p 0;
          if b = LP_EOF then Some False
          else do {
            v \<leftarrow> lpGetValue p;
            case v of
              LpStr off sz \<Rightarrow>
                if length s = sz then do { value \<leftarrow> mem_read p off sz; Some (value = s) } else Some False
            | LpInt sz \<Rightarrow> Some (lpStringToInt64 s = Some sz) } }"

text \<open>The comparison of \<open>lpFind\<close>; \<open>value\<close> holds the bytes of a string element.\<close>

definition lpFindCmp :: "byte list \<Rightarrow> (byte list + int) \<Rightarrow> bool" where
  "lpFindCmp s value =
     (case value of
        Inl str \<Rightarrow> length str = length s \<and> str = s
      | Inr ll \<Rightarrow> (if length s \<ge> 32 \<or> length s = 0 then False else lpStringToInt64 s = Some ll))"

fun lpFindCb_loop ::
  "byte list \<Rightarrow> nat \<Rightarrow> (byte list + int \<Rightarrow> bool) \<Rightarrow> nat \<Rightarrow> nat \<Rightarrow> nat \<Rightarrow> nat \<Rightarrow> nat \<Rightarrow> nat option option" where
  "lpFindCb_loop lp lp_bytes cmp skip 0 skipcnt entry_size p = None"
| "lpFindCb_loop lp lp_bytes cmp skip (Suc fuel) skipcnt entry_size p =
     do { r \<leftarrow>
            (if skipcnt = 0 then
               do { (v, sz) \<leftarrow> lpGetWithSize (drop p lp);
                    let entry_size = (case sz of Some n \<Rightarrow> n | None \<Rightarrow> entry_size);
                    value \<leftarrow>
                      (case v of
                         LpInt ll \<Rightarrow> Some (Inr ll)
                       | LpStr off n \<Rightarrow>
                           if p \<ge> LP_HDR_SIZE \<and> p + entry_size < lp_bytes
                           then map_option Inl (mem_read lp (p + off) n) else None);
                    Some (if cmp value then Inl p else Inr (skip, entry_size, p + entry_size)) }
             else do { p \<leftarrow> lpSkip lp p; Some (Inr (skipcnt - 1, entry_size, p)) });
          case r of
            Inl q \<Rightarrow> Some (Some q)
          | Inr (skipcnt, entry_size, p) \<Rightarrow>
              do { (if p + 8 \<ge> lp_bytes then lpAssertValidEntry lp lp_bytes p
                    else if p \<ge> LP_HDR_SIZE \<and> p < lp_bytes then Some () else None);
                   b \<leftarrow> byte_at lp p;
                   if b = LP_EOF then Some None
                   else lpFindCb_loop lp lp_bytes cmp skip fuel skipcnt entry_size p } }"

definition lpFindCb ::
  "byte list \<Rightarrow> nat option \<Rightarrow> (byte list + int \<Rightarrow> bool) \<Rightarrow> nat \<Rightarrow> nat option option" where
  "lpFindCb lp p cmp skip =
     do { lp_bytes \<leftarrow> lpBytes lp;
          p \<leftarrow> (case p of None \<Rightarrow> lpFirst lp | Some q \<Rightarrow> Some (Some q));
          case p of None \<Rightarrow> Some None
          | Some p \<Rightarrow> lpFindCb_loop lp lp_bytes cmp skip (length lp) 0 123456789 p }"

definition lpFind :: "byte list \<Rightarrow> nat option \<Rightarrow> byte list \<Rightarrow> nat \<Rightarrow> nat option option" where
  "lpFind lp p s skip = lpFindCb lp p (lpFindCmp s) skip"

subsection \<open>Insertion, replacement and deletion\<close>

datatype lp_where = LP_BEFORE | LP_AFTER | LP_REPLACE

text \<open>
  The element given to \<open>lpInsert\<close>: \<open>elestr\<close>, \<open>eleint\<close> (an encoded integer), or neither, which
  deletes.
\<close>

datatype lp_ele = EleStr "byte list" | EleInt "byte list" | EleDelete

text \<open>The bytes the element is stored as: \<open>eleint\<close>, or what \<open>lpEncodeString\<close> writes.\<close>

definition ele_bytes :: "lp_ele \<Rightarrow> byte list" where
  "ele_bytes ele =
     (case ele of
        EleStr s \<Rightarrow> (case lpEncodeGetType s of Inl intenc \<Rightarrow> intenc | Inr enclen \<Rightarrow> lpEncodeString s)
      | EleInt intenc \<Rightarrow> intenc
      | EleDelete \<Rightarrow> [])"

definition ele_enclen :: "lp_ele \<Rightarrow> nat" where
  "ele_enclen ele =
     (case ele of
        EleStr s \<Rightarrow> (case lpEncodeGetType s of Inl intenc \<Rightarrow> length intenc | Inr enclen \<Rightarrow> enclen)
      | EleInt intenc \<Rightarrow> length intenc
      | EleDelete \<Rightarrow> 0)"

text \<open>
  The middle of \<open>lpInsert\<close> and \<open>lpBatchInsert\<close>: make room for \<open>added\<close> bytes in place of the \<open>replaced\<close>
  ones at \<open>poff\<close>, reallocating before the move when the listpack grows and after it when it
  shrinks.
\<close>

definition lp_make_room ::
  "lp_env \<Rightarrow> byte list \<Rightarrow> nat \<Rightarrow> nat \<Rightarrow> nat \<Rightarrow> nat \<Rightarrow> nat \<Rightarrow> byte list option" where
  "lp_make_room env lp old_bytes new_bytes poff added replaced =
     (if poff + replaced > old_bytes then None
      else do {
        let lp = (if new_bytes > old_bytes \<and> new_bytes > lp_malloc_size lp
                  then lp_realloc env lp new_bytes else lp);
        lp \<leftarrow> mem_move lp (poff + added) (poff + replaced) (old_bytes - poff - replaced);
        Some (if new_bytes < old_bytes then lp_realloc env lp new_bytes else lp) })"

text \<open>The result is the listpack and \<open>*newp\<close>; \<open>Some None\<close> is the result NULL.\<close>

definition lpInsert ::
  "lp_env \<Rightarrow> byte list \<Rightarrow> lp_ele \<Rightarrow> nat \<Rightarrow> lp_where \<Rightarrow> (byte list \<times> nat option) option option" where
  "lpInsert env lp ele p whr =
     do { let delete = (ele = EleDelete);
          let whr = (if delete then LP_REPLACE else whr);
          (p, whr) \<leftarrow>
            (if whr = LP_AFTER
             then do { p \<leftarrow> lpSkip lp p; ASSERT_INTEGRITY lp p; Some (p, LP_BEFORE) }
             else Some (p, whr));
          let poff = p;
          let enclen = ele_enclen ele;
          let backlen = (if \<not> delete then lpEncodeBacklen enclen else []);
          old_listpack_bytes \<leftarrow> lpGetTotalBytes lp;
          replaced_len \<leftarrow>
            (if whr = LP_REPLACE then
               do { n \<leftarrow> lpCurrentEncodedSizeUnsafe (drop p lp);
                    let n = (n + length (lpEncodeBacklen n)) mod 2 ^ 32;
                    ASSERT_INTEGRITY_LEN lp p n;
                    Some n }
             else Some 0);
          let new_listpack_bytes = old_listpack_bytes + enclen + length backlen - replaced_len;
          if new_listpack_bytes > 2 ^ 32 - 1 then Some None
          else do {
            lp \<leftarrow> lp_make_room env lp old_listpack_bytes new_listpack_bytes poff
                   (enclen + length backlen) replaced_len;
            b \<leftarrow> byte_at lp poff;
            let newp = (if delete \<and> b = LP_EOF then None else Some poff);
            lp \<leftarrow>
              (if \<not> delete
               then do { lp \<leftarrow> mem_write lp poff (ele_bytes ele); mem_write lp (poff + enclen) backlen }
               else Some lp);
            lp \<leftarrow>
              (if whr \<noteq> LP_REPLACE \<or> delete then
                 do { num_elements \<leftarrow> lpGetNumElements lp;
                      if num_elements \<noteq> LP_HDR_NUMELE_UNKNOWN
                      then lpSetNumElements lp (if \<not> delete then int num_elements + 1 else int num_elements - 1)
                      else Some lp }
               else Some lp);
            lp \<leftarrow> lpSetTotalBytes lp new_listpack_bytes;
            Some (Some (lp, newp)) } }"

definition lpInsertString where
  "lpInsertString env lp s p whr = lpInsert env lp (EleStr s) p whr"

definition lpInsertInteger where
  "lpInsertInteger env lp lval p whr = lpInsert env lp (EleInt (lpEncodeIntegerGetType lval)) p whr"

text \<open>\<open>eofptr\<close>, the last byte of the listpack.\<close>

definition lp_eofptr :: "byte list \<Rightarrow> nat option" where
  "lp_eofptr lp =
     do { listpack_bytes \<leftarrow> lpGetTotalBytes lp;
          if listpack_bytes = 0 then None else Some (listpack_bytes - 1) }"

definition lpAppend :: "lp_env \<Rightarrow> byte list \<Rightarrow> byte list \<Rightarrow> (byte list \<times> nat option) option option" where
  "lpAppend env lp s =
     do { eofptr \<leftarrow> lp_eofptr lp; lpInsert env lp (EleStr s) eofptr LP_BEFORE }"

definition lpAppendInteger :: "lp_env \<Rightarrow> byte list \<Rightarrow> int \<Rightarrow> (byte list \<times> nat option) option option" where
  "lpAppendInteger env lp lval =
     do { eofptr \<leftarrow> lp_eofptr lp; lpInsertInteger env lp lval eofptr LP_BEFORE }"

definition lpPrepend :: "lp_env \<Rightarrow> byte list \<Rightarrow> byte list \<Rightarrow> (byte list \<times> nat option) option option" where
  "lpPrepend env lp s =
     do { p \<leftarrow> lpFirst lp;
          case p of None \<Rightarrow> lpAppend env lp s | Some p \<Rightarrow> lpInsert env lp (EleStr s) p LP_BEFORE }"

definition lpPrependInteger :: "lp_env \<Rightarrow> byte list \<Rightarrow> int \<Rightarrow> (byte list \<times> nat option) option option" where
  "lpPrependInteger env lp lval =
     do { p \<leftarrow> lpFirst lp;
          case p of None \<Rightarrow> lpAppendInteger env lp lval | Some p \<Rightarrow> lpInsertInteger env lp lval p LP_BEFORE }"

definition lpReplace where
  "lpReplace env lp p s = lpInsert env lp (EleStr s) p LP_REPLACE"

definition lpReplaceInteger where
  "lpReplaceInteger env lp p lval = lpInsertInteger env lp lval p LP_REPLACE"

definition lpDelete where
  "lpDelete env lp p = lpInsert env lp EleDelete p LP_REPLACE"

text \<open>\<^verbatim>\<open>listpackEntry\<close>: \<open>sval\<close> with \<open>slen\<close>, or \<open>lval\<close> when \<open>sval\<close> is NULL.\<close>

datatype listpackEntry = SVal "byte list" | LVal int

fun entry_ele :: "listpackEntry \<Rightarrow> lp_ele" where
  "entry_ele (SVal s) = EleStr s"
| "entry_ele (LVal v) = EleInt (lpEncodeIntegerGetType v)"

fun lpBatchInsert_store :: "byte list \<Rightarrow> nat \<Rightarrow> nat option \<Rightarrow> lp_ele list \<Rightarrow> (byte list \<times> nat option) option" where
  "lpBatchInsert_store lp dst newp [] = Some (lp, newp)"
| "lpBatchInsert_store lp dst newp (e # es) =
     do { lp \<leftarrow> mem_write lp dst (ele_bytes e);
          let backlen = lpEncodeBacklen (ele_enclen e);
          lp \<leftarrow> mem_write lp (dst + ele_enclen e) backlen;
          lpBatchInsert_store lp (dst + ele_enclen e + length backlen) (Some dst) es }"

definition lpBatchInsert ::
  "lp_env \<Rightarrow> byte list \<Rightarrow> nat \<Rightarrow> lp_where \<Rightarrow> listpackEntry list \<Rightarrow> (byte list \<times> nat option) option option" where
  "lpBatchInsert env lp p whr entries =
     do { (if whr = LP_REPLACE \<or> entries = [] then None else Some ());
          p \<leftarrow> (if whr = LP_AFTER then do { p \<leftarrow> lpSkip lp p; ASSERT_INTEGRITY lp p; Some p } else Some p);
          let enc = map entry_ele entries;
          let addedlen = sum_list (map (\<lambda>e. ele_enclen e + length (lpEncodeBacklen (ele_enclen e))) enc);
          old_listpack_bytes \<leftarrow> lpGetTotalBytes lp;
          let new_listpack_bytes = old_listpack_bytes + addedlen;
          if new_listpack_bytes > 2 ^ 32 - 1 then Some None
          else do {
            lp \<leftarrow> lp_make_room env lp old_listpack_bytes new_listpack_bytes p addedlen 0;
            (lp, newp) \<leftarrow> lpBatchInsert_store lp p None enc;
            num_elements \<leftarrow> lpGetNumElements lp;
            lp \<leftarrow>
              (if num_elements \<noteq> LP_HDR_NUMELE_UNKNOWN then
                 (if int (length entries) > int LP_HDR_NUMELE_UNKNOWN - int num_elements
                  then lpSetNumElements lp (int LP_HDR_NUMELE_UNKNOWN)
                  else lpSetNumElements lp (int num_elements + int (length entries)))
               else Some lp);
            lp \<leftarrow> lpSetTotalBytes lp new_listpack_bytes;
            Some (Some (lp, newp)) } }"

definition lpBatchAppend ::
  "lp_env \<Rightarrow> byte list \<Rightarrow> listpackEntry list \<Rightarrow> (byte list \<times> nat option) option option" where
  "lpBatchAppend env lp entries =
     do { eofptr \<leftarrow> lp_eofptr lp; lpBatchInsert env lp eofptr LP_BEFORE entries }"

fun range_tail :: "byte list \<Rightarrow> nat \<Rightarrow> nat \<Rightarrow> nat \<Rightarrow> nat \<Rightarrow> (nat \<times> nat) option" where
  "range_tail lp bytes 0 deleted tail = Some (deleted, tail)"
| "range_tail lp bytes (Suc num) deleted tail =
     do { tail \<leftarrow> lpSkip lp tail;
          b \<leftarrow> byte_at lp tail;
          if b = LP_EOF then Some (deleted + 1, tail)
          else do { lpAssertValidEntry lp bytes tail; range_tail lp bytes num (deleted + 1) tail } }"

text \<open>The result is the listpack and \<open>*p\<close>.\<close>

definition lpDeleteRangeWithEntry ::
  "lp_env \<Rightarrow> byte list \<Rightarrow> nat \<Rightarrow> nat \<Rightarrow> (byte list \<times> nat option) option" where
  "lpDeleteRangeWithEntry env lp p num =
     do { bytes \<leftarrow> lpBytes lp;
          if num = 0 then Some (lp, Some p)
          else do {
            (deleted, tail) \<leftarrow> range_tail lp bytes num 0 p;
            lp \<leftarrow> (if tail > bytes then None else mem_move lp p tail (bytes - tail));
            lp \<leftarrow> lpSetTotalBytes lp (bytes - (tail - p));
            numele \<leftarrow> lpGetNumElements lp;
            lp \<leftarrow> (if numele \<noteq> LP_HDR_NUMELE_UNKNOWN
                   then lpSetNumElements lp (int numele - int deleted) else Some lp);
            lp \<leftarrow> lpShrinkToFit env lp;
            b \<leftarrow> byte_at lp p;
            Some (lp, if b = LP_EOF then None else Some p) } }"

definition lpDeleteRange :: "lp_env \<Rightarrow> byte list \<Rightarrow> int \<Rightarrow> nat \<Rightarrow> byte list option" where
  "lpDeleteRange env lp index num =
     do { numele \<leftarrow> lpGetNumElements lp;
          if num = 0 then Some lp
          else do {
            p \<leftarrow> lpSeek lp index;
            case p of None \<Rightarrow> Some lp
            | Some p \<Rightarrow>
                do { let index = (if numele \<noteq> LP_HDR_NUMELE_UNKNOWN \<and> index < 0 then int numele + index else index);
                     if numele \<noteq> LP_HDR_NUMELE_UNKNOWN \<and> nat ((int numele - index) mod 2 ^ 64) \<le> num then
                       do { lp \<leftarrow> mem_write lp p [LP_EOF];
                            lp \<leftarrow> lpSetTotalBytes lp (p + 1);
                            lp \<leftarrow> lpSetNumElements lp index;
                            lpShrinkToFit env lp }
                     else map_option fst (lpDeleteRangeWithEntry env lp p num) } } }"

fun lpBatchDelete_loop :: "byte list \<Rightarrow> nat \<Rightarrow> nat \<Rightarrow> nat list \<Rightarrow> (byte list \<times> nat) option" where
  "lpBatchDelete_loop lp lp_end dst [] = Some (lp, dst)"
| "lpBatchDelete_loop lp lp_end dst (skip # ps) =
     do { b \<leftarrow> byte_at lp skip;
          if b = LP_EOF then None
          else do {
            keep_start \<leftarrow> lpSkip lp skip;
            let keep_end = (case ps of p # _ \<Rightarrow> p | [] \<Rightarrow> lp_end);
            if ps \<noteq> [] \<and> keep_start = keep_end then lpBatchDelete_loop lp lp_end dst ps
            else if \<not> keep_end > keep_start then None
            else do {
              let bytes_to_keep = keep_end - keep_start;
              lp \<leftarrow> mem_move lp dst keep_start bytes_to_keep;
              lpBatchDelete_loop lp lp_end (dst + bytes_to_keep) ps } } }"

definition lpBatchDelete :: "lp_env \<Rightarrow> byte list \<Rightarrow> nat list \<Rightarrow> byte list option" where
  "lpBatchDelete env lp ps =
     (case ps of [] \<Rightarrow> Some lp
      | p0 # _ \<Rightarrow>
          do { let dst = p0;
               total_bytes \<leftarrow> lpGetTotalBytes lp;
               let lp_end = total_bytes;
               b \<leftarrow> (if lp_end = 0 then None else byte_at lp (lp_end - 1));
               (if b = LP_EOF then Some () else None);
               (lp, dst) \<leftarrow> lpBatchDelete_loop lp lp_end dst ps;
               let total_bytes = nat (int total_bytes - (int lp_end - int dst));
               b \<leftarrow> (if total_bytes = 0 then None else byte_at lp (total_bytes - 1));
               (if b = LP_EOF then Some () else None);
               lp \<leftarrow> lpSetTotalBytes lp total_bytes;
               numele \<leftarrow> lpGetNumElements lp;
               lp \<leftarrow> (if numele \<noteq> LP_HDR_NUMELE_UNKNOWN
                      then lpSetNumElements lp (int numele - int (length ps)) else Some lp);
               lpShrinkToFit env lp })"

subsection \<open>Merging, copying, sizes\<close>

text \<open>
  The arguments are \<open>*first\<close> and \<open>*second\<close> (\<open>None\<close> when NULL) and whether they are the same pointer.  The
  result is \<open>*first\<close> and \<open>*second\<close> afterwards: the one that holds the merged listpack is the one that
  is not \<open>None\<close>.  \<open>Some None\<close> is the result NULL.
\<close>

definition lpMerge ::
  "lp_env \<Rightarrow> byte list option \<Rightarrow> byte list option \<Rightarrow> bool \<Rightarrow>
     (byte list option \<times> byte list option) option option" where
  "lpMerge env first second same =
     (case (first, second) of
        (Some f, Some s) \<Rightarrow>
          if same then Some None
          else do {
            first_bytes \<leftarrow> lpBytes f;
            (f, first_len) \<leftarrow> lpLength f;
            second_bytes \<leftarrow> lpBytes s;
            (s, second_len) \<leftarrow> lpLength s;
            let append = (first_bytes \<ge> second_bytes);
            let (target, target_bytes, source, source_bytes) =
                  (if append then (f, first_bytes, s, second_bytes) else (s, second_bytes, f, first_bytes));
            let lpbytes = first_bytes + second_bytes - LP_HDR_SIZE - 1;
            if first_bytes + second_bytes < LP_HDR_SIZE + 1 \<or> \<not> lpbytes < 2 ^ 32 - 1 then None
            else do {
              let lplength = first_len + second_len;
              let lplength = (if lplength < 65535 then lplength else 65535);
              let target = lp_realloc env target lpbytes;
              target \<leftarrow>
                (if append then
                   do { x \<leftarrow> mem_read source LP_HDR_SIZE (source_bytes - LP_HDR_SIZE);
                        mem_write target (target_bytes - 1) x }
                 else
                   do { target \<leftarrow> mem_move target (source_bytes - 1) LP_HDR_SIZE (target_bytes - LP_HDR_SIZE);
                        x \<leftarrow> mem_read source 0 (source_bytes - 1);
                        mem_write target 0 x });
              target \<leftarrow> lpSetNumElements target (int lplength);
              target \<leftarrow> lpSetTotalBytes target lpbytes;
              Some (Some (if append then (Some target, None) else (None, Some target))) } }
      | _ \<Rightarrow> Some None)"

definition lpDup :: "lp_env \<Rightarrow> byte list \<Rightarrow> byte list option" where
  "lpDup env lp =
     do { lpbytes \<leftarrow> lpBytes lp;
          let newlp = lp_malloc env lpbytes;
          x \<leftarrow> mem_read lp 0 lpbytes;
          mem_write newlp 0 x }"

definition lpEntrySizeInteger :: "int \<Rightarrow> nat" where
  "lpEntrySizeInteger lval =
     (let enclen = length (lpEncodeIntegerGetType lval) in enclen + length (lpEncodeBacklen enclen))"

definition lpEstimateBytesRepeatedInteger :: "int \<Rightarrow> nat \<Rightarrow> nat" where
  "lpEstimateBytesRepeatedInteger lval rep = LP_HDR_SIZE + lpEntrySizeInteger lval * rep + 1"

subsection \<open>Validation\<close>

definition lpValidateFirst :: "byte list \<Rightarrow> nat option option" where
  "lpValidateFirst lp =
     do { b \<leftarrow> byte_at lp LP_HDR_SIZE; Some (if b = LP_EOF then None else Some LP_HDR_SIZE) }"

text \<open>
  The loop over the entries; \<open>entry_cb\<close> is the optional check of the caller, a parameter.  The result
  is \<open>None\<close> when an entry is invalid, else the last position and the number of entries.  A valid
  entry is at least two bytes long, so the length of the block bounds the number of rounds.
\<close>

fun lpValidate_loop ::
  "byte list \<Rightarrow> nat \<Rightarrow> (nat \<Rightarrow> nat \<Rightarrow> bool) option \<Rightarrow> nat \<Rightarrow> nat \<Rightarrow> nat option \<Rightarrow> nat \<Rightarrow>
     (nat option \<times> nat) option option" where
  "lpValidate_loop lp bytes entry_cb numele 0 p count = None"
| "lpValidate_loop lp bytes entry_cb numele (Suc fuel) p count =
     (case p of None \<Rightarrow> Some (Some (p, count))
      | Some q \<Rightarrow>
          do { b \<leftarrow> byte_at lp q;
               if b = LP_EOF then Some (Some (p, count))
               else do {
                 (ok, p) \<leftarrow> lpValidateNext lp p bytes;
                 if \<not> ok then Some None
                 else if (case entry_cb of None \<Rightarrow> False | Some cb \<Rightarrow> \<not> cb q numele) then Some None
                 else lpValidate_loop lp bytes entry_cb numele fuel p (count + 1) } })"

definition lpValidateIntegrity ::
  "byte list \<Rightarrow> nat \<Rightarrow> bool \<Rightarrow> (nat \<Rightarrow> nat \<Rightarrow> bool) option \<Rightarrow> bool option" where
  "lpValidateIntegrity lp sz deep entry_cb =
     (if sz < LP_HDR_SIZE + 1 then Some False
      else do {
        bytes \<leftarrow> lpGetTotalBytes lp;
        if bytes \<noteq> sz then Some False
        else do {
          b \<leftarrow> byte_at lp (sz - 1);
          if b \<noteq> LP_EOF then Some False
          else if \<not> deep then Some True
          else do {
            numele \<leftarrow> lpGetNumElements lp;
            r \<leftarrow> lpValidate_loop lp bytes entry_cb numele (length lp + 1) (Some LP_HDR_SIZE) 0;
            case r of None \<Rightarrow> Some False
            | Some (p, count) \<Rightarrow>
                Some (p = Some (sz - 1) \<and> \<not> (numele \<noteq> LP_HDR_NUMELE_UNKNOWN \<and> numele \<noteq> count)) } } })"

end
