(* ===== verification/Listpack_Codec.thy ===== *)
theory Listpack_Codec
  imports Listpack
begin

section \<open>Listpacks: encoding and decoding of one entry\<close>

text \<open>
  What one entry is encoded as can be read back: the length of an entry from its first bytes,
  the same length from its last bytes, going left, and its value.  \<open>raw_ok\<close> says that a list of bytes
  is exactly one encoded element, and \<open>raw_value\<close> is what it stands for.
\<close>

subsection \<open>Reading bytes\<close>

lemma byte_at_simps [simp]:
  "byte_at (b # bs) 0 = Some b"
  "byte_at (b # bs) (Suc n) = byte_at bs n"
  by (simp_all add: byte_at_def)

lemma byte_at_append1: "p < length A \<Longrightarrow> byte_at (A @ B) p = byte_at A p"
  by (simp add: byte_at_def nth_append)

lemma byte_at_append2 [simp]: "byte_at (A @ B) (length A + n) = byte_at B n"
  by (simp add: byte_at_def nth_append)

lemma byte_at_append3 [simp]: "byte_at (A @ B) (length A) = byte_at B 0"
  using byte_at_append2 [of A B 0] by simp

lemma mem_read_append1: "off + n \<le> length A \<Longrightarrow> mem_read (A @ B) off n = mem_read A off n"
  by (simp add: mem_read_def)

lemma mem_read_append2 [simp]: "mem_read (A @ B) (length A + k) n = mem_read B k n"
  by (simp add: mem_read_def)

lemma mem_read_exact [simp]: "mem_read (A @ B @ C) (length A) (length B) = Some B"
  by (simp add: mem_read_def)

lemma mem_write_exact:
  "length X = length Y \<Longrightarrow> length A = n \<Longrightarrow> mem_write (A @ X @ C) n Y = Some (A @ Y @ C)"
  by (simp add: mem_write_def)

subsection \<open>The length at the end of an entry\<close>

lemma or_push_bit_nat:
  assumes "(val::nat) < 2 ^ s"
  shows "or val (push_bit s g) = val + g * 2 ^ s"
proof -
  have "val = take_bit s val" using assms by (simp add: take_bit_nat_eq_self)
  then have "and val (push_bit s g) = 0"
    by (metis (no_types, opaque_lifting) and.commute and_zero_eq bit_0_eq bit_and_iff bit_eqI bit_push_bit_iff_nat
        bit_take_bit_iff bot_apply bot_bool_def leD)
  then show ?thesis by (simp add: push_bit_eq_mult flip: disjunctive_add_eq_or)
qed

lemma group_bytes:
  assumes "g < 128"
  shows "unat (and (of_nat g :: byte) 127) = g" "and (of_nat g :: byte) 128 = 0"
    "unat (and (or (of_nat g) 128 :: byte) 127) = g" "and (or (of_nat g) 128 :: byte) 128 \<noteq> 0"
proof -
  have "\<forall>g \<in> set [0..<128]. unat (and (of_nat g :: byte) 127) = g \<and> and (of_nat g :: byte) 128 = 0 \<and>
      unat (and (or (of_nat g) 128 :: byte) 127) = g \<and> and (or (of_nat g) 128 :: byte) 128 \<noteq> 0"
    by code_simp
  with assms show "unat (and (of_nat g :: byte) 127) = g" "and (of_nat g :: byte) 128 = 0"
    "unat (and (or (of_nat g) 128 :: byte) 127) = g" "and (or (of_nat g) 128 :: byte) 128 \<noteq> 0"
    by auto
qed

lemma decode_last:
  assumes "byte_at lp (nat p) = Some (of_nat g)" "g < 128" "val < 2 ^ s" "0 \<le> p"
  shows "lpDecodeBacklen_loop lp p val s = Some (val + g * 2 ^ s)"
  using assms by (subst lpDecodeBacklen_loop.simps) (simp add: group_bytes or_push_bit_nat)

lemma decode_more:
  assumes "byte_at lp (nat p) = Some (or (of_nat g) 128)" "g < 128" "val < 2 ^ s" "0 \<le> p" "s + 7 \<le> 28"
  shows "lpDecodeBacklen_loop lp p val s = lpDecodeBacklen_loop lp (p - 1) (val + g * 2 ^ s) (s + 7)"
  using assms by (subst lpDecodeBacklen_loop.simps) (simp add: group_bytes or_push_bit_nat)

lemma div_mod_group: "(l::nat) div n = l div n mod 128 + 128 * (l div (n * 128))"
  by (simp add: div_mult2_eq)

lemma base_128_sums:
  assumes "m0 + 128 * d1 = (l::nat)" "d1 = m1 + 128 * d2" "d2 = m2 + 128 * d3" "d3 = m3 + 128 * d4"
  shows "m0 + m1 * 128 + d2 * 16384 = l"
    "m0 + m1 * 128 + m2 * 16384 + d3 * 2097152 = l"
    "m0 + m1 * 128 + m2 * 16384 + m3 * 2097152 + d4 * 268435456 = l"
  using assms by simp_all

lemma length_lpEncodeBacklen: "1 \<le> length (lpEncodeBacklen l)" "length (lpEncodeBacklen l) \<le> 5"
  by (simp_all add: lpEncodeBacklen_def)

lemma lpEncodeBacklen_not_Nil [simp]: "lpEncodeBacklen l \<noteq> []" "0 < length (lpEncodeBacklen l)"
  by (simp_all add: lpEncodeBacklen_def)

lemma lpDecodeBacklen_encode:
  assumes "l < 2 ^ 35" "p = int (length A + length (lpEncodeBacklen l)) - 1"
  shows "lpDecodeBacklen (A @ lpEncodeBacklen l @ C) p = Some l"
proof -
  have a: "byte_at (A @ X # Y # Z) (Suc (length A)) = Some Y"
    "byte_at (A @ X # Y # V # Z) (Suc (Suc (length A))) = Some V"
    "byte_at (A @ X # Y # V # W # Z) (3 + length A) = Some W"
    "byte_at (A @ X # Y # V # W # U # Z) (4 + length A) = Some U"
    for X Y V W U Z
    using byte_at_append2 [of A "X # Y # Z" 1] byte_at_append2 [of A "X # Y # V # Z" 2]
      byte_at_append2 [of A "X # Y # V # W # Z" 3] byte_at_append2 [of A "X # Y # V # W # U # Z" 4]
    by (simp_all add: eval_nat_numeral)
  have b: "l mod 128 + 128 * (l div 128) = l" by simp
  have d: "l div 128 = l div 128 mod 128 + 128 * (l div 16384)"
    "l div 16384 = l div 16384 mod 128 + 128 * (l div 2097152)"
    "l div 2097152 = l div 2097152 mod 128 + 128 * (l div 268435456)"
    using div_mod_group [of l 128] div_mod_group [of l 16384] div_mod_group [of l 2097152] by simp_all
  have sums: "l mod 128 + l div 128 mod 128 * 128 + l div 16384 * 16384 = l"
    "l mod 128 + l div 128 mod 128 * 128 + l div 16384 mod 128 * 16384 + l div 2097152 * 2097152 = l"
    "l mod 128 + l div 128 mod 128 * 128 + l div 16384 mod 128 * 16384 + l div 2097152 mod 128 * 2097152
       + l div 268435456 * 268435456 = l"
    by (rule base_128_sums [OF b d])+
  have lim: "l mod 128 < 2 ^ 7" "l div 128 mod 128 < 2 ^ 7" "l div 16384 mod 128 < 2 ^ 7" "l div 2097152 mod 128 < 2 ^ 7"
    by simp_all
  consider "l \<le> 127" | "127 < l" "l < 16383" | "16383 \<le> l" "l < 2097151" | "2097151 \<le> l" "l < 268435455"
    | "268435455 \<le> l" by linarith
  then show ?thesis
  proof cases
    case 1
    then show ?thesis using assms
      by (simp add: lpDecodeBacklen_def lpEncodeBacklen_def decode_last)
  next
    case 2
    then show ?thesis using assms lim b
      by (simp add: lpDecodeBacklen_def lpEncodeBacklen_def nat_add_distrib a decode_more [of _ _ "l mod 128"]
          decode_last [of _ _ "l div 128"] mult.commute)
  next
    case 3
    then show ?thesis using assms lim
      by (simp add: sums lpDecodeBacklen_def lpEncodeBacklen_def nat_add_distrib a decode_more [of _ _ "l mod 128"]
          decode_more [of _ _ "l div 128 mod 128"] decode_last [of _ _ "l div 16384"])
  next
    case 4
    then show ?thesis using assms lim
      by (simp add: sums lpDecodeBacklen_def lpEncodeBacklen_def nat_add_distrib a decode_more [of _ _ "l mod 128"]
          decode_more [of _ _ "l div 128 mod 128"] decode_more [of _ _ "l div 16384 mod 128"] decode_last [of _ _ "l div 2097152"])
  next
    case 5
    then show ?thesis using assms lim
      by (simp add: sums lpDecodeBacklen_def lpEncodeBacklen_def nat_add_distrib a decode_more [of _ _ "l mod 128"]
          decode_more [of _ _ "l div 128 mod 128"] decode_more [of _ _ "l div 16384 mod 128"]
          decode_more [of _ _ "l div 2097152 mod 128"] decode_last [of _ _ "l div 268435456"])
  qed
qed

subsection \<open>One encoded element\<close>

definition raw_ok :: "byte list \<Rightarrow> bool" where
  "raw_ok r \<longleftrightarrow> r \<noteq> [] \<and> hd r \<noteq> LP_EOF \<and> lpCurrentEncodedSizeUnsafe r = Some (length r)"

definition raw_value :: "byte list \<Rightarrow> listpackEntry" where
  "raw_value r =
     (case lpGetValue r of
        Some (LpStr off n) \<Rightarrow> SVal (take n (drop off r))
      | Some (LpInt v) \<Rightarrow> LVal v
      | None \<Rightarrow> LVal 0)"

lemma map_option_Some_iff: "map_option f x = Some y \<longleftrightarrow> (\<exists>z. x = Some z \<and> y = f z)"
  by (cases x) auto

lemma mem_read_Cons4:
  "mem_read (b # d) (Suc 0) n = Some x \<longleftrightarrow> n \<le> length d \<and> x = take n d"
  by (auto simp: mem_read_def)

lemma byte_at_Some: "byte_at bs p = Some b \<longleftrightarrow> p < length bs \<and> b = bs ! p"
  by (auto simp: byte_at_def)

lemma byte_at_None: "byte_at bs p = None \<longleftrightarrow> \<not> p < length bs"
  by (auto simp: byte_at_def)

lemma raw_ok_len32:
  assumes "raw_ok (LP_ENCODING_32BIT_STR # d)"
  shows "4 \<le> length d \<and> length d = 4 + le_nat (take 4 d) \<and> length d + 1 < 2 ^ 32"
proof -
  have b: "\<not> LP_ENCODING_IS_7BIT_UINT 0xF0" "\<not> LP_ENCODING_IS_6BIT_STR 0xF0" "\<not> LP_ENCODING_IS_13BIT_INT 0xF0"
    "\<not> LP_ENCODING_IS_12BIT_STR 0xF0"
    by (simp_all add: LP_ENCODING_IS_7BIT_UINT_def LP_ENCODING_IS_6BIT_STR_def LP_ENCODING_IS_13BIT_INT_def
        LP_ENCODING_IS_12BIT_STR_def)
  have d: "4 \<le> length d" "(5 + le_nat (take 4 d)) mod 2 ^ 32 = Suc (length d)"
    using assms by (auto simp: raw_ok_def lpCurrentEncodedSizeUnsafe_def b LP_ENCODING_32BIT_STR_LEN_def
        map_option_Some_iff mem_read_Cons4)
  have "le_nat (take 4 d) < 256 ^ length (take 4 d)" by (rule le_nat_bound)
  then have "le_nat (take 4 d) < 2 ^ 32" using d(1) by simp
  with d show ?thesis by (cases "5 + le_nat (take 4 d) < 2 ^ 32") (auto simp: mod_if split: if_splits)
qed

lemma raw_ok_cases:
  assumes "raw_ok r"
  obtains
    (uint7) b where "r = [b]" "LP_ENCODING_IS_7BIT_UINT b"
  | (str6) b d where "r = b # d" "LP_ENCODING_IS_6BIT_STR b" "\<not> LP_ENCODING_IS_7BIT_UINT b"
      "length d = LP_ENCODING_6BIT_STR_LEN b"
  | (int13) b b1 where "r = [b, b1]" "LP_ENCODING_IS_13BIT_INT b" "\<not> LP_ENCODING_IS_6BIT_STR b"
      "\<not> LP_ENCODING_IS_7BIT_UINT b"
  | (int16) d where "r = LP_ENCODING_16BIT_INT # d" "length d = 2"
  | (int24) d where "r = LP_ENCODING_24BIT_INT # d" "length d = 3"
  | (int32) d where "r = LP_ENCODING_32BIT_INT # d" "length d = 4"
  | (int64) d where "r = LP_ENCODING_64BIT_INT # d" "length d = 8"
  | (str12) b b1 d where "r = b # b1 # d" "LP_ENCODING_IS_12BIT_STR b" "\<not> LP_ENCODING_IS_13BIT_INT b"
      "\<not> LP_ENCODING_IS_6BIT_STR b" "\<not> LP_ENCODING_IS_7BIT_UINT b" "b \<notin> {0xF1, 0xF2, 0xF3, 0xF4}"
      "length d = unat (and b 0xF) * 2 ^ 8 + unat b1"
  | (str32) x d where "r = LP_ENCODING_32BIT_STR # x @ d" "length x = 4" "length d = le_nat x"
      "length d + 5 < 2 ^ 32"
proof -
  obtain b d where r: "r = b # d" using assms by (cases r) (auto simp: raw_ok_def)
  have one: "byte_at (b # d) 1 = byte_at d 0" for b :: byte and d by (simp add: byte_at_def)
  show ?thesis
  proof (cases "b = LP_ENCODING_32BIT_STR")
    case True
    with raw_ok_len32 [of d] assms r show ?thesis by (intro str32 [of "take 4 d" "drop 4 d"]) simp_all
  next
    case False
    have s: "lpCurrentEncodedSizeUnsafe (b # d) = Some (Suc (length d))" "b \<noteq> LP_EOF"
      using assms by (simp_all add: r raw_ok_def)
    note l = length_0_conv length_Suc_conv Suc_length_conv
    show ?thesis
    proof (cases "LP_ENCODING_IS_12BIT_STR b \<and> \<not> LP_ENCODING_IS_7BIT_UINT b \<and> \<not> LP_ENCODING_IS_6BIT_STR b
        \<and> \<not> LP_ENCODING_IS_13BIT_INT b \<and> b \<notin> {0xF1, 0xF2, 0xF3, 0xF4}")
      case True
      with s show ?thesis using r
        by (cases d) (auto intro!: str12 simp: lpCurrentEncodedSizeUnsafe_def one LP_ENCODING_12BIT_STR_LEN_def
            byte_at_None byte_at_def)
    next
      case n: False
      then show ?thesis
        using s False r uint7 [of b] str6 [of b d] int13 [of b "hd d"] int16 [of d] int24 [of d] int32 [of d] int64 [of d]
        by (cases d) (auto simp: lpCurrentEncodedSizeUnsafe_def split: if_splits)
    qed
  qed
qed

lemmas enc_class_defs =
  LP_ENCODING_IS_7BIT_UINT_def LP_ENCODING_IS_6BIT_STR_def LP_ENCODING_IS_13BIT_INT_def LP_ENCODING_IS_12BIT_STR_def

lemma byte_classes [simp]:
  "\<not> LP_ENCODING_IS_7BIT_UINT 0xF0" "\<not> LP_ENCODING_IS_6BIT_STR 0xF0" "\<not> LP_ENCODING_IS_13BIT_INT 0xF0"
  "\<not> LP_ENCODING_IS_7BIT_UINT 0xF1" "\<not> LP_ENCODING_IS_6BIT_STR 0xF1" "\<not> LP_ENCODING_IS_13BIT_INT 0xF1"
  "\<not> LP_ENCODING_IS_7BIT_UINT 0xF2" "\<not> LP_ENCODING_IS_6BIT_STR 0xF2" "\<not> LP_ENCODING_IS_13BIT_INT 0xF2"
  "\<not> LP_ENCODING_IS_7BIT_UINT 0xF3" "\<not> LP_ENCODING_IS_6BIT_STR 0xF3" "\<not> LP_ENCODING_IS_13BIT_INT 0xF3"
  "\<not> LP_ENCODING_IS_7BIT_UINT 0xF4" "\<not> LP_ENCODING_IS_6BIT_STR 0xF4" "\<not> LP_ENCODING_IS_13BIT_INT 0xF4"
  "\<not> LP_ENCODING_IS_12BIT_STR 0xF0"
  by (simp_all add: enc_class_defs)

lemma not_32BIT_STR:
  "LP_ENCODING_IS_12BIT_STR b \<Longrightarrow> b \<noteq> LP_ENCODING_32BIT_STR" "LP_ENCODING_IS_12BIT_STR b \<Longrightarrow> b \<noteq> LP_EOF"
  by (auto simp: enc_class_defs)

lemma length_backlen_small [simp]: "l \<le> 127 \<Longrightarrow> length (lpEncodeBacklen l) = 1"
  by (simp add: lpEncodeBacklen_def)

definition val_in :: "byte list \<Rightarrow> lp_value \<Rightarrow> bool" where
  "val_in r v = (case v of LpStr off n \<Rightarrow> 0 < off \<and> off + n = length r | LpInt i \<Rightarrow> int_range 8 i)"

lemma uval_range:
  "u \<le> m \<Longrightarrow> m = 2 * h - 1 \<Longrightarrow> 0 < h \<Longrightarrow> h \<le> 2 ^ 63 \<Longrightarrow> int_range 8 (uval_to_int u h m)"
  by (auto simp: uval_to_int_def int_range_def)

lemma le_nat_range:
  assumes "length d = n" "2 * h = 256 ^ n" "0 < h" "h \<le> 2 ^ 63" "m = 2 * h - 1"
  shows "int_range 8 (uval_to_int (le_nat d) h m)"
proof -
  have "le_nat d < 2 * h" unfolding assms(2) using le_nat_bound [of d] assms(1) by simp
  with assms show ?thesis by (intro uval_range [of _ m h]) linarith+
qed

lemma raw_ok_read:
  assumes "raw_ok r"
  shows "\<exists>v. lpGetWithSize (r @ X) = Some (v, Some (length r + length (lpEncodeBacklen (length r))))
      \<and> lpGetWithSize r = lpGetWithSize (r @ X) \<and> val_in r v"
  using assms
proof (cases rule: raw_ok_cases)
  case (uint7 b)
  have "int_range 8 (uval_to_int u ULLONG_MAX 0)" if "u < 256" for u
    using that by (simp add: uval_to_int_def ULLONG_MAX_def int_range_def)
  from this [OF unat_byte_less] uint7 show ?thesis by (simp add: lpGetWithSize_def val_in_def)
next
  case (str6 b d)
  then show ?thesis by (simp add: lpGetWithSize_def val_in_def Let_def)
next
  case (int13 b b1)
  have "\<forall>n \<in> set [0..<256]. unat (and (of_nat n :: byte) 0x1f) < 32" by code_simp
  from bspec [OF this, of "unat b"] have "unat (and b 0x1f) < 32" by simp
  moreover have "x * 2 ^ 8 + y \<le> 8191" if "x < 32" "y < 256" for x y :: nat using that by simp
  ultimately have "unat (and b 0x1f) * 2 ^ 8 + unat b1 \<le> 8191" using unat_byte_less [of b1] by blast
  then have "int_range 8 (uval_to_int (unat (and b 0x1f) * 2 ^ 8 + unat b1) (2 ^ 12) 8191)"
    by (rule uval_range) simp_all
  with int13 show ?thesis by (simp add: lpGetWithSize_def val_in_def byte_at_def)
next
  case (int16 d)
  then have "int_range 8 (uval_to_int (le_nat d) (2 ^ 15) (2 ^ 16 - 1))"
    by (intro le_nat_range [of d 2]) simp_all
  with int16 show ?thesis by (simp add: lpGetWithSize_def val_in_def mem_read_def)
next
  case (int24 d)
  then have "int_range 8 (uval_to_int (le_nat d) (2 ^ 23) (2 ^ 24 - 1))"
    by (intro le_nat_range [of d 3]) simp_all
  with int24 show ?thesis by (simp add: lpGetWithSize_def val_in_def mem_read_def)
next
  case (int32 d)
  then have "int_range 8 (uval_to_int (le_nat d) (2 ^ 31) (2 ^ 32 - 1))"
    by (intro le_nat_range [of d 4]) simp_all
  with int32 show ?thesis by (simp add: lpGetWithSize_def val_in_def mem_read_def)
next
  case (int64 d)
  then have "int_range 8 (uval_to_int (le_nat d) (2 ^ 63) ULLONG_MAX)"
    by (intro le_nat_range [of d 8]) (simp_all add: ULLONG_MAX_def)
  with int64 show ?thesis by (simp add: lpGetWithSize_def val_in_def mem_read_def)
next
  case (str12 b b1 d)
  then show ?thesis
    by (simp add: lpGetWithSize_def val_in_def LP_ENCODING_12BIT_STR_LEN_def byte_at_def)
next
  case (str32 x d)
  then show ?thesis
    by (simp add: lpGetWithSize_def val_in_def LP_ENCODING_32BIT_STR_LEN_def mem_read_def add.commute [of _ 5])
qed

lemma raw_ok_size:
  assumes "raw_ok r"
  shows "lpCurrentEncodedSizeUnsafe (r @ X) = Some (length r)"
    "\<exists>k. lpCurrentEncodedSizeBytes (r @ X) = Some k \<and> 1 \<le> k \<and> k \<le> length r"
  using assms
  by (cases rule: raw_ok_cases; simp add: lpCurrentEncodedSizeUnsafe_def lpCurrentEncodedSizeBytes_def
      LP_ENCODING_12BIT_STR_LEN_def LP_ENCODING_32BIT_STR_LEN_def mem_read_def byte_at_def)+

lemma raw_ok_length:
  assumes "raw_ok r"
  shows "1 \<le> length r \<and> length r < 2 ^ 32"
  using assms
proof (cases rule: raw_ok_cases)
  case (str12 b b1 d)
  have "x * 256 + y < 4294967294" if "x < 256" "y < 256" for x y :: nat using that by linarith
  from this [OF unat_byte_less unat_byte_less] show ?thesis using str12 by simp
qed (simp_all add: LP_ENCODING_6BIT_STR_LEN_def less_trans [OF unat_byte_less])

subsection \<open>What is written is read back\<close>

lemma uval_le_bytes:
  assumes "- int h \<le> v" "v < int h" "2 * h = 256 ^ n" "v' = (if v < 0 then 2 * int h + v else v)"
  shows "uval_to_int (le_nat (le_bytes n v')) h (2 * h - 1) = v"
proof -
  have "int (le_nat (le_bytes n v')) = v' mod int (2 * h)"
    unfolding int_le_nat_le_bytes assms(3) by simp
  also have "0 \<le> v'" "v' < int (2 * h)" using assms(1,2,4) by auto
  then have "v' mod int (2 * h) = v'" by (rule mod_pos_pos_trivial)
  finally have "le_nat (le_bytes n v') = nat v'" by simp
  then show ?thesis using assms(1,2,4) by (auto simp: uval_to_int_def)
qed

lemma or_bytes:
  shows "n < 64 \<Longrightarrow> and (or (of_nat n) 0x80 :: byte) 0xC0 = 0x80 \<and> unat (and (or (of_nat n) 0x80 :: byte) 0x3F) = n
      \<and> and (or (of_nat n) 0x80 :: byte) 0x80 \<noteq> 0"
    and "n < 32 \<Longrightarrow> and (or (of_nat n) 0xC0 :: byte) 0xE0 = 0xC0 \<and> unat (and (or (of_nat n) 0xC0 :: byte) 0x1F) = n
      \<and> and (or (of_nat n) 0xC0 :: byte) 0xC0 \<noteq> 0x80 \<and> and (or (of_nat n) 0xC0 :: byte) 0x80 \<noteq> 0"
    and "n < 16 \<Longrightarrow> and (or (of_nat n) 0xE0 :: byte) 0xF0 = 0xE0 \<and> unat (and (or (of_nat n) 0xE0 :: byte) 0xF) = n
      \<and> and (or (of_nat n) 0xE0 :: byte) 0xC0 \<noteq> 0x80 \<and> and (or (of_nat n) 0xE0 :: byte) 0x80 \<noteq> 0
      \<and> and (or (of_nat n) 0xE0 :: byte) 0xE0 \<noteq> 0xC0"
proof -
  have "\<forall>n \<in> set [0..<64]. and (or (of_nat n) 0x80 :: byte) 0xC0 = 0x80 \<and> unat (and (or (of_nat n) 0x80 :: byte) 0x3F) = n
      \<and> and (or (of_nat n) 0x80 :: byte) 0x80 \<noteq> 0" by code_simp
  then show "n < 64 \<Longrightarrow> and (or (of_nat n) 0x80 :: byte) 0xC0 = 0x80 \<and> unat (and (or (of_nat n) 0x80 :: byte) 0x3F) = n
      \<and> and (or (of_nat n) 0x80 :: byte) 0x80 \<noteq> 0" by simp
  have "\<forall>n \<in> set [0..<32]. and (or (of_nat n) 0xC0 :: byte) 0xE0 = 0xC0 \<and> unat (and (or (of_nat n) 0xC0 :: byte) 0x1F) = n
      \<and> and (or (of_nat n) 0xC0 :: byte) 0xC0 \<noteq> 0x80 \<and> and (or (of_nat n) 0xC0 :: byte) 0x80 \<noteq> 0" by code_simp
  then show "n < 32 \<Longrightarrow> and (or (of_nat n) 0xC0 :: byte) 0xE0 = 0xC0 \<and> unat (and (or (of_nat n) 0xC0 :: byte) 0x1F) = n
      \<and> and (or (of_nat n) 0xC0 :: byte) 0xC0 \<noteq> 0x80 \<and> and (or (of_nat n) 0xC0 :: byte) 0x80 \<noteq> 0" by simp
  have "\<forall>n \<in> set [0..<16]. and (or (of_nat n) 0xE0 :: byte) 0xF0 = 0xE0 \<and> unat (and (or (of_nat n) 0xE0 :: byte) 0xF) = n
      \<and> and (or (of_nat n) 0xE0 :: byte) 0xC0 \<noteq> 0x80 \<and> and (or (of_nat n) 0xE0 :: byte) 0x80 \<noteq> 0
      \<and> and (or (of_nat n) 0xE0 :: byte) 0xE0 \<noteq> 0xC0" by code_simp
  then show "n < 16 \<Longrightarrow> and (or (of_nat n) 0xE0 :: byte) 0xF0 = 0xE0 \<and> unat (and (or (of_nat n) 0xE0 :: byte) 0xF) = n
      \<and> and (or (of_nat n) 0xE0 :: byte) 0xC0 \<noteq> 0x80 \<and> and (or (of_nat n) 0xE0 :: byte) 0x80 \<noteq> 0
      \<and> and (or (of_nat n) 0xE0 :: byte) 0xE0 \<noteq> 0xC0" by simp
qed

lemmas raw_defs = raw_ok_def raw_value_def lpGetValue_def lpGetWithSize_def lpCurrentEncodedSizeUnsafe_def
  LP_ENCODING_12BIT_STR_LEN_def LP_ENCODING_32BIT_STR_LEN_def LP_ENCODING_6BIT_STR_LEN_def mem_read_def byte_at_def

lemma encode_13bit:
  assumes "0 \<le> w" "w < (8192::int)"
  shows "raw_ok [or (word_of_int (w div 2 ^ 8)) 0xC0, word_of_int w] \<and>
    raw_value [or (word_of_int (w div 2 ^ 8)) 0xC0, word_of_int w] = LVal (if w \<ge> 4096 then w - 8192 else w)"
proof -
  obtain n where n: "w div 2 ^ 8 = int n" "n < 32" using assms by (intro that [of "nat (w div 2 ^ 8)"]) auto
  have u: "unat (word_of_int w :: byte) = nat (w mod 256)"
    by (metis nat_uint_eq uint_word_of_int_byte)
  have "n * 256 + nat (w mod 256) = nat w"
    using n assms div_mult_mod_eq [of w 256] by (simp add: nat_eq_iff)
  then show ?thesis using or_bytes(2) [OF n(2)] n assms
    by (auto simp: raw_defs enc_class_defs u uval_to_int_def)
qed

lemma encode_int:
  assumes "int_range 8 v"
  shows "raw_ok (lpEncodeIntegerGetType v) \<and> raw_value (lpEncodeIntegerGetType v) = LVal v"
proof -
  consider "0 \<le> v \<and> v \<le> 127" | "\<not> (0 \<le> v \<and> v \<le> 127)" "-4096 \<le> v \<and> v \<le> 4095"
    | "\<not> (-4096 \<le> v \<and> v \<le> 4095)" "-32768 \<le> v \<and> v \<le> 32767"
    | "\<not> (-32768 \<le> v \<and> v \<le> 32767)" "-8388608 \<le> v \<and> v \<le> 8388607"
    | "\<not> (-8388608 \<le> v \<and> v \<le> 8388607)" "-2147483648 \<le> v \<and> v \<le> 2147483647"
    | "\<not> (-2147483648 \<le> v \<and> v \<le> 2147483647)" by argo
  then show ?thesis
  proof cases
    case 1
    define n where "n = nat v"
    have v: "v = int n" "n < 128" using 1 by (auto simp: n_def)
    show ?thesis using group_bytes [OF v(2)] v(2)
      by (auto simp: lpEncodeIntegerGetType_def raw_defs enc_class_defs v(1) uval_to_int_def ULLONG_MAX_def)
  next
    case 2
    then show ?thesis using encode_13bit [of "if v < 0 then 2 ^ 13 + v else v"]
      by (auto simp: lpEncodeIntegerGetType_def Let_def)
  next
    case 3
    then have "uval_to_int (le_nat (le_bytes 2 (if v < 0 then 2 ^ 16 + v else v))) (2 ^ 15) (2 ^ 16 - 1) = v"
      using uval_le_bytes [of "2 ^ 15" v 2, OF _ _ _ refl] by (cases "v < 0") simp_all
    moreover have "lpEncodeIntegerGetType v = 0xF1 # le_bytes 2 (if v < 0 then 2 ^ 16 + v else v)"
      using 3 by (auto simp: lpEncodeIntegerGetType_def)
    ultimately show ?thesis by (simp only:) (simp add: raw_defs del: le_bytes.simps)
  next
    case 4
    then have "uval_to_int (le_nat (le_bytes 3 (if v < 0 then 2 ^ 24 + v else v))) (2 ^ 23) (2 ^ 24 - 1) = v"
      using uval_le_bytes [of "2 ^ 23" v 3, OF _ _ _ refl] by (cases "v < 0") simp_all
    moreover have "lpEncodeIntegerGetType v = 0xF2 # le_bytes 3 (if v < 0 then 2 ^ 24 + v else v)"
      using 4 by (auto simp: lpEncodeIntegerGetType_def)
    ultimately show ?thesis by (simp only:) (simp add: raw_defs del: le_bytes.simps)
  next
    case 5
    then have "uval_to_int (le_nat (le_bytes 4 (if v < 0 then 2 ^ 32 + v else v))) (2 ^ 31) (2 ^ 32 - 1) = v"
      using uval_le_bytes [of "2 ^ 31" v 4, OF _ _ _ refl] by (cases "v < 0") simp_all
    moreover have "lpEncodeIntegerGetType v = 0xF3 # le_bytes 4 (if v < 0 then 2 ^ 32 + v else v)"
      using 5 by (auto simp: lpEncodeIntegerGetType_def)
    ultimately show ?thesis by (simp only:) (simp add: raw_defs del: le_bytes.simps)
  next
    case 6
    have r: "- (2 ^ 63) \<le> v" "v < 2 ^ 63" using assms by (simp_all add: int_range_def)
    have "v mod 2 ^ 64 = (if v < 0 then 2 ^ 64 + v else v)"
    proof (cases "v < 0")
      case True
      have "v mod 2 ^ 64 = (2 ^ 64 + v) mod 2 ^ 64" by (simp only: mod_add_self1)
      also have "\<dots> = 2 ^ 64 + v" using True r by (intro mod_pos_pos_trivial) simp_all
      finally show ?thesis using True by simp
    qed (use r in \<open>simp add: mod_pos_pos_trivial\<close>)
    then have "uval_to_int (le_nat (le_bytes 8 (v mod 2 ^ 64))) (2 ^ 63) (2 ^ 64 - 1) = v"
      using uval_le_bytes [of "2 ^ 63" v 8, OF _ _ _ refl] r by (cases "v < 0") simp_all
    moreover have "lpEncodeIntegerGetType v = 0xF4 # le_bytes 8 (v mod 2 ^ 64)"
      using 6 by (auto simp: lpEncodeIntegerGetType_def)
    ultimately show ?thesis by (simp only:) (simp add: raw_defs ULLONG_MAX_def)
  qed
qed

lemma encode_string:
  assumes "length s + 5 < 2 ^ 32"
  shows "raw_ok (lpEncodeString s) \<and> raw_value (lpEncodeString s) = SVal s"
proof -
  consider "length s < 64" | "64 \<le> length s" "length s < 4096" | "4096 \<le> length s" by linarith
  then show ?thesis
  proof cases
    case 1
    then show ?thesis using or_bytes(1) [of "length s"]
      by (auto simp: lpEncodeString_def raw_defs enc_class_defs Let_def)
  next
    case 2
    define n where "n = length s div 256"
    have n: "n < 16" "n * 256 + unat (of_nat (length s) :: byte) = length s"
      using 2 by (auto simp: n_def unat_of_nat)
    show ?thesis using or_bytes(3) [OF n(1)] 2 n(2)
      by (auto simp: lpEncodeString_def raw_defs enc_class_defs simp flip: n_def)
  next
    case 3
    have "int (le_nat (le_bytes 4 (int (length s)))) = int (length s)"
      unfolding int_le_nat_le_bytes using assms by simp
    then have "le_nat (le_bytes 4 (int (length s))) = length s" by simp
    then show ?thesis using 3 assms by (simp add: lpEncodeString_def raw_defs)
  qed
qed

subsection \<open>Elements as strings\<close>

text \<open>
  A string that is the decimal notation of a 64-bit integer is stored as the integer.  As strings
  the elements are unchanged: \<open>entry_str\<close> is what an element prints as.
\<close>

fun entry_str :: "listpackEntry \<Rightarrow> byte list" where
  "entry_str (SVal s) = s"
| "entry_str (LVal v) = decimal v"

definition stored :: "byte list \<Rightarrow> listpackEntry" where
  "stored s = (case string2ll s of Some v \<Rightarrow> LVal v | None \<Rightarrow> SVal s)"

lemma entry_str_stored [simp]: "entry_str (stored s) = s"
  using string2ll_sound by (auto simp: stored_def split: option.splits)

lemma int_range_8: "int_range 8 v \<longleftrightarrow> LLONG_MIN \<le> v \<and> v \<le> LLONG_MAX"
  by (auto simp: int_range_def LLONG_MIN_def LLONG_MAX_def)

lemma lpStringToInt64_eq: "lpStringToInt64 = string2ll"
  by (rule ext) (simp add: lpStringToInt64_def string2ll_def)

lemma string2ll_eq: "int_range 8 v \<Longrightarrow> string2ll s = Some v \<longleftrightarrow> s = decimal v"
  using string2ll_decimal string2ll_sound by (auto simp: int_range_8)

lemma length_lpEncodeString:
  "length (lpEncodeString s) =
     (let sz = length s in if sz < 64 then 1 + sz else if sz < 4096 then 2 + sz else 5 + sz)"
  by (simp add: lpEncodeString_def Let_def)

lemma length_ele_bytes [simp]: "length (ele_bytes e) = ele_enclen e"
  by (auto simp: ele_bytes_def ele_enclen_def lpEncodeGetType_def length_lpEncodeString Let_def
      split: lp_ele.splits sum.splits option.splits)

lemma encode_stored:
  assumes "ele_enclen (EleStr s) < 2 ^ 32"
  shows "raw_ok (ele_bytes (EleStr s)) \<and> raw_value (ele_bytes (EleStr s)) = stored s"
proof (cases "string2ll s")
  case None
  then have "length s + 5 < 2 ^ 32"
    using assms by (auto simp: ele_enclen_def lpEncodeGetType_def lpStringToInt64_eq Let_def split: if_splits)
  with None show ?thesis using encode_string [of s]
    by (simp add: ele_bytes_def lpEncodeGetType_def lpStringToInt64_eq stored_def Let_def)
next
  case (Some v)
  then have "int_range 8 v" using string2ll_sound int_range_8 by blast
  with Some show ?thesis using encode_int [of v]
    by (simp add: ele_bytes_def lpEncodeGetType_def lpStringToInt64_eq stored_def)
qed

lemma raw_value_cases:
  assumes "raw_ok r"
  obtains (str) off n where "lpGetValue (r @ X) = Some (LpStr off n)" "off + n = length r"
      "raw_value r = SVal (take n (drop off r))"
  | (int) v where "lpGetValue (r @ X) = Some (LpInt v)" "int_range 8 v" "raw_value r = LVal v"
proof -
  obtain v where v: "lpGetWithSize (r @ X) = Some (v, Some (length r + length (lpEncodeBacklen (length r))))"
    "lpGetWithSize r = lpGetWithSize (r @ X)" "val_in r v"
    using raw_ok_read [OF assms] by blast
  show ?thesis
  proof (cases v)
    case (LpInt i)
    with v show ?thesis by (intro int [of i]) (simp_all add: lpGetValue_def raw_value_def val_in_def)
  next
    case (LpStr off n)
    with v show ?thesis by (intro str [of off n]) (simp_all add: lpGetValue_def raw_value_def val_in_def)
  qed
qed

lemma lpGet_raw:
  assumes "raw_ok r" "LP_INTBUF_SIZE \<le> length intbuf"
  shows "lpGet (r @ X) intbuf = Some (entry_str (raw_value r))"
  using assms(1)
proof (cases rule: raw_value_cases [where X = X])
  case (str off n)
  then show ?thesis by (simp add: lpGet_def mem_read_def)
next
  case (int v)
  then have v: "LLONG_MIN \<le> v" "v \<le> LLONG_MAX" by (simp_all add: int_range_8)
  then have "sdigits10 v < LP_INTBUF_SIZE"
    using length_decimal_bound [of v] by (simp add: sdigits10_eq LP_INTBUF_SIZE_def LONG_STR_SIZE_def)
  from ll2string_correct [OF v(1) this assms(2)] show ?thesis
    using int v by (simp add: lpGet_def mem_read_def sdigits10_eq)
qed

lemma lpCompare_raw:
  assumes "raw_ok r"
  shows "lpCompare (r @ X) s = Some (entry_str (raw_value r) = s)"
proof -
  have b: "byte_at (r @ X) 0 = Some (hd r)" "hd r \<noteq> LP_EOF"
    using assms by (cases r; simp add: raw_ok_def)+
  from assms show ?thesis
  proof (cases rule: raw_value_cases [where X = X])
    case (str off n)
    with b show ?thesis by (auto simp: lpCompare_def mem_read_def)
  next
    case (int v)
    with b show ?thesis by (auto simp: lpCompare_def lpStringToInt64_eq string2ll_eq)
  qed
qed

end
