(* ===== verification/Listpack_Ops.thy ===== *)
theory Listpack_Ops
  imports Listpack_Codec
begin

section \<open>Listpacks: navigation and search\<close>

text \<open>
  \<open>lp_block rs num slack\<close> is a block holding the listpack with the encoded elements \<open>rs\<close>, the
  number \<open>num\<close> in its header, and \<open>slack\<close> unused bytes after it; \<open>lp_rep lp rs\<close> says that \<open>lp\<close> is
  such a block and its header is right.  A position in the listpack is a split of the elements:
  \<open>lp_pos xs\<close> is the offset of what comes after \<open>xs\<close>.
\<close>

definition ent :: "byte list \<Rightarrow> byte list" where
  "ent r = r @ lpEncodeBacklen (length r)"

definition body :: "byte list list \<Rightarrow> byte list" where
  "body rs = concat (map ent rs)"

definition lp_pos :: "byte list list \<Rightarrow> nat" where
  "lp_pos xs = LP_HDR_SIZE + length (body xs)"

definition lp_block :: "byte list list \<Rightarrow> nat \<Rightarrow> byte list \<Rightarrow> byte list" where
  "lp_block rs num slack =
     le_bytes 4 (int (lp_pos rs + 1)) @ le_bytes 2 (int num) @ body rs @ LP_EOF # slack"

definition num_ok :: "nat \<Rightarrow> nat \<Rightarrow> bool" where
  "num_ok num n \<longleftrightarrow> num = LP_HDR_NUMELE_UNKNOWN \<or> num = n \<and> n < LP_HDR_NUMELE_UNKNOWN"

definition lp_ok :: "byte list list \<Rightarrow> nat \<Rightarrow> bool" where
  "lp_ok rs num \<longleftrightarrow> list_all raw_ok rs \<and> lp_pos rs + 1 < 2 ^ 32 \<and> num_ok num (length rs)"

definition lp_rep :: "byte list \<Rightarrow> byte list list \<Rightarrow> bool" where
  "lp_rep lp rs \<longleftrightarrow> (\<exists>num slack. lp_ok rs num \<and> lp = lp_block rs num slack)"

lemma body_simps [simp]:
  "body [] = []" "body (r # rs) = ent r @ body rs" "body (xs @ ys) = body xs @ body ys"
  by (simp_all add: body_def)

lemma lp_pos_simps:
  "lp_pos [] = 6" "lp_pos (xs @ ys) = lp_pos xs + length (body ys)"
  by (simp_all add: lp_pos_def LP_HDR_SIZE_def)

lemma lp_pos_ge: "6 \<le> lp_pos xs" by (simp add: lp_pos_def LP_HDR_SIZE_def)

lemma length_ent: "length (ent r) = length r + length (lpEncodeBacklen (length r))"
  by (simp add: ent_def)

lemma ent_pos: "raw_ok r \<Longrightarrow> 2 \<le> length (ent r)"
  using raw_ok_length [of r] length_lpEncodeBacklen(1) [of "length r"] by (simp add: length_ent)

lemma length_body: "list_all raw_ok rs \<Longrightarrow> 2 * length rs \<le> length (body rs)"
proof (induction rs)
  case (Cons r rs)
  with ent_pos [of r] show ?case by simp
qed simp

subsection \<open>The header\<close>

lemma le_nat_le_bytes: "x < 256 ^ n \<Longrightarrow> le_nat (le_bytes n (int x)) = x"
proof -
  assume "x < 256 ^ n"
  then have "int x mod 256 ^ n = int x" by (intro mod_pos_pos_trivial) (simp_all flip: of_nat_power)
  then show ?thesis using int_le_nat_le_bytes [of n "int x"] by simp
qed

lemma num_ok_bound: "num_ok num n \<Longrightarrow> num < 65536"
  by (auto simp: num_ok_def LP_HDR_NUMELE_UNKNOWN_def)

lemma lp_header:
  assumes "lp_ok rs num"
  shows "lpGetTotalBytes (lp_block rs num slack) = Some (lp_pos rs + 1)"
    "lpGetNumElements (lp_block rs num slack) = Some num"
    "lpBytes (lp_block rs num slack) = Some (lp_pos rs + 1)"
proof -
  have "lp_pos rs + 1 < 256 ^ 4" "num < 256 ^ 2"
    using assms num_ok_bound [of num "length rs"] by (simp_all add: lp_ok_def)
  from le_nat_le_bytes [OF this(1)] le_nat_le_bytes [OF this(2)]
  show t: "lpGetTotalBytes (lp_block rs num slack) = Some (lp_pos rs + 1)"
    and "lpGetNumElements (lp_block rs num slack) = Some num"
    by (simp_all only: lpGetTotalBytes_def lpGetNumElements_def lp_block_def)
      (simp_all add: mem_read_def del: le_bytes.simps)
  from t show "lpBytes (lp_block rs num slack) = Some (lp_pos rs + 1)" by (simp add: lpBytes_def)
qed

lemma lp_block_split:
  obtains P where "lp_block (xs @ ys) num slack = P @ body ys @ LP_EOF # slack" "length P = lp_pos xs"
  by (rule that [of "le_bytes 4 (int (lp_pos (xs @ ys) + 1)) @ le_bytes 2 (int num) @ body xs"])
    (simp_all add: lp_block_def lp_pos_def LP_HDR_SIZE_def)

lemma lp_block_cons:
  obtains P where
    "lp_block (xs @ r # ys) num slack = P @ r @ lpEncodeBacklen (length r) @ body ys @ LP_EOF # slack"
    "length P = lp_pos xs"
  by (rule lp_block_split [of xs "r # ys" num slack]) (auto simp: ent_def intro: that)

lemma lp_pos_cons: "lp_pos (xs @ [r]) = lp_pos xs + (length r + length (lpEncodeBacklen (length r)))"
  by (simp add: lp_pos_def length_ent)

subsection \<open>One step\<close>

lemma byte_at_eof: "byte_at (lp_block xs num slack) (lp_pos xs) = Some LP_EOF"
  using lp_block_split [of xs "[]" num slack] by (metis append_Nil2 append_Nil body_simps(1) byte_at_append3 byte_at_simps(1))

lemma byte_at_entry:
  assumes "raw_ok r"
  shows "byte_at (lp_block (xs @ r # ys) num slack) (lp_pos xs) = Some (hd r) \<and> hd r \<noteq> LP_EOF"
proof (rule lp_block_cons [of xs r ys num slack])
  fix P assume "lp_block (xs @ r # ys) num slack = P @ r @ lpEncodeBacklen (length r) @ body ys @ LP_EOF # slack"
    "length P = lp_pos xs"
  moreover from this(2) have "byte_at (P @ Q) (lp_pos xs) = byte_at Q 0" for Q by (metis byte_at_append3)
  ultimately show ?thesis using assms by (cases r) (auto simp: raw_ok_def)
qed

lemma drop_lp_block:
  obtains X where "drop (lp_pos xs) (lp_block (xs @ r # ys) num slack) = r @ X"
  by (rule lp_block_cons [of xs r ys num slack]) (simp add: that)

lemma lpSkip_entry:
  assumes "raw_ok r"
  shows "lpSkip (lp_block (xs @ r # ys) num slack) (lp_pos xs) = Some (lp_pos (xs @ [r]))"
  by (rule drop_lp_block [of xs r ys num slack]) (simp add: lpSkip_def raw_ok_size(1) [OF assms] lp_pos_cons)

lemma decode_entry:
  assumes "raw_ok r"
  shows "lpDecodeBacklen (lp_block (xs @ r # ys) num slack) (int (lp_pos (xs @ [r])) - 1) = Some (length r)"
proof (rule lp_block_cons [of xs r ys num slack])
  fix P assume P: "lp_block (xs @ r # ys) num slack = P @ r @ lpEncodeBacklen (length r) @ body ys @ LP_EOF # slack"
    "length P = lp_pos xs"
  have "length r < 2 ^ 35" using raw_ok_length [OF assms] by simp
  from lpDecodeBacklen_encode [OF this, of "int (lp_pos (xs @ [r])) - 1" "P @ r" "body ys @ LP_EOF # slack"]
  show ?thesis using P by (simp add: lp_pos_cons)
qed

lemma lpValidateNext_entry:
  assumes "raw_ok r" "lp_pos (xs @ [r]) < bytes"
  shows "lpValidateNext (lp_block (xs @ r # ys) num slack) (Some (lp_pos xs)) bytes
    = Some (True, Some (lp_pos (xs @ [r])))"
proof -
  let ?lp = "lp_block (xs @ r # ys) num slack"
  obtain X where X: "drop (lp_pos xs) ?lp = r @ X" by (rule drop_lp_block)
  obtain k where k: "lpCurrentEncodedSizeBytes (r @ X) = Some k" "1 \<le> k" "k \<le> length r"
    using raw_ok_size(2) [OF assms(1)] by blast
  have pos: "lp_pos (xs @ [r]) = lp_pos xs + (length r + length (lpEncodeBacklen (length r)))" by (rule lp_pos_cons)
  have len: "(length r + length (lpEncodeBacklen (length r))) mod 18446744073709551616 = length r + length (lpEncodeBacklen (length r))"
    using raw_ok_length [OF assms(1)] length_lpEncodeBacklen(2) [of "length r"] by simp
  have dec: "lpDecodeBacklen ?lp (int (lp_pos xs + (length r + length (lpEncodeBacklen (length r)))) - 1) = Some (length r)"
    using decode_entry [OF assms(1), of xs ys num slack] by (simp only: pos)
  show ?thesis
    using byte_at_entry [OF assms(1), of xs ys num slack] k assms(2) pos lp_pos_ge [of xs] dec len
      raw_ok_size(1) [OF assms(1), of X]
    by (simp add: lpValidateNext_def X LP_HDR_SIZE_def)
qed

lemma lpValidateNext_eof:
  "lp_pos xs < bytes \<Longrightarrow> lpValidateNext (lp_block xs num slack) (Some (lp_pos xs)) bytes = Some (True, None)"
  using lp_pos_ge [of xs] by (simp add: lpValidateNext_def byte_at_eof LP_HDR_SIZE_def)

lemma lpAssertValidEntry_entry:
  assumes "list_all raw_ok ys"
  shows "lpAssertValidEntry (lp_block (xs @ ys) num slack) (lp_pos (xs @ ys) + 1) (lp_pos xs) = Some ()"
proof (cases ys)
  case Nil
  then show ?thesis using lpValidateNext_eof [of xs "lp_pos xs + 1"] by (simp add: lpAssertValidEntry_def)
next
  case (Cons r zs)
  have "lp_pos (xs @ [r]) < lp_pos (xs @ r # zs) + 1" by (simp add: lp_pos_simps)
  with Cons assms lpValidateNext_entry [of r xs "lp_pos (xs @ r # zs) + 1" zs] show ?thesis
    by (simp add: lpAssertValidEntry_def)
qed

text \<open>The pointer to the first element of \<open>ys\<close>, NULL when there is none.\<close>

definition ptr :: "byte list list \<Rightarrow> byte list list \<Rightarrow> nat option" where
  "ptr xs ys = (if ys = [] then None else Some (lp_pos xs))"

lemma ptr_simps [simp]: "ptr xs [] = None" "ptr xs (y # ys) = Some (lp_pos xs)"
  by (simp_all add: ptr_def)

lemma validated_pointer:
  assumes "lp_ok (xs @ ys) num" "lp = lp_block (xs @ ys) num slack" "p = lp_pos xs"
  shows "(do { b \<leftarrow> byte_at lp p;
       if b = LP_EOF then Some None
       else do { bytes \<leftarrow> lpBytes lp; lpAssertValidEntry lp bytes p; Some (Some p) } }) = Some (ptr xs ys)"
proof (cases ys)
  case Nil
  then show ?thesis using assms by (simp add: byte_at_eof)
next
  case (Cons r zs)
  then have "list_all raw_ok ys" "raw_ok r" using assms by (simp_all add: lp_ok_def)
  with Cons show ?thesis unfolding assms(2,3)
    using byte_at_entry [of r xs zs num slack] lp_header(3) [OF assms(1), of slack] lpAssertValidEntry_entry [of ys xs num slack]
    by simp
qed

lemma lpFirst_eq:
  "lp_ok ys num \<Longrightarrow> lpFirst (lp_block ys num slack) = Some (ptr [] ys)"
  by (simp add: lpFirst_def validated_pointer [of "[]" ys num _ slack] lp_pos_def)

lemma lpNext_eq:
  assumes "lp_ok (xs @ r # ys) num"
  shows "lpNext (lp_block (xs @ r # ys) num slack) (lp_pos xs) = Some (ptr (xs @ [r]) ys)"
proof -
  have "raw_ok r" using assms by (simp add: lp_ok_def)
  with assms show ?thesis
    by (simp add: lpNext_def lpSkip_entry validated_pointer [of "xs @ [r]" ys num _ slack])
qed

lemma lpPrev_eq:
  assumes "lp_ok (xs @ r # ys) num"
  shows "lpPrev (lp_block (xs @ r # ys) num slack) (lp_pos (xs @ [r])) = Some (Some (lp_pos xs))"
proof -
  have r: "raw_ok r" and rs: "list_all raw_ok (r # ys)" using assms by (simp_all add: lp_ok_def)
  have pos: "lp_pos (xs @ [r]) = lp_pos xs + (length r + length (lpEncodeBacklen (length r)))" by (rule lp_pos_cons)
  have len: "(length r + length (lpEncodeBacklen (length r))) mod 18446744073709551616 = length r + length (lpEncodeBacklen (length r))"
    using raw_ok_length [OF r] length_lpEncodeBacklen(2) [of "length r"] by simp
  have ne: "lp_pos (xs @ [r]) \<noteq> LP_HDR_SIZE"
    using ent_pos [OF r] lp_pos_ge [of xs] by (simp add: pos length_ent LP_HDR_SIZE_def)
  show ?thesis
    using decode_entry [OF r, of xs ys num slack] lp_header(3) [OF assms, of slack]
      lpAssertValidEntry_entry [OF rs, of xs num slack] ne
    by (simp add: lpPrev_def Let_def len del: One_nat_def) (simp add: pos)
qed

lemma lpPrev_first: "lpPrev lp (lp_pos []) = Some None"
  by (simp add: lpPrev_def lp_pos_def)

lemma lpLast_eq:
  assumes "lp_ok rs num"
  shows "lpLast (lp_block rs num slack) = Some (if rs = [] then None else Some (lp_pos (butlast rs)))"
proof (cases rs rule: rev_cases)
  case Nil
  then show ?thesis using lp_header(1) [OF assms, of slack] lpPrev_first by (simp add: lpLast_def)
next
  case (snoc xs r)
  with assms lpPrev_eq [of xs r "[]" num slack] lp_header(1) [OF assms, of slack] show ?thesis
    by (simp add: lpLast_def)
qed

subsection \<open>Counting and seeking\<close>

lemma lpSetNumElements_block: "lpSetNumElements (lp_block rs num slack) (int n) = Some (lp_block rs n slack)"
  using mem_write_exact [of "le_bytes 2 (int num)" "le_bytes 2 (int n)" "le_bytes 4 (int (lp_pos rs + 1))" 4]
  by (simp only: lpSetNumElements_def lp_block_def length_le_bytes simp_thms)

lemma lpCount_loop_eq:
  assumes "lp_ok (xs @ ys) num" "length ys < fuel"
  shows "lpCount_loop (lp_block (xs @ ys) num slack) fuel (ptr xs ys) count = Some (count + length ys)"
  using assms
proof (induction ys arbitrary: xs fuel count)
  case Nil
  then show ?case by (cases fuel) simp_all
next
  case (Cons r ys)
  then obtain f where f: "fuel = Suc f" "length ys < f" by (cases fuel) auto
  from Cons.IH [of "xs @ [r]" f "count + 1"] Cons.prems f lpNext_eq [of xs r ys num slack] show ?case by simp
qed

lemma fuel_enough: "list_all raw_ok (xs @ ys) \<Longrightarrow> length ys < length (lp_block (xs @ ys) num slack)"
  using length_body [of "xs @ ys"] by (simp add: lp_block_def)

lemma lpLength_eq:
  assumes "lp_ok rs num"
  shows "\<exists>num'. lpLength (lp_block rs num slack) = Some (lp_block rs num' slack, length rs) \<and> lp_ok rs num'"
proof (cases "num = LP_HDR_NUMELE_UNKNOWN")
  case False
  then have "num = length rs" using assms by (simp add: lp_ok_def num_ok_def)
  then show ?thesis using assms False lp_header(2) [OF assms, of slack] by (auto simp: lpLength_def)
next
  case True
  have "length rs < length (lp_block rs num slack) + 1"
    using fuel_enough [of "[]" rs num slack] assms by (simp add: lp_ok_def)
  then have "lpCount_loop (lp_block rs num slack) (length (lp_block rs num slack) + 1) (ptr [] rs) 0 = Some (length rs)"
    using lpCount_loop_eq [of "[]" rs num "length (lp_block rs num slack) + 1" slack 0] assms
    by (simp del: lpCount_loop.simps)
  with True assms lp_header(2) [OF assms, of slack] lpFirst_eq [OF assms, of slack] show ?thesis
    by (auto simp: lpLength_def lpSetNumElements_block lp_ok_def num_ok_def simp del: lpCount_loop.simps)
qed

lemma seek_forward_eq:
  "lp_ok (xs @ ys) num \<Longrightarrow> seek_forward (lp_block (xs @ ys) num slack) k (ptr xs ys)
     = Some (ptr (xs @ take k ys) (drop k ys))"
proof (induction k arbitrary: xs ys)
  case (Suc k)
  show ?case
  proof (cases ys)
    case (Cons r zs)
    with Suc.IH [of "xs @ [r]" zs] Suc.prems lpNext_eq [of xs r zs num slack] show ?thesis by simp
  qed simp
qed simp

text \<open>The pointer to the last element of \<open>xs\<close>.\<close>

definition rptr :: "byte list list \<Rightarrow> nat option" where
  "rptr xs = (if xs = [] then None else Some (lp_pos (butlast xs)))"

lemma seek_backward_eq:
  "lp_ok (xs @ ys) num \<Longrightarrow> seek_backward (lp_block (xs @ ys) num slack) k (rptr xs) = Some (rptr (take (length xs - k) xs))"
proof (induction k arbitrary: xs ys)
  case (Suc k)
  show ?case
  proof (cases xs rule: rev_cases)
    case Nil
    then show ?thesis by (simp add: rptr_def)
  next
    case (snoc zs r)
    have prev: "lpPrev (lp_block (xs @ ys) num slack) (lp_pos zs) = Some (rptr zs)"
    proof (cases zs rule: rev_cases)
      case Nil
      then show ?thesis using lpPrev_first by (simp add: rptr_def)
    next
      case (snoc ws q)
      then show ?thesis using lpPrev_eq [of ws q "r # ys" num slack] Suc.prems \<open>xs = zs @ [r]\<close> by (simp add: rptr_def)
    qed
    have "seek_backward (lp_block (zs @ r # ys) num slack) k (rptr zs) = Some (rptr (take (length zs - k) zs))"
      using Suc.IH [of zs "r # ys"] Suc.prems snoc by simp
    with prev snoc show ?thesis by (simp add: rptr_def)
  qed
qed simp

text \<open>The pointer to element \<open>i\<close>.\<close>

definition nth_ptr :: "byte list list \<Rightarrow> int \<Rightarrow> nat option" where
  "nth_ptr rs i = (if 0 \<le> i \<and> i < int (length rs) then Some (lp_pos (take (nat i) rs)) else None)"

lemma ptr_nth: "ptr (take k rs) (drop k rs) = nth_ptr rs (int k)"
  by (auto simp: ptr_def nth_ptr_def)

lemma rptr_nth: "k \<le> length rs \<Longrightarrow> rptr (take k rs) = nth_ptr rs (int k - 1)"
  by (cases k) (auto simp: rptr_def nth_ptr_def butlast_take)

lemma seek_last:
  assumes "lp_ok rs num"
  shows "(do { ele \<leftarrow> lpLast (lp_block rs num slack); seek_backward (lp_block rs num slack) k ele })
    = Some (nth_ptr rs (int (length rs) - int k - 1))"
proof -
  have "lpLast (lp_block rs num slack) = Some (rptr rs)" using lpLast_eq [OF assms] by (simp add: rptr_def)
  moreover have "seek_backward (lp_block rs num slack) k (rptr rs) = Some (rptr (take (length rs - k) rs))"
    using seek_backward_eq [of rs "[]" num slack k] assms by simp
  moreover have "nth_ptr rs (int (length rs - k) - 1) = nth_ptr rs (int (length rs) - int k - 1)"
    by (auto simp: nth_ptr_def of_nat_diff)
  ultimately show ?thesis by (simp add: rptr_nth)
qed

lemma seek_first:
  assumes "lp_ok rs num"
  shows "(do { ele \<leftarrow> lpFirst (lp_block rs num slack); seek_forward (lp_block rs num slack) k ele })
    = Some (nth_ptr rs (int k))"
  using assms lpFirst_eq [OF assms] seek_forward_eq [of "[]" rs num slack k] by (simp add: ptr_nth)

lemma lpSeek_eq:
  assumes "lp_ok rs num"
  shows "lpSeek (lp_block rs num slack) index
    = Some (nth_ptr rs (if index < 0 then int (length rs) + index else index))"
proof (cases "num = LP_HDR_NUMELE_UNKNOWN")
  case True
  then show ?thesis using seek_first [OF assms, of slack] seek_last [OF assms, of slack] lp_header(2) [OF assms, of slack]
    by (simp add: lpSeek_def add.commute)
next
  case False
  then have "num = length rs" using assms by (simp add: lp_ok_def num_ok_def)
  then show ?thesis
    using False seek_first [OF assms, of slack] seek_last [OF assms, of slack] lp_header(2) [OF assms, of slack]
    by (auto simp: lpSeek_def Let_def nth_ptr_def)
qed

subsection \<open>Searching\<close>

text \<open>The argument that \<open>lpFindCb\<close> gives to its comparison for an element.\<close>

fun cmp_arg :: "listpackEntry \<Rightarrow> byte list + int" where
  "cmp_arg (SVal s) = Inl s"
| "cmp_arg (LVal v) = Inr v"

lemma find_step:
  assumes "lp_ok (xs @ r # ys) num"
  shows "\<exists>v. lpGetWithSize (drop (lp_pos xs) (lp_block (xs @ r # ys) num slack)) = Some (v, Some (length (ent r))) \<and>
    (case v of
       LpInt ll \<Rightarrow> Some (Inr ll)
     | LpStr off n \<Rightarrow>
         if lp_pos xs \<ge> LP_HDR_SIZE \<and> lp_pos xs + length (ent r) < lp_pos (xs @ r # ys) + 1
         then map_option Inl (mem_read (lp_block (xs @ r # ys) num slack) (lp_pos xs + off) n) else None)
      = Some (cmp_arg (raw_value r))"
proof -
  have r: "raw_ok r" using assms by (simp add: lp_ok_def)
  obtain P where P: "lp_block (xs @ r # ys) num slack = P @ r @ lpEncodeBacklen (length r) @ body ys @ LP_EOF # slack"
    "length P = lp_pos xs" by (rule lp_block_cons)
  let ?X = "lpEncodeBacklen (length r) @ body ys @ LP_EOF # slack"
  obtain v where v: "lpGetWithSize (r @ ?X) = Some (v, Some (length (ent r)))" "lpGetWithSize r = lpGetWithSize (r @ ?X)"
    "val_in r v" using raw_ok_read [OF r] unfolding length_ent by blast
  have "lp_pos xs + length (ent r) < lp_pos (xs @ r # ys) + 1" "LP_HDR_SIZE \<le> lp_pos xs"
    by (simp_all add: lp_pos_def)
  moreover have "mem_read (P @ Q) (lp_pos xs + off) n = mem_read Q off n" for Q off n
    using mem_read_append2 [of P Q off n] P(2) by simp
  moreover have "mem_read (r @ ?X) off n = Some (take n (drop off r))" if "off + n = length r" for off n
    using that by (simp add: mem_read_def)
  moreover have "drop off r = take n (drop off r)" if "off + n = length r" for off n
    using that by auto
  ultimately show ?thesis using v P
    by (intro exI [of _ v]) (auto simp: val_in_def raw_value_def lpGetValue_def split: lp_value.splits)
qed

lemma find_check:
  assumes "list_all raw_ok ys" "bytes = lp_pos (xs @ ys) + 1" "lp = lp_block (xs @ ys) num slack"
  shows "(if lp_pos xs + 8 \<ge> bytes then lpAssertValidEntry lp bytes (lp_pos xs)
     else if lp_pos xs \<ge> LP_HDR_SIZE \<and> lp_pos xs < bytes then Some () else None) = Some ()"
  using lpAssertValidEntry_entry [OF assms(1), of xs num slack] unfolding assms(2,3)
  by (simp add: lp_pos_def)

definition nth_match :: "(listpackEntry \<Rightarrow> bool) \<Rightarrow> nat \<Rightarrow> nat \<Rightarrow> byte list list \<Rightarrow> nat \<Rightarrow> bool" where
  "nth_match P skip k rs i \<longleftrightarrow> Suc skip dvd (i - k) \<and> P (raw_value (rs ! i))"

lemma not_dvd_between:
  assumes "Suc skip dvd (n + c - k)" "k \<le> n" "0 < c" "c \<le> skip"
  shows "\<not> Suc skip dvd (n - k)"
proof
  assume "Suc skip dvd (n - k)"
  moreover have "n + c - k = (n - k) + c" using assms(2) by simp
  ultimately have "Suc skip dvd c" using assms(1) by (simp add: dvd_add_right_iff)
  then have "Suc skip \<le> c" using assms(3) by (rule dvd_imp_le)
  with assms show False by simp
qed

definition find_cont where
  "find_cont lp lp_bytes cmp skip fuel skipcnt entry_size p =
     do { (if p + 8 \<ge> lp_bytes then lpAssertValidEntry lp lp_bytes p
           else if p \<ge> LP_HDR_SIZE \<and> p < lp_bytes then Some () else None);
          b \<leftarrow> byte_at lp p;
          if b = LP_EOF then Some None
          else lpFindCb_loop lp lp_bytes cmp skip fuel skipcnt entry_size p }"

lemma lpFindCb_loop_unfold:
  "lpFindCb_loop lp lp_bytes cmp skip (Suc fuel) skipcnt entry_size p =
     do { r \<leftarrow>
            (if skipcnt = 0 then
               do { (v, sz) \<leftarrow> lpGetWithSize (drop p lp);
                    let entry_size = (case sz of Some n \<Rightarrow> n | None \<Rightarrow> entry_size);
                    value \<leftarrow>
                      (case v of
                         LpInt ll \<Rightarrow> Some (Inr ll)
                       | LpStr off n \<Rightarrow>
                           if p \<ge> LP_HDR_SIZE \<and> p + entry_size < lp_bytes
                           then map_option Inl (mem_read lp (p + off) n) else None);
                    Some (if cmp value then Inl p else Inr (skip, entry_size, p + entry_size)) }
             else do { p \<leftarrow> lpSkip lp p; Some (Inr (skipcnt - 1, entry_size, p)) });
          case r of
            Inl q \<Rightarrow> Some (Some q)
          | Inr (skipcnt, entry_size, p) \<Rightarrow> find_cont lp lp_bytes cmp skip fuel skipcnt entry_size p }"
  by (simp only: lpFindCb_loop.simps(2) find_cont_def)

lemma find_cont_eq:
  assumes "list_all raw_ok ys" "bytes = lp_pos (xs @ ys) + 1" "lp = lp_block (xs @ ys) num slack"
  shows "find_cont lp bytes cmp skip f c es (lp_pos xs)
    = (if ys = [] then Some None else lpFindCb_loop lp bytes cmp skip f c es (lp_pos xs))"
proof -
  have "byte_at lp (lp_pos xs) = Some LP_EOF" if "ys = []"
    using that assms(3) byte_at_eof [of xs num slack] by simp
  moreover have "\<exists>b. byte_at lp (lp_pos xs) = Some b \<and> b \<noteq> LP_EOF" if "ys \<noteq> []"
    using that assms byte_at_entry [of "hd ys" xs "tl ys" num slack] by (cases ys) auto
  ultimately show ?thesis unfolding find_cont_def find_check [OF assms] by auto
qed

lemma lpFindCb_loop_eq:
  assumes "lp_ok (xs @ ys) num" "ys \<noteq> []" "length ys \<le> fuel" "k \<le> length xs"
    "c \<le> skip" "Suc skip dvd (length xs + c - k)"
    and cmp: "\<And>e. cmp (cmp_arg e) = P e"
  shows "lpFindCb_loop (lp_block (xs @ ys) num slack) (lp_pos (xs @ ys) + 1) cmp skip fuel c es (lp_pos xs)
    = Some (map_option (\<lambda>i. lp_pos (take i (xs @ ys)))
        (find (nth_match P skip k (xs @ ys)) [length xs..<length (xs @ ys)]))"
  using assms(1-6)
proof (induction ys arbitrary: xs fuel c es)
  case (Cons r ys)
  note upt_Suc [simp del]
  let ?rs = "xs @ r # ys"
  let ?lp = "lp_block ?rs num slack" and ?bytes = "lp_pos ?rs + 1"
  obtain f where f: "fuel = Suc f" "length ys \<le> f" using Cons.prems by (cases fuel) auto
  have r: "raw_ok r" "list_all raw_ok ys" using Cons.prems by (simp_all add: lp_ok_def)
  have pos: "lp_pos xs + length (ent r) = lp_pos (xs @ [r])" by (simp add: lp_pos_def)
  have upt: "[length xs..<length ?rs] = length xs # [length (xs @ [r])..<length ?rs]"
    by (simp add: upt_conv_Cons del: upt_Suc)
  let ?cont = "find_cont ?lp ?bytes cmp skip f"
  have cont: "?cont c' es' (lp_pos (xs @ [r]))
    = Some (map_option (\<lambda>i. lp_pos (take i ?rs)) (find (nth_match P skip k ?rs) [length (xs @ [r])..<length ?rs]))"
    if c': "c' \<le> skip" "Suc skip dvd (length (xs @ [r]) + c' - k)" for c' es'
  proof (cases "ys = []")
    case True
    then show ?thesis using find_cont_eq [OF r(2), of ?bytes "xs @ [r]" ?lp num slack] by simp
  next
    case False
    have "lp_ok ((xs @ [r]) @ ys) num" "k \<le> length (xs @ [r])" using Cons.prems by simp_all
    from Cons.IH [OF this(1) False f(2) this(2) c', of es']
    have "lpFindCb_loop ?lp ?bytes cmp skip f c' es' (lp_pos (xs @ [r]))
      = Some (map_option (\<lambda>i. lp_pos (take i ?rs)) (find (nth_match P skip k ?rs) [length (xs @ [r])..<length ?rs]))"
      by (simp only: append_assoc append_Cons append_Nil)
    moreover have "?cont c' es' (lp_pos (xs @ [r])) = lpFindCb_loop ?lp ?bytes cmp skip f c' es' (lp_pos (xs @ [r]))"
      using False by (subst find_cont_eq [OF r(2), of _ "xs @ [r]" _ num slack]) simp_all
    ultimately show ?thesis by (simp only:)
  qed
  show ?case
  proof (cases "c = 0")
    case True
    obtain v where v: "lpGetWithSize (drop (lp_pos xs) ?lp) = Some (v, Some (length (ent r)))"
      "(case v of
         LpInt ll \<Rightarrow> Some (Inr ll)
       | LpStr off n \<Rightarrow>
         if lp_pos xs \<ge> LP_HDR_SIZE \<and> lp_pos xs + length (ent r) < ?bytes
         then map_option Inl (mem_read ?lp (lp_pos xs + off) n) else None)
        = Some (cmp_arg (raw_value r))"
      using find_step [OF Cons.prems(1)] by blast
    have dvd: "Suc skip dvd (length xs - k)" using Cons.prems True by simp
    have "length (xs @ [r]) + skip - k = (length xs - k) + Suc skip" using Cons.prems by simp
    with dvd have dvd': "Suc skip dvd (length (xs @ [r]) + skip - k)" by (simp only: dvd_add_triv_right_iff)
    have "lpFindCb_loop ?lp ?bytes cmp skip fuel c es (lp_pos xs)
      = (if P (raw_value r) then Some (Some (lp_pos xs)) else ?cont skip (length (ent r)) (lp_pos (xs @ [r])))"
      unfolding f(1) lpFindCb_loop_unfold True v(1) if_P [OF refl] bind.bind_lunit prod.case Let_def option.case v(2)
      using cmp [of "raw_value r"] by (simp add: pos)
    also have "\<dots> = Some (map_option (\<lambda>i. lp_pos (take i ?rs)) (find (nth_match P skip k ?rs) [length xs..<length ?rs]))"
      unfolding cont [OF order_refl dvd'] upt using dvd by (simp add: nth_match_def)
    finally show ?thesis .
  next
    case False
    then have ndvd: "\<not> Suc skip dvd (length xs - k)" using not_dvd_between [of skip "length xs" c k] Cons.prems by simp
    have "lpFindCb_loop ?lp ?bytes cmp skip fuel c es (lp_pos xs) = ?cont (c - 1) es (lp_pos (xs @ [r]))"
      unfolding f(1) lpFindCb_loop_unfold using False lpSkip_entry [OF r(1), of xs ys num slack] by simp
    also have "\<dots> = Some (map_option (\<lambda>i. lp_pos (take i ?rs)) (find (nth_match P skip k ?rs) [length xs..<length ?rs]))"
      by (subst cont) (use False Cons.prems ndvd upt in \<open>simp_all add: nth_match_def del: upt_Suc\<close>)
    finally show ?thesis .
  qed
qed simp

lemma lpFindCmp_eq: 
  assumes "case e of LVal v \<Rightarrow> int_range 8 v | SVal _ \<Rightarrow> True"
  shows "lpFindCmp s (cmp_arg e) \<longleftrightarrow> entry_str e = s"
proof (cases e)
  case (LVal v)
  then have "int_range 8 v" using assms by simp
  moreover have "length s < 32 \<and> s \<noteq> []" if "string2ll s = Some v"
    using that by (auto simp: string2ll_def LONG_STR_SIZE_def split: if_splits)
  ultimately show ?thesis using LVal by (auto simp: lpFindCmp_def lpStringToInt64_eq string2ll_eq)
qed (auto simp: lpFindCmp_def)

lemma raw_value_range: "raw_ok r \<Longrightarrow> case raw_value r of LVal v \<Rightarrow> int_range 8 v | SVal _ \<Rightarrow> True"
  by (erule raw_value_cases [where X = "[]"]) simp_all

lemma find_cong_upt: "(\<And>i. i < n \<Longrightarrow> P i = Q i) \<Longrightarrow> find P [m..<n] = find Q [m..<n]"
  by (rule find_cong) auto

lemma lpFindCb_eq:
  assumes "lp_ok rs num" "k < length rs" and cmp: "\<And>e. cmp (cmp_arg e) = P e"
    and p: "p = Some (lp_pos (take k rs)) \<or> p = None \<and> k = 0"
  shows "lpFindCb (lp_block rs num slack) p cmp skip
    = Some (map_option (\<lambda>i. lp_pos (take i rs)) (find (nth_match P skip k rs) [k..<length rs]))"
proof -
  have rs: "take k rs @ drop k rs = rs" "drop k rs \<noteq> []" "length (take k rs) = k" using assms(2) by simp_all
  have "length (drop k rs) \<le> length (lp_block rs num slack)"
    using fuel_enough [of "take k rs" "drop k rs" num slack] assms(1) unfolding rs(1) lp_ok_def by simp
  from lpFindCb_loop_eq [of "take k rs" "drop k rs" num _ k 0 skip cmp P slack 123456789, unfolded rs, OF assms(1) rs(2) this _ _ _ cmp]
  have "lpFindCb_loop (lp_block rs num slack) (lp_pos rs + 1) cmp skip (length (lp_block rs num slack)) 0 123456789 (lp_pos (take k rs))
    = Some (map_option (\<lambda>i. lp_pos (take i rs)) (find (nth_match P skip k rs) [k..<length rs]))" by simp
  moreover have "lpFirst (lp_block rs num slack) = Some (Some (lp_pos []))"
    using lpFirst_eq [OF assms(1)] assms(2) by (cases rs) auto
  ultimately show ?thesis using p lp_header(3) [OF assms(1), of slack] by (auto simp: lpFindCb_def)
qed

end
