(* ===== verification/Listpack_Edit.thy ===== *)
theory Listpack_Edit
  imports Listpack_Ops
begin

section \<open>Listpacks: insertion, deletion, merging\<close>

text \<open>
  The operations that change a listpack, as operations on the list of its elements.  Every
  theorem holds for any allocator that gives at least what it is asked for (\<open>usable_ok\<close>), with any
  contents of new memory, and includes that no access leaves the allocation.
\<close>

subsection \<open>The header of a block\<close>

lemma hdr_num:
  "lpSetNumElements (le_bytes 4 t @ le_bytes 2 n @ Z) m = Some (le_bytes 4 t @ le_bytes 2 m @ Z)"
  "k < 65536 \<Longrightarrow> lpGetNumElements (le_bytes 4 t @ le_bytes 2 (int k) @ Z) = Some k"
proof -
  show "lpSetNumElements (le_bytes 4 t @ le_bytes 2 n @ Z) m = Some (le_bytes 4 t @ le_bytes 2 m @ Z)"
    unfolding lpSetNumElements_def by (rule mem_write_exact) simp_all
  assume "k < 65536"
  then have "le_nat (le_bytes 2 (int k)) = k" by (intro le_nat_le_bytes) simp
  then show "lpGetNumElements (le_bytes 4 t @ le_bytes 2 (int k) @ Z) = Some k"
    by (simp add: lpGetNumElements_def mem_read_def del: le_bytes.simps)
qed

lemma hdr_total:
  "lpSetTotalBytes (le_bytes 4 t @ Z) m = Some (le_bytes 4 (int m) @ Z)"
  unfolding lpSetTotalBytes_def using mem_write_exact [of "le_bytes 4 t" "le_bytes 4 (int m)" "[]" 0 Z] by simp

subsection \<open>Making room\<close>

lemma usable_ge: "usable_ok env \<Longrightarrow> n \<le> usable env n"
  by (simp add: usable_ok_def)

lemma mem_move_exact:
  assumes "A @ M @ T @ S = lp" "length A + n + length T \<le> length lp"
  shows "\<exists>X S'. mem_move lp (length A + n) (length A + length M) (length T) = Some (A @ X @ T @ S')
    \<and> length X = n \<and> length (A @ X @ T @ S') = length lp"
proof -
  have "mem_read lp (length A + length M) (length T) = Some T" using assms(1) by (auto simp: mem_read_def)
  moreover have "mem_write lp (length A + n) T
      = Some (A @ take n (M @ T @ S) @ T @ drop (length A + n + length T) lp)"
    using assms by (auto simp: mem_write_def)
  moreover have "length (take n (M @ T @ S)) = n" using assms by auto
  ultimately show ?thesis using assms
    by (intro exI [of _ "take n (M @ T @ S)"] exI [of _ "drop (length A + n + length T) lp"]) (auto simp: mem_move_def)
qed

lemma lp_realloc_keep:
  assumes "usable_ok env" "length (A @ X @ T) \<le> n"
  shows "\<exists>S'. lp_realloc env (A @ X @ T @ S) n = A @ X @ T @ S' \<and> n \<le> length (A @ X @ T @ S')"
proof -
  have n: "length (A @ X @ T) \<le> usable env n" "n \<le> usable env n"
    using assms usable_ge [OF assms(1), of n] by simp_all
  let ?S = "take (usable env n - length (A @ X @ T)) S @ map (fill env) [length (A @ X @ T @ S)..<usable env n]"
  have "lp_realloc env (A @ X @ T @ S) n = A @ X @ T @ ?S"
    using n(1) by (simp add: lp_realloc_def mem_realloc_def add.assoc)
  moreover have "length (A @ X @ T @ ?S) = usable env n" using n(1) by simp
  ultimately show ?thesis using n(2) by (intro exI [of _ ?S]) simp
qed

lemma lp_make_room_eq:
  assumes "usable_ok env" "old = length (A @ M @ T)" "new = length A + n + length T" "poff = length A" "m = length M"
  shows "\<exists>X S'. lp_make_room env (A @ M @ T @ S) old new poff n m = Some (A @ X @ T @ S') \<and> length X = n"
proof -
  let ?lp = "if new > old \<and> new > length (A @ M @ T @ S) then lp_realloc env (A @ M @ T @ S) new else A @ M @ T @ S"
  have "\<exists>S1. ?lp = A @ M @ T @ S1 \<and> (new > old \<longrightarrow> new \<le> length (A @ M @ T @ S1))"
    using lp_realloc_keep [OF assms(1), of A M T new S] assms by auto
  then obtain S1 where S1: "?lp = A @ M @ T @ S1" "new > old \<longrightarrow> new \<le> length (A @ M @ T @ S1)" by blast
  have "length A + n + length T \<le> length (A @ M @ T @ S1)" using S1(2) assms by (cases "new > old") auto
  then obtain X S2 where X: "mem_move (A @ M @ T @ S1) (poff + n) (poff + m) (length T) = Some (A @ X @ T @ S2)" "length X = n"
    using mem_move_exact [of A M T S1 _ n] assms by blast
  moreover have "old - poff - m = length T" using assms by simp
  moreover obtain S' where "(if new < old then lp_realloc env (A @ X @ T @ S2) new else A @ X @ T @ S2) = A @ X @ T @ S'"
    using lp_realloc_keep [OF assms(1), of A X T new S2] assms X(2) by (cases "new < old") auto
  moreover have "\<not> poff + m > old" using assms by simp
  ultimately have "lp_make_room env (A @ M @ T @ S) old new poff n m = Some (A @ X @ T @ S')"
    unfolding lp_make_room_def Let_def S1(1) by simp
  with X(2) show ?thesis by blast
qed

subsection \<open>\<open>lpInsert\<close>\<close>

lemma lp_block_parts:
  "lp_block (xs @ ms @ ys) num slack
     = (le_bytes 4 (int (lp_pos (xs @ ms @ ys) + 1)) @ le_bytes 2 (int num) @ body xs)
       @ body ms @ (body ys @ [LP_EOF]) @ slack"
  by (simp add: lp_block_def)

lemma num_after:
  assumes "num_ok num (n + m)" "num \<noteq> LP_HDR_NUMELE_UNKNOWN" "k \<le> 1"
  shows "num_ok (num + k - m) (n + k)" "num + k - m < 65536"
  using assms by (auto simp: num_ok_def LP_HDR_NUMELE_UNKNOWN_def)

lemma write_entry:
  assumes "length X = length (ent (ele_bytes e))" "p = length A"
  shows "(do { lp \<leftarrow> mem_write (A @ X @ Z) p (ele_bytes e); mem_write lp (p + ele_enclen e) (lpEncodeBacklen (ele_enclen e)) })
    = Some (A @ ent (ele_bytes e) @ Z)"
proof -
  obtain X1 X2 where X: "X = X1 @ X2" "length X1 = ele_enclen e" "length X2 = length (lpEncodeBacklen (ele_enclen e))"
    using assms(1) by (intro that [of "take (ele_enclen e) X" "drop (ele_enclen e) X"]) (simp_all add: length_ent)
  have "mem_write (A @ X @ Z) p (ele_bytes e) = Some (A @ ele_bytes e @ X2 @ Z)"
    using mem_write_exact [of X1 "ele_bytes e" A p "X2 @ Z"] X assms by simp
  moreover have "mem_write (A @ ele_bytes e @ X2 @ Z) (p + ele_enclen e) (lpEncodeBacklen (ele_enclen e))
      = Some (A @ ent (ele_bytes e) @ Z)"
    using mem_write_exact [of X2 "lpEncodeBacklen (ele_enclen e)" "A @ ele_bytes e" "p + ele_enclen e" Z] X assms
    by (simp add: ent_def)
  ultimately show ?thesis by simp
qed

text \<open>The elements that an operation removes at a position (\<open>ms\<close>) and those that it puts there (\<open>ns\<close>).\<close>

definition ins_args :: "lp_ele \<Rightarrow> lp_where \<Rightarrow> byte list list \<Rightarrow> byte list list \<Rightarrow> bool" where
  "ins_args ele whr ms ns \<longleftrightarrow>
     (if ele = EleDelete then length ms = 1 \<and> ns = [] \<and> whr = LP_REPLACE
      else ns = [ele_bytes ele] \<and> (whr = LP_BEFORE \<and> ms = [] \<or> whr = LP_REPLACE \<and> length ms = 1))"

lemma replaced_len_eq:
  assumes "lp_ok (xs @ r # ys) num"
  shows "(do { n \<leftarrow> lpCurrentEncodedSizeUnsafe (drop (lp_pos xs) (lp_block (xs @ r # ys) num slack));
       let n = (n + length (lpEncodeBacklen n)) mod 2 ^ 32;
       ASSERT_INTEGRITY_LEN (lp_block (xs @ r # ys) num slack) (lp_pos xs) n;
       Some n }) = Some (length (ent r))"
proof -
  have r: "raw_ok r" using assms by (simp add: lp_ok_def)
  obtain X where X: "drop (lp_pos xs) (lp_block (xs @ r # ys) num slack) = r @ X" by (rule drop_lp_block)
  have "lp_pos xs + length (ent r) < lp_pos (xs @ r # ys) + 1" "6 \<le> lp_pos xs"
    by (simp_all add: lp_pos_def LP_HDR_SIZE_def)
  moreover have "length (ent r) < 2 ^ 32" using assms by (simp add: lp_ok_def lp_pos_def)
  ultimately show ?thesis using lp_header(1) [OF assms, of slack] raw_ok_size(1) [OF r, of X]
    by (simp add: X length_ent ASSERT_INTEGRITY_LEN_def LP_HDR_SIZE_def)
qed

definition insert_tail where
  "insert_tail env lp ele poff whr old_listpack_bytes new_listpack_bytes enclen backlen replaced_len =
     do { lp \<leftarrow> lp_make_room env lp old_listpack_bytes new_listpack_bytes poff
                 (enclen + length backlen) replaced_len;
          b \<leftarrow> byte_at lp poff;
          let newp = (if ele = EleDelete \<and> b = LP_EOF then None else Some poff);
          lp \<leftarrow>
            (if ele \<noteq> EleDelete
             then do { lp \<leftarrow> mem_write lp poff (ele_bytes ele); mem_write lp (poff + enclen) backlen }
             else Some lp);
          lp \<leftarrow>
            (if whr \<noteq> LP_REPLACE \<or> ele = EleDelete then
               do { num_elements \<leftarrow> lpGetNumElements lp;
                    if num_elements \<noteq> LP_HDR_NUMELE_UNKNOWN
                    then lpSetNumElements lp (if ele \<noteq> EleDelete then int num_elements + 1 else int num_elements - 1)
                    else Some lp }
             else Some lp);
          lp \<leftarrow> lpSetTotalBytes lp new_listpack_bytes;
          Some (Some (lp, newp)) }"

lemma lpInsert_unfold:
  assumes "lp_ok (xs @ ms @ ys) num" "ins_args ele whr ms ns"
    "backlen = (if ele \<noteq> EleDelete then lpEncodeBacklen (ele_enclen ele) else [])"
  shows "lpInsert env (lp_block (xs @ ms @ ys) num slack) ele (lp_pos xs) whr =
    (if lp_pos (xs @ ns @ ys) + 1 < 2 ^ 32
     then insert_tail env (lp_block (xs @ ms @ ys) num slack) ele (lp_pos xs) whr
            (lp_pos (xs @ ms @ ys) + 1) (lp_pos (xs @ ns @ ys) + 1) (ele_enclen ele) backlen (length (body ms))
     else Some None)"
proof -
  let ?lp = "lp_block (xs @ ms @ ys) num slack"
  have whr: "(if ele = EleDelete then LP_REPLACE else whr) = whr" "whr \<noteq> LP_AFTER"
    using assms(2) by (auto simp: ins_args_def split: if_splits)
  have rep: "(if whr = LP_REPLACE then
               do { n \<leftarrow> lpCurrentEncodedSizeUnsafe (drop (lp_pos xs) ?lp);
                    let n = (n + length (lpEncodeBacklen n)) mod 2 ^ 32;
                    ASSERT_INTEGRITY_LEN ?lp (lp_pos xs) n;
                    Some n }
             else Some 0) = Some (length (body ms))"
  proof (cases ms)
    case Nil
    then show ?thesis using assms(2) by (auto simp: ins_args_def split: if_splits)
  next
    case (Cons r zs)
    then have zs: "zs = []" "whr = LP_REPLACE" using assms(2) by (auto simp: ins_args_def split: if_splits)
    with Cons replaced_len_eq [of xs r ys num slack] assms(1) show ?thesis by simp
  qed
  have "ele_enclen ele + length backlen = length (body ns)"
    using assms(2,3) by (auto simp: ins_args_def length_ent ele_enclen_def split: if_splits)
  then have new: "lp_pos (xs @ ms @ ys) + 1 + ele_enclen ele + length backlen - length (body ms) = lp_pos (xs @ ns @ ys) + 1"
    by (simp add: lp_pos_def)
  have big: "lp_pos (xs @ ns @ ys) + 1 > 2 ^ 32 - 1 \<longleftrightarrow> \<not> lp_pos (xs @ ns @ ys) + 1 < 2 ^ 32" by auto
  show ?thesis
    unfolding lpInsert_def insert_tail_def Let_def whr(1) if_not_P [OF whr(2)] bind.bind_lunit prod.case
      lp_header(1) [OF assms(1)] rep [unfolded Let_def] assms(3) [symmetric] new big
    by simp
qed

lemma body_byte:
  assumes "list_all raw_ok ys"
  shows "\<exists>b. byte_at (body ys @ LP_EOF # S) 0 = Some b \<and> (b = LP_EOF \<longleftrightarrow> ys = [])"
proof (cases ys)
  case (Cons r zs)
  with assms have "r \<noteq> []" "hd r \<noteq> LP_EOF" by (auto simp: raw_ok_def)
  with Cons show ?thesis by (cases r) (auto simp: ent_def)
qed simp

lemma insert_tail_eq:
  assumes "usable_ok env" "lp_ok (xs @ ms @ ys) num" "ins_args ele whr ms ns"
    "list_all raw_ok ns" "lp_pos (xs @ ns @ ys) + 1 < 2 ^ 32"
    "backlen = (if ele \<noteq> EleDelete then lpEncodeBacklen (ele_enclen ele) else [])"
  shows "\<exists>num' slack'. lp_ok (xs @ ns @ ys) num' \<and>
    insert_tail env (lp_block (xs @ ms @ ys) num slack) ele (lp_pos xs) whr
      (lp_pos (xs @ ms @ ys) + 1) (lp_pos (xs @ ns @ ys) + 1) (ele_enclen ele) backlen (length (body ms))
    = Some (Some (lp_block (xs @ ns @ ys) num' slack', ptr xs (ns @ ys)))"
proof -
  define t A T where "t = int (lp_pos (xs @ ms @ ys) + 1)" and "A = le_bytes 4 t @ le_bytes 2 (int num) @ body xs"
    and "T = body ys @ [LP_EOF]"
  have lens: "length A = lp_pos xs" "ele_enclen ele + length backlen = length (body ns)"
    using assms(3,6) by (auto simp: A_def lp_pos_def LP_HDR_SIZE_def ins_args_def length_ent ele_enclen_def split: if_splits)
  have ok: "list_all raw_ok ys" "list_all raw_ok xs" "num_ok num (length xs + length ys + length ms)"
    using assms(2) by (simp_all add: lp_ok_def algebra_simps)
  obtain X S where room: "lp_make_room env (lp_block (xs @ ms @ ys) num slack) (lp_pos (xs @ ms @ ys) + 1)
      (lp_pos (xs @ ns @ ys) + 1) (lp_pos xs) (ele_enclen ele + length backlen) (length (body ms)) = Some (A @ X @ T @ S)"
    and X: "length X = length (body ns)"
    using lp_make_room_eq [OF assms(1), of "lp_pos (xs @ ms @ ys) + 1" A "body ms" T "lp_pos (xs @ ns @ ys) + 1"
        "length (body ns)" "lp_pos xs" "length (body ms)" slack] lens
    by (auto simp: lp_block_parts A_def T_def t_def lp_pos_def LP_HDR_SIZE_def)
  have b: "\<exists>b. byte_at (A @ X @ T @ S) (lp_pos xs) = Some b \<and>
      (if ele = EleDelete \<and> b = LP_EOF then None else Some (lp_pos xs)) = ptr xs (ns @ ys)"
  proof (cases "ele = EleDelete")
    case True
    then have "ns = []" using assms(3) by (auto simp: ins_args_def split: if_splits)
    then show ?thesis using body_byte [OF ok(1), of S] X True lens(1) byte_at_append3 [of A "T @ S"]
      by (auto simp: T_def ptr_def)
  next
    case False
    then have "ns = [ele_bytes ele]" using assms(3) by (auto simp: ins_args_def split: if_splits)
    moreover from this have "X \<noteq> []" using X by (auto simp: ent_def)
    ultimately show ?thesis using False lens(1) byte_at_append3 [of A "X @ T @ S"]
      by (cases X) (auto simp: ptr_def)
  qed
  have w: "(if ele \<noteq> EleDelete
             then do { lp \<leftarrow> mem_write (A @ X @ T @ S) (lp_pos xs) (ele_bytes ele);
                       mem_write lp (lp_pos xs + ele_enclen ele) backlen }
             else Some (A @ X @ T @ S)) = Some (A @ body ns @ T @ S)"
  proof (cases "ele = EleDelete")
    case True
    then show ?thesis using assms(3) X by (simp add: ins_args_def)
  next
    case False
    then have "ns = [ele_bytes ele]" using assms(3) by (simp add: ins_args_def)
    with False write_entry [of X ele "lp_pos xs" A "T @ S"] X lens(1) assms(6) show ?thesis by simp
  qed
  define num' where "num' = (if num = LP_HDR_NUMELE_UNKNOWN then num else num + length ns - length ms)"
  have k: "length ns \<le> 1" "length ms \<le> 1"
    "whr = LP_REPLACE \<and> ele \<noteq> EleDelete \<longrightarrow> length ns = length ms"
    "ele = EleDelete \<longrightarrow> length ns = 0 \<and> length ms = 1"
    "whr \<noteq> LP_REPLACE \<and> ele \<noteq> EleDelete \<longrightarrow> length ns = 1 \<and> length ms = 0"
    using assms(3) by (auto simp: ins_args_def split: if_splits)
  have num': "num_ok num' (length xs + length ys + length ns)" "num' < 65536" "num < 65536"
    using num_after [OF ok(3) _ k(1)] num_ok_bound [OF ok(3)]
    by (auto simp: num'_def num_ok_def LP_HDR_NUMELE_UNKNOWN_def)
  have n: "(if whr \<noteq> LP_REPLACE \<or> ele = EleDelete then
               do { num_elements \<leftarrow> lpGetNumElements (A @ body ns @ T @ S);
                    if num_elements \<noteq> LP_HDR_NUMELE_UNKNOWN
                    then lpSetNumElements (A @ body ns @ T @ S)
                      (if ele \<noteq> EleDelete then int num_elements + 1 else int num_elements - 1)
                    else Some (A @ body ns @ T @ S) }
             else Some (A @ body ns @ T @ S))
    = Some (le_bytes 4 t @ le_bytes 2 (int num') @ body xs @ body ns @ T @ S)"
  proof -
    have "num \<noteq> LP_HDR_NUMELE_UNKNOWN \<Longrightarrow> length ms \<le> num"
      using ok(3) by (auto simp: num_ok_def)
    then show ?thesis using k num'(3) unfolding A_def append_assoc
      by (auto simp: hdr_num num'_def of_nat_diff algebra_simps)
  qed
  have "insert_tail env (lp_block (xs @ ms @ ys) num slack) ele (lp_pos xs) whr
      (lp_pos (xs @ ms @ ys) + 1) (lp_pos (xs @ ns @ ys) + 1) (ele_enclen ele) backlen (length (body ms))
    = Some (Some (lp_block (xs @ ns @ ys) num' S, ptr xs (ns @ ys)))"
  proof -
    obtain b where b: "byte_at (A @ X @ T @ S) (lp_pos xs) = Some b"
      "(if ele = EleDelete \<and> b = LP_EOF then None else Some (lp_pos xs)) = ptr xs (ns @ ys)" using b by blast
    show ?thesis
      unfolding insert_tail_def room bind.bind_lunit b Let_def w n hdr_total
      by (simp add: lp_block_def T_def)
  qed
  moreover have "lp_ok (xs @ ns @ ys) num'"
    using ok assms(4,5) num'(1) by (simp add: lp_ok_def algebra_simps)
  ultimately show ?thesis by blast
qed

lemma lpInsert_eq:
  assumes "usable_ok env" "lp_ok (xs @ ms @ ys) num" "ins_args ele whr ms ns"
    "lp_pos (xs @ ns @ ys) + 1 < 2 ^ 32 \<Longrightarrow> list_all raw_ok ns"
  shows "if lp_pos (xs @ ns @ ys) + 1 < 2 ^ 32
    then \<exists>num' slack'. lp_ok (xs @ ns @ ys) num' \<and>
      lpInsert env (lp_block (xs @ ms @ ys) num slack) ele (lp_pos xs) whr
        = Some (Some (lp_block (xs @ ns @ ys) num' slack', ptr xs (ns @ ys)))
    else lpInsert env (lp_block (xs @ ms @ ys) num slack) ele (lp_pos xs) whr = Some None"
  using insert_tail_eq [OF assms(1-3) assms(4) _ refl] lpInsert_unfold [OF assms(2,3) refl] by simp

lemma lpInsert_after:
  assumes "lp_ok (xs @ r # ys) num" "ele \<noteq> EleDelete"
  shows "lpInsert env (lp_block (xs @ r # ys) num slack) ele (lp_pos xs) LP_AFTER
    = lpInsert env (lp_block (xs @ r # ys) num slack) ele (lp_pos (xs @ [r])) LP_BEFORE"
proof -
  have "raw_ok r" using assms(1) by (simp add: lp_ok_def)
  moreover have "ASSERT_INTEGRITY (lp_block (xs @ r # ys) num slack) (lp_pos (xs @ [r])) = Some ()"
    using lp_header(1) [OF assms(1), of slack] lp_pos_ge [of "xs @ [r]"]
    by (simp add: ASSERT_INTEGRITY_def LP_HDR_SIZE_def lp_pos_simps)
  ultimately show ?thesis using assms(2) by (simp add: lpInsert_def lpSkip_entry)
qed

subsection \<open>New listpacks and copies\<close>

lemma split_header:
  assumes "7 \<le> length L"
  obtains B C b S where "L = B @ C @ b # S" "length B = 4" "length C = 2"
proof -
  obtain M where M: "drop 4 L = take 2 (drop 4 L) @ M" "M = drop 6 L"
    using append_take_drop_id [of 2 "drop 4 L"] by simp
  obtain b S where "drop 6 L = b # S" using assms by (cases "drop 6 L") auto
  with M have "L = take 4 L @ take 2 (drop 4 L) @ b # S" by (metis append_take_drop_id)
  with assms show ?thesis by (intro that [of "take 4 L" "take 2 (drop 4 L)" b S]) simp_all
qed

lemma lpNew_eq:
  assumes "usable_ok env"
  shows "\<exists>slack. lpNew env capacity = Some (lp_block [] 0 slack) \<and> lp_ok [] 0"
proof -
  define n where "n = (if capacity > LP_HDR_SIZE + 1 then capacity else LP_HDR_SIZE + 1)"
  have "7 \<le> length (lp_malloc env n)"
    using usable_ge [OF assms, of n] by (simp add: lp_malloc_def n_def LP_HDR_SIZE_def split: if_splits)
  then obtain B C b slack where B: "lp_malloc env n = B @ C @ b # slack" "length B = 4" "length C = 2"
    by (rule split_header)
  have "lpSetTotalBytes (B @ C @ b # slack) (LP_HDR_SIZE + 1) = Some (le_bytes 4 7 @ C @ b # slack)"
    unfolding lpSetTotalBytes_def using mem_write_exact [of B "le_bytes 4 7" "[]" 0 "C @ b # slack"] B(2)
    by (simp add: LP_HDR_SIZE_def del: le_bytes.simps)
  moreover have "lpSetNumElements (le_bytes 4 7 @ C @ b # slack) 0 = Some (le_bytes 4 7 @ le_bytes 2 0 @ b # slack)"
    unfolding lpSetNumElements_def using B(3) by (intro mem_write_exact) simp_all
  moreover have "mem_write (le_bytes 4 7 @ le_bytes 2 0 @ b # slack) LP_HDR_SIZE [LP_EOF]
      = Some (le_bytes 4 7 @ le_bytes 2 0 @ LP_EOF # slack)"
    using mem_write_at [of "le_bytes 4 7 @ le_bytes 2 0" LP_HDR_SIZE b slack LP_EOF]
    by (simp add: LP_HDR_SIZE_def del: le_bytes.simps)
  ultimately have "lpNew env capacity = Some (lp_block [] 0 slack)"
    unfolding lpNew_def n_def [symmetric] B Let_def by (simp add: lp_block_def lp_pos_simps del: le_bytes.simps)
  then show ?thesis by (auto simp: lp_ok_def num_ok_def lp_pos_simps LP_HDR_NUMELE_UNKNOWN_def)
qed

lemma lp_block_slack: "lp_block rs num slack = lp_block rs num [] @ slack"
  by (simp add: lp_block_def)

lemma length_lp_block: "length (lp_block rs num slack) = lp_pos rs + 1 + length slack"
  by (simp add: lp_block_def lp_pos_def LP_HDR_SIZE_def)

lemma lpShrinkToFit_eq:
  assumes "usable_ok env" "lp_ok rs num"
  shows "\<exists>slack'. lpShrinkToFit env (lp_block rs num slack) = Some (lp_block rs num slack')"
proof -
  obtain S where "lp_realloc env (lp_block rs num slack) (lp_pos rs + 1) = lp_block rs num S"
    using lp_realloc_keep [OF assms(1), of "lp_block rs num []" "[]" "[]" "lp_pos rs + 1" slack]
    by (auto simp: length_lp_block simp flip: lp_block_slack)
  then show ?thesis using lp_header(1) [OF assms(2), of slack] by (auto simp: lpShrinkToFit_def)
qed

lemma lpDup_eq:
  assumes "usable_ok env" "lp_ok rs num"
  shows "\<exists>slack'. lpDup env (lp_block rs num slack) = Some (lp_block rs num slack')"
proof -
  let ?n = "lp_pos rs + 1"
  have "mem_read (lp_block rs num slack) 0 ?n = Some (lp_block rs num [])"
    using mem_read_exact [of "[]" "lp_block rs num []" slack] by (simp add: length_lp_block flip: lp_block_slack)
  moreover have "?n \<le> length (lp_malloc env ?n)" using usable_ge [OF assms(1)] by (simp add: lp_malloc_def)
  then have "mem_write (lp_malloc env ?n) 0 (lp_block rs num []) = Some (lp_block rs num [] @ drop ?n (lp_malloc env ?n))"
    by (simp add: mem_write_def length_lp_block)
  ultimately show ?thesis using lp_header(3) [OF assms(2), of slack]
    by (intro exI [of _ "drop ?n (lp_malloc env ?n)"]) (simp add: lpDup_def flip: lp_block_slack)
qed

subsection \<open>Deleting a range\<close>

lemma range_tail_eq:
  assumes "lp_ok (xs @ zs) num" "n = 0 \<or> zs \<noteq> []"
  shows "range_tail (lp_block (xs @ zs) num slack) (lp_pos (xs @ zs) + 1) n deleted (lp_pos xs)
    = Some (deleted + min n (length zs), lp_pos (xs @ take n zs))"
  using assms
proof (induction n arbitrary: xs zs deleted)
  case (Suc n)
  then obtain r ys where zs: "zs = r # ys" by (cases zs) auto
  have ok: "raw_ok r" "list_all raw_ok ys" using Suc.prems zs by (simp_all add: lp_ok_def)
  show ?case
  proof (cases ys)
    case Nil
    with zs lpSkip_entry [OF ok(1), of xs ys num slack] byte_at_eof [of "xs @ [r]" num slack] show ?thesis by simp
  next
    case (Cons q ws)
    have "byte_at (lp_block (xs @ zs) num slack) (lp_pos (xs @ [r])) = Some (hd q) \<and> hd q \<noteq> LP_EOF"
      using byte_at_entry [of q "xs @ [r]" ws num slack] ok Cons zs by simp
    with Suc.IH [of "xs @ [r]" ys "deleted + 1"] Suc.prems Cons zs lpSkip_entry [OF ok(1), of xs ys num slack]
      lpAssertValidEntry_entry [OF ok(2), of "xs @ [r]" num slack] show ?thesis by simp
  qed
qed simp

lemma lp_ok_del:
  assumes "lp_ok (xs @ ds @ ys) num"
  shows "lp_ok (xs @ ys) (if num = LP_HDR_NUMELE_UNKNOWN then num else num - length ds)"
    "num \<noteq> LP_HDR_NUMELE_UNKNOWN \<Longrightarrow> length ds \<le> num"
  using assms by (auto simp: lp_ok_def num_ok_def lp_pos_def)

text \<open>Subtracting the deleted elements from the number in the header.\<close>

lemma adjust_num:
  assumes "num < 65536" "num \<noteq> LP_HDR_NUMELE_UNKNOWN \<longrightarrow> k \<le> num" "L = le_bytes 4 t @ le_bytes 2 (int num) @ Z"
  shows "lpGetNumElements L \<bind> (\<lambda>numele. (if numele \<noteq> LP_HDR_NUMELE_UNKNOWN
      then lpSetNumElements L (int numele - int k) else Some L) \<bind> f)
    = f (le_bytes 4 t @ le_bytes 2 (int (if num = LP_HDR_NUMELE_UNKNOWN then num else num - k)) @ Z)"
  using assms(1,2) unfolding assms(3) by (simp add: hdr_num of_nat_diff del: le_bytes.simps)

lemma lpDeleteRangeWithEntry_eq:
  assumes "usable_ok env" "lp_ok (xs @ zs) num" "zs \<noteq> []" "0 < n"
  shows "\<exists>num' slack'. lp_ok (xs @ drop n zs) num' \<and>
    lpDeleteRangeWithEntry env (lp_block (xs @ zs) num slack) (lp_pos xs) n
      = Some (lp_block (xs @ drop n zs) num' slack', ptr xs (drop n zs))"
proof -
  define ds ys where "ds = take n zs" and "ys = drop n zs"
  have zs: "zs = ds @ ys" "length ds = min n (length zs)" by (simp_all add: ds_def ys_def min.commute)
  define t A T where "t = int (lp_pos (xs @ zs) + 1)" and "A = le_bytes 4 t @ le_bytes 2 (int num) @ body xs"
    and "T = body ys @ [LP_EOF]"
  let ?lp = "lp_block (xs @ zs) num slack"
  have A: "length A = lp_pos xs" by (simp add: A_def lp_pos_def LP_HDR_SIZE_def)
  have lp: "?lp = A @ body ds @ T @ slack"
    using lp_block_parts [of xs ds ys num slack] by (simp add: zs(1) A_def T_def t_def)
  have len: "lp_pos xs + length T \<le> length ?lp" "lp_pos (xs @ zs) + 1 - lp_pos (xs @ ds) = length T"
    "lp_pos (xs @ ds) \<le> lp_pos (xs @ zs) + 1" "lp_pos (xs @ ds) = length A + length (body ds)"
    using A by (simp_all add: length_lp_block zs(1) T_def lp_pos_simps)
  have mv: "\<exists>S. mem_move ?lp (lp_pos xs) (lp_pos (xs @ ds)) (length T) = Some (A @ T @ S)"
    using mem_move_exact [OF lp [symmetric], of 0] len A by auto
  then obtain S where S: "mem_move ?lp (lp_pos xs) (lp_pos (xs @ ds)) (length T) = Some (A @ T @ S)" by blast
  define num' where "num' = (if num = LP_HDR_NUMELE_UNKNOWN then num else num - length ds)"
  have ok: "lp_ok (xs @ ys) num'" "num < 65536"
    using lp_ok_del(1) [of xs ds ys num] assms(2) num_ok_bound [of num] by (auto simp: zs(1) num'_def lp_ok_def)
  have tot: "lp_pos (xs @ zs) + 1 - (lp_pos (xs @ ds) - lp_pos xs) = lp_pos (xs @ ys) + 1"
    by (simp add: zs(1) lp_pos_def)
  obtain S' where S': "lpShrinkToFit env (lp_block (xs @ ys) num' S) = Some (lp_block (xs @ ys) num' S')"
    using lpShrinkToFit_eq [OF assms(1) ok(1)] by blast
  have "list_all raw_ok ys" using ok(1) by (simp add: lp_ok_def)
  then obtain b where b: "byte_at (lp_block (xs @ ys) num' S') (lp_pos xs) = Some b" "b = LP_EOF \<longleftrightarrow> ys = []"
    using body_byte [of ys S'] by (metis byte_at_append3 lp_block_split)
  have "lpDeleteRangeWithEntry env ?lp (lp_pos xs) n = Some (lp_block (xs @ ys) num' S', ptr xs ys)"
  proof -
    have blk: "le_bytes 4 (int (lp_pos (xs @ ys) + 1)) @ le_bytes 2 (int num') @ body xs @ T @ S = lp_block (xs @ ys) num' S"
      by (simp add: lp_block_def T_def)
    have le: "num \<noteq> LP_HDR_NUMELE_UNKNOWN \<longrightarrow> length ds \<le> num"
      using lp_ok_del(2) [OF assms(2) [unfolded zs(1)]] by blast
    have n: "(n = 0) = False" and tl: "(lp_pos (xs @ zs) + 1 < lp_pos (xs @ ds)) = False" using assms(4) len(3) by auto
    show ?thesis
      unfolding lpDeleteRangeWithEntry_def lp_header(3) [OF assms(2)] bind.bind_lunit n if_False
        range_tail_eq [OF assms(2) disjI2 [OF assms(3)]] prod.case ds_def [symmetric] zs(2) [symmetric] add_0
        tl len(2) S tot
      unfolding A_def append_assoc hdr_total bind.bind_lunit
        adjust_num [OF ok(2) le refl] num'_def [symmetric] blk S' b(1) ptr_def
      using b(2) by simp
  qed
  with ok show ?thesis by (auto simp: ys_def)
qed

lemma truncate_eq:
  assumes "usable_ok env" "lp_ok (xs @ zs) num" "zs \<noteq> []" "num \<noteq> LP_HDR_NUMELE_UNKNOWN"
  shows "\<exists>slack'. (do { lp \<leftarrow> mem_write (lp_block (xs @ zs) num slack) (lp_pos xs) [LP_EOF];
       lp \<leftarrow> lpSetTotalBytes lp (lp_pos xs + 1);
       lp \<leftarrow> lpSetNumElements lp (int (length xs));
       lpShrinkToFit env lp }) = Some (lp_block xs (length xs) slack') \<and> lp_ok xs (length xs)"
proof -
  define t A where "t = int (lp_pos (xs @ zs) + 1)" and "A = le_bytes 4 t @ le_bytes 2 (int num) @ body xs"
  have A: "length A = lp_pos xs" by (simp add: A_def lp_pos_def LP_HDR_SIZE_def)
  obtain b Z where Z: "body zs @ LP_EOF # slack = b # Z" by (cases "body zs") auto
  have "lp_block (xs @ zs) num slack = A @ b # Z" using Z by (simp add: lp_block_def A_def t_def)
  then have "mem_write (lp_block (xs @ zs) num slack) (lp_pos xs) [LP_EOF] = Some (A @ LP_EOF # Z)" using A by simp
  moreover have ok: "lp_ok xs (length xs)"
    using assms(2,4) by (auto simp: lp_ok_def num_ok_def lp_pos_simps)
  moreover obtain S where "lpShrinkToFit env (lp_block xs (length xs) Z) = Some (lp_block xs (length xs) S)"
    using lpShrinkToFit_eq [OF assms(1) ok] by blast
  moreover have "lp_block xs (length xs) Z
      = le_bytes 4 (int (lp_pos xs + 1)) @ le_bytes 2 (int (length xs)) @ body xs @ LP_EOF # Z"
    by (simp add: lp_block_def)
  ultimately show ?thesis unfolding A_def append_assoc by (simp only: bind.bind_lunit hdr_total hdr_num) blast
qed

lemma lpDeleteRange_eq:
  assumes "usable_ok env" "lp_ok rs num"
    and i: "i = (if index < 0 then int (length rs) + index else index)"
  shows "\<exists>num' slack'. lp_ok (if 0 \<le> i then take (nat i) rs @ drop (nat i + n) rs else rs) num' \<and>
    lpDeleteRange env (lp_block rs num slack) index n
      = Some (lp_block (if 0 \<le> i then take (nat i) rs @ drop (nat i + n) rs else rs) num' slack')"
proof (cases "n = 0 \<or> \<not> (0 \<le> i \<and> i < int (length rs))")
  case True
  have "(if 0 \<le> i then take (nat i) rs @ drop (nat i + n) rs else rs) = rs" using True by auto
  moreover have "lpDeleteRange env (lp_block rs num slack) index n = Some (lp_block rs num slack)"
    using True lp_header(2) [OF assms(2), of slack] lpSeek_eq [OF assms(2), of slack index]
    by (auto simp: lpDeleteRange_def nth_ptr_def simp flip: i)
  ultimately show ?thesis using assms(2) by auto
next
  case False
  define k where "k = nat i"
  define xs zs where "xs = take k rs" and "zs = drop k rs"
  have k: "k < length rs" "int k = i" "0 < n" using False by (auto simp: k_def)
  have rs: "rs = xs @ zs" "zs \<noteq> []" "length xs = k" "length rs = k + length zs" using k by (auto simp: xs_def zs_def)
  have res: "(if 0 \<le> i then take (nat i) rs @ drop (nat i + n) rs else rs) = xs @ drop n zs"
    using k by (auto simp: xs_def zs_def k_def add.commute)
  have seek: "lpSeek (lp_block rs num slack) index = Some (Some (lp_pos xs))"
    using lpSeek_eq [OF assms(2), of slack index] k False by (simp add: nth_ptr_def xs_def k_def flip: i)
  have idx: "(if num \<noteq> LP_HDR_NUMELE_UNKNOWN \<and> index < 0 then int num + index else index) = int k"
    if "num \<noteq> LP_HDR_NUMELE_UNKNOWN"
    using that assms(2) i k by (auto simp: lp_ok_def num_ok_def)
  show ?thesis
  proof (cases "num \<noteq> LP_HDR_NUMELE_UNKNOWN \<and> length zs \<le> n")
    case True
    then have num: "num = length rs" using assms(2) by (auto simp: lp_ok_def num_ok_def)
    have "num < 65536" using assms(2) num_ok_bound by (auto simp: lp_ok_def)
    then have "nat ((int num - int k) mod 2 ^ 64) = length zs" using num rs(4) by simp
    moreover obtain S where "(do { lp \<leftarrow> mem_write (lp_block (xs @ zs) num slack) (lp_pos xs) [LP_EOF];
         lp \<leftarrow> lpSetTotalBytes lp (lp_pos xs + 1);
         lp \<leftarrow> lpSetNumElements lp (int (length xs));
         lpShrinkToFit env lp }) = Some (lp_block xs (length xs) S)" "lp_ok xs (length xs)"
      using truncate_eq [OF assms(1) assms(2) [unfolded rs(1)] rs(2)] True by blast
    moreover have "drop n zs = []" using True by simp
    ultimately show ?thesis unfolding res
      using True k lp_header(2) [OF assms(2), of slack] seek idx rs(3) unfolding rs(1)
      by (intro exI [of _ "length xs"] exI [of _ S]) (simp add: lpDeleteRange_def)
  next
    case F: False
    have cond: "(num \<noteq> LP_HDR_NUMELE_UNKNOWN \<and> nat ((int num - (if num \<noteq> LP_HDR_NUMELE_UNKNOWN \<and> index < 0 then int num + index else index)) mod 2 ^ 64) \<le> n) = False"
    proof (cases "num = LP_HDR_NUMELE_UNKNOWN")
      case N: False
      then have "num = length rs" using assms(2) by (auto simp: lp_ok_def num_ok_def)
      moreover have "num < 65536" using assms(2) num_ok_bound by (auto simp: lp_ok_def)
      ultimately have "nat ((int num - int k) mod 2 ^ 64) = length zs" using rs(4) by simp
      then show ?thesis using F N unfolding idx [OF N] by simp
    qed simp
    obtain num' S where "lp_ok (xs @ drop n zs) num'"
      "lpDeleteRangeWithEntry env (lp_block (xs @ zs) num slack) (lp_pos xs) n
        = Some (lp_block (xs @ drop n zs) num' S, ptr xs (drop n zs))"
      using lpDeleteRangeWithEntry_eq [OF assms(1) assms(2) [unfolded rs(1)] rs(2) k(3)] by blast
    moreover have "(n = 0) = False" using k by simp
    ultimately show ?thesis unfolding res
      unfolding lpDeleteRange_def lp_header(2) [OF assms(2)] seek bind.bind_lunit Let_def option.case cond
      unfolding rs(1) by (intro exI [of _ num'] exI [of _ S]) simp
  qed
qed

subsection \<open>Inserting several elements\<close>

lemma lpBatchInsert_store_eq:
  assumes "length X = length (body (map ele_bytes es))" "p = length A"
  shows "\<exists>q. lpBatchInsert_store (A @ X @ Z) p newp es = Some (A @ body (map ele_bytes es) @ Z, q)
    \<and> (es \<noteq> [] \<longrightarrow> q = Some (length A + length (body (map ele_bytes (butlast es)))))"
  using assms
proof (induction es arbitrary: A X p newp)
  case (Cons e es)
  obtain X1 X2 where X: "X = X1 @ X2" "length X1 = length (ent (ele_bytes e))" "length X2 = length (body (map ele_bytes es))"
    using Cons.prems(1)
    by (intro that [of "take (length (ent (ele_bytes e))) X" "drop (length (ent (ele_bytes e))) X"]) simp_all
  have pos: "p + ele_enclen e + length (lpEncodeBacklen (ele_enclen e)) = length (A @ ent (ele_bytes e))"
    using Cons.prems(2) by (simp add: length_ent)
  obtain L where L: "mem_write (A @ X1 @ X2 @ Z) p (ele_bytes e) = Some L"
    "mem_write L (p + ele_enclen e) (lpEncodeBacklen (ele_enclen e)) = Some (A @ ent (ele_bytes e) @ X2 @ Z)"
    using write_entry [OF X(2) Cons.prems(2), of "X2 @ Z"] by (auto simp: bind_eq_Some_conv)
  obtain q where "lpBatchInsert_store ((A @ ent (ele_bytes e)) @ X2 @ Z)
      (p + ele_enclen e + length (lpEncodeBacklen (ele_enclen e))) (Some p) es
        = Some ((A @ ent (ele_bytes e)) @ body (map ele_bytes es) @ Z, q)"
    "es \<noteq> [] \<longrightarrow> q = Some (length (A @ ent (ele_bytes e)) + length (body (map ele_bytes (butlast es))))"
    "es = [] \<longrightarrow> q = Some p"
    using Cons.IH [OF X(3) pos, of "Some p"] by (cases es) auto
  with L X Cons.prems(2) show ?case by (cases es) auto
qed simp

lemma added_num:
  assumes "num_ok num n" "L = le_bytes 4 t @ le_bytes 2 (int num) @ Z"
  shows "\<exists>num'. num_ok num' (n + k) \<and>
    (\<forall>f. lpGetNumElements L \<bind> (\<lambda>num_elements.
       (if num_elements \<noteq> LP_HDR_NUMELE_UNKNOWN then
          (if int k > int LP_HDR_NUMELE_UNKNOWN - int num_elements
           then lpSetNumElements L (int LP_HDR_NUMELE_UNKNOWN)
           else lpSetNumElements L (int num_elements + int k))
        else Some L) \<bind> f) = f (le_bytes 4 t @ le_bytes 2 (int num') @ Z))"
proof -
  define num' where "num' = (if num = LP_HDR_NUMELE_UNKNOWN \<or> int k > int LP_HDR_NUMELE_UNKNOWN - int num
    then LP_HDR_NUMELE_UNKNOWN else num + k)"
  have "num < 65536" using assms(1) by (rule num_ok_bound)
  then show ?thesis using assms(1) unfolding assms(2)
    by (intro exI [of _ num']) (auto simp: num'_def num_ok_def hdr_num simp del: le_bytes.simps)
qed

lemma lpBatchInsert_eq:
  assumes "usable_ok env" "lp_ok (xs @ ys) num" "entries \<noteq> []"
    and ns: "ns = map (\<lambda>e. ele_bytes (entry_ele e)) entries"
    and raw: "lp_pos (xs @ ns @ ys) + 1 < 2 ^ 32 \<Longrightarrow> list_all raw_ok ns"
  shows "if lp_pos (xs @ ns @ ys) + 1 < 2 ^ 32
    then \<exists>num' slack'. lp_ok (xs @ ns @ ys) num' \<and>
      lpBatchInsert env (lp_block (xs @ ys) num slack) (lp_pos xs) LP_BEFORE entries
        = Some (Some (lp_block (xs @ ns @ ys) num' slack', Some (lp_pos (xs @ butlast ns))))
    else lpBatchInsert env (lp_block (xs @ ys) num slack) (lp_pos xs) LP_BEFORE entries = Some None"
proof -
  define t A T where "t = int (lp_pos (xs @ ys) + 1)" and "A = le_bytes 4 t @ le_bytes 2 (int num) @ body xs"
    and "T = body ys @ [LP_EOF]"
  let ?lp = "lp_block (xs @ ys) num slack" and ?enc = "map entry_ele entries"
  have A: "length A = lp_pos xs" by (simp add: A_def lp_pos_def LP_HDR_SIZE_def)
  have lp: "?lp = A @ [] @ T @ slack" by (simp add: lp_block_def A_def T_def t_def)
  have ns': "ns = map ele_bytes ?enc" using ns by simp
  have added: "sum_list (map (\<lambda>e. ele_enclen e + length (lpEncodeBacklen (ele_enclen e))) ?enc) = length (body ns)"
    unfolding ns' by (induction entries) (simp_all add: length_ent)
  have new: "lp_pos (xs @ ys) + 1 + length (body ns) = lp_pos (xs @ ns @ ys) + 1" by (simp add: lp_pos_def)
  have big: "lp_pos (xs @ ns @ ys) + 1 > 2 ^ 32 - 1 \<longleftrightarrow> \<not> lp_pos (xs @ ns @ ys) + 1 < 2 ^ 32" by auto
  have whr: "(LP_BEFORE = LP_REPLACE \<or> entries = []) = False" "(LP_BEFORE = LP_AFTER) = False"
    using assms(3) by simp_all
  note unf = lpBatchInsert_def whr if_False bind.bind_lunit Let_def added lp_header(1) [OF assms(2)] new big
  show ?thesis
  proof (cases "lp_pos (xs @ ns @ ys) + 1 < 2 ^ 32")
    case False
    then show ?thesis unfolding unf by simp
  next
    case True
    have "\<exists>X S. lp_make_room env ?lp (lp_pos (xs @ ys) + 1) (lp_pos (xs @ ns @ ys) + 1) (lp_pos xs)
        (length (body ns)) 0 = Some (A @ X @ T @ S) \<and> length X = length (body ns)"
      unfolding lp by (rule lp_make_room_eq [OF assms(1)]) (use A in \<open>simp_all add: T_def lp_pos_simps\<close>)
    then obtain X S where room: "lp_make_room env ?lp (lp_pos (xs @ ys) + 1) (lp_pos (xs @ ns @ ys) + 1) (lp_pos xs)
        (length (body ns)) 0 = Some (A @ X @ T @ S)" and X: "length X = length (body ns)" by blast
    have store: "lpBatchInsert_store (A @ X @ T @ S) (lp_pos xs) None ?enc
        = Some (A @ body ns @ T @ S, Some (lp_pos (xs @ butlast ns)))"
      using lpBatchInsert_store_eq [of X ?enc "lp_pos xs" A "T @ S" None] X A assms(3)
      by (auto simp: ns' lp_pos_simps map_butlast)
    have "num_ok num (length (xs @ ys))" using assms(2) by (simp add: lp_ok_def)
    moreover define L where "L = A @ body ns @ T @ S"
    then have "L = le_bytes 4 t @ le_bytes 2 (int num) @ body xs @ body ns @ T @ S" by (simp add: A_def)
    ultimately obtain num' where num': "num_ok num' (length (xs @ ys) + length entries)"
      "\<forall>f :: byte list \<Rightarrow> (byte list \<times> nat option) option option. lpGetNumElements L \<bind> (\<lambda>num_elements.
       (if num_elements \<noteq> LP_HDR_NUMELE_UNKNOWN then
          (if int (length entries) > int LP_HDR_NUMELE_UNKNOWN - int num_elements
           then lpSetNumElements L (int LP_HDR_NUMELE_UNKNOWN)
           else lpSetNumElements L (int num_elements + int (length entries)))
        else Some L) \<bind> f) = f (le_bytes 4 t @ le_bytes 2 (int num') @ body xs @ body ns @ T @ S)"
      using added_num by blast
    have ok: "lp_ok (xs @ ns @ ys) num'"
      using assms(2) raw [OF True] num'(1) True by (simp add: lp_ok_def ns algebra_simps)
    have "lpBatchInsert env ?lp (lp_pos xs) LP_BEFORE entries
      = Some (Some (lp_block (xs @ ns @ ys) num' S, Some (lp_pos (xs @ butlast ns))))"
      using True unfolding unf if_True simp_thms room store prod.case L_def [symmetric] num'(2) [rule_format] hdr_total
      by (simp add: lp_block_def T_def)
    with ok True show ?thesis by auto
  qed
qed

end
