(* ===== verification/Listpack_Batch.thy ===== *)
theory Listpack_Batch
  imports Listpack_Edit
begin

section \<open>Listpacks: batch deletion and merging\<close>

text \<open>
  \<open>lpBatchDelete\<close> moves the elements that are kept to the left in one pass, and \<open>lpMerge\<close> puts the
  elements of two listpacks into the larger of the two allocations.
\<close>

subsection \<open>\<open>lpBatchDelete\<close>\<close>

lemma move_left:
  "mem_move (A @ M @ T @ R) (length A) (length A + length M) (length T)
     = Some (A @ T @ drop (length T) (M @ T) @ R)"
  by (simp add: mem_move_def mem_read_def mem_write_def)

lemma skip_at:
  assumes "raw_ok r" "p = length B"
  shows "lpSkip (B @ ent r @ Q) p = Some (p + length (ent r))"
    "\<exists>b. byte_at (B @ ent r @ Q) p = Some b \<and> b \<noteq> LP_EOF"
proof -
  show "lpSkip (B @ ent r @ Q) p = Some (p + length (ent r))"
    using assms raw_ok_size(1) [OF assms(1), of "lpEncodeBacklen (length r) @ Q"]
    by (simp add: lpSkip_def ent_def)
  show "\<exists>b. byte_at (B @ ent r @ Q) p = Some b \<and> b \<noteq> LP_EOF"
    using assms by (cases r) (auto simp: raw_ok_def ent_def)
qed

text \<open>
  The elements from the first deleted one on, as segments: a deleted element and the elements kept
  after it.  \<open>seg_ptrs\<close> are the pointers to the deleted elements.
\<close>

type_synonym segs = "(byte list \<times> byte list list) list"

definition seg_all :: "segs \<Rightarrow> byte list list" where
  "seg_all segs = concat (map (\<lambda>(d, ks). d # ks) segs)"

definition seg_kept :: "segs \<Rightarrow> byte list list" where
  "seg_kept segs = concat (map snd segs)"

fun seg_ptrs :: "nat \<Rightarrow> segs \<Rightarrow> nat list" where
  "seg_ptrs p [] = []"
| "seg_ptrs p ((d, ks) # segs) = p # seg_ptrs (p + length (body (d # ks))) segs"

lemma seg_simps [simp]:
  "seg_all [] = []" "seg_all ((d, ks) # segs) = d # ks @ seg_all segs"
  "seg_kept [] = []" "seg_kept ((d, ks) # segs) = ks @ seg_kept segs"
  by (simp_all add: seg_all_def seg_kept_def)

lemma length_seg_ptrs [simp]: "length (seg_ptrs p segs) = length segs"
  by (induction p segs rule: seg_ptrs.induct) simp_all

lemma seg_ptrs_case:
  "(case seg_ptrs p segs of q # _ \<Rightarrow> q | [] \<Rightarrow> e) = (if segs = [] then e else p)"
  by (cases "(p, segs)" rule: seg_ptrs.cases) auto

lemma length_seg_all: "length (seg_all segs) = length segs + length (seg_kept segs)"
  by (induction segs) auto

lemma body_pos: "list_all raw_ok ks \<Longrightarrow> ks \<noteq> [] \<Longrightarrow> 0 < length (body ks)"
  using length_body [of ks] by (cases ks) auto

lemma seg_ptrs_Nil: "seg_ptrs p segs = [] \<longleftrightarrow> segs = []"
  by (cases "(p, segs)" rule: seg_ptrs.cases) auto

lemma lpBatchDelete_loop_step:
  assumes "byte_at lp p = Some b" "b \<noteq> LP_EOF" "lpSkip lp p = Some keep_start"
  shows "lpBatchDelete_loop lp lp_end dst (p # ps) =
    (let keep_end = (case ps of q # _ \<Rightarrow> q | [] \<Rightarrow> lp_end) in
     if ps \<noteq> [] \<and> keep_start = keep_end then lpBatchDelete_loop lp lp_end dst ps
     else if \<not> keep_end > keep_start then None
     else do { lp \<leftarrow> mem_move lp dst keep_start (keep_end - keep_start);
               lpBatchDelete_loop lp lp_end (dst + (keep_end - keep_start)) ps })"
  unfolding lpBatchDelete_loop.simps(2) assms(1,3) bind.bind_lunit Let_def if_not_P [OF assms(2)] by (rule refl)

lemma lpBatchDelete_loop_eq:
  assumes "list_all raw_ok (seg_all segs)" "segs \<noteq> []" "dst = length A" "p = length A + length G"
    "lp_end = p + length (body (seg_all segs)) + 1"
  shows "\<exists>S'. lpBatchDelete_loop (A @ G @ body (seg_all segs) @ LP_EOF # S) lp_end dst (seg_ptrs p segs)
    = Some (A @ body (seg_kept segs) @ LP_EOF # S', dst + length (body (seg_kept segs)) + 1)"
  using assms
proof (induction segs arbitrary: A G dst p)
  case (Cons s segs)
  obtain d ks where s: "s = (d, ks)" by force
  let ?R = "body (seg_all segs) @ LP_EOF # S"
  let ?lp = "A @ G @ body (seg_all (s # segs)) @ LP_EOF # S"
  have raw: "raw_ok d" "list_all raw_ok ks" "list_all raw_ok (seg_all segs)" using Cons.prems(1) by (auto simp: s)
  have lp: "?lp = (A @ G) @ ent d @ (body ks @ ?R)" by (simp add: s)
  obtain b where b: "byte_at ?lp p = Some b" "b \<noteq> LP_EOF"
    using skip_at(2) [OF raw(1), of p "A @ G" "body ks @ ?R"] Cons.prems(4) unfolding lp by auto
  have sk: "lpSkip ?lp p = Some (p + length (ent d))"
    using skip_at(1) [OF raw(1), of p "A @ G" "body ks @ ?R"] Cons.prems(4) unfolding lp by simp
  let ?ps = "seg_ptrs (p + length (body (d # ks))) segs"
  have ptrs: "seg_ptrs p (s # segs) = p # ?ps" by (simp add: s)
  note step = lpBatchDelete_loop_step [OF b sk, of lp_end dst ?ps, folded ptrs, unfolded seg_ptrs_case seg_ptrs_Nil]
  show ?case
  proof (cases "segs = []")
    case True
    have e: "lp_end - (p + length (ent d)) = length (body ks @ [LP_EOF])" "p + length (ent d) < lp_end"
      using Cons.prems(5) True by (simp_all add: s)
    have "mem_move ?lp dst (p + length (ent d)) (length (body ks @ [LP_EOF]))
      = Some (A @ (body ks @ [LP_EOF]) @ drop (length (body ks @ [LP_EOF])) ((G @ ent d) @ body ks @ [LP_EOF]) @ S)"
      using move_left [of A "G @ ent d" "body ks @ [LP_EOF]" S] Cons.prems(3,4) True by (simp add: s add.assoc)
    then show ?thesis unfolding step using True e by (simp add: Let_def s)
  next
    case False
    note prems = Cons.IH [OF raw(3) False]
    show ?thesis
    proof (cases "ks = []")
      case True
      have "?lp = A @ (G @ ent d) @ ?R" using True by (simp add: s)
      moreover have "lp_end = p + length (ent d) + length (body (seg_all segs)) + 1"
        using Cons.prems(5) True by (simp add: s)
      ultimately show ?thesis unfolding step
        using prems [of dst A "p + length (ent d)" "G @ ent d"] Cons.prems(3,4) True False by (simp add: s Let_def)
    next
      case ks: False
      let ?G = "drop (length (body ks)) ((G @ ent d) @ body ks)"
      have mv: "mem_move ?lp dst (p + length (ent d)) (length (body ks)) = Some ((A @ body ks) @ ?G @ ?R)"
        using move_left [of A "G @ ent d" "body ks" ?R] Cons.prems(3,4) by (simp add: s add.assoc)
      have "lp_end = p + length (body (d # ks)) + length (body (seg_all segs)) + 1"
        using Cons.prems(5) by (simp add: s)
      moreover have "p + length (body (d # ks)) = length (A @ body ks) + length ?G" using Cons.prems(4) by simp
      ultimately obtain S' where "lpBatchDelete_loop ((A @ body ks) @ ?G @ ?R) lp_end (dst + length (body ks)) (seg_ptrs (p + length (body (d # ks))) segs)
        = Some ((A @ body ks) @ body (seg_kept segs) @ LP_EOF # S', dst + length (body ks) + length (body (seg_kept segs)) + 1)"
        using prems [of "dst + length (body ks)" "A @ body ks" "p + length (body (d # ks))" ?G] Cons.prems(3) by auto
      then show ?thesis unfolding step using mv body_pos [OF raw(2) ks] False by (simp add: Let_def s add.assoc)
    qed
  qed
qed simp

lemma lpBatchDelete_eq:
  assumes "usable_ok env" "lp_ok (xs @ seg_all segs) num"
  shows "\<exists>num' slack'. lp_ok (xs @ seg_kept segs) num' \<and>
    lpBatchDelete env (lp_block (xs @ seg_all segs) num slack) (seg_ptrs (lp_pos xs) segs)
      = Some (lp_block (xs @ seg_kept segs) num' slack')"
proof (cases "segs = []")
  case True
  then show ?thesis using assms(2) by (auto simp: lpBatchDelete_def)
next
  case False
  let ?rs = "xs @ seg_all segs" and ?ks = "xs @ seg_kept segs"
  define t A where "t = int (lp_pos ?rs + 1)" and "A = le_bytes 4 t @ le_bytes 2 (int num) @ body xs"
  let ?lp = "lp_block ?rs num slack"
  have A: "length A = lp_pos xs" by (simp add: A_def lp_pos_def LP_HDR_SIZE_def)
  have lp: "?lp = A @ [] @ body (seg_all segs) @ LP_EOF # slack" by (simp add: lp_block_def A_def t_def)
  have raw: "list_all raw_ok (seg_all segs)" using assms(2) by (simp add: lp_ok_def)
  have le: "num \<noteq> LP_HDR_NUMELE_UNKNOWN \<longrightarrow> length segs \<le> num" "num < 65536"
    using assms(2) num_ok_bound [of num] by (auto simp: lp_ok_def num_ok_def length_seg_all)
  define num' where "num' = (if num = LP_HDR_NUMELE_UNKNOWN then num else num - length segs)"
  have kept: "list_all raw_ok (seg_kept segs)" "length (body (seg_kept segs)) \<le> length (body (seg_all segs))"
    using raw by (induction segs) auto
  have ok: "lp_ok ?ks num'"
    using assms(2) kept by (auto simp: lp_ok_def num_ok_def num'_def length_seg_all lp_pos_simps)
  have "\<exists>S. lpBatchDelete_loop ?lp (lp_pos ?rs + 1) (lp_pos xs) (seg_ptrs (lp_pos xs) segs)
      = Some (A @ body (seg_kept segs) @ LP_EOF # S, lp_pos xs + length (body (seg_kept segs)) + 1)"
    unfolding lp by (rule lpBatchDelete_loop_eq [OF raw False]) (use A in \<open>simp_all add: lp_pos_simps\<close>)
  then obtain S where loop: "lpBatchDelete_loop ?lp (lp_pos ?rs + 1) (lp_pos xs) (seg_ptrs (lp_pos xs) segs)
      = Some (A @ body (seg_kept segs) @ LP_EOF # S, lp_pos ?ks + 1)" by (auto simp only: lp_pos_simps)
  have e1: "byte_at ?lp (lp_pos ?rs + 1 - 1) = Some LP_EOF" using byte_at_eof [of ?rs] by simp
  have e2: "byte_at (A @ body (seg_kept segs) @ LP_EOF # S) (lp_pos ?ks + 1 - 1) = Some LP_EOF"
    using byte_at_append3 [of "A @ body (seg_kept segs)" "LP_EOF # S"] A by (simp add: lp_pos_simps)
  have tot: "nat (int (lp_pos ?rs + 1) - (int (lp_pos ?rs + 1) - int (lp_pos ?ks + 1))) = lp_pos ?ks + 1" by simp
  obtain S' where S': "lpShrinkToFit env (lp_block ?ks num' S) = Some (lp_block ?ks num' S')"
    using lpShrinkToFit_eq [OF assms(1) ok] by blast
  have blk: "le_bytes 4 (int (lp_pos ?ks + 1)) @ le_bytes 2 (int num') @ body xs @ body (seg_kept segs) @ LP_EOF # S
      = lp_block ?ks num' S" by (simp add: lp_block_def)
  have nz: "(lp_pos ?rs + 1 = 0) = False" "(lp_pos ?ks + 1 = 0) = False" by simp_all
  obtain ps where ps: "seg_ptrs (lp_pos xs) segs = lp_pos xs # ps"
    using False by (cases "(lp_pos xs, segs)" rule: seg_ptrs.cases) auto
  have len: "length (lp_pos xs # ps) = length segs" using length_seg_ptrs [of "lp_pos xs" segs] ps by simp
  have "lpBatchDelete env ?lp (seg_ptrs (lp_pos xs) segs) = Some (lp_block ?ks num' S')"
    unfolding ps lpBatchDelete_def list.case Let_def lp_header(1) [OF assms(2)] bind.bind_lunit nz if_False e1 if_True refl
      loop [unfolded ps] prod.case tot e2
    unfolding A_def append_assoc hdr_total bind.bind_lunit len adjust_num [OF le(2,1) refl] num'_def [symmetric] blk S'
    by simp
  with ok show ?thesis by blast
qed

subsection \<open>\<open>lpMerge\<close>\<close>

lemma append_target:
  assumes "usable_ok env" "lp_pos (xs @ ys) + 1 = tot_bytes"
  shows "\<exists>S'. (do { x \<leftarrow> mem_read (lp_block ys n2 s2) LP_HDR_SIZE (lp_pos ys + 1 - LP_HDR_SIZE);
      mem_write (lp_realloc env (lp_block xs n1 s1) tot_bytes) (lp_pos xs + 1 - 1) x })
    = Some (le_bytes 4 (int (lp_pos xs + 1)) @ le_bytes 2 (int n1) @ body (xs @ ys) @ LP_EOF # S')"
proof -
  define A where "A = le_bytes 4 (int (lp_pos xs + 1)) @ le_bytes 2 (int n1) @ body xs"
  have A: "length A = lp_pos xs" by (simp add: A_def lp_pos_def LP_HDR_SIZE_def)
  have "lp_block xs n1 s1 = A @ [LP_EOF] @ [] @ s1" by (simp add: lp_block_def A_def)
  then obtain S where S: "lp_realloc env (lp_block xs n1 s1) tot_bytes = A @ LP_EOF # S" "tot_bytes \<le> length (A @ LP_EOF # S)"
    using lp_realloc_keep [OF assms(1), of A "[LP_EOF]" "[]" tot_bytes s1] A assms(2) by (auto simp: lp_pos_simps)
  have "mem_read (lp_block ys n2 s2) LP_HDR_SIZE (lp_pos ys + 1 - LP_HDR_SIZE) = Some (body ys @ [LP_EOF])"
    by (simp add: lp_block_def mem_read_def lp_pos_def LP_HDR_SIZE_def)
  moreover have "mem_write (A @ LP_EOF # S) (lp_pos xs + 1 - 1) (body ys @ [LP_EOF])
      = Some (A @ body ys @ [LP_EOF] @ drop (length (body ys)) S)"
    using S(2) A assms(2) [symmetric] by (simp add: mem_write_def lp_pos_simps)
  ultimately show ?thesis unfolding S(1) by (simp add: A_def)
qed

lemma prepend_target:
  assumes "usable_ok env" "lp_pos (xs @ ys) + 1 = tot_bytes"
  shows "\<exists>S'. (do { target \<leftarrow> mem_move (lp_realloc env (lp_block ys n2 s2) tot_bytes) (lp_pos xs + 1 - 1) LP_HDR_SIZE
        (lp_pos ys + 1 - LP_HDR_SIZE);
      x \<leftarrow> mem_read (lp_block xs n1 s1) 0 (lp_pos xs + 1 - 1);
      mem_write target 0 x })
    = Some (le_bytes 4 (int (lp_pos xs + 1)) @ le_bytes 2 (int n1) @ body (xs @ ys) @ LP_EOF # S')"
proof -
  define A T where "A = le_bytes 4 (int (lp_pos ys + 1)) @ le_bytes 2 (int n2)" and "T = body ys @ [LP_EOF]"
  define B where "B = le_bytes 4 (int (lp_pos xs + 1)) @ le_bytes 2 (int n1) @ body xs"
  have A: "length A = 6" "length B = lp_pos xs" by (simp_all add: A_def B_def lp_pos_def LP_HDR_SIZE_def)
  have "lp_block ys n2 s2 = A @ [] @ T @ s2" by (simp add: lp_block_def A_def T_def)
  then obtain S where S: "lp_realloc env (lp_block ys n2 s2) tot_bytes = A @ [] @ T @ S" "tot_bytes \<le> length (A @ [] @ T @ S)"
    using lp_realloc_keep [OF assms(1), of A "[]" T tot_bytes s2] A assms(2) lp_pos_ge [of xs]
    by (auto simp: lp_pos_simps T_def)
  have len: "lp_pos ys + 1 - LP_HDR_SIZE = length T" "lp_pos xs + 1 - 1 = length A + length (body xs)"
    by (simp_all add: T_def lp_pos_def A LP_HDR_SIZE_def)
  have "length A + length (body xs) + length T \<le> length (A @ [] @ T @ S)"
    using S(2) assms(2) A by (simp add: T_def lp_pos_def LP_HDR_SIZE_def)
  then obtain X S2 where X: "mem_move (A @ [] @ T @ S) (length A + length (body xs)) (length A) (length T) = Some (A @ X @ T @ S2)"
    "length X = length (body xs)"
    using mem_move_exact [of A "[]" T S "A @ [] @ T @ S" "length (body xs)"] by auto
  have "mem_read (lp_block xs n1 s1) 0 (length A + length (body xs)) = Some B"
    using A by (simp add: lp_block_def mem_read_def B_def)
  moreover have "mem_write (A @ X @ T @ S2) 0 B = Some (B @ T @ S2)"
    using mem_write_exact [of "A @ X" B "[]" 0 "T @ S2"] X(2) A by (simp add: lp_pos_def LP_HDR_SIZE_def)
  ultimately show ?thesis using A(1) X(1) unfolding S(1) len by (simp add: LP_HDR_SIZE_def B_def T_def)
qed

lemma lpMerge_eq:
  assumes "usable_ok env" "lp_ok xs n1" "lp_ok ys n2" "lp_pos (xs @ ys) + 1 < 2 ^ 32 - 1"
  shows "\<exists>num' slack'. lp_ok (xs @ ys) num' \<and>
    lpMerge env (Some (lp_block xs n1 s1)) (Some (lp_block ys n2 s2)) False
      = Some (Some (if lp_pos ys \<le> lp_pos xs then (Some (lp_block (xs @ ys) num' slack'), None)
                    else (None, Some (lp_block (xs @ ys) num' slack'))))"
proof -
  obtain m1 where m1: "lpLength (lp_block xs n1 s1) = Some (lp_block xs m1 s1, length xs)"
    using lpLength_eq [OF assms(2)] by blast
  obtain m2 where m2: "lpLength (lp_block ys n2 s2) = Some (lp_block ys m2 s2, length ys)"
    using lpLength_eq [OF assms(3)] by blast
  define tot_bytes where "tot_bytes = lp_pos (xs @ ys) + 1"
  have tot: "lp_pos xs + 1 + (lp_pos ys + 1) - LP_HDR_SIZE - 1 = tot_bytes"
    "lp_pos xs + 1 + (lp_pos ys + 1) < LP_HDR_SIZE + 1 \<or> \<not> tot_bytes < 2 ^ 32 - 1 \<longleftrightarrow> False"
    using assms(4) by (simp_all add: tot_bytes_def lp_pos_def LP_HDR_SIZE_def)
  define num' where "num' = (if length xs + length ys < 65535 then length xs + length ys else 65535)"
  have ok: "lp_ok (xs @ ys) num'"
    using assms by (simp add: lp_ok_def num'_def num_ok_def LP_HDR_NUMELE_UNKNOWN_def)
  have fin: "(do { target \<leftarrow> lpSetNumElements (le_bytes 4 t @ le_bytes 2 n @ body (xs @ ys) @ LP_EOF # S) (int num');
       target \<leftarrow> lpSetTotalBytes target tot_bytes; f target }) = f (lp_block (xs @ ys) num' S)" for t n S and f :: "byte list \<Rightarrow> 'x option"
    by (simp only: hdr_num hdr_total bind.bind_lunit lp_block_def tot_bytes_def)
  note unf = lpMerge_def prod.case option.case if_False lp_header(3) [OF assms(2)] lp_header(3) [OF assms(3)]
    m1 m2 bind.bind_lunit Let_def
  show ?thesis
  proof (cases "lp_pos ys \<le> lp_pos xs")
    case True
    then have c: "lp_pos xs + 1 \<ge> lp_pos ys + 1 \<longleftrightarrow> True" by simp
    obtain S where S: "(do { x \<leftarrow> mem_read (lp_block ys m2 s2) LP_HDR_SIZE (lp_pos ys + 1 - LP_HDR_SIZE);
        mem_write (lp_realloc env (lp_block xs m1 s1) tot_bytes) (lp_pos xs + 1 - 1) x })
      = Some (le_bytes 4 (int (lp_pos xs + 1)) @ le_bytes 2 (int m1) @ body (xs @ ys) @ LP_EOF # S)"
      using append_target [OF assms(1) tot_bytes_def [symmetric]] by blast
    have "lpMerge env (Some (lp_block xs n1 s1)) (Some (lp_block ys n2 s2)) False
      = Some (Some (Some (lp_block (xs @ ys) num' S), None))"
      unfolding unf c if_True tot if_False S num'_def [symmetric] fin by (rule refl)
    with ok True show ?thesis by auto
  next
    case False
    then have c: "lp_pos xs + 1 \<ge> lp_pos ys + 1 \<longleftrightarrow> False" by simp
    obtain S where S: "(do { target \<leftarrow> mem_move (lp_realloc env (lp_block ys m2 s2) tot_bytes) (lp_pos xs + 1 - 1) LP_HDR_SIZE
        (lp_pos ys + 1 - LP_HDR_SIZE);
      x \<leftarrow> mem_read (lp_block xs m1 s1) 0 (lp_pos xs + 1 - 1);
      mem_write target 0 x })
      = Some (le_bytes 4 (int (lp_pos xs + 1)) @ le_bytes 2 (int m1) @ body (xs @ ys) @ LP_EOF # S)"
      using prepend_target [OF assms(1) tot_bytes_def [symmetric]] by blast
    have "lpMerge env (Some (lp_block xs n1 s1)) (Some (lp_block ys n2 s2)) False
      = Some (Some (None, Some (lp_block (xs @ ys) num' S)))"
      unfolding unf c if_False tot S num'_def [symmetric] fin by (rule refl)
    with ok False show ?thesis by auto
  qed
qed

end
