(* ===== verification/Listpack_Valid.thy ===== *)
theory Listpack_Valid
  imports Listpack_Batch
begin

section \<open>Listpacks: validation of untrusted bytes\<close>

text \<open>
  \<open>lpValidateIntegrity\<close> is given bytes that may hold anything.  It never reads outside of them, it
  accepts every well-formed listpack, and what it accepts can be read from the first element to
  the last without leaving the allocation.
\<close>

subsection \<open>Reading the length at the end\<close>

lemma decode_total:
  assumes "p < int (length lp)" "int ((28 - s) div 7) \<le> p" "s \<le> 28"
  shows "lpDecodeBacklen_loop lp p val s \<noteq> None"
  using assms
proof (induction lp p val s rule: lpDecodeBacklen_loop.induct)
  case (1 lp p val s)
  have "0 \<le> p" using 1(3) by simp
  then have b: "byte_at lp (nat p) = Some (lp ! nat p)" using 1(2) by (simp add: byte_at_def)
  show ?case
  proof (cases "and (lp ! nat p) 128 = 0 \<or> s + 7 > 28")
    case True
    with b \<open>0 \<le> p\<close> show ?thesis by (subst lpDecodeBacklen_loop.simps) (auto simp: Let_def)
  next
    case False
    have "int ((28 - (s + 7)) div 7) \<le> p - 1" "p - 1 < int (length lp)"
      using 1(2,3) False by linarith+
    with 1(1) [of "lp ! nat p" "or val (push_bit s (unat (and (lp ! nat p) 127)))"] b \<open>0 \<le> p\<close> False
    show ?thesis by (subst lpDecodeBacklen_loop.simps) (simp add: Let_def)
  qed
qed

lemma mod_128_or: "7 \<le> s \<Longrightarrow> or val (push_bit s g) mod 128 = val mod (128::nat)"
proof -
  assume "7 \<le> s"
  then have "take_bit 7 (push_bit s g) = (0::nat)" by (simp add: take_bit_push_bit)
  then have "take_bit 7 (or val (push_bit s g)) = take_bit 7 val" by simp
  then show ?thesis by (simp add: take_bit_eq_mod)
qed

lemma decode_unfold:
  assumes "lpDecodeBacklen_loop lp p val s = Some v"
  obtains b where "0 \<le> p" "byte_at lp (nat p) = Some b"
    "v = or val (push_bit s (unat (and b 127))) \<or> v = ULLONG_MAX \<or>
     s + 7 \<le> 28 \<and> and b 128 \<noteq> 0 \<and>
       lpDecodeBacklen_loop lp (p - 1) (or val (push_bit s (unat (and b 127)))) (s + 7) = Some v"
  using assms unfolding lpDecodeBacklen_loop.simps [of lp p val s]
  by (auto simp: bind_eq_Some_conv Let_def split: if_splits)

lemma decode_mod:
  assumes "lpDecodeBacklen_loop lp p val s = Some v" "7 \<le> s"
  shows "v mod 128 = val mod 128 \<or> v mod 128 = 127"
  using assms
proof (induction lp p val s rule: lpDecodeBacklen_loop.induct)
  case (1 lp p val s)
  from 1(2) show ?case
  proof (rule decode_unfold)
    fix b
    assume p: "0 \<le> p" and b: "byte_at lp (nat p) = Some b"
      and v: "v = or val (push_bit s (unat (and b 127))) \<or> v = ULLONG_MAX \<or>
        s + 7 \<le> 28 \<and> and b 128 \<noteq> 0 \<and>
        lpDecodeBacklen_loop lp (p - 1) (or val (push_bit s (unat (and b 127)))) (s + 7) = Some v"
    have "ULLONG_MAX mod 128 = 127" by (simp add: ULLONG_MAX_def)
    with 1(1) [of b "or val (push_bit s (unat (and b 127)))"] p b v 1(3) mod_128_or [OF 1(3), of val] show ?thesis by auto
  qed
qed

lemma lpDecodeBacklen_mod:
  assumes "lpDecodeBacklen lp p = Some v"
  shows "\<exists>b. byte_at lp (nat p) = Some b \<and> (v mod 128 = unat (and b 127) mod 128 \<or> v mod 128 = 127)"
  using assms unfolding lpDecodeBacklen_def
proof (rule decode_unfold)
  fix b
  assume b: "byte_at lp (nat p) = Some b"
    and v: "v = or 0 (push_bit 0 (unat (and b 127))) \<or> v = ULLONG_MAX \<or>
      0 + 7 \<le> 28 \<and> and b 128 \<noteq> 0 \<and>
      lpDecodeBacklen_loop lp (p - 1) (or 0 (push_bit 0 (unat (and b 127)))) (0 + 7) = Some v"
  have "ULLONG_MAX mod 128 = 127" by (simp add: ULLONG_MAX_def)
  with b v decode_mod [of lp "p - 1" "unat (and b 127)" 7 v] show ?thesis by auto
qed

subsection \<open>One entry\<close>

text \<open>
  When the bytes that hold the length of an entry are there, its length can be read.  It is at least
  as long as those bytes, except when the 32-bit length of a string wraps around.
\<close>

lemma size_info:
  assumes "lpCurrentEncodedSizeBytes d = Some k" "k \<noteq> 0" "k \<le> length d"
  shows "\<exists>n. lpCurrentEncodedSizeUnsafe d = Some n \<and> (\<forall>m \<ge> k. lpCurrentEncodedSizeUnsafe (take m d) = Some n) \<and>
    (k \<le> n \<or> hd d = LP_ENCODING_32BIT_STR \<and> n < 5 \<and> take 4 (drop 1 d) = le_bytes 4 (2 ^ 32 - 5 + int n))"
proof -
  obtain b d' where d: "d = b # d'" using assms by (cases d) auto
  show ?thesis
  proof (cases "b = LP_ENCODING_32BIT_STR")
    case True
    define len where "len = le_nat (take 4 d')"
    have k: "k = 5" "4 \<le> length d'" using assms True by (simp_all add: d lpCurrentEncodedSizeBytes_def)
    have sz: "lpCurrentEncodedSizeUnsafe (take m d) = Some ((5 + len) mod 2 ^ 32)" if "5 \<le> m" for m
      using that k True by (cases m) (simp_all add: d lpCurrentEncodedSizeUnsafe_def LP_ENCODING_32BIT_STR_LEN_def mem_read_def len_def min_def)
    from sz [of "length d + 5"] have "lpCurrentEncodedSizeUnsafe d = Some ((5 + len) mod 2 ^ 32)" by simp
    moreover have "5 \<le> (5 + len) mod 2 ^ 32 \<or> (5 + len) mod 2 ^ 32 < 5 \<and> take 4 d' = le_bytes 4 (2 ^ 32 - 5 + int ((5 + len) mod 2 ^ 32))"
    proof (cases "5 + len < 2 ^ 32")
      case False
      have "len < 256 ^ length (take 4 d')" unfolding len_def by (rule le_nat_bound)
      then have "len < 2 ^ 32" using k by simp
      with False have m: "(5 + len) mod 2 ^ 32 = 5 + len - 2 ^ 32" by (simp add: mod_if)
      then have "2 ^ 32 - 5 + int ((5 + len) mod 2 ^ 32) = int len" using False by (simp add: of_nat_diff)
      moreover have "le_bytes 4 (int len) = take 4 d'" using le_bytes_le_nat [of "take 4 d'"] k by (simp add: len_def)
      ultimately show ?thesis using m \<open>len < 2 ^ 32\<close> by simp
    qed simp
    ultimately show ?thesis using sz k True by (auto simp: d)
  next
    case False
    have one: "byte_at (b # d') 1 = byte_at d' 0" for b :: byte and d' by (simp add: byte_at_def)
    have t1: "take m (b # d') = b # take (m - 1) d'" if "Suc 0 \<le> m" for m using that by (cases m) simp_all
    show ?thesis
    proof (cases "k = 2")
      case True
      then obtain b1 d2 where d': "d' = b1 # d2" using assms(3) by (cases d') (simp_all add: d)
      have t2: "take m (b # b1 # d2) = b # b1 # take (m - 2) d2" if "2 \<le> m" for m
        using that by (cases m; cases "m - 1") simp_all
      from assms True show ?thesis
        by (auto simp: t2 d d' lpCurrentEncodedSizeBytes_def lpCurrentEncodedSizeUnsafe_def
            LP_ENCODING_12BIT_STR_LEN_def byte_at_def split: if_splits)
    next
      case k: False
      with assms False show ?thesis
        by (auto simp: t1 d lpCurrentEncodedSizeBytes_def lpCurrentEncodedSizeUnsafe_def split: if_splits)
    qed
  qed
qed

text \<open>An entry whose length wraps around is refused: its last byte is not its length.\<close>

lemma no_wrap:
  assumes "drop p lp = LP_ENCODING_32BIT_STR # d" "take 4 d = le_bytes 4 (2 ^ 32 - 5 + int n)" "n < 5"
    "lpDecodeBacklen lp (int (p + n)) = Some v" "v mod 128 = n"
  shows False
proof -
  obtain b where b: "byte_at lp (p + n) = Some b" "v mod 128 = unat (and b 127) mod 128 \<or> v mod 128 = 127"
    using lpDecodeBacklen_mod [OF assms(4)] unfolding nat_int by blast
  have "byte_at lp (p + n) = byte_at (drop p lp) n" by (auto simp: byte_at_def)
  then have d: "byte_at lp (p + n) = byte_at (LP_ENCODING_32BIT_STR # take 4 d @ drop 4 d) n"
    unfolding assms(1) by simp
  have "byte_at (LP_ENCODING_32BIT_STR # take 4 d @ drop 4 d) n = byte_at (LP_ENCODING_32BIT_STR # le_bytes 4 (2 ^ 32 - 5 + int n)) n"
    using byte_at_append1 [of n "LP_ENCODING_32BIT_STR # le_bytes 4 (2 ^ 32 - 5 + int n)" "drop 4 d"] assms(3)
    unfolding assms(2) by simp
  moreover have "\<forall>n \<in> set [0..<5]. \<forall>b. byte_at (LP_ENCODING_32BIT_STR # le_bytes 4 (2 ^ 32 - 5 + int n)) n = Some b
      \<longrightarrow> unat (and b 127) mod 128 \<noteq> n"
  proof -
    have "\<forall>n \<in> set [0..<5]. case byte_at (LP_ENCODING_32BIT_STR # le_bytes 4 (2 ^ 32 - 5 + int n)) n of
        Some b \<Rightarrow> unat (and b 127) mod 128 \<noteq> n | None \<Rightarrow> True" by code_simp
    then show ?thesis by (auto split: option.splits)
  qed
  ultimately show False using b assms(3,5) d by auto
qed

lemma lpValidateNext_cases:
  assumes "bytes \<le> length lp"
  shows "\<exists>ok q. lpValidateNext lp pp bytes = Some (ok, q) \<and>
    (ok \<longrightarrow> (\<exists>p. pp = Some p \<and> 6 \<le> p \<and> p < bytes \<and>
       (q = None \<and> byte_at lp p = Some LP_EOF \<or>
        (\<exists>r X. q = Some (p + length (ent r)) \<and> p + length (ent r) < bytes \<and> raw_ok r \<and> drop p lp = r @ X))))"
proof (cases pp)
  case None
  then show ?thesis by (auto simp: lpValidateNext_def)
next
  case (Some p)
  show ?thesis
  proof (cases "p < LP_HDR_SIZE \<or> p + 1 > bytes")
    case True
    then show ?thesis using Some by (auto simp: lpValidateNext_def)
  next
    case in_range: False
    then have p: "p < length lp" "6 \<le> p" using assms by (simp_all add: LP_HDR_SIZE_def)
    define d where "d = drop p lp"
    have b: "byte_at lp p = Some (lp ! p)" "hd d = lp ! p" "d \<noteq> []"
      using p by (simp_all add: byte_at_def d_def hd_drop_conv_nth)
    obtain k where k: "lpCurrentEncodedSizeBytes d = Some k"
      using b(3) by (cases d) (simp_all add: lpCurrentEncodedSizeBytes_def)
    consider "lp ! p = LP_EOF" | "lp ! p \<noteq> LP_EOF" "k = 0 \<or> p + k + 1 > bytes" | "lp ! p \<noteq> LP_EOF" "k \<noteq> 0" "p + k < bytes" by linarith
    then show ?thesis
    proof cases
      case 1
      then show ?thesis using Some in_range b p by (auto simp: lpValidateNext_def)
    next
      case 2
      then show ?thesis using Some in_range b k by (auto simp: lpValidateNext_def simp flip: d_def)
    next
      case 3
      have kd: "k \<le> length d" using 3 assms by (simp add: d_def)
      obtain n where n: "lpCurrentEncodedSizeUnsafe d = Some n" "\<forall>m \<ge> k. lpCurrentEncodedSizeUnsafe (take m d) = Some n"
        "k \<le> n \<or> hd d = LP_ENCODING_32BIT_STR \<and> n < 5 \<and> take 4 (drop 1 d) = le_bytes 4 (2 ^ 32 - 5 + int n)"
        using size_info [OF k 3(2) kd] by blast
      let ?q = "p + (n + length (lpEncodeBacklen n))"
      show ?thesis
      proof (cases "?q < bytes")
        case False
        then show ?thesis using Some in_range b k n(1) 3
          by (auto simp: lpValidateNext_def LP_HDR_SIZE_def simp flip: d_def)
      next
        case True
        obtain v where v: "lpDecodeBacklen lp (int ?q - 1) = Some v"
          using decode_total [of "int ?q - 1" lp 0 0] True assms p length_lpEncodeBacklen(1) [of n]
          unfolding lpDecodeBacklen_def by auto
        have eq: "lpValidateNext lp pp bytes
          = (if (v + length (lpEncodeBacklen n)) mod 2 ^ 64 \<noteq> n + length (lpEncodeBacklen n) then Some (False, pp) else Some (True, Some ?q))"
          using Some in_range b k n(1) 3 True v by (auto simp: lpValidateNext_def LP_HDR_SIZE_def Let_def simp flip: d_def)
        show ?thesis
        proof (cases "(v + length (lpEncodeBacklen n)) mod 2 ^ 64 = n + length (lpEncodeBacklen n)")
          case False
          then show ?thesis unfolding eq by auto
        next
          case m: True
          have "k \<le> n"
          proof (rule ccontr)
            assume "\<not> k \<le> n"
            then have w: "hd d = LP_ENCODING_32BIT_STR" "n < 5" "take 4 (drop 1 d) = le_bytes 4 (2 ^ 32 - 5 + int n)"
              using n(3) by auto
            then have "length (lpEncodeBacklen n) = 1" by simp
            then have "(v + 1) mod 2 ^ 64 = n + 1" "lpDecodeBacklen lp (int (p + n)) = Some v" using m v by simp_all
            moreover have "(v + 1) mod 2 ^ 64 mod 128 = (v + 1) mod 128" by (rule mod_mod_cancel) simp
            ultimately have "(v + 1) mod 128 = n + 1" "lpDecodeBacklen lp (int (p + n)) = Some v" using w(2) by simp_all
            moreover from this(1) have "v mod 128 = n" by (simp add: mod_Suc split: if_splits)
            moreover have "drop p lp = LP_ENCODING_32BIT_STR # drop 1 d" using w(1) b(3) by (cases d) (simp_all add: d_def)
            ultimately show False using no_wrap [of p lp "drop 1 d" n v] w by simp
          qed
          let ?r = "take n d"
          have len: "length ?r = n" using True assms by (simp add: d_def)
          have "raw_ok ?r"
            using n(2) \<open>k \<le> n\<close> 3 b len by (cases d; cases n) (auto simp: raw_ok_def)
          moreover have "drop p lp = ?r @ drop n d" by (simp add: d_def [symmetric])
          moreover have "length (ent ?r) = n + length (lpEncodeBacklen n)" by (simp only: length_ent len)
          ultimately have "\<exists>r X. Some ?q = Some (p + length (ent r)) \<and> p + length (ent r) < bytes \<and> raw_ok r \<and> drop p lp = r @ X"
            using True by (intro exI [of _ ?r] exI [of _ "drop n d"]) simp
          then show ?thesis unfolding eq using m p in_range Some by auto
        qed
      qed
    qed
  qed
qed

subsection \<open>The whole listpack\<close>

lemma lpValidate_loop_total:
  assumes "bytes \<le> length lp" "\<And>q. p = Some q \<Longrightarrow> q < bytes" "0 < fuel" "\<And>q. p = Some q \<Longrightarrow> bytes < q + fuel"
  shows "lpValidate_loop lp bytes cb numele fuel p count \<noteq> None"
  using assms(2-)
proof (induction fuel arbitrary: p count)
  case (Suc fuel)
  show ?case
  proof (cases p)
    case (Some q)
    then have q: "q < bytes" "q < length lp" using Suc.prems assms(1) by force+
    obtain ok p' where v: "lpValidateNext lp p bytes = Some (ok, p')"
      "ok \<Longrightarrow> p' = None \<and> byte_at lp q = Some LP_EOF \<or> (\<exists>q'. p' = Some q' \<and> q < q' \<and> q' < bytes)"
      using lpValidateNext_cases [OF assms(1), of p] Some by (fastforce simp: ent_def)
    have "lpValidate_loop lp bytes cb numele fuel p' (count + 1) \<noteq> None" if ok: "ok" "lp ! q \<noteq> LP_EOF"
    proof -
      have "byte_at lp q \<noteq> Some LP_EOF" using ok(2) q by (simp add: byte_at_def)
      then obtain q' where "p' = Some q'" "q < q'" "q' < bytes" using v(2) [OF ok(1)] by auto
      with Suc.IH [of p' "count + 1"] Suc.prems(3) [OF Some] show ?thesis by fastforce
    qed
    with Some q v(1) show ?thesis by (auto simp: byte_at_def)
  qed simp
qed simp

text \<open>Reading the elements from the first to the last, as the users of listpacks do.\<close>

fun lp_elements :: "byte list \<Rightarrow> byte list \<Rightarrow> nat \<Rightarrow> nat option \<Rightarrow> byte list list option" where
  "lp_elements lp intbuf 0 p = None"
| "lp_elements lp intbuf (Suc fuel) p =
     (case p of None \<Rightarrow> Some []
      | Some p \<Rightarrow>
          do { s \<leftarrow> lpGet (drop p lp) intbuf;
               p \<leftarrow> lpNext lp p;
               ss \<leftarrow> lp_elements lp intbuf fuel p;
               Some (s # ss) })"

definition lp_strings :: "byte list \<Rightarrow> byte list \<Rightarrow> byte list list option" where
  "lp_strings lp intbuf = do { p \<leftarrow> lpFirst lp; lp_elements lp intbuf (length lp + 1) p }"

text \<open>What the loop accepts is a sequence of encoded elements up to the end marker.\<close>

lemma lpValidate_loop_sound:
  assumes "bytes \<le> length lp" "lpGetTotalBytes lp = Some bytes" "LP_INTBUF_SIZE \<le> length intbuf"
    "lpValidate_loop lp bytes cb numele fuel (Some p) count = Some (Some (Some e, count'))" "p < bytes" "length lp < f + p"
  shows "\<exists>ss. count' = count + length ss \<and>
    (do { b \<leftarrow> byte_at lp p;
         if b = LP_EOF then lp_elements lp intbuf f None
         else do { lpAssertValidEntry lp bytes p; lp_elements lp intbuf f (Some p) } }) = Some ss"
  using assms(4-)
proof (induction fuel arbitrary: p count f)
  case (Suc fuel)
  have p: "byte_at lp p = Some (lp ! p)" using Suc.prems(2) assms(1) by (simp add: byte_at_def)
  obtain g where f: "f = Suc g" using Suc.prems assms(1) by (cases f) auto
  show ?case
  proof (cases "lp ! p = LP_EOF")
    case True
    then show ?thesis using Suc.prems(1) p f by (auto split: option.splits)
  next
    case False
    obtain ok p' where v: "lpValidateNext lp (Some p) bytes = Some (ok, p')"
      "ok \<Longrightarrow> p' = None \<and> byte_at lp p = Some LP_EOF \<or>
        (\<exists>r X. p' = Some (p + length (ent r)) \<and> p + length (ent r) < bytes \<and> raw_ok r \<and> drop p lp = r @ X)"
      using lpValidateNext_cases [OF assms(1), of "Some p"] by fastforce
    have l: "ok" "lpValidate_loop lp bytes cb numele fuel p' (count + 1) = Some (Some (Some e, count'))"
      using Suc.prems(1) p False v(1) by (auto split: if_splits)
    then obtain r X where r: "p' = Some (p + length (ent r))" "p + length (ent r) < bytes" "raw_ok r" "drop p lp = r @ X"
      using v(2) p False by auto
    let ?q = "p + length (ent r)"
    have "length lp < g + ?q" using Suc.prems(3) f ent_pos [OF r(3)] by simp
    from Suc.IH [OF l(2) [unfolded r(1)] r(2) this]
    obtain ss where ss: "count' = count + 1 + length ss"
      "(do { b \<leftarrow> byte_at lp ?q; if b = LP_EOF then lp_elements lp intbuf g None
         else do { lpAssertValidEntry lp bytes ?q; lp_elements lp intbuf g (Some ?q) } }) = Some ss" by blast
    have skip: "lpSkip lp p = Some ?q" using raw_ok_size(1) [OF r(3), of X] r(4) by (simp add: lpSkip_def length_ent)
    have "lpNext lp p \<bind> lp_elements lp intbuf g = Some ss"
      using ss(2) assms(2) unfolding lpNext_def skip bind.bind_lunit bind_assoc lpBytes_def
      by (cases "byte_at lp ?q"; cases "lpAssertValidEntry lp bytes ?q") (auto split: if_splits)
    then obtain p2 where "lpNext lp p = Some p2" "lp_elements lp intbuf g p2 = Some ss"
      by (auto simp: bind_eq_Some_conv)
    moreover have "lpGet (drop p lp) intbuf = Some (entry_str (raw_value r))"
      unfolding r(4) by (rule lpGet_raw [OF r(3) assms(3)])
    moreover have "lpAssertValidEntry lp bytes p = Some ()" using v(1) l(1) by (simp add: lpAssertValidEntry_def)
    ultimately show ?thesis using ss(1) p False f by (intro exI [of _ "entry_str (raw_value r) # ss"]) simp
  qed
qed simp

lemma lpValidate_loop_block:
  assumes "lp_ok (xs @ ys) num" "length ys < fuel" "cb = None \<or> (\<exists>f. cb = Some f \<and> (\<forall>p. f p numele))"
  shows "lpValidate_loop (lp_block (xs @ ys) num slack) (lp_pos (xs @ ys) + 1) cb numele fuel (Some (lp_pos xs)) count
    = Some (Some (Some (lp_pos (xs @ ys)), count + length ys))"
  using assms(1,2)
proof (induction ys arbitrary: xs fuel count)
  case Nil
  then show ?case using byte_at_eof [of xs num slack] by (cases fuel) simp_all
next
  case (Cons r ys)
  obtain f where f: "fuel = Suc f" "length ys < f" using Cons.prems(2) by (cases fuel) auto
  have r: "raw_ok r" using Cons.prems(1) by (simp add: lp_ok_def)
  have "lpValidateNext (lp_block (xs @ r # ys) num slack) (Some (lp_pos xs)) (lp_pos (xs @ r # ys) + 1)
      = Some (True, Some (lp_pos (xs @ [r])))"
    by (rule lpValidateNext_entry [OF r]) (simp add: lp_pos_simps)
  with Cons.IH [of "xs @ [r]" f "count + 1"] Cons.prems f byte_at_entry [OF r, of xs ys num slack] assms(3)
  show ?case by auto
qed

end
