(* ===== verification/Listpack_Main.thy ===== *)
theory Listpack_Main
  imports Listpack_Valid
begin

section \<open>Listpacks: lists of strings\<close>

text \<open>
  A listpack that is built with the functions for strings is a list of strings.  \<open>lp_apply\<close> are the
  calls of a client, by index (\<open>lpSeek\<close> first, then the operation at the pointer); the interpretation
  \<open>lp_list\<close> shows that they are the operations of a list whose encoding is less than 4 GB.
\<close>

subsection \<open>Contents\<close>

definition enc :: "byte list \<Rightarrow> byte list" where
  "enc s = ele_bytes (EleStr s)"

definition lp_fits :: "byte list list \<Rightarrow> bool" where
  "lp_fits ss \<longleftrightarrow> lp_pos (map enc ss) + 1 < 2 ^ 32"

definition lp_inv :: "lp_env \<Rightarrow> byte list \<Rightarrow> bool" where
  "lp_inv env lp \<longleftrightarrow> usable_ok env \<and> (\<exists>ss. lp_rep lp (map enc ss))"

abbreviation intbuf0 :: "byte list" where
  "intbuf0 \<equiv> replicate 21 0"

definition lp_contents :: "byte list \<Rightarrow> byte list list" where
  "lp_contents lp = (case lp_strings lp intbuf0 of Some ss \<Rightarrow> ss | None \<Rightarrow> [])"

lemma lp_elements_block:
  assumes "lp_ok (xs @ ys) num" "length ys < fuel" "LP_INTBUF_SIZE \<le> length intbuf"
  shows "lp_elements (lp_block (xs @ ys) num slack) intbuf fuel (ptr xs ys) = Some (map (\<lambda>r. entry_str (raw_value r)) ys)"
  using assms(1,2)
proof (induction ys arbitrary: xs fuel)
  case Nil
  then show ?case by (cases fuel) simp_all
next
  case (Cons r ys)
  obtain f where f: "fuel = Suc f" "length ys < f" using Cons.prems(2) by (cases fuel) auto
  have r: "raw_ok r" using Cons.prems(1) by (simp add: lp_ok_def)
  have "lpGet (drop (lp_pos xs) (lp_block (xs @ r # ys) num slack)) intbuf = Some (entry_str (raw_value r))"
    by (rule drop_lp_block [of xs r ys num slack]) (simp add: lpGet_raw [OF r assms(3)])
  with Cons.IH [of "xs @ [r]" f] Cons.prems f lpNext_eq [OF Cons.prems(1), of slack] show ?case by simp
qed

lemma lp_strings_block:
  assumes "lp_ok rs num" "LP_INTBUF_SIZE \<le> length intbuf"
  shows "lp_strings (lp_block rs num slack) intbuf = Some (map (\<lambda>r. entry_str (raw_value r)) rs)"
proof -
  have "length rs < length (lp_block rs num slack) + 1"
    using fuel_enough [of "[]" rs num slack] assms(1) by (simp add: lp_ok_def)
  from lp_elements_block [of "[]" rs num _ intbuf slack, OF _ this assms(2)] assms(1) show ?thesis
    by (simp add: lp_strings_def lpFirst_eq del: lp_elements.simps)
qed

lemma enc_raw: "lp_fits ss \<Longrightarrow> s \<in> set ss \<Longrightarrow> raw_ok (enc s) \<and> raw_value (enc s) = stored s"
proof -
  assume fits: "lp_fits ss" and s: "s \<in> set ss"
  obtain xs ys where "ss = xs @ s # ys" using split_list [OF s] by blast
  then have "ele_enclen (EleStr s) < 2 ^ 32" using fits by (simp add: lp_fits_def lp_pos_def enc_def length_ent)
  then show ?thesis unfolding enc_def by (rule encode_stored)
qed

lemma fits_raw: "lp_fits ss \<Longrightarrow> list_all raw_ok (map enc ss)"
  using enc_raw by (auto simp: list_all_iff)

lemma contents_block:
  assumes "lp_ok (map enc ss) num"
  shows "lp_contents (lp_block (map enc ss) num slack) = ss"
proof -
  have "lp_fits ss" using assms by (simp add: lp_fits_def lp_ok_def)
  then have "map (\<lambda>r. entry_str (raw_value r)) (map enc ss) = ss"
    using enc_raw unfolding map_map by (intro map_idI) simp
  then show ?thesis using lp_strings_block [OF assms, of intbuf0 slack] by (simp add: lp_contents_def LP_INTBUF_SIZE_def)
qed

lemma lp_invE:
  assumes "lp_inv env lp"
  obtains num slack where "lp = lp_block (map enc (lp_contents lp)) num slack" "lp_ok (map enc (lp_contents lp)) num"
    "lp_fits (lp_contents lp)" "usable_ok env"
proof -
  obtain ss num slack where "lp_ok (map enc ss) num" "lp = lp_block (map enc ss) num slack" "usable_ok env"
    using assms by (auto simp: lp_inv_def lp_rep_def)
  moreover from this have "lp_contents lp = ss" using contents_block by simp
  ultimately show ?thesis by (intro that) (auto simp: lp_fits_def lp_ok_def)
qed

lemma lp_repI: "lp_ok rs num \<Longrightarrow> lp_rep (lp_block rs num slack) rs"
  by (auto simp: lp_rep_def)

lemma lp_invI:
  assumes "usable_ok env" "lp_ok (map enc ss) num"
  shows "lp_inv env (lp_block (map enc ss) num slack) \<and> lp_contents (lp_block (map enc ss) num slack) = ss"
  using assms contents_block by (auto simp: lp_inv_def lp_rep_def)

subsection \<open>The calls of a client\<close>

definition lp_result ::
  "byte list \<Rightarrow> (byte list \<times> nat option) option option \<Rightarrow> (byte list \<times> byte list list_res) option" where
  "lp_result lp r =
     map_option (\<lambda>x. case x of None \<Rightarrow> (lp, LDone False) | Some (lp', _) \<Rightarrow> (lp', LDone True)) r"

definition lp_apply :: "lp_env \<Rightarrow> byte list \<Rightarrow> byte list list_op \<Rightarrow> (byte list \<times> byte list list_res) option" where
  "lp_apply env lp oper =
     (case oper of
        LPushHead s \<Rightarrow> lp_result lp (lpPrepend env lp s)
      | LPushTail s \<Rightarrow> lp_result lp (lpAppend env lp s)
      | LInsertAt i s \<Rightarrow>
          do { p \<leftarrow> lpSeek lp i;
               case p of None \<Rightarrow> Some (lp, LDone True)
               | Some p \<Rightarrow> lp_result lp (lpInsertString env lp s p LP_BEFORE) }
      | LReplaceAt i s \<Rightarrow>
          do { p \<leftarrow> lpSeek lp i;
               case p of None \<Rightarrow> Some (lp, LDone True) | Some p \<Rightarrow> lp_result lp (lpReplace env lp p s) }
      | LDelRange i n \<Rightarrow> do { lp \<leftarrow> lpDeleteRange env lp i n; Some (lp, LDone True) }
      | LNth i \<Rightarrow>
          do { p \<leftarrow> lpSeek lp i;
               case p of None \<Rightarrow> Some (lp, LElem None)
               | Some p \<Rightarrow> do { s \<leftarrow> lpGet (drop p lp) intbuf0; Some (lp, LElem (Some s)) } }
      | LLen \<Rightarrow> do { (lp, n) \<leftarrow> lpLength lp; Some (lp, LNum n) })"

text \<open>One call of \<open>lpInsert\<close> with a string.\<close>

lemma insert_string:
  assumes "usable_ok env" "lp_ok (map enc (xs @ ms @ ys)) num" "lp = lp_block (map enc (xs @ ms @ ys)) num slack"
    "whr = LP_BEFORE \<and> ms = [] \<or> whr = LP_REPLACE \<and> length ms = 1"
  shows "\<exists>lp'. lp_result lp (lpInsert env lp (EleStr s) (lp_pos (map enc xs)) whr)
      = Some (lp', LDone (lp_fits (xs @ s # ys))) \<and> lp_inv env lp' \<and>
    lp_contents lp' = (if lp_fits (xs @ s # ys) then xs @ s # ys else xs @ ms @ ys)"
proof -
  have args: "ins_args (EleStr s) whr (map enc ms) [enc s]" using assms(4) by (auto simp: ins_args_def enc_def)
  have fits: "lp_fits (xs @ s # ys) \<longleftrightarrow> lp_pos (map enc xs @ [enc s] @ map enc ys) + 1 < 2 ^ 32"
    by (simp add: lp_fits_def)
  have raw: "list_all raw_ok [enc s]" if "lp_fits (xs @ s # ys)" using enc_raw [OF that, of s] by simp
  have ok: "lp_ok (map enc xs @ map enc ms @ map enc ys) num" using assms(2) by simp
  note ins = lpInsert_eq [OF assms(1) ok args raw [unfolded fits], of slack, folded fits]
  show ?thesis
  proof (cases "lp_fits (xs @ s # ys)")
    case True
    then obtain num' slack' p where "lp_ok (map enc (xs @ s # ys)) num'"
      "lpInsert env lp (EleStr s) (lp_pos (map enc xs)) whr = Some (Some (lp_block (map enc (xs @ s # ys)) num' slack', p))"
      using ins assms(3) by auto
    with True lp_invI [OF assms(1), of "xs @ s # ys" num' slack'] show ?thesis by (auto simp: lp_result_def)
  next
    case False
    then have "lpInsert env lp (EleStr s) (lp_pos (map enc xs)) whr = Some None" using ins assms(3) by simp
    with False lp_invI [OF assms(1,2), of slack] assms(3) show ?thesis by (auto simp: lp_result_def)
  qed
qed

lemma nth_ptr_enc: "nth_ptr (map enc ss) (norm_idx i ss) = (if idx_in i ss then Some (lp_pos (map enc (take (nat (norm_idx i ss)) ss))) else None)"
  by (auto simp: nth_ptr_def idx_in_def take_map)

lemma lpSeek_enc:
  assumes "lp_ok (map enc ss) num"
  shows "lpSeek (lp_block (map enc ss) num slack) i
    = Some (if idx_in i ss then Some (lp_pos (map enc (take (nat (norm_idx i ss)) ss))) else None)"
  using lpSeek_eq [OF assms, of slack i] nth_ptr_enc [of ss i] by (cases "i < 0") (auto simp: norm_idx_def)

lemma lp_eofptr_eq: "lp_ok rs num \<Longrightarrow> lp_eofptr (lp_block rs num slack) = Some (lp_pos rs)"
  by (simp add: lp_eofptr_def lp_header)

lemma append_string:
  assumes "usable_ok env" "lp_ok (map enc ss) num" "lp = lp_block (map enc ss) num slack"
  shows "\<exists>lp'. lp_result lp (lpAppend env lp s) = Some (lp', LDone (lp_fits (ss @ [s]))) \<and> lp_inv env lp' \<and>
    lp_contents lp' = (if lp_fits (ss @ [s]) then ss @ [s] else ss)"
  using insert_string [OF assms(1), of ss "[]" "[]" num lp slack LP_BEFORE s] assms lp_eofptr_eq [OF assms(2), of slack]
  by (cases "lp_fits (ss @ [s])") (simp_all add: lpAppend_def)

lemma prepend_string:
  assumes "usable_ok env" "lp_ok (map enc ss) num" "lp = lp_block (map enc ss) num slack"
  shows "\<exists>lp'. lp_result lp (lpPrepend env lp s) = Some (lp', LDone (lp_fits (s # ss))) \<and> lp_inv env lp' \<and>
    lp_contents lp' = (if lp_fits (s # ss) then s # ss else ss)"
proof (cases ss)
  case Nil
  then show ?thesis using append_string [OF assms, of s] lpFirst_eq [OF assms(2), of slack] assms(3)
    by (cases "lp_fits [s]") (simp_all add: lpPrepend_def)
next
  case (Cons t ts)
  then show ?thesis
    using insert_string [OF assms(1), of "[]" "[]" ss num lp slack LP_BEFORE s] assms lpFirst_eq [OF assms(2), of slack]
    by (cases "lp_fits (s # ss)") (simp_all add: lpPrepend_def)
qed

lemma fits_append: "lp_fits (xs @ ds @ ys) \<Longrightarrow> lp_fits (xs @ ys)"
  by (simp add: lp_fits_def lp_pos_def)

lemma lp_apply_law:
  assumes "lp_inv env lp"
  shows "\<exists>lp'. lp_apply env lp oper = Some (lp', snd (spec_list_op lp_fits oper (lp_contents lp))) \<and> lp_inv env lp' \<and>
    lp_contents lp' = fst (spec_list_op lp_fits oper (lp_contents lp))"
proof -
  obtain ss num slack where ss: "lp_contents lp = ss" and lp: "lp = lp_block (map enc ss) num slack"
    and ok: "lp_ok (map enc ss) num" and fits: "lp_fits ss" and env: "usable_ok env"
    using lp_invE [OF assms] by metis
  define k where "k i = nat (norm_idx i ss)" for i
  have k: "k i < length ss" if "idx_in i ss" for i using that by (auto simp: idx_in_def k_def nat_less_iff)
  have self: "\<exists>lp'. Some (lp, x) = Some (lp', x) \<and> lp_inv env lp' \<and> lp_contents lp' = ss" for x :: "byte list list_res"
    using assms ss by auto
  show ?thesis
  proof (cases oper)
    case (LPushHead s)
    then show ?thesis using prepend_string [OF env ok lp, of s] ss by (auto simp: lp_apply_def)
  next
    case (LPushTail s)
    then show ?thesis using append_string [OF env ok lp, of s] ss by (auto simp: lp_apply_def)
  next
    case (LInsertAt i s)
    show ?thesis
    proof (cases "idx_in i ss")
      case True
      have "map enc (take (k i) ss @ [] @ drop (k i) ss) = map enc ss" by simp
      with True LInsertAt insert_string [OF env, of "take (k i) ss" "[]" "drop (k i) ss" num lp slack LP_BEFORE s] ok lp ss
        lpSeek_enc [OF ok, of slack i]
      show ?thesis by (auto simp: lp_apply_def lpInsertString_def Let_def k_def)
    next
      case False
      with LInsertAt self lpSeek_enc [OF ok, of slack i] ss lp fits show ?thesis by (auto simp: lp_apply_def Let_def)
    qed
  next
    case (LReplaceAt i s)
    show ?thesis
    proof (cases "idx_in i ss")
      case True
      have eq: "take (k i) ss @ [ss ! k i] @ drop (Suc (k i)) ss = ss" using k [OF True] by (simp add: id_take_nth_drop [symmetric])
      have "ss[k i := s] = take (k i) ss @ s # drop (Suc (k i)) ss" using k [OF True] by (simp add: upd_conv_take_nth_drop)
      with True LReplaceAt insert_string [OF env, of "take (k i) ss" "[ss ! k i]" "drop (Suc (k i)) ss" num lp slack LP_REPLACE s, unfolded eq]
        ok lp ss lpSeek_enc [OF ok, of slack i]
      show ?thesis by (auto simp: lp_apply_def lpReplace_def k_def)
    next
      case False
      with LReplaceAt self lpSeek_enc [OF ok, of slack i] ss lp fits show ?thesis by (auto simp: lp_apply_def)
    qed
  next
    case (LDelRange i n)
    define ds where "ds = edit_list oper ss"
    obtain num' slack' where del: "lp_ok (map enc ds) num'"
      "lpDeleteRange env lp i n = Some (lp_block (map enc ds) num' slack')"
    proof -
      let ?i = "if i < 0 then int (length (map enc ss)) + i else i"
      have "(if 0 \<le> ?i then take (nat ?i) (map enc ss) @ drop (nat ?i + n) (map enc ss) else map enc ss) = map enc ds"
        by (auto simp: ds_def LDelRange Let_def idx_in_def norm_idx_def take_map drop_map)
      with lpDeleteRange_eq [OF env ok refl, where index = i and slack = slack and n = n] lp that show ?thesis by auto
    qed
    have "lp_fits ds" using del(1) by (simp add: lp_fits_def lp_ok_def)
    with del lp_invI [OF env del(1), of slack'] LDelRange ss ds_def show ?thesis by (simp add: lp_apply_def)
  next
    case (LNth i)
    show ?thesis
    proof (cases "idx_in i ss")
      case True
      have eq: "map enc ss = map enc (take (k i) ss) @ enc (ss ! k i) # map enc (drop (Suc (k i)) ss)"
        using k [OF True] by (metis id_take_nth_drop list.simps(9) map_append)
      have r: "raw_ok (enc (ss ! k i))" "entry_str (raw_value (enc (ss ! k i))) = ss ! k i"
        using enc_raw [OF fits, of "ss ! k i"] k [OF True] by simp_all
      obtain X where "drop (lp_pos (map enc (take (k i) ss))) lp = enc (ss ! k i) @ X"
        using drop_lp_block [of "map enc (take (k i) ss)" "enc (ss ! k i)" "map enc (drop (Suc (k i)) ss)" num slack]
        unfolding eq [symmetric] lp [symmetric] by blast
      then have "lpGet (drop (lp_pos (map enc (take (k i) ss))) lp) intbuf0 = Some (ss ! k i)"
        using r by (simp add: lpGet_raw LP_INTBUF_SIZE_def)
      with True LNth self lpSeek_enc [OF ok, of slack i] ss lp show ?thesis by (auto simp: lp_apply_def k_def)
    next
      case False
      with LNth self lpSeek_enc [OF ok, of slack i] ss lp show ?thesis by (auto simp: lp_apply_def)
    qed
  next
    case LLen
    obtain num' where "lpLength lp = Some (lp_block (map enc ss) num' slack, length (map enc ss))" "lp_ok (map enc ss) num'"
      using lpLength_eq [OF ok] lp by blast
    with LLen lp_invI [OF env, of ss num' slack] ss show ?thesis by (auto simp: lp_apply_def)
  qed
qed

interpretation lp_list: packed_list "lp_apply env" "lp_inv env" lp_contents lp_fits for env
proof unfold_locales
  show "lp_inv env lp \<Longrightarrow> lp_fits (lp_contents lp)" for lp by (metis lp_invE)
  show "\<exists>lp'. lp_apply env lp oper = Some (lp', snd (spec_list_op lp_fits oper (lp_contents lp))) \<and> lp_inv env lp' \<and>
    lp_contents lp' = fst (spec_list_op lp_fits oper (lp_contents lp))" if "lp_inv env lp" for lp oper
    using that by (rule lp_apply_law)
qed

subsection \<open>Main results\<close>

lemma lpNew_inv: "usable_ok env \<Longrightarrow> \<exists>lp. lpNew env capacity = Some lp \<and> lp_inv env lp \<and> lp_contents lp = []"
  using lpNew_eq [of env capacity] lp_invI [of env "[]" 0] by auto

lemma lp_strings_inv: "lp_inv env lp \<Longrightarrow> lp_strings lp intbuf0 = Some (lp_contents lp)"
proof -
  assume "lp_inv env lp"
  then obtain ss num slack where "lp = lp_block (map enc ss) num slack" "lp_ok (map enc ss) num" by (metis lp_invE)
  then show ?thesis using lp_strings_block [of "map enc ss" num intbuf0 slack] by (simp add: lp_contents_def LP_INTBUF_SIZE_def)
qed

definition lp_env_ex :: lp_env where
  "lp_env_ex = \<lparr>usable = (\<lambda>n. n + 3), fill = (\<lambda>i. of_nat i)\<rparr>"

lemma usable_ok_ex: "usable_ok lp_env_ex"
  by (simp add: usable_ok_def lp_env_ex_def)

text \<open>
  C19. Refinement.  Starting from \<open>lpNew\<close>, any sequence of \<open>lpPrepend\<close>, \<open>lpAppend\<close>, \<open>lpInsertString\<close> and \<open>lpReplace\<close> at a sought index,
  \<open>lpDeleteRange\<close>, \<open>lpSeek\<close> with \<open>lpGet\<close>, and \<open>lpLength\<close> runs without leaving the allocation and returns what
  the same edits of a list of strings return.  An edit is refused exactly when the listpack
  would not be smaller than 4 GB, and at the end reading the listpack from first to last gives the list.
\<close>

theorem listpack_refines_list:
  assumes "usable_ok env"
  shows "\<exists>lp lp'. lpNew env capacity = Some lp \<and>
    run_list (lp_apply env) ops lp = Some (lp', snd (spec_list lp_fits ops [])) \<and>
    lp_strings lp' intbuf0 = Some (fst (spec_list lp_fits ops [])) \<and> lp_fits (fst (spec_list lp_fits ops []))"
proof -
  obtain lp where lp: "lpNew env capacity = Some lp" "lp_inv env lp" "lp_contents lp = []"
    using lpNew_inv [OF assms] by blast
  from lp_list.run_refines [OF lp(2), of ops] lp_list.run_fits [OF lp(2), of ops] lp show ?thesis
    using lp_strings_inv by fastforce
qed

theorem listpack_refines_list_witness:
  "usable_ok lp_env_ex \<and> (\<exists>lp lp'. lpNew lp_env_ex 0 = Some lp \<and>
    run_list (lp_apply lp_env_ex) [LPushTail [49, 50], LPushHead [97], LReplaceAt (- 1) [98], LDelRange 0 1, LNth 0] lp
      = Some (lp', snd (spec_list lp_fits [LPushTail [49, 50], LPushHead [97], LReplaceAt (- 1) [98], LDelRange 0 1, LNth 0] [])) \<and>
    lp_strings lp' intbuf0
      = Some (fst (spec_list lp_fits [LPushTail [49, 50], LPushHead [97], LReplaceAt (- 1) [98], LDelRange 0 1, LNth 0] [])) \<and>
    lp_fits (fst (spec_list lp_fits [LPushTail [49, 50], LPushHead [97], LReplaceAt (- 1) [98], LDelRange 0 1, LNth 0] [])))"
  using listpack_refines_list [OF usable_ok_ex] usable_ok_ex by blast

definition put_at :: "lp_where \<Rightarrow> byte list list \<Rightarrow> byte list \<Rightarrow> byte list list \<Rightarrow> byte list \<Rightarrow> byte list list" where
  "put_at whr xs r ys e =
     (case whr of LP_BEFORE \<Rightarrow> xs @ e # r # ys | LP_AFTER \<Rightarrow> xs @ r # e # ys | LP_REPLACE \<Rightarrow> xs @ e # ys)"

text \<open>
  C21. \<open>lpInsert\<close> with a string before, after or in place of an element of a well-formed listpack.  The result is NULL exactly when the
  listpack would reach 4 GB.  Otherwise it is a well-formed listpack with the encoded string (as an integer when it is one) at that
  place and everything else unchanged, and \<open>*newp\<close> points to it.  No access leaves the allocation.
\<close>

theorem lpInsert_spec:
  assumes "usable_ok env" "lp_rep lp (xs @ r # ys)"
  shows "if lp_pos (put_at whr xs r ys (enc s)) + 1 < 2 ^ 32
    then \<exists>lp'. lpInsert env lp (EleStr s) (lp_pos xs) whr
        = Some (Some (lp', Some (lp_pos (if whr = LP_AFTER then xs @ [r] else xs)))) \<and>
      lp_rep lp' (put_at whr xs r ys (enc s)) \<and> raw_value (enc s) = stored s
    else lpInsert env lp (EleStr s) (lp_pos xs) whr = Some None"
proof -
  obtain num slack where ok: "lp_ok (xs @ r # ys) num" and lp: "lp = lp_block (xs @ r # ys) num slack"
    using assms(2) by (auto simp: lp_rep_def)
  have raw: "list_all raw_ok [enc s] \<and> raw_value (enc s) = stored s" if "lp_pos (put_at whr xs r ys (enc s)) + 1 < 2 ^ 32"
  proof -
    have "ele_enclen (EleStr s) < 2 ^ 32"
      using that by (cases whr) (simp_all add: put_at_def lp_pos_def enc_def length_ent)
    then show ?thesis using encode_stored unfolding enc_def by simp
  qed
  show ?thesis
  proof (cases whr)
    case LP_BEFORE
    have "ins_args (EleStr s) LP_BEFORE [] [enc s]" by (simp add: ins_args_def enc_def)
    from lpInsert_eq [OF assms(1) _ this, of xs "r # ys" num slack] ok raw LP_BEFORE show ?thesis
      unfolding lp put_at_def by (auto simp: ptr_def lp_repI)
  next
    case LP_REPLACE
    have "ins_args (EleStr s) LP_REPLACE [r] [enc s]" by (simp add: ins_args_def enc_def)
    from lpInsert_eq [OF assms(1) _ this, of xs "ys" num slack] ok raw LP_REPLACE show ?thesis
      unfolding lp put_at_def by (auto simp: ptr_def lp_repI)
  next
    case LP_AFTER
    have "ins_args (EleStr s) LP_BEFORE [] [enc s]" by (simp add: ins_args_def enc_def)
    from lpInsert_eq [OF assms(1) _ this, of "xs @ [r]" ys num slack] ok raw LP_AFTER lpInsert_after [OF ok, of "EleStr s" env slack]
    show ?thesis unfolding lp put_at_def by (auto simp: ptr_def lp_repI)
  qed
qed

lemma lp_rep_ex:
  "lp_rep (lp_block [[5], [0x81, 97]] 2 [9]) [[5], [0x81, 97]]"
proof -
  have "raw_ok [5]" "raw_ok [0x81, 97]"
    by (simp_all add: raw_defs enc_class_defs)
  then have "lp_ok [[5], [0x81, 97]] 2"
    by (simp add: lp_ok_def num_ok_def LP_HDR_NUMELE_UNKNOWN_def lp_pos_def ent_def lpEncodeBacklen_def LP_HDR_SIZE_def)
  then show ?thesis by (auto simp: lp_rep_def)
qed

theorem lpInsert_spec_witness:
  "usable_ok lp_env_ex \<and> lp_rep (lp_block [[5], [0x81, 97]] 2 [9]) ([] @ [5] # [[0x81, 97]]) \<and>
   (if lp_pos (put_at LP_AFTER [] [5] [[0x81, 97]] (enc [45, 49])) + 1 < 2 ^ 32
    then \<exists>lp'. lpInsert lp_env_ex (lp_block [[5], [0x81, 97]] 2 [9]) (EleStr [45, 49]) (lp_pos []) LP_AFTER
        = Some (Some (lp', Some (lp_pos (if LP_AFTER = LP_AFTER then [] @ [[5]] else [])))) \<and>
      lp_rep lp' (put_at LP_AFTER [] [5] [[0x81, 97]] (enc [45, 49])) \<and> raw_value (enc [45, 49]) = stored [45, 49]
    else lpInsert lp_env_ex (lp_block [[5], [0x81, 97]] 2 [9]) (EleStr [45, 49]) (lp_pos []) LP_AFTER = Some None)"
  using lpInsert_spec [OF usable_ok_ex, of "lp_block [[5], [0x81, 97]] 2 [9]" "[]" "[5]" "[[0x81, 97]]" LP_AFTER "[45, 49]"]
    usable_ok_ex lp_rep_ex by (simp only: append_Nil) blast

text \<open>
  C22. Navigation in a well-formed listpack, whether or not the number of elements is known: \<open>lpSeek\<close> with any
  index (negative ones count from the end) finds the element or returns NULL, and from an element \<open>lpNext\<close> and
  \<open>lpPrev\<close> go to its neighbours, NULL at the ends; the backward step is the inverse of the forward one.
\<close>

theorem lp_navigation:
  assumes "lp_rep lp rs" "k < length rs"
  shows "lpSeek lp i = Some (nth_ptr rs (norm_idx i rs)) \<and>
    lpNext lp (lp_pos (take k rs)) = Some (nth_ptr rs (int k + 1)) \<and>
    lpPrev lp (lp_pos (take k rs)) = Some (nth_ptr rs (int k - 1)) \<and>
    lpFirst lp = Some (Some (lp_pos [])) \<and> lpLast lp = Some (nth_ptr rs (int (length rs) - 1))"
proof -
  obtain num slack where ok: "lp_ok rs num" and lp: "lp = lp_block rs num slack" using assms(1) by (auto simp: lp_rep_def)
  have rs: "take k rs @ rs ! k # drop (Suc k) rs = rs" using assms(2) by (simp add: id_take_nth_drop [symmetric])
  have "lpNext lp (lp_pos (take k rs)) = Some (ptr (take (Suc k) rs) (drop (Suc k) rs))"
    using lpNext_eq [of "take k rs" "rs ! k" "drop (Suc k) rs" num slack] assms(2) ok lp unfolding rs
    by (simp add: take_Suc_conv_app_nth)
  moreover have "lpPrev lp (lp_pos (take k rs)) = Some (nth_ptr rs (int k - 1))"
  proof (cases k)
    case 0
    then show ?thesis using lpPrev_first by (simp add: nth_ptr_def)
  next
    case (Suc j)
    then have "take j rs @ rs ! j # drop (Suc j) rs = rs" "take k rs = take j rs @ [rs ! j]"
      using assms(2) by (simp_all add: id_take_nth_drop [symmetric] take_Suc_conv_app_nth)
    then show ?thesis using lpPrev_eq [of "take j rs" "rs ! j" "drop (Suc j) rs" num slack] ok lp Suc assms(2)
      by (simp add: nth_ptr_def)
  qed
  moreover have "lpLast lp = Some (nth_ptr rs (int (length rs) - 1))"
    using lpLast_eq [OF ok, of slack] assms(2) lp by (auto simp: nth_ptr_def butlast_conv_take nat_diff_distrib)
  ultimately show ?thesis
    using lpSeek_eq [OF ok, of slack i] lpFirst_eq [OF ok, of slack] assms(2) lp ptr_nth [of "Suc k" rs]
    by (cases rs) (auto simp: norm_idx_def algebra_simps)
qed

theorem lp_navigation_witness:
  "lp_rep (lp_block [[5], [0x81, 97]] 2 [9]) [[5], [0x81, 97]] \<and> 1 < length [[5], [0x81, 97 :: byte]] \<and>
   (lpSeek (lp_block [[5], [0x81, 97]] 2 [9]) (- 2) = Some (nth_ptr [[5], [0x81, 97]] (norm_idx (- 2) [[5], [0x81, 97 :: byte]])) \<and>
    lpNext (lp_block [[5], [0x81, 97]] 2 [9]) (lp_pos (take 1 [[5], [0x81, 97]])) = Some (nth_ptr [[5], [0x81, 97]] (int 1 + 1)) \<and>
    lpPrev (lp_block [[5], [0x81, 97]] 2 [9]) (lp_pos (take 1 [[5], [0x81, 97]])) = Some (nth_ptr [[5], [0x81, 97]] (int 1 - 1)) \<and>
    lpFirst (lp_block [[5], [0x81, 97]] 2 [9]) = Some (Some (lp_pos [])) \<and>
    lpLast (lp_block [[5], [0x81, 97]] 2 [9]) = Some (nth_ptr [[5], [0x81, 97]] (int (length [[5], [0x81, 97 :: byte]]) - 1)))"
  using lp_navigation [OF lp_rep_ex, of 1 "- 2"] lp_rep_ex by simp

lemma find_entry_str:
  assumes "lp_ok rs num" "i < length rs"
  shows "lpFindCmp s (cmp_arg (raw_value (rs ! i))) \<longleftrightarrow> entry_str (raw_value (rs ! i)) = s"
  using assms by (intro lpFindCmp_eq raw_value_range) (auto simp: lp_ok_def list_all_length)

text \<open>
  C23. \<open>lpFind\<close> from element \<open>k\<close> of a well-formed listpack compares every \<open>skip + 1\<close>-th element and returns
  the first one that prints as the given string, whether it is stored as a string or as an integer, or NULL.
  It reads nothing outside of the allocation.
\<close>

theorem lpFind_spec:
  assumes "lp_rep lp rs" "k < length rs"
  shows "lpFind lp (Some (lp_pos (take k rs))) s skip
    = Some (map_option (\<lambda>i. lp_pos (take i rs))
        (find (\<lambda>i. Suc skip dvd (i - k) \<and> entry_str (raw_value (rs ! i)) = s) [k..<length rs]))"
proof -
  obtain num slack where ok: "lp_ok rs num" and lp: "lp = lp_block rs num slack" using assms(1) by (auto simp: lp_rep_def)
  have "lpFindCb lp (Some (lp_pos (take k rs))) (lpFindCmp s) skip
    = Some (map_option (\<lambda>i. lp_pos (take i rs)) (find (nth_match (\<lambda>e. lpFindCmp s (cmp_arg e)) skip k rs) [k..<length rs]))"
    unfolding lp using ok assms(2) by (intro lpFindCb_eq) auto
  moreover have "find (nth_match (\<lambda>e. lpFindCmp s (cmp_arg e)) skip k rs) [k..<length rs]
    = find (\<lambda>i. Suc skip dvd (i - k) \<and> entry_str (raw_value (rs ! i)) = s) [k..<length rs]"
    using find_entry_str [OF ok] by (intro find_cong_upt) (simp add: nth_match_def)
  ultimately show ?thesis by (simp add: lpFind_def)
qed

theorem lpFind_spec_witness:
  "lp_rep (lp_block [[5], [0x81, 97]] 2 [9]) [[5], [0x81, 97]] \<and> 0 < length [[5], [0x81, 97 :: byte]] \<and>
   lpFind (lp_block [[5], [0x81, 97]] 2 [9]) (Some (lp_pos (take 0 [[5], [0x81, 97]]))) [97] 0
    = Some (map_option (\<lambda>i. lp_pos (take i [[5], [0x81, 97]]))
        (find (\<lambda>i. Suc 0 dvd (i - 0) \<and> entry_str (raw_value ([[5], [0x81, 97]] ! i)) = [97]) [0..<length [[5], [0x81, 97 :: byte]]]))"
  using lpFind_spec [OF lp_rep_ex, of 0 "[97]" 0] lp_rep_ex by simp

lemma lpValidateIntegrity_rep:
  assumes "lp_rep lp rs"
  shows "lpValidateIntegrity lp (lp_pos rs + 1) deep None = Some True"
proof -
  obtain num slack where ok: "lp_ok rs num" and lp: "lp = lp_block rs num slack" using assms(1) by (auto simp: lp_rep_def)
  have "length rs < length lp + 1" using fuel_enough [of "[]" rs num slack] ok lp by (simp add: lp_ok_def)
  then have "lpValidate_loop lp (lp_pos rs + 1) None num (length lp + 1) (Some LP_HDR_SIZE) 0 = Some (Some (Some (lp_pos rs), length rs))"
    using lpValidate_loop_block [of "[]" rs num "length lp + 1" None num slack 0] ok
    by (simp add: lp lp_pos_def del: lpValidate_loop.simps)
  moreover have "num = LP_HDR_NUMELE_UNKNOWN \<or> num = length rs" using ok by (auto simp: lp_ok_def num_ok_def)
  ultimately show ?thesis
    using lp_header [OF ok, of slack] byte_at_eof [of rs num slack] lp lp_pos_ge [of rs]
    by (auto simp: lpValidateIntegrity_def LP_HDR_SIZE_def simp del: lpValidate_loop.simps)
qed




text \<open>
  C26. \<open>lpValidateIntegrity\<close> accepts every well-formed listpack, with and without the deep check, when the check of
  the caller accepts every entry.
\<close>

theorem lpValidateIntegrity_accepts:
  "lp_rep lp rs \<Longrightarrow> lpValidateIntegrity lp (lp_pos rs + 1) deep None = Some True"
  by (rule lpValidateIntegrity_rep)

theorem lpValidateIntegrity_accepts_witness:
  "lp_rep (lp_block [[5], [0x81, 97]] 2 [9]) [[5], [0x81, 97]] \<and>
   lpValidateIntegrity (lp_block [[5], [0x81, 97]] 2 [9]) (lp_pos [[5], [0x81, 97]] + 1) True None = Some True"
  using lpValidateIntegrity_accepts [OF lp_rep_ex, of True] lp_rep_ex by simp

text \<open>
  C24. \<open>lpMerge\<close> of two different well-formed listpacks that together are smaller than 4 GB: the elements of the first followed by
  those of the second, in the larger of the two allocations; the other pointer is set to NULL.  The number of elements is
  right even when it was unknown before.
\<close>

theorem lpMerge_spec:
  assumes "usable_ok env" "lp_rep f xs" "lp_rep s ys" "lp_pos (xs @ ys) + 1 < 2 ^ 32 - 1"
  shows "\<exists>lp. lp_rep lp (xs @ ys) \<and> lpMerge env (Some f) (Some s) False
    = Some (Some (if lp_pos ys \<le> lp_pos xs then (Some lp, None) else (None, Some lp)))"
proof -
  obtain n1 s1 n2 s2 where "lp_ok xs n1" "f = lp_block xs n1 s1" "lp_ok ys n2" "s = lp_block ys n2 s2"
    using assms(2,3) by (auto simp: lp_rep_def)
  with lpMerge_eq [OF assms(1) _ _ assms(4), of n1 n2 s1 s2] show ?thesis using lp_repI by metis
qed

theorem lpMerge_spec_witness:
  "usable_ok lp_env_ex \<and> lp_rep (lp_block [[5], [0x81, 97]] 2 [9]) [[5], [0x81, 97]] \<and>
   lp_pos ([[5], [0x81, 97]] @ [[5], [0x81, 97]]) + 1 < 2 ^ 32 - 1 \<and>
   (\<exists>lp. lp_rep lp ([[5], [0x81, 97]] @ [[5], [0x81, 97]]) \<and>
      lpMerge lp_env_ex (Some (lp_block [[5], [0x81, 97]] 2 [9])) (Some (lp_block [[5], [0x81, 97]] 2 [9])) False
    = Some (Some (if lp_pos [[5], [0x81, 97]] \<le> lp_pos [[5], [0x81, 97]] then (Some lp, None) else (None, Some lp))))"
proof -
  have "lp_pos ([[5], [0x81, 97]] @ [[5], [0x81, 97]]) + 1 < 2 ^ 32 - 1"
    by (simp add: lp_pos_def ent_def lpEncodeBacklen_def LP_HDR_SIZE_def)
  from lpMerge_spec [OF usable_ok_ex lp_rep_ex lp_rep_ex this] this usable_ok_ex lp_rep_ex show ?thesis by blast
qed

text \<open>
  C25. \<open>lpBatchDelete\<close> with pointers to elements in order (\<open>segs\<close> lists each deleted element with the kept
  elements that follow it): exactly those elements are removed, the others keep their order.
\<close>

theorem lpBatchDelete_spec:
  assumes "usable_ok env" "lp_rep lp (xs @ seg_all segs)"
  shows "\<exists>lp'. lpBatchDelete env lp (seg_ptrs (lp_pos xs) segs) = Some lp' \<and> lp_rep lp' (xs @ seg_kept segs)"
proof -
  obtain num slack where "lp_ok (xs @ seg_all segs) num" "lp = lp_block (xs @ seg_all segs) num slack"
    using assms(2) by (auto simp: lp_rep_def)
  with lpBatchDelete_eq [OF assms(1), of xs segs num slack] show ?thesis using lp_repI by metis
qed

theorem lpBatchDelete_spec_witness:
  "usable_ok lp_env_ex \<and> lp_rep (lp_block [[5], [0x81, 97]] 2 [9]) ([] @ seg_all [([5], [[0x81, 97]])]) \<and>
   (\<exists>lp'. lpBatchDelete lp_env_ex (lp_block [[5], [0x81, 97]] 2 [9]) (seg_ptrs (lp_pos []) [([5], [[0x81, 97]])]) = Some lp' \<and>
     lp_rep lp' ([] @ seg_kept [([5], [[0x81, 97]])]))"
proof -
  have "lp_rep (lp_block [[5], [0x81, 97]] 2 [9]) ([] @ seg_all [([5], [[0x81, 97]])])" using lp_rep_ex by simp
  from lpBatchDelete_spec [OF usable_ok_ex this] this usable_ok_ex show ?thesis by blast
qed

text \<open>
  C27. Encodings.  What \<open>lpEncodeIntegerGetType\<close> writes for a 64-bit integer and \<open>lpEncodeString\<close> for a string is read back by
  \<open>lpGetValue\<close>, whatever follows; the length of the entry is read back from its first bytes, and from its last
  bytes going left.
\<close>

theorem encoding_roundtrip:
  assumes "int_range 8 v" "length s + 5 < 2 ^ 32" "e = lpEncodeIntegerGetType v \<or> e = lpEncodeString s"
  shows "(e = lpEncodeIntegerGetType v \<longrightarrow> lpGetValue (e @ X) = Some (LpInt v)) \<and>
    (e = lpEncodeString s \<longrightarrow> (\<exists>off. lpGetValue (e @ X) = Some (LpStr off (length s)) \<and> mem_read (e @ X) off (length s) = Some s)) \<and>
    lpCurrentEncodedSizeUnsafe (e @ X) = Some (length e) \<and>
    lpDecodeBacklen (A @ e @ lpEncodeBacklen (length e) @ X) (int (length (A @ e @ lpEncodeBacklen (length e))) - 1) = Some (length e)"
proof -
  have e: "raw_ok e" using assms encode_int encode_string by blast
  have "length e < 2 ^ 35" using raw_ok_length [OF e] by simp
  then have "lpDecodeBacklen (A @ e @ lpEncodeBacklen (length e) @ X) (int (length (A @ e @ lpEncodeBacklen (length e))) - 1) = Some (length e)"
    using lpDecodeBacklen_encode [of "length e" _ "A @ e" X] by (simp add: add.assoc)
  moreover have "lpGetValue (e @ X) = Some (LpInt v)" if "e = lpEncodeIntegerGetType v"
    using e encode_int [OF assms(1)] that by (cases rule: raw_value_cases [where X = X]) auto
  moreover have "\<exists>off. lpGetValue (e @ X) = Some (LpStr off (length s)) \<and> mem_read (e @ X) off (length s) = Some s"
    if "e = lpEncodeString s"
    using e
  proof (cases rule: raw_value_cases [where X = X])
    case (str off n)
    have s: "take n (drop off e) = s"
      using str(3) encode_string [OF assms(2)] that by (metis listpackEntry.inject(1))
    have "length (take n (drop off e)) = n" using str(2) by simp
    then have "n = length s" unfolding s by simp
    with s str show ?thesis by (auto simp: mem_read_def)
  next
    case (int w)
    then show ?thesis using encode_string [OF assms(2)] that by auto
  qed
  ultimately show ?thesis using raw_ok_size(1) [OF e] by blast
qed

theorem encoding_roundtrip_witness:
  "int_range 8 (- 300) \<and> length [104, 105 :: byte] + 5 < 2 ^ 32 \<and>
   lpGetValue (lpEncodeIntegerGetType (- 300) @ [7]) = Some (LpInt (- 300)) \<and>
   lpCurrentEncodedSizeUnsafe (lpEncodeIntegerGetType (- 300) @ [7]) = Some (length (lpEncodeIntegerGetType (- 300))) \<and>
   lpDecodeBacklen ([1, 2] @ lpEncodeIntegerGetType (- 300) @ lpEncodeBacklen (length (lpEncodeIntegerGetType (- 300))) @ [7])
      (int (length ([1, 2] @ lpEncodeIntegerGetType (- 300) @ lpEncodeBacklen (length (lpEncodeIntegerGetType (- 300))))) - 1)
      = Some (length (lpEncodeIntegerGetType (- 300)))"
proof -
  have h: "int_range 8 (- 300)" "length [104, 105 :: byte] + 5 < 2 ^ 32" by (simp_all add: int_range_def)
  from encoding_roundtrip [OF h disjI1 [OF refl], of "[7]" "[1, 2]"] h show ?thesis by blast
qed

end
