(* ===== verification/Adlist.thy ===== *)
theory Adlist
  imports Prelude Interfaces
begin

section \<open>Doubly linked lists (adlist.c): the model\<close>

text \<open>
  The generic list of \<^verbatim>\<open>adlist.c\<close>, on an explicit heap.  A pointer is a 64-bit word, NULL is 0; \<open>cells\<close>
  maps the address of every live node to its fields, so that two lists can share a heap and a node
  can be moved from one to the other.  The \<open>list\<close> and \<open>listIter\<close> structures, which the code updates in
  place, are passed and returned.  Reading or writing through a pointer that is NULL or not live, and
  freeing one, is \<open>None\<close>.

  \<open>zmalloc\<close> is a parameter: it returns 0 or an address that is not live (\<open>alloc_ok\<close>); the fields of a
  new node hold \<open>junk\<close> until they are written.  \<open>zmalloc_list\<close> and \<open>zmalloc_iter\<close> tell whether the
  allocation of a list and of an iterator succeeds.  The callbacks \<open>dup\<close> and \<open>match\<close> of a list are
  fields as in the source; \<open>free\<close> tells whether the callback of that name is set, and the values
  passed to it are recorded in \<open>freed\<close>.
\<close>

type_synonym ptr = "64 word"

record 'v listNode =
  node_prev :: ptr
  node_next :: ptr
  node_value :: 'v

record 'v mem =
  cells :: "ptr \<rightharpoonup> 'v listNode"
  freed :: "'v list"

record 'v al_env =
  zmalloc :: "'v mem \<Rightarrow> ptr"
  junk :: ptr
  zmalloc_list :: "'v mem \<Rightarrow> bool"
  zmalloc_iter :: "'v mem \<Rightarrow> bool"

definition alloc_ok :: "'v al_env \<Rightarrow> bool" where
  "alloc_ok env \<longleftrightarrow> (\<forall>m. zmalloc env m = 0 \<or> cells m (zmalloc env m) = None)"

datatype list_direction = AL_START_HEAD | AL_START_TAIL

record listIter =
  iter_next :: ptr
  direction :: list_direction

record 'v adlist =
  head :: ptr
  tail :: ptr
  dup :: "('v \<Rightarrow> 'v option) option"
  free :: bool
  match :: "('v \<Rightarrow> 'v \<Rightarrow> bool) option"
  len :: "64 word"

subsection \<open>Memory\<close>

definition node :: "'v mem \<Rightarrow> ptr \<Rightarrow> 'v listNode option" where
  "node m p = (if p = 0 then None else cells m p)"

definition set_prev :: "'v mem \<Rightarrow> ptr \<Rightarrow> ptr \<Rightarrow> 'v mem option" where
  "set_prev m p q = do { n \<leftarrow> node m p; Some (m\<lparr>cells := (cells m)(p \<mapsto> n\<lparr>node_prev := q\<rparr>)\<rparr>) }"

definition set_next :: "'v mem \<Rightarrow> ptr \<Rightarrow> ptr \<Rightarrow> 'v mem option" where
  "set_next m p q = do { n \<leftarrow> node m p; Some (m\<lparr>cells := (cells m)(p \<mapsto> n\<lparr>node_next := q\<rparr>)\<rparr>) }"

text \<open>\<open>zmalloc(sizeof(*node))\<close> followed by the assignment of the value.\<close>

definition new_node :: "'v al_env \<Rightarrow> 'v mem \<Rightarrow> 'v \<Rightarrow> 'v mem \<times> ptr" where
  "new_node env m v =
     (let p = zmalloc env m in
      (if p = 0 then m
       else m\<lparr>cells := (cells m)(p \<mapsto> \<lparr>node_prev = junk env, node_next = junk env, node_value = v\<rparr>)\<rparr>, p))"

definition zfree :: "'v mem \<Rightarrow> ptr \<Rightarrow> 'v mem option" where
  "zfree m p = do { n \<leftarrow> node m p; Some (m\<lparr>cells := (cells m)(p := None)\<rparr>) }"

definition call_free :: "'v adlist \<Rightarrow> 'v \<Rightarrow> 'v mem \<Rightarrow> 'v mem" where
  "call_free l v m = (if free l then m\<lparr>freed := freed m @ [v]\<rparr> else m)"

subsection \<open>Creation and release\<close>

definition listCreate :: "'v al_env \<Rightarrow> 'v mem \<Rightarrow> 'v adlist option" where
  "listCreate env m =
     (if \<not> zmalloc_list env m then None
      else Some \<lparr>head = 0, tail = 0, dup = None, free = False, match = None, len = 0\<rparr>)"

fun listEmpty_loop :: "'v adlist \<Rightarrow> nat \<Rightarrow> ptr \<Rightarrow> 'v mem \<Rightarrow> 'v mem option" where
  "listEmpty_loop l 0 current m = Some m"
| "listEmpty_loop l (Suc n) current m =
     do { c \<leftarrow> node m current;
          m \<leftarrow> zfree (call_free l (node_value c) m) current;
          listEmpty_loop l n (node_next c) m }"

definition listEmpty :: "'v mem \<Rightarrow> 'v adlist \<Rightarrow> ('v mem \<times> 'v adlist) option" where
  "listEmpty m l =
     do { m \<leftarrow> listEmpty_loop l (unat (len l)) (head l) m;
          Some (m, l\<lparr>head := 0, tail := 0, len := 0\<rparr>) }"

definition listRelease :: "'v mem \<Rightarrow> 'v adlist option \<Rightarrow> 'v mem option" where
  "listRelease m lo = (case lo of None \<Rightarrow> Some m | Some l \<Rightarrow> map_option fst (listEmpty m l))"

subsection \<open>Insertion and removal\<close>

definition listLinkNodeHead :: "'v mem \<Rightarrow> 'v adlist \<Rightarrow> ptr \<Rightarrow> ('v mem \<times> 'v adlist) option" where
  "listLinkNodeHead m l nd =
     (if len l = 0 then
        do { m \<leftarrow> set_next m nd 0; m \<leftarrow> set_prev m nd 0;
             Some (m, l\<lparr>head := nd, tail := nd, len := len l + 1\<rparr>) }
      else
        do { m \<leftarrow> set_prev m nd 0; m \<leftarrow> set_next m nd (head l); m \<leftarrow> set_prev m (head l) nd;
             Some (m, l\<lparr>head := nd, len := len l + 1\<rparr>) })"

definition listLinkNodeTail :: "'v mem \<Rightarrow> 'v adlist \<Rightarrow> ptr \<Rightarrow> ('v mem \<times> 'v adlist) option" where
  "listLinkNodeTail m l nd =
     (if len l = 0 then
        do { m \<leftarrow> set_next m nd 0; m \<leftarrow> set_prev m nd 0;
             Some (m, l\<lparr>head := nd, tail := nd, len := len l + 1\<rparr>) }
      else
        do { m \<leftarrow> set_prev m nd (tail l); m \<leftarrow> set_next m nd 0; m \<leftarrow> set_next m (tail l) nd;
             Some (m, l\<lparr>tail := nd, len := len l + 1\<rparr>) })"

text \<open>The flag tells whether the list was returned (and not NULL).\<close>

definition listAddNodeHead ::
  "'v al_env \<Rightarrow> 'v mem \<Rightarrow> 'v adlist \<Rightarrow> 'v \<Rightarrow> ('v mem \<times> 'v adlist \<times> bool) option" where
  "listAddNodeHead env m l v =
     (let (m, nd) = new_node env m v in
      if nd = 0 then Some (m, l, False)
      else do { (m, l) \<leftarrow> listLinkNodeHead m l nd; Some (m, l, True) })"

definition listAddNodeTail ::
  "'v al_env \<Rightarrow> 'v mem \<Rightarrow> 'v adlist \<Rightarrow> 'v \<Rightarrow> ('v mem \<times> 'v adlist \<times> bool) option" where
  "listAddNodeTail env m l v =
     (let (m, nd) = new_node env m v in
      if nd = 0 then Some (m, l, False)
      else do { (m, l) \<leftarrow> listLinkNodeTail m l nd; Some (m, l, True) })"

definition listInsertNode ::
  "'v al_env \<Rightarrow> 'v mem \<Rightarrow> 'v adlist \<Rightarrow> ptr \<Rightarrow> 'v \<Rightarrow> bool \<Rightarrow> ('v mem \<times> 'v adlist \<times> bool) option" where
  "listInsertNode env m l old_node v after =
     (let (m, nd) = new_node env m v in
      if nd = 0 then Some (m, l, False)
      else do {
        old \<leftarrow> node m old_node;
        (m, l) \<leftarrow>
          (if after then
             do { m \<leftarrow> set_prev m nd old_node; m \<leftarrow> set_next m nd (node_next old);
                  Some (m, if tail l = old_node then l\<lparr>tail := nd\<rparr> else l) }
           else
             do { m \<leftarrow> set_next m nd old_node; m \<leftarrow> set_prev m nd (node_prev old);
                  Some (m, if head l = old_node then l\<lparr>head := nd\<rparr> else l) });
        n \<leftarrow> node m nd;
        m \<leftarrow> (if node_prev n \<noteq> 0 then set_next m (node_prev n) nd else Some m);
        m \<leftarrow> (if node_next n \<noteq> 0 then set_prev m (node_next n) nd else Some m);
        Some (m, l\<lparr>len := len l + 1\<rparr>, True) })"

definition listUnlinkNode :: "'v mem \<Rightarrow> 'v adlist \<Rightarrow> ptr \<Rightarrow> ('v mem \<times> 'v adlist) option" where
  "listUnlinkNode m l nd =
     do { n \<leftarrow> node m nd;
          (m, l) \<leftarrow> (if node_prev n \<noteq> 0
             then do { m \<leftarrow> set_next m (node_prev n) (node_next n); Some (m, l) }
             else Some (m, l\<lparr>head := node_next n\<rparr>));
          (m, l) \<leftarrow> (if node_next n \<noteq> 0
             then do { m \<leftarrow> set_prev m (node_next n) (node_prev n); Some (m, l) }
             else Some (m, l\<lparr>tail := node_prev n\<rparr>));
          m \<leftarrow> set_next m nd 0;
          m \<leftarrow> set_prev m nd 0;
          Some (m, l\<lparr>len := len l - 1\<rparr>) }"

definition listDelNode :: "'v mem \<Rightarrow> 'v adlist \<Rightarrow> ptr \<Rightarrow> ('v mem \<times> 'v adlist) option" where
  "listDelNode m l nd =
     do { (m, l) \<leftarrow> listUnlinkNode m l nd;
          n \<leftarrow> node m nd;
          m \<leftarrow> zfree (call_free l (node_value n) m) nd;
          Some (m, l) }"

definition listInitNode :: "'v mem \<Rightarrow> ptr \<Rightarrow> 'v \<Rightarrow> 'v mem option" where
  "listInitNode m nd v =
     do { n \<leftarrow> node m nd;
          Some (m\<lparr>cells := (cells m)(nd \<mapsto> n\<lparr>node_prev := 0, node_next := 0, node_value := v\<rparr>)\<rparr>) }"

subsection \<open>Iteration, search and access by position\<close>

definition listGetIterator :: "'v al_env \<Rightarrow> 'v mem \<Rightarrow> 'v adlist \<Rightarrow> list_direction \<Rightarrow> listIter option" where
  "listGetIterator env m l dir =
     (if \<not> zmalloc_iter env m then None
      else Some \<lparr>iter_next = (if dir = AL_START_HEAD then head l else tail l), direction = dir\<rparr>)"

definition listRewind :: "'v adlist \<Rightarrow> listIter" where
  "listRewind l = \<lparr>iter_next = head l, direction = AL_START_HEAD\<rparr>"

definition listRewindTail :: "'v adlist \<Rightarrow> listIter" where
  "listRewindTail l = \<lparr>iter_next = tail l, direction = AL_START_TAIL\<rparr>"

definition listNext :: "'v mem \<Rightarrow> listIter \<Rightarrow> (listIter \<times> ptr) option" where
  "listNext m it =
     (let current = iter_next it in
      if current \<noteq> 0 then
        do { c \<leftarrow> node m current;
             Some (it\<lparr>iter_next := (if direction it = AL_START_HEAD then node_next c else node_prev c)\<rparr>, current) }
      else Some (it, current))"

definition dup_value :: "'v adlist \<Rightarrow> 'v \<Rightarrow> 'v option" where
  "dup_value l v = (case dup l of Some f \<Rightarrow> f v | None \<Rightarrow> Some v)"

text \<open>
  The loops run until \<open>listNext\<close> returns NULL: on a heap that is not a list they may not end, which
  is \<open>None\<close> here as well.
\<close>

partial_function (option) listDup_loop ::
  "'v al_env \<Rightarrow> 'v mem \<Rightarrow> 'v adlist \<Rightarrow> listIter \<Rightarrow> ('v mem \<times> 'v adlist option) option" where
  [code]: "listDup_loop env m copy iter =
     do { (iter, nd) \<leftarrow> listNext m iter;
          if nd = 0 then Some (m, Some copy)
          else do {
            n \<leftarrow> node m nd;
            case dup_value copy (node_value n) of
              None \<Rightarrow> do { m \<leftarrow> listRelease m (Some copy); Some (m, None) }
            | Some v \<Rightarrow>
                do { (m, copy, ok) \<leftarrow> listAddNodeTail env m copy v;
                     if \<not> ok then do { m \<leftarrow> listRelease (call_free copy v m) (Some copy); Some (m, None) }
                     else listDup_loop env m copy iter } } }"

definition listDup :: "'v al_env \<Rightarrow> 'v mem \<Rightarrow> 'v adlist \<Rightarrow> ('v mem \<times> 'v adlist option) option" where
  "listDup env m orig =
     (case listCreate env m of
        None \<Rightarrow> Some (m, None)
      | Some copy \<Rightarrow>
          listDup_loop env m (copy\<lparr>dup := dup orig, free := free orig, match := match orig\<rparr>) (listRewind orig))"

definition node_matches :: "'v adlist \<Rightarrow> 'v \<Rightarrow> 'v \<Rightarrow> bool" where
  "node_matches l key v = (case match l of Some f \<Rightarrow> f v key | None \<Rightarrow> key = v)"

partial_function (option) listSearchKey_loop ::
  "'v mem \<Rightarrow> 'v adlist \<Rightarrow> 'v \<Rightarrow> listIter \<Rightarrow> ptr option" where
  [code]: "listSearchKey_loop m l key iter =
     do { (iter, nd) \<leftarrow> listNext m iter;
          if nd = 0 then Some 0
          else do {
            n \<leftarrow> node m nd;
            if node_matches l key (node_value n) then Some nd
            else listSearchKey_loop m l key iter } }"

definition listSearchKey :: "'v mem \<Rightarrow> 'v adlist \<Rightarrow> 'v \<Rightarrow> ptr option" where
  "listSearchKey m l key = listSearchKey_loop m l key (listRewind l)"

fun walk :: "'v mem \<Rightarrow> ('v listNode \<Rightarrow> ptr) \<Rightarrow> nat \<Rightarrow> ptr \<Rightarrow> ptr option" where
  "walk m link 0 n = Some n"
| "walk m link (Suc i) n = (if n = 0 then Some n else do { c \<leftarrow> node m n; walk m link i (link c) })"

text \<open>\<open>-index\<close> overflows for the least \<open>long\<close>, which is undefined.\<close>

definition listIndex :: "'v mem \<Rightarrow> 'v adlist \<Rightarrow> int \<Rightarrow> ptr option" where
  "listIndex m l i =
     (if i = - (2 ^ 63) then None
      else if i < 0 then walk m node_prev (nat (- i - 1)) (tail l)
      else walk m node_next (nat i) (head l))"

subsection \<open>Rotation and concatenation\<close>

definition listRotateTailToHead :: "'v mem \<Rightarrow> 'v adlist \<Rightarrow> ('v mem \<times> 'v adlist) option" where
  "listRotateTailToHead m l =
     (if len l \<le> 1 then Some (m, l)
      else do {
        t \<leftarrow> node m (tail l);
        let nd = tail l; l = l\<lparr>tail := node_prev t\<rparr> in do {
          m \<leftarrow> set_next m (tail l) 0;
          m \<leftarrow> set_prev m (head l) nd;
          m \<leftarrow> set_prev m nd 0;
          m \<leftarrow> set_next m nd (head l);
          Some (m, l\<lparr>head := nd\<rparr>) } })"

definition listRotateHeadToTail :: "'v mem \<Rightarrow> 'v adlist \<Rightarrow> ('v mem \<times> 'v adlist) option" where
  "listRotateHeadToTail m l =
     (if len l \<le> 1 then Some (m, l)
      else do {
        h \<leftarrow> node m (head l);
        let nd = head l; l = l\<lparr>head := node_next h\<rparr> in do {
          m \<leftarrow> set_prev m (head l) 0;
          m \<leftarrow> set_next m (tail l) nd;
          m \<leftarrow> set_next m nd 0;
          m \<leftarrow> set_prev m nd (tail l);
          Some (m, l\<lparr>tail := nd\<rparr>) } })"

definition listJoin :: "'v mem \<Rightarrow> 'v adlist \<Rightarrow> 'v adlist \<Rightarrow> ('v mem \<times> 'v adlist \<times> 'v adlist) option" where
  "listJoin m l o' =
     (if len o' = 0 then Some (m, l, o')
      else do {
        m \<leftarrow> set_prev m (head o') (tail l);
        (m, l) \<leftarrow> (if tail l \<noteq> 0
           then do { m \<leftarrow> set_next m (tail l) (head o'); Some (m, l) }
           else Some (m, l\<lparr>head := head o'\<rparr>));
        Some (m, l\<lparr>tail := tail o', len := len l + len o'\<rparr>, o'\<lparr>head := 0, tail := 0, len := 0\<rparr>) })"

end
