(* ===== verification/Adlist_Ops.thy ===== *)
theory Adlist_Ops
  imports Adlist "HOL-Library.Multiset"
begin

section \<open>Doubly linked lists: representation and operations\<close>

text \<open>
  A list in memory is described by the sequence \<open>ns\<close> of its nodes, each with its address and its
  value: \<open>dlseg h p ns n\<close> says that the nodes are chained in both directions, from \<open>p\<close> on the left to
  \<open>n\<close> on the right.  Every operation is shown to turn the description of the list into the expected
  one, and to leave all other cells alone.
\<close>

definition first :: "(ptr \<times> 'v) list \<Rightarrow> ptr \<Rightarrow> ptr" where
  "first ns n = (case ns of [] \<Rightarrow> n | x # xs \<Rightarrow> fst x)"

definition final :: "ptr \<Rightarrow> (ptr \<times> 'v) list \<Rightarrow> ptr" where
  "final p ns = (if ns = [] then p else fst (last ns))"

fun dlseg :: "(ptr \<rightharpoonup> 'v listNode) \<Rightarrow> ptr \<Rightarrow> (ptr \<times> 'v) list \<Rightarrow> ptr \<Rightarrow> bool" where
  "dlseg h p [] n = True"
| "dlseg h p (x # xs) n \<longleftrightarrow>
     fst x \<noteq> 0 \<and> h (fst x) = Some \<lparr>node_prev = p, node_next = first xs n, node_value = snd x\<rparr>
     \<and> dlseg h (fst x) xs n"

definition addrs :: "(ptr \<times> 'v) list \<Rightarrow> ptr set" where
  "addrs ns = fst ` set ns"

definition list_rep :: "'v mem \<Rightarrow> 'v adlist \<Rightarrow> (ptr \<times> 'v) list \<Rightarrow> bool" where
  "list_rep m l ns \<longleftrightarrow> dlseg (cells m) 0 ns 0 \<and> distinct (map fst ns)
     \<and> head l = first ns 0 \<and> tail l = final 0 ns \<and> len l = of_nat (length ns)"

definition same_outside :: "ptr set \<Rightarrow> 'v mem \<Rightarrow> 'v mem \<Rightarrow> bool" where
  "same_outside A m m' \<longleftrightarrow> (\<forall>p. p \<notin> A \<longrightarrow> cells m' p = cells m p)"

definition same_callbacks :: "'v adlist \<Rightarrow> 'v adlist \<Rightarrow> bool" where
  "same_callbacks l l' \<longleftrightarrow> dup l' = dup l \<and> free l' = free l \<and> match l' = match l"

lemma first_simps [simp]:
  "first [] n = n" "first (x # xs) n = fst x" "first (xs @ ys) n = first xs (first ys n)"
  by (cases xs; simp add: first_def)+

lemma final_simps [simp]:
  "final p [] = p" "final p (x # xs) = final (fst x) xs" "final p (xs @ ys) = final (final p xs) ys"
  by (auto simp: final_def)

lemma addrs_simps [simp]:
  "addrs [] = {}" "addrs (x # xs) = insert (fst x) (addrs xs)" "addrs (xs @ ys) = addrs xs \<union> addrs ys"
  by (auto simp: addrs_def)

lemma set_map_fst_addrs: "fst ` set ns = addrs ns"
  by (simp add: addrs_def)

lemma first_in: "ns \<noteq> [] \<Longrightarrow> first ns n \<in> addrs ns"
  by (cases ns) auto

lemma final_in: "ns \<noteq> [] \<Longrightarrow> final p ns \<in> addrs ns"
  by (auto simp: final_def addrs_def)

lemma dlseg_append [simp]:
  "dlseg h p (xs @ ys) n \<longleftrightarrow> dlseg h p xs (first ys n) \<and> dlseg h (final p xs) ys n"
  by (induction xs arbitrary: p) auto

lemma dlseg_frame: "(\<And>a. a \<in> addrs ns \<Longrightarrow> h' a = h a) \<Longrightarrow> dlseg h' p ns n = dlseg h p ns n"
  by (induction ns arbitrary: p) auto

lemma dlseg_upd [simp]: "a \<notin> addrs ns \<Longrightarrow> dlseg (h(a := c)) p ns n = dlseg h p ns n"
  by (rule dlseg_frame) auto

lemma dlseg_nonnull: "dlseg h p ns n \<Longrightarrow> 0 \<notin> addrs ns"
  by (induction ns arbitrary: p) auto

lemma dlseg_lookup:
  "dlseg h p (xs @ (a, v) # ys) n \<Longrightarrow>
     a \<noteq> 0 \<and> h a = Some \<lparr>node_prev = final p xs, node_next = first ys n, node_value = v\<rparr>"
  by simp

lemma dlseg_live: "dlseg h p ns n \<Longrightarrow> a \<in> addrs ns \<Longrightarrow> h a \<noteq> None"
  by (induction ns arbitrary: p) auto

lemma node_simps [simp]: "p \<noteq> 0 \<Longrightarrow> node m p = cells m p" "node m 0 = None"
  by (simp_all add: node_def)

lemma list_rep_nonnull: "list_rep m l ns \<Longrightarrow> 0 \<notin> addrs ns"
  by (auto simp: list_rep_def dest: dlseg_nonnull)

lemma list_rep_bound:
  assumes "list_rep m l ns"
  shows "length ns < 2 ^ 64"
proof -
  have "length ns = card (addrs ns)"
    using assms by (metis addrs_def distinct_card length_map list.set_map list_rep_def)
  also have "\<dots> < card (UNIV :: ptr set)"
    using list_rep_nonnull [OF assms] by (intro psubset_card_mono) auto
  finally show ?thesis by (simp add: card_word)
qed

lemma list_rep_len: "list_rep m l ns \<Longrightarrow> unat (len l) = length ns"
  using list_rep_bound [of m l ns] by (simp add: list_rep_def unat_of_nat take_bit_eq_mod)

lemma list_rep_len_0:
  assumes "list_rep m l ns"
  shows "len l = 0 \<longleftrightarrow> ns = []"
proof -
  have "len l = 0 \<longleftrightarrow> unat (len l) = 0" by (simp add: unsigned_eq_0_iff)
  then show ?thesis by (simp add: list_rep_len [OF assms])
qed

lemma list_rep_frame:
  "list_rep m l ns \<Longrightarrow> same_outside A m m' \<Longrightarrow> addrs ns \<inter> A = {} \<Longrightarrow> list_rep m' l ns"
  unfolding list_rep_def same_outside_def using dlseg_frame [of ns "cells m'" "cells m"] by blast

lemma same_outside_refl [simp]: "same_outside A m m"
  by (simp add: same_outside_def)

lemma same_outside_trans:
  "same_outside A m m' \<Longrightarrow> same_outside B m' m'' \<Longrightarrow> same_outside (A \<union> B) m m''"
  by (simp add: same_outside_def)

lemma same_outside_mono: "same_outside A m m' \<Longrightarrow> A \<subseteq> B \<Longrightarrow> same_outside B m m'"
  by (auto simp: same_outside_def)

lemma same_callbacks_simps [simp]:
  "same_callbacks l l"
  "same_callbacks l (l'\<lparr>head := a\<rparr>) = same_callbacks l l'" "same_callbacks l (l'\<lparr>tail := a\<rparr>) = same_callbacks l l'"
  "same_callbacks l (l'\<lparr>len := n\<rparr>) = same_callbacks l l'"
  by (simp_all add: same_callbacks_def)

lemma same_callbacks_trans: "same_callbacks l l' \<Longrightarrow> same_callbacks l' l'' \<Longrightarrow> same_callbacks l l''"
  by (simp add: same_callbacks_def)

lemmas mem_defs = set_prev_def set_next_def zfree_def

subsection \<open>Linking\<close>

lemma listLinkNodeHead_rep:
  assumes rep: "list_rep m l ns" and nd: "nd \<noteq> 0" "nd \<notin> addrs ns" "cells m nd = Some n0"
  shows "\<exists>m' l'. listLinkNodeHead m l nd = Some (m', l') \<and> list_rep m' l' ((nd, node_value n0) # ns)
    \<and> same_outside (insert nd (addrs ns)) m m' \<and> freed m' = freed m \<and> same_callbacks l l'"
proof (cases ns)
  case Nil
  with rep nd show ?thesis
    by (auto simp: listLinkNodeHead_def list_rep_def mem_defs same_outside_def)
next
  case (Cons x xs)
  then have "len l \<noteq> 0" using list_rep_len_0 [OF rep] by simp
  with rep nd Cons show ?thesis
    by (auto simp: listLinkNodeHead_def list_rep_def mem_defs same_outside_def set_map_fst_addrs)
qed

lemma listLinkNodeTail_rep:
  assumes rep: "list_rep m l ns" and nd: "nd \<noteq> 0" "nd \<notin> addrs ns" "cells m nd = Some n0"
  shows "\<exists>m' l'. listLinkNodeTail m l nd = Some (m', l') \<and> list_rep m' l' (ns @ [(nd, node_value n0)])
    \<and> same_outside (insert nd (addrs ns)) m m' \<and> freed m' = freed m \<and> same_callbacks l l'"
proof (cases ns rule: rev_cases)
  case Nil
  with rep nd show ?thesis
    by (auto simp: listLinkNodeTail_def list_rep_def mem_defs same_outside_def)
next
  case (snoc xs x)
  then have "len l \<noteq> 0" using list_rep_len_0 [OF rep] by simp
  with rep nd snoc show ?thesis
    by (auto simp: listLinkNodeTail_def list_rep_def mem_defs same_outside_def set_map_fst_addrs)
qed

lemma new_node_cases:
  assumes "alloc_ok env"
  obtains (null) "new_node env m v = (m, 0)" "zmalloc env m = 0"
  | (fresh) p n0 where "p \<noteq> 0" "zmalloc env m = p" "cells m p = None" "node_value n0 = v"
      "new_node env m v = (m\<lparr>cells := (cells m)(p \<mapsto> n0)\<rparr>, p)"
proof (cases "zmalloc env m = 0")
  case True
  then show ?thesis using null by (simp add: new_node_def)
next
  case False
  with assms have "cells m (zmalloc env m) = None" by (auto simp: alloc_ok_def)
  with False show ?thesis
    using fresh [of "zmalloc env m" "\<lparr>node_prev = junk env, node_next = junk env, node_value = v\<rparr>"]
    by (simp add: new_node_def Let_def)
qed

lemma list_rep_fresh:
  assumes "list_rep m l ns" "cells m p = None"
  shows "p \<notin> addrs ns" "list_rep (m\<lparr>cells := (cells m)(p \<mapsto> c)\<rparr>) l ns"
proof -
  show p: "p \<notin> addrs ns" using dlseg_live [of "cells m" 0 ns 0 p] assms by (auto simp: list_rep_def)
  show "list_rep (m\<lparr>cells := (cells m)(p \<mapsto> c)\<rparr>) l ns" using assms(1) p by (simp add: list_rep_def)
qed

text \<open>
  The outcome of an operation that allocates a node: when the allocation fails nothing happens,
  otherwise the list is \<open>f p\<close> for the new node \<open>p\<close>.
\<close>

definition added ::
  "'v al_env \<Rightarrow> 'v mem \<Rightarrow> 'v adlist \<Rightarrow> (ptr \<times> 'v) list \<Rightarrow> (ptr \<Rightarrow> (ptr \<times> 'v) list)
     \<Rightarrow> ('v mem \<times> 'v adlist \<times> bool) option \<Rightarrow> bool" where
  "added env m l ns f r \<longleftrightarrow>
     zmalloc env m = 0 \<and> r = Some (m, l, False)
     \<or> (\<exists>m' l' p. r = Some (m', l', True) \<and> p \<noteq> 0 \<and> zmalloc env m = p \<and> cells m p = None \<and> list_rep m' l' (f p)
          \<and> same_outside (insert p (addrs ns)) m m' \<and> freed m' = freed m \<and> same_callbacks l l')"

lemma listAddNodeHead_rep:
  assumes rep: "list_rep m l ns" and al: "alloc_ok env"
  shows "added env m l ns (\<lambda>p. (p, v) # ns) (listAddNodeHead env m l v)"
proof (rule new_node_cases [OF al, of m v])
  fix p n0
  assume p: "p \<noteq> 0" "zmalloc env m = p" "cells m p = None" "node_value n0 = v"
    "new_node env m v = (m\<lparr>cells := (cells m)(p \<mapsto> n0)\<rparr>, p)"
  note f = list_rep_fresh [OF rep p(3)]
  from listLinkNodeHead_rep [OF f(2) p(1) f(1), of n0] p show ?thesis
    by (fastforce simp: added_def listAddNodeHead_def same_outside_def)
qed (simp add: added_def listAddNodeHead_def)

lemma listAddNodeTail_rep:
  assumes rep: "list_rep m l ns" and al: "alloc_ok env"
  shows "added env m l ns (\<lambda>p. ns @ [(p, v)]) (listAddNodeTail env m l v)"
proof (rule new_node_cases [OF al, of m v])
  fix p n0
  assume p: "p \<noteq> 0" "zmalloc env m = p" "cells m p = None" "node_value n0 = v"
    "new_node env m v = (m\<lparr>cells := (cells m)(p \<mapsto> n0)\<rparr>, p)"
  note f = list_rep_fresh [OF rep p(3)]
  from listLinkNodeTail_rep [OF f(2) p(1) f(1), of n0] p show ?thesis
    by (fastforce simp: added_def listAddNodeTail_def same_outside_def)
qed (simp add: added_def listAddNodeTail_def)

lemma listInsertNode_rep:
  assumes rep: "list_rep m l (xs @ (a, w) # ys)" and al: "alloc_ok env"
  shows "added env m l (xs @ (a, w) # ys)
    (\<lambda>p. if after then xs @ (a, w) # (p, v) # ys else xs @ (p, v) # (a, w) # ys) (listInsertNode env m l a v after)"
proof (rule new_node_cases [OF al, of m v])
  fix p n0
  assume p: "p \<noteq> 0" "zmalloc env m = p" "cells m p = None" "node_value n0 = v"
    "new_node env m v = (m\<lparr>cells := (cells m)(p \<mapsto> n0)\<rparr>, p)"
  note f = list_rep_fresh(1) [OF rep p(3)]
  show ?thesis
  proof (cases after)
    case True
    show ?thesis
    proof (cases ys)
      case Nil
      with rep p f True show ?thesis
        by (auto simp: added_def listInsertNode_def list_rep_def mem_defs same_outside_def set_map_fst_addrs)
    next
      case (Cons y ys')
      have "tail l \<noteq> a" using rep final_in [of ys' "fst y"] Cons
        by (cases ys') (auto simp: list_rep_def set_map_fst_addrs)
      with rep p f True Cons show ?thesis
        by (auto simp: added_def listInsertNode_def list_rep_def mem_defs same_outside_def set_map_fst_addrs)
    qed
  next
    case False
    show ?thesis
    proof (cases xs rule: rev_cases)
      case Nil
      with rep p f False show ?thesis
        by (auto simp: added_def listInsertNode_def list_rep_def mem_defs same_outside_def set_map_fst_addrs)
    next
      case (snoc xs' x)
      have "head l \<noteq> a" using rep first_in [of xs' "fst x"] snoc
        by (cases xs') (auto simp: list_rep_def set_map_fst_addrs)
      with rep p f False snoc show ?thesis
        by (auto simp: added_def listInsertNode_def list_rep_def mem_defs same_outside_def set_map_fst_addrs)
    qed
  qed
qed (simp add: added_def listInsertNode_def)

subsection \<open>Unlinking\<close>

lemma listUnlinkNode_rep:
  assumes rep: "list_rep m l (xs @ (a, v) # ys)"
  shows "\<exists>m' l'. listUnlinkNode m l a = Some (m', l') \<and> list_rep m' l' (xs @ ys)
    \<and> cells m' a = Some \<lparr>node_prev = 0, node_next = 0, node_value = v\<rparr>
    \<and> same_outside (addrs (xs @ (a, v) # ys)) m m' \<and> freed m' = freed m \<and> same_callbacks l l'"
proof -
  consider "xs = []" "ys = []" | y ys' where "xs = []" "ys = y # ys'"
    | x xs' where "xs = xs' @ [x]" "ys = []" | x xs' y ys' where "xs = xs' @ [x]" "ys = y # ys'"
    by (metis list.exhaust rev_exhaust)
  then show ?thesis
    by cases (use rep in \<open>auto simp: listUnlinkNode_def list_rep_def mem_defs same_outside_def set_map_fst_addrs\<close>)
qed

definition freed_by :: "'v adlist \<Rightarrow> 'v list \<Rightarrow> 'v list" where
  "freed_by l vs = (if free l then vs else [])"

lemma listDelNode_rep:
  assumes rep: "list_rep m l (xs @ (a, v) # ys)"
  shows "\<exists>m' l'. listDelNode m l a = Some (m', l') \<and> list_rep m' l' (xs @ ys) \<and> cells m' a = None
    \<and> same_outside (addrs (xs @ (a, v) # ys)) m m' \<and> freed m' = freed m @ freed_by l [v] \<and> same_callbacks l l'"
proof -
  from listUnlinkNode_rep [OF rep] obtain m1 l1 where
    u: "listUnlinkNode m l a = Some (m1, l1)" "list_rep m1 l1 (xs @ ys)"
      "cells m1 a = Some \<lparr>node_prev = 0, node_next = 0, node_value = v\<rparr>"
      "same_outside (addrs (xs @ (a, v) # ys)) m m1" "freed m1 = freed m" "same_callbacks l l1" by blast
  have a: "a \<noteq> 0" "a \<notin> addrs (xs @ ys)" using rep by (auto simp: list_rep_def set_map_fst_addrs)
  with u show ?thesis
    by (auto simp: listDelNode_def zfree_def call_free_def freed_by_def list_rep_def same_outside_def
      same_callbacks_def)
qed

lemma listEmpty_loop_rep:
  "dlseg (cells m) p ns n \<Longrightarrow> distinct (map fst ns) \<Longrightarrow>
     \<exists>m'. listEmpty_loop l (length ns) (first ns n) m = Some m' \<and> (\<forall>a \<in> addrs ns. cells m' a = None)
       \<and> same_outside (addrs ns) m m' \<and> freed m' = freed m @ freed_by l (map snd ns)"
proof (induction ns arbitrary: m p)
  case (Cons x xs)
  let ?m = "(call_free l (snd x) m)\<lparr>cells := (cells m)(fst x := None)\<rparr>"
  have c: "fst x \<noteq> 0" "fst x \<notin> addrs xs" "cells (call_free l (snd x) m) = cells m"
    "freed ?m = freed m @ freed_by l [snd x]"
    using Cons.prems by (auto simp: set_map_fst_addrs call_free_def freed_by_def)
  with Cons.prems have "dlseg (cells ?m) (fst x) xs n" by simp
  from Cons.IH [OF this] Cons.prems(2) obtain m' where
    m': "listEmpty_loop l (length xs) (first xs n) ?m = Some m'" "\<forall>a \<in> addrs xs. cells m' a = None"
      "same_outside (addrs xs) ?m m'" "freed m' = freed ?m @ freed_by l (map snd xs)" by auto
  moreover have "listEmpty_loop l (length (x # xs)) (first (x # xs) n) m = Some m'"
    using Cons.prems c m'(1) by (simp add: zfree_def)
  ultimately show ?case using c by (auto simp: same_outside_def freed_by_def)
qed (simp add: freed_by_def)

lemma listEmpty_rep:
  assumes rep: "list_rep m l ns"
  shows "\<exists>m' l'. listEmpty m l = Some (m', l') \<and> list_rep m' l' [] \<and> (\<forall>a \<in> addrs ns. cells m' a = None)
    \<and> same_outside (addrs ns) m m' \<and> freed m' = freed m @ freed_by l (map snd ns) \<and> same_callbacks l l'"
proof -
  from rep have "dlseg (cells m) 0 ns 0" "distinct (map fst ns)" by (simp_all add: list_rep_def)
  from listEmpty_loop_rep [OF this, of l] obtain m' where
    "listEmpty_loop l (length ns) (first ns 0) m = Some m'" "\<forall>a \<in> addrs ns. cells m' a = None"
    "same_outside (addrs ns) m m'" "freed m' = freed m @ freed_by l (map snd ns)" by blast
  moreover have "head l = first ns 0" using rep by (simp add: list_rep_def)
  ultimately show ?thesis by (simp add: listEmpty_def list_rep_len [OF rep]) (simp add: list_rep_def)
qed

subsection \<open>Iteration, search and access by position\<close>

lemma listNext_head:
  assumes "list_rep m l (xs @ (a, v) # ys)"
  shows "listNext m \<lparr>iter_next = a, direction = AL_START_HEAD\<rparr>
    = Some (\<lparr>iter_next = first ys 0, direction = AL_START_HEAD\<rparr>, a)"
  using assms by (auto simp: list_rep_def listNext_def)

lemma listNext_tail:
  assumes "list_rep m l (xs @ (a, v) # ys)"
  shows "listNext m \<lparr>iter_next = a, direction = AL_START_TAIL\<rparr>
    = Some (\<lparr>iter_next = final 0 xs, direction = AL_START_TAIL\<rparr>, a)"
  using assms by (auto simp: list_rep_def listNext_def)

lemma listNext_end [simp]: "listNext m \<lparr>iter_next = 0, direction = dir\<rparr> = Some (\<lparr>iter_next = 0, direction = dir\<rparr>, 0)"
  by (simp add: listNext_def)

lemma listSearchKey_loop_rep:
  "dlseg (cells m) p ns 0 \<Longrightarrow>
     listSearchKey_loop m l key \<lparr>iter_next = first ns 0, direction = AL_START_HEAD\<rparr>
       = Some (case find (\<lambda>x. node_matches l key (snd x)) ns of None \<Rightarrow> 0 | Some x \<Rightarrow> fst x)"
proof (induction ns arbitrary: p)
  case Nil
  then show ?case by (subst listSearchKey_loop.simps) simp
next
  case (Cons x xs)
  then show ?case by (subst listSearchKey_loop.simps) (auto simp: listNext_def)
qed

lemma listSearchKey_rep:
  "list_rep m l ns \<Longrightarrow>
     listSearchKey m l key = Some (case find (\<lambda>x. node_matches l key (snd x)) ns of None \<Rightarrow> 0 | Some x \<Rightarrow> fst x)"
  using listSearchKey_loop_rep [of m 0 ns l key] by (simp add: listSearchKey_def listRewind_def list_rep_def)

lemma walk_next:
  "dlseg (cells m) p ns 0 \<Longrightarrow>
     walk m node_next i (first ns 0) = Some (if i < length ns then fst (ns ! i) else 0)"
proof (induction ns arbitrary: p i)
  case Nil
  then show ?case by (cases i) auto
next
  case (Cons x xs)
  then show ?case by (cases i) auto
qed

lemma walk_prev:
  "dlseg (cells m) 0 ns n \<Longrightarrow>
     walk m node_prev i (final 0 ns) = Some (if i < length ns then fst (ns ! (length ns - Suc i)) else 0)"
proof (induction ns arbitrary: n i rule: rev_induct)
  case Nil
  then show ?case by (cases i) auto
next
  case (snoc x xs)
  then show ?case by (cases i) (auto simp: nth_append Suc_diff_Suc)
qed

lemma listIndex_rep:
  assumes "list_rep m l ns" "- (2 ^ 63) < i"
  shows "listIndex m l i = Some (if idx_in i ns then fst (ns ! nat (norm_idx i ns)) else 0)"
proof (cases "i < 0")
  case True
  have "nat (- i - 1) < length ns \<longleftrightarrow> idx_in i ns" using True by (auto simp: idx_in_def norm_idx_def)
  moreover have "length ns - Suc (nat (- i - 1)) = nat (norm_idx i ns)" using True by (simp add: norm_idx_def)
  ultimately show ?thesis using assms True walk_prev [of m ns 0 "nat (- i - 1)"]
    by (simp add: listIndex_def list_rep_def)
next
  case False
  with assms walk_next [of m 0 ns "nat i"] show ?thesis
    by (auto simp: listIndex_def list_rep_def idx_in_def norm_idx_def nat_less_iff)
qed

subsection \<open>Rotation and concatenation\<close>

lemma list_rep_len_1: "list_rep m l ns \<Longrightarrow> len l \<le> 1 \<longleftrightarrow> length ns \<le> 1"
  by (simp add: word_le_nat_alt list_rep_len)

lemma two_ends:
  assumes "\<not> length ns \<le> 1"
  obtains x ys y where "ns = x # ys @ [y]"
  using assms by (cases ns; cases "tl ns" rule: rev_cases) auto

lemma listRotateTailToHead_rep:
  assumes rep: "list_rep m l ns"
  shows "\<exists>m' l'. listRotateTailToHead m l = Some (m', l') \<and> list_rep m' l' (rotate (length ns - 1) ns)
    \<and> same_outside (addrs ns) m m' \<and> freed m' = freed m \<and> same_callbacks l l'"
proof (cases "length ns \<le> 1")
  case True
  then have "rotate (length ns - 1) ns = ns" by (cases ns) auto
  with True rep show ?thesis by (simp add: listRotateTailToHead_def list_rep_len_1)
next
  case False
  then obtain x ys y where ns: "ns = x # ys @ [y]" by (rule two_ends)
  have r: "rotate (length ns - 1) ns = y # x # ys"
    using rotate_append [of "x # ys" "[y]"] by (simp add: ns)
  have "\<not> len l \<le> 1" using False list_rep_len_1 [OF rep] by simp
  with rep ns show ?thesis unfolding r
    by (cases ys rule: rev_cases)
       (auto simp: listRotateTailToHead_def Let_def list_rep_def mem_defs same_outside_def set_map_fst_addrs)
qed

lemma listRotateHeadToTail_rep:
  assumes rep: "list_rep m l ns"
  shows "\<exists>m' l'. listRotateHeadToTail m l = Some (m', l') \<and> list_rep m' l' (rotate1 ns)
    \<and> same_outside (addrs ns) m m' \<and> freed m' = freed m \<and> same_callbacks l l'"
proof (cases "length ns \<le> 1")
  case True
  then have "rotate1 ns = ns" by (cases ns) auto
  with True rep show ?thesis by (simp add: listRotateHeadToTail_def list_rep_len_1)
next
  case False
  then obtain x ys y where ns: "ns = x # ys @ [y]" by (rule two_ends)
  have "\<not> len l \<le> 1" using False list_rep_len_1 [OF rep] by simp
  with rep ns show ?thesis
    by (cases ys) (auto simp: listRotateHeadToTail_def Let_def list_rep_def mem_defs same_outside_def set_map_fst_addrs)
qed

lemma listJoin_rep:
  assumes l: "list_rep m l xs" and o': "list_rep m o' ys" and disj: "addrs xs \<inter> addrs ys = {}"
  shows "\<exists>m' l' o''. listJoin m l o' = Some (m', l', o'') \<and> list_rep m' l' (xs @ ys) \<and> list_rep m' o'' []
    \<and> same_outside (addrs xs \<union> addrs ys) m m' \<and> freed m' = freed m \<and> same_callbacks l l' \<and> same_callbacks o' o''"
proof (cases ys)
  case Nil
  with l o' show ?thesis by (auto simp: listJoin_def list_rep_def)
next
  case (Cons y ys')
  then have "len o' \<noteq> 0" using list_rep_len_0 [OF o'] by simp
  then show ?thesis using l o' disj Cons
    by (cases xs rule: rev_cases)
       (auto simp: listJoin_def list_rep_def mem_defs same_outside_def set_map_fst_addrs)
qed

subsection \<open>Duplication\<close>

text \<open>Appending values one after the other, as long as there is memory.\<close>

fun append_all :: "'v al_env \<Rightarrow> 'v mem \<Rightarrow> 'v adlist \<Rightarrow> 'v list \<Rightarrow> ('v mem \<times> 'v adlist) option" where
  "append_all env m l [] = Some (m, l)"
| "append_all env m l (v # vs) =
     do { (m, l, ok) \<leftarrow> listAddNodeTail env m l v; if ok then append_all env m l vs else None }"

definition empty_like :: "'v adlist \<Rightarrow> 'v adlist" where
  "empty_like l = \<lparr>head = 0, tail = 0, dup = dup l, free = free l, match = match l, len = 0\<rparr>"

text \<open>
  The loop of \<open>listDup\<close>, with \<open>cs\<close> already copied and \<open>vs\<close> still to copy: it ends with the whole copy
  beside an untouched original, or it undoes everything, each copied value being freed once.  It stops
  at the first value that cannot be duplicated, or for whose node there is no memory when those before
  it have been appended.
\<close>

definition dup_stopped :: "'v al_env \<Rightarrow> 'v mem \<Rightarrow> 'v adlist \<Rightarrow> 'v list \<Rightarrow> 'v list \<Rightarrow> 'v mem \<Rightarrow> bool" where
  "dup_stopped env m copy xs vs m' \<longleftrightarrow>
     (\<exists>k ws mk lk. k < length vs \<and> those (map (dup_value copy) (take k vs)) = Some ws
        \<and> append_all env m copy ws = Some (mk, lk)
        \<and> (case dup_value copy (vs ! k) of
             None \<Rightarrow> mset (freed m') = mset (freed m) + mset (freed_by copy (xs @ ws))
           | Some v \<Rightarrow> zmalloc env mk = 0 \<and> mset (freed m') = mset (freed m) + mset (freed_by copy (v # xs @ ws))))"

definition dup_done ::
  "'v al_env \<Rightarrow> 'v mem \<Rightarrow> 'v adlist \<Rightarrow> (ptr \<times> 'v) list \<Rightarrow> 'v list \<Rightarrow> 'v mem \<Rightarrow> 'v adlist option \<Rightarrow> bool" where
  "dup_done env m copy cs vs m' r \<longleftrightarrow>
     (case r of
        Some l' \<Rightarrow> (\<exists>cs' ws. list_rep m' l' cs' \<and> those (map (dup_value copy) vs) = Some ws
           \<and> map snd cs' = map snd cs @ ws \<and> freed m' = freed m \<and> same_callbacks copy l'
           \<and> addrs cs \<subseteq> addrs cs' \<and> (\<forall>a \<in> addrs cs'. a \<in> addrs cs \<or> cells m a = None)
           \<and> (\<forall>a. a \<notin> addrs cs' \<longrightarrow> cells m' a = cells m a))
      | None \<Rightarrow> (\<forall>a. cells m' a = (if a \<in> addrs cs then None else cells m a))
           \<and> dup_stopped env m copy (map snd cs) vs m')"

lemma dup_stopped_step:
  assumes s: "dup_stopped env m1 c1 (xs @ [v]) vs m'" and add: "listAddNodeTail env m copy v = Some (m1, c1, True)"
    and f: "freed m1 = freed m" and c: "same_callbacks copy c1" and v: "dup_value copy u = Some v"
  shows "dup_stopped env m copy xs (u # vs) m'"
proof -
  have e: "dup_value c1 = dup_value copy" "freed_by c1 = freed_by copy"
    using c by (auto simp: dup_value_def freed_by_def same_callbacks_def fun_eq_iff)
  from s obtain k ws mk lk where k: "k < length vs" "those (map (dup_value copy) (take k vs)) = Some ws"
    "append_all env m1 c1 ws = Some (mk, lk)"
    "case dup_value copy (vs ! k) of
       None \<Rightarrow> mset (freed m') = mset (freed m) + mset (freed_by copy ((xs @ [v]) @ ws))
     | Some w \<Rightarrow> zmalloc env mk = 0
         \<and> mset (freed m') = mset (freed m) + mset (freed_by copy (w # (xs @ [v]) @ ws))"
    unfolding dup_stopped_def e f by blast
  have "those (map (dup_value copy) (take (Suc k) (u # vs))) = Some (v # ws)" using k(2) v by simp
  moreover have "append_all env m copy (v # ws) = Some (mk, lk)" using add k(3) by simp
  ultimately show ?thesis unfolding dup_stopped_def
    using k(1,4) by (intro exI [of _ "Suc k"] exI [of _ "v # ws"] exI [of _ mk] exI [of _ lk]) (simp split: option.splits)
qed

lemma listRelease_rep:
  assumes "list_rep m l ns"
  shows "\<exists>m'. listRelease m (Some l) = Some m' \<and> (\<forall>a. cells m' a = (if a \<in> addrs ns then None else cells m a))
    \<and> freed m' = freed m @ freed_by l (map snd ns)"
  using listEmpty_rep [OF assms] by (fastforce simp: listRelease_def same_outside_def)

lemma listDup_loop_end:
  assumes "list_rep m copy cs"
  shows "listDup_loop env m copy \<lparr>iter_next = 0, direction = AL_START_HEAD\<rparr> = Some (m, Some copy)"
    "dup_done env m copy cs [] m (Some copy)"
proof -
  show "listDup_loop env m copy \<lparr>iter_next = 0, direction = AL_START_HEAD\<rparr> = Some (m, Some copy)"
    by (subst listDup_loop.simps) simp
  show "dup_done env m copy cs [] m (Some copy)"
    using assms by (auto simp: dup_done_def intro!: exI [of _ cs])
qed

lemma dup_done_step:
  assumes d: "dup_done env m1 c1 (cs @ [(q, v)]) vs m' r"
    and add: "listAddNodeTail env m copy v = Some (m1, c1, True)" and q: "cells m q = None"
    and m1: "same_outside (insert q (addrs cs)) m m1" "freed m1 = freed m"
    and c: "same_callbacks copy c1" and v: "dup_value copy u = Some v"
  shows "dup_done env m copy cs (u # vs) m' r"
proof -
  have e: "dup_value c1 = dup_value copy" "freed_by c1 = freed_by copy"
    using c by (auto simp: dup_value_def freed_by_def same_callbacks_def fun_eq_iff)
  show ?thesis
  proof (cases r)
    case None
    with d have k: "\<forall>a. cells m' a = (if a \<in> addrs (cs @ [(q, v)]) then None else cells m1 a)"
      "dup_stopped env m1 c1 (map snd cs @ [v]) vs m'" by (auto simp: dup_done_def)
    have "\<forall>a. cells m' a = (if a \<in> addrs cs then None else cells m a)"
      using k(1) m1(1) q by (auto simp: same_outside_def)
    with dup_stopped_step [OF k(2) add m1(2) c v] show ?thesis by (simp add: None dup_done_def)
  next
    case (Some l')
    with d obtain cs' ws where w: "list_rep m' l' cs'" "those (map (dup_value copy) vs) = Some ws"
      "map snd cs' = map snd (cs @ [(q, v)]) @ ws" "freed m' = freed m" "same_callbacks c1 l'"
      "addrs (cs @ [(q, v)]) \<subseteq> addrs cs'"
      "\<forall>a \<in> addrs cs'. a \<in> addrs (cs @ [(q, v)]) \<or> cells m1 a = None"
      "\<forall>a. a \<notin> addrs cs' \<longrightarrow> cells m' a = cells m1 a"
      unfolding dup_done_def e m1(2) by auto
    have live: "cells m1 a = cells m a" if "a \<notin> addrs cs" "a \<noteq> q" for a
      using m1(1) that by (simp add: same_outside_def)
    have "\<forall>a \<in> addrs cs'. a \<in> addrs cs \<or> cells m a = None" using w(7) live q by force
    moreover have "\<forall>a. a \<notin> addrs cs' \<longrightarrow> cells m' a = cells m a" using w(6,8) live by auto
    moreover have "those (map (dup_value copy) (u # vs)) = Some (v # ws)" using w(2) v by simp
    moreover have "map snd cs' = map snd cs @ v # ws" "addrs cs \<subseteq> addrs cs'" using w(3,6) by auto
    ultimately show ?thesis
      using w(1,4) same_callbacks_trans [OF c w(5)] unfolding Some dup_done_def option.case by blast
  qed
qed

lemma listDup_loop_rep:
  assumes "alloc_ok env"
  shows "dlseg (cells m) p ys 0 \<Longrightarrow> list_rep m copy cs \<Longrightarrow> addrs ys \<inter> addrs cs = {} \<Longrightarrow>
    \<exists>m' r. listDup_loop env m copy \<lparr>iter_next = first ys 0, direction = AL_START_HEAD\<rparr> = Some (m', r)
      \<and> dup_done env m copy cs (map snd ys) m' r"
proof (induction ys arbitrary: p m copy cs)
  case Nil
  then show ?case using listDup_loop_end [OF Nil.prems(2)] by auto
next
  case (Cons y ys)
  let ?it = "\<lparr>iter_next = first ys 0, direction = AL_START_HEAD\<rparr>"
  have nx: "listNext m \<lparr>iter_next = first (y # ys) 0, direction = AL_START_HEAD\<rparr> = Some (?it, fst y)"
    and y: "fst y \<noteq> 0" "\<exists>n. cells m (fst y) = Some n \<and> node_value n = snd y" "dlseg (cells m) (fst y) ys 0"
    using Cons.prems by (auto simp: listNext_def)
  show ?case
  proof (cases "dup_value copy (snd y)")
    case None
    from listRelease_rep [OF Cons.prems(2)] obtain m' where m':
      "listRelease m (Some copy) = Some m'" "\<forall>a. cells m' a = (if a \<in> addrs cs then None else cells m a)"
      "freed m' = freed m @ freed_by copy (map snd cs)" by blast
    have "dup_done env m copy cs (map snd (y # ys)) m' None"
      using m'(2,3) None by (auto simp: dup_done_def dup_stopped_def intro!: exI [of _ 0])
    moreover have "listDup_loop env m copy \<lparr>iter_next = first (y # ys) 0, direction = AL_START_HEAD\<rparr> = Some (m', None)"
      using nx y None m'(1) by (subst listDup_loop.simps) auto
    ultimately show ?thesis by blast
  next
    case (Some v)
    have step: "listDup_loop env m copy \<lparr>iter_next = first (y # ys) 0, direction = AL_START_HEAD\<rparr>
      = do { (m, copy, ok) \<leftarrow> listAddNodeTail env m copy v;
             if \<not> ok then do { m \<leftarrow> listRelease (call_free copy v m) (Some copy); Some (m, None) }
             else listDup_loop env m copy ?it }"
      using nx y Some by (subst listDup_loop.simps) auto
    from listAddNodeTail_rep [OF Cons.prems(2) assms, of v] consider
      (null) "zmalloc env m = 0" "listAddNodeTail env m copy v = Some (m, copy, False)"
    | (ok) m1 c1 q where "listAddNodeTail env m copy v = Some (m1, c1, True)" "cells m q = None"
        "list_rep m1 c1 (cs @ [(q, v)])" "same_outside (insert q (addrs cs)) m m1" "freed m1 = freed m"
        "same_callbacks copy c1"
      unfolding added_def by blast
    then show ?thesis
    proof cases
      case null
      have "list_rep (call_free copy v m) copy cs" using Cons.prems(2) by (simp add: list_rep_def call_free_def)
      from listRelease_rep [OF this] obtain m' where m':
        "listRelease (call_free copy v m) (Some copy) = Some m'"
        "\<forall>a. cells m' a = (if a \<in> addrs cs then None else cells m a)"
        "freed m' = freed m @ freed_by copy (v # map snd cs)"
        by (auto simp: call_free_def freed_by_def)
      then have "dup_done env m copy cs (map snd (y # ys)) m' None"
        using Some null(1) by (auto simp: dup_done_def dup_stopped_def freed_by_def intro!: exI [of _ 0])
      with step null(2) m'(1) show ?thesis by auto
    next
      case ok
      have fr: "q \<notin> addrs ys" using ok(2) y(3) dlseg_live by blast
      have "cells m1 a = cells m a" if "a \<in> addrs ys" for a
        using ok(4) Cons.prems(3) fr that by (auto simp: same_outside_def)
      then have "dlseg (cells m1) (fst y) ys 0" using y(3) dlseg_frame [of ys "cells m1" "cells m"] by blast
      moreover have "addrs ys \<inter> addrs (cs @ [(q, v)]) = {}" using fr Cons.prems(3) by auto
      ultimately obtain m' r where m': "listDup_loop env m1 c1 ?it = Some (m', r)"
        "dup_done env m1 c1 (cs @ [(q, v)]) (map snd ys) m' r" using Cons.IH [OF _ ok(3)] by blast
      have "dup_done env m copy cs (map snd (y # ys)) m' r"
        using dup_done_step [OF m'(2) ok(1,2,4,5,6) Some] by simp
      with step ok(1) m'(1) show ?thesis by auto
    qed
  qed
qed

end
