(* ===== verification/Adlist_Main.thy ===== *)
theory Adlist_Main
  imports Adlist_Ops
begin

section \<open>Doubly linked lists: main results\<close>

text \<open>
  The list operations as a client composes them, by position, and their refinement of the abstract
  sequence of \<^verbatim>\<open>Interfaces\<close>.
\<close>

definition outcome :: "('v mem \<times> 'v adlist \<times> bool) option \<Rightarrow> (('v mem \<times> 'v adlist) \<times> 'v seq_res) option" where
  "outcome r = do { (m, l, ok) \<leftarrow> r; Some ((m, l), if ok then QDone else QFail) }"

definition finished :: "('v mem \<times> 'v adlist) option \<Rightarrow> (('v mem \<times> 'v adlist) \<times> 'v seq_res) option" where
  "finished r = map_option (\<lambda>s. (s, QDone)) r"

definition value_at :: "'v mem \<Rightarrow> ptr \<Rightarrow> 'v option option" where
  "value_at m p = (if p = 0 then Some None else map_option (\<lambda>n. Some (node_value n)) (node m p))"

fun al_apply ::
  "'v al_env \<Rightarrow> 'v mem \<times> 'v adlist \<Rightarrow> 'v seq_op \<Rightarrow> (('v mem \<times> 'v adlist) \<times> 'v seq_res) option" where
  "al_apply env (m, l) (QPushHead v) = outcome (listAddNodeHead env m l v)"
| "al_apply env (m, l) (QPushTail v) = outcome (listAddNodeTail env m l v)"
| "al_apply env (m, l) (QInsert i v after) =
     do { p \<leftarrow> listIndex m l i;
          if p = 0 then Some ((m, l), QFail) else outcome (listInsertNode env m l p v after) }"
| "al_apply env (m, l) (QDel i) =
     do { p \<leftarrow> listIndex m l i; if p = 0 then Some ((m, l), QFail) else finished (listDelNode m l p) }"
| "al_apply env (m, l) (QNth i) = do { p \<leftarrow> listIndex m l i; v \<leftarrow> value_at m p; Some ((m, l), QElem v) }"
| "al_apply env (m, l) (QFind key) = do { p \<leftarrow> listSearchKey m l key; v \<leftarrow> value_at m p; Some ((m, l), QElem v) }"
| "al_apply env (m, l) QLen = Some ((m, l), QNum (unat (len l)))"
| "al_apply env (m, l) QRotateTailToHead = finished (listRotateTailToHead m l)"
| "al_apply env (m, l) QRotateHeadToTail = finished (listRotateHeadToTail m l)"
| "al_apply env (m, l) QClear = finished (listEmpty m l)"

text \<open>An index is a \<open>long\<close> other than the least one.\<close>

fun index_ok :: "'v seq_op \<Rightarrow> bool" where
  "index_ok (QInsert i v after) = (- (2 ^ 63) < i)"
| "index_ok (QDel i) = (- (2 ^ 63) < i)"
| "index_ok (QNth i) = (- (2 ^ 63) < i)"
| "index_ok oper = True"

text \<open>The list beside another one, \<open>l2\<close> with the nodes \<open>ns2\<close>, in the same memory.\<close>

definition al_rep ::
  "('v \<Rightarrow> 'v \<Rightarrow> bool) \<Rightarrow> 'v adlist \<Rightarrow> (ptr \<times> 'v) list \<Rightarrow> 'v mem \<times> 'v adlist \<Rightarrow> 'v list \<Rightarrow> bool" where
  "al_rep eq l2 ns2 s xs \<longleftrightarrow> (case s of (m, l) \<Rightarrow>
     node_matches l = eq \<and> list_rep m l2 ns2 \<and> (\<exists>ns. list_rep m l ns \<and> map snd ns = xs \<and> addrs ns \<inter> addrs ns2 = {}))"

lemma same_callbacks_matches: "same_callbacks l l' \<Longrightarrow> node_matches l' = node_matches l"
  by (simp add: same_callbacks_def node_matches_def fun_eq_iff)

lemma al_rep_step:
  assumes "node_matches l = eq" "list_rep m l2 ns2" "list_rep m' l' ns'" "map snd ns' = ys"
    "addrs ns \<inter> addrs ns2 = {}" "addrs ns' \<subseteq> addrs ns" "same_outside (addrs ns) m m'" "same_callbacks l l'"
  shows "al_rep eq l2 ns2 (m', l') ys"
  using assms list_rep_frame [OF assms(2,7)] by (auto simp: al_rep_def same_callbacks_matches)

lemma al_rep_added:
  assumes "node_matches l = eq" "list_rep m l2 ns2" "added env m l ns f r" "list_rep m l ns"
    "addrs ns \<inter> addrs ns2 = {}" "\<And>p. map snd (f p) = ys" "\<And>p. addrs (f p) = insert p (addrs ns)"
  shows "\<exists>s'. outcome r = Some (s', if zmalloc env m = 0 then QFail else QDone)
    \<and> al_rep eq l2 ns2 s' (if zmalloc env m = 0 then map snd ns else ys)"
proof (cases "zmalloc env m = 0")
  case True
  with assms(3) have "r = Some (m, l, False)" by (auto simp: added_def)
  with True assms(1,2,4,5) show ?thesis by (auto simp: outcome_def al_rep_def)
next
  case False
  with assms(3) obtain m' l' p where p: "r = Some (m', l', True)" "cells m p = None" "list_rep m' l' (f p)"
    "same_outside (insert p (addrs ns)) m m'" "same_callbacks l l'" by (auto simp: added_def)
  have a: "addrs (f p) \<inter> addrs ns2 = {}" using list_rep_fresh(1) [OF assms(2) p(2)] assms(5,7) by auto
  have "al_rep eq l2 ns2 (m', l') ys"
    by (rule al_rep_step [OF assms(1,2) p(3) assms(6) a _ _ p(5)]) (use assms(7) p(4) in auto)
  with False p(1) show ?thesis by (auto simp: outcome_def)
qed

lemma split_at:
  assumes "idx_in i ns"
  shows "nat (norm_idx i ns) < length ns"
    "ns = take (nat (norm_idx i ns)) ns @ ns ! nat (norm_idx i ns) # drop (Suc (nat (norm_idx i ns))) ns"
proof -
  show k: "nat (norm_idx i ns) < length ns" using assms by (auto simp: idx_in_def)
  show "ns = take (nat (norm_idx i ns)) ns @ ns ! nat (norm_idx i ns) # drop (Suc (nat (norm_idx i ns))) ns"
    by (rule id_take_nth_drop [OF k])
qed

lemma idx_map [simp]: "idx_in i (map f ns) = idx_in i ns" "norm_idx i (map f ns) = norm_idx i ns"
  by (simp_all add: idx_in_def norm_idx_def)

lemma list_rep_nth_nonnull: "list_rep m l ns \<Longrightarrow> k < length ns \<Longrightarrow> fst (ns ! k) \<noteq> 0"
  using list_rep_nonnull [of m l ns] by (metis addrs_def image_eqI nth_mem)

lemma list_rep_value: "list_rep m l ns \<Longrightarrow> x \<in> set ns \<Longrightarrow> value_at m (fst x) = Some (Some (snd x))"
  by (auto simp: value_at_def list_rep_def dest!: split_list)

lemma value_at_0 [simp]: "value_at m 0 = Some None"
  by (simp add: value_at_def)

lemma al_insert:
  assumes rep: "node_matches l = eq" "list_rep m l2 ns2" "list_rep m l ns" "addrs ns \<inter> addrs ns2 = {}"
    and al: "alloc_ok env" and i: "- (2 ^ 63) < i"
  shows "\<exists>s'. al_apply env (m, l) (QInsert i v after)
        = Some (s', snd (spec_seq_step eq (zmalloc env m = 0) (QInsert i v after) (map snd ns)))
    \<and> al_rep eq l2 ns2 s' (fst (spec_seq_step eq (zmalloc env m = 0) (QInsert i v after) (map snd ns)))"
proof (cases "idx_in i ns")
  case False
  with rep i show ?thesis by (auto simp: listIndex_rep al_rep_def Let_def spec_seq_step_def)
next
  case True
  let ?k = "nat (norm_idx i ns)"
  let ?xs = "take ?k ns" and ?ys = "drop (Suc ?k) ns"
  obtain a w where aw: "ns ! ?k = (a, w)" by (cases "ns ! ?k")
  from split_at [OF True] have k: "?k < length ns" and ns: "ns = ?xs @ (a, w) # ?ys" by (auto simp: aw)
  have p: "listIndex m l i = Some a" "a \<noteq> 0"
    using listIndex_rep [OF rep(3) i] True list_rep_nth_nonnull [OF rep(3) k] by (simp_all add: aw)
  let ?f = "\<lambda>q. if after then ?xs @ (a, w) # (q, v) # ?ys else ?xs @ (q, v) # (a, w) # ?ys"
  let ?k' = "?k + (if after then 1 else 0)"
  have vals: "map snd (?f q) = take ?k' (map snd ns) @ v # drop ?k' (map snd ns)" for q
  proof -
    have "take (Suc ?k) ns = ?xs @ [(a, w)]" using k by (simp add: take_Suc_conv_app_nth aw)
    moreover have "drop ?k ns = (a, w) # ?ys" using k by (metis Cons_nth_drop_Suc aw)
    ultimately show ?thesis by (simp add: take_map drop_map)
  qed
  have ad: "addrs (?f q) = insert q (addrs ns)" for q
    using arg_cong [OF ns, of addrs] by auto
  have "list_rep m l (?xs @ (a, w) # ?ys)" using rep(3) ns by simp
  from listInsertNode_rep [OF this al, of after v]
  have "added env m l ns ?f (listInsertNode env m l a v after)" by (simp only: ns [symmetric])
  from al_rep_added [OF rep(1,2) this rep(3,4) vals ad] p True show ?thesis by (auto simp: Let_def spec_seq_step_def)
qed

lemma al_delete:
  assumes rep: "node_matches l = eq" "list_rep m l2 ns2" "list_rep m l ns" "addrs ns \<inter> addrs ns2 = {}"
    and i: "- (2 ^ 63) < i"
  shows "\<exists>s' ys r. al_apply env (m, l) (QDel i) = Some (s', r) \<and> al_rep eq l2 ns2 s' ys
    \<and> spec_seq eq (QDel i) (map snd ns) = (ys, r)"
proof (cases "idx_in i ns")
  case False
  with rep i show ?thesis by (auto simp: listIndex_rep al_rep_def Let_def)
next
  case True
  let ?k = "nat (norm_idx i ns)"
  let ?xs = "take ?k ns" and ?ys = "drop (Suc ?k) ns"
  obtain a w where aw: "ns ! ?k = (a, w)" by (cases "ns ! ?k")
  from split_at [OF True] have k: "?k < length ns" and ns: "ns = ?xs @ (a, w) # ?ys" by (auto simp: aw)
  have p: "listIndex m l i = Some a" "a \<noteq> 0"
    using listIndex_rep [OF rep(3) i] True list_rep_nth_nonnull [OF rep(3) k] by (simp_all add: aw)
  have "list_rep m l (?xs @ (a, w) # ?ys)" using rep(3) ns by simp
  from listDelNode_rep [OF this] obtain m' l' where d: "listDelNode m l a = Some (m', l')"
    "list_rep m' l' (?xs @ ?ys)" "same_outside (addrs ns) m m'" "same_callbacks l l'"
    by (auto simp only: ns [symmetric])
  have "al_rep eq l2 ns2 (m', l') (take ?k (map snd ns) @ drop (Suc ?k) (map snd ns))"
    by (rule al_rep_step [OF rep(1,2) d(2) _ rep(4) _ d(3,4)])
       (use arg_cong [OF ns, of addrs] in \<open>auto simp: take_map drop_map\<close>)
  with d(1) p True show ?thesis by (auto simp: Let_def finished_def)
qed

lemma al_find:
  assumes "list_rep m l ns"
  shows "al_apply env (m, l) (QFind key) = Some ((m, l), QElem (find (node_matches l key) (map snd ns)))"
proof -
  have f: "find (node_matches l key) (map snd ns) = map_option snd (find (\<lambda>x. node_matches l key (snd x)) ns)"
    by (induction ns) auto
  show ?thesis
  proof (cases "find (\<lambda>x. node_matches l key (snd x)) ns")
    case None
    with assms f show ?thesis by (simp add: listSearchKey_rep)
  next
    case (Some x)
    then have "x \<in> set ns" by (auto simp: find_Some_iff)
    with Some assms f show ?thesis by (simp add: listSearchKey_rep list_rep_value)
  qed
qed

lemma al_nth:
  assumes "list_rep m l ns" "- (2 ^ 63) < i"
  shows "al_apply env (m, l) (QNth i) = Some ((m, l), snd (spec_seq eq (QNth i) (map snd ns)))"
  using assms split_at(1) [of i ns] list_rep_value [OF assms(1), of "ns ! nat (norm_idx i ns)"]
  by (auto simp: listIndex_rep)

lemma al_apply_refines:
  assumes "al_rep eq l2 ns2 s xs" "index_ok oper" "alloc_ok env"
  shows "\<exists>s' ys r. al_apply env s oper = Some (s', r) \<and> al_rep eq l2 ns2 s' ys
    \<and> spec_seq_step eq (zmalloc env (fst s) = 0) oper xs = (ys, r)"
proof -
  obtain m l ns where s: "s = (m, l)" "map snd ns = xs" and
    rep: "node_matches l = eq" "list_rep m l2 ns2" "list_rep m l ns" "addrs ns \<inter> addrs ns2 = {}"
    using assms(1) by (auto simp: al_rep_def)
  note al_rep_step' = al_rep_step [OF rep(1,2) _ _ rep(4)]
  note al_rep_added' = al_rep_added [OF rep(1,2) _ rep(3,4)]
  show ?thesis
  proof (cases oper)
    case (QPushHead v)
    from al_rep_added' [OF listAddNodeHead_rep [OF rep(3) assms(3), of v], of "v # xs"] s QPushHead
    show ?thesis by (auto simp: spec_seq_step_def)
  next
    case (QPushTail v)
    from al_rep_added' [OF listAddNodeTail_rep [OF rep(3) assms(3), of v], of "xs @ [v]"] s QPushTail
    show ?thesis by (auto simp: spec_seq_step_def)
  next
    case (QInsert i v after)
    with al_insert [OF rep assms(3), of i v after] assms(2) s show ?thesis by (metis fst_conv index_ok.simps(1) prod.collapse)
  next
    case (QDel i)
    with al_delete [OF rep, of i env] assms(2) s show ?thesis by (simp add: spec_seq_step_def)
  next
    case (QNth i)
    with al_nth [OF rep(3), of i env eq] assms(1,2) s show ?thesis by (auto simp: spec_seq_step_def)
  next
    case (QFind key)
    with al_find [OF rep(3), of env key] assms(1) s rep(1) show ?thesis by (auto simp: spec_seq_step_def)
  next
    case QLen
    with list_rep_len [OF rep(3)] assms(1) s show ?thesis by (auto simp: spec_seq_step_def)
  next
    case QRotateTailToHead
    with listRotateTailToHead_rep [OF rep(3)] s show ?thesis
      by (fastforce simp: finished_def rotate_map addrs_def spec_seq_step_def intro: al_rep_step')
  next
    case QRotateHeadToTail
    with listRotateHeadToTail_rep [OF rep(3)] s show ?thesis
      by (fastforce simp: finished_def rotate1_map addrs_def spec_seq_step_def intro: al_rep_step')
  next
    case QClear
    with listEmpty_rep [OF rep(3)] s show ?thesis
      by (fastforce simp: finished_def spec_seq_step_def intro: al_rep_step')
  qed
qed

text \<open>The hypothesis on the allocator is part of the representation, as it must hold throughout.\<close>

interpretation al_seq: linked_seq "al_apply env" "\<lambda>s xs. alloc_ok env \<and> al_rep eq l2 ns2 s xs" eq index_ok
    "\<lambda>s. zmalloc env (fst s) = 0"
  for env eq l2 ns2
  by unfold_locales (use al_apply_refines in fastforce)

subsection \<open>Deleting while iterating\<close>

text \<open>
  The loop of the comment above \<open>listNext\<close>, with a body that may delete the node it was given: \<open>P\<close>
  decides.  The nodes before the iterator are \<open>xs\<close>, those it has yet to visit are \<open>ys\<close>.
\<close>

partial_function (option) sweep ::
  "('v \<Rightarrow> bool) \<Rightarrow> 'v mem \<Rightarrow> 'v adlist \<Rightarrow> listIter \<Rightarrow> ('v mem \<times> 'v adlist) option" where
  "sweep P m l it =
     do { (it, nd) \<leftarrow> listNext m it;
          if nd = 0 then Some (m, l)
          else do {
            n \<leftarrow> node m nd;
            if P (node_value n) then do { (m, l) \<leftarrow> listDelNode m l nd; sweep P m l it }
            else sweep P m l it } }"

lemma sweep_end: "sweep P m l \<lparr>iter_next = 0, direction = dir\<rparr> = Some (m, l)"
  by (subst sweep.simps) simp

lemma freed_by_Nil [simp]: "freed_by l [] = []"
  by (simp add: freed_by_def)

lemma freed_by_Cons: "same_callbacks l l' \<Longrightarrow> freed_by l [v] @ freed_by l' vs = freed_by l (v # vs)"
  by (simp add: freed_by_def same_callbacks_def)

lemma sweep_head:
  "list_rep m l (xs @ ys) \<Longrightarrow>
     \<exists>m' l'. sweep P m l \<lparr>iter_next = first ys 0, direction = AL_START_HEAD\<rparr> = Some (m', l')
       \<and> list_rep m' l' (xs @ filter (\<lambda>x. \<not> P (snd x)) ys)
       \<and> freed m' = freed m @ freed_by l (filter P (map snd ys)) \<and> same_callbacks l l'"
proof (induction ys arbitrary: m l xs)
  case Nil
  then show ?case by (simp add: sweep_end)
next
  case (Cons y ys)
  obtain a v where y: "y = (a, v)" by (cases y)
  have rep: "list_rep m l (xs @ (a, v) # ys)" using Cons.prems y by simp
  then have a: "a \<noteq> 0" "\<exists>n. cells m a = Some n \<and> node_value n = v" by (auto simp: list_rep_def)
  show ?case
  proof (cases "P v")
    case True
    from listDelNode_rep [OF rep] obtain m1 l1 where d: "listDelNode m l a = Some (m1, l1)"
      "list_rep m1 l1 (xs @ ys)" "freed m1 = freed m @ freed_by l [v]" "same_callbacks l l1" by blast
    have "sweep P m l \<lparr>iter_next = first (y # ys) 0, direction = AL_START_HEAD\<rparr>
        = sweep P m1 l1 \<lparr>iter_next = first ys 0, direction = AL_START_HEAD\<rparr>"
      using a True d(1) y by (subst sweep.simps) (auto simp: listNext_head [OF rep])
    with Cons.IH [OF d(2)] True y show ?thesis
      using same_callbacks_trans [OF d(4)] by (auto simp: d(3) freed_by_Cons [OF d(4)])
  next
    case False
    have "sweep P m l \<lparr>iter_next = first (y # ys) 0, direction = AL_START_HEAD\<rparr>
        = sweep P m l \<lparr>iter_next = first ys 0, direction = AL_START_HEAD\<rparr>"
      using a False y by (subst sweep.simps) (auto simp: listNext_head [OF rep])
    with Cons.IH [of m l "xs @ [y]"] Cons.prems False y show ?thesis by simp
  qed
qed

lemma sweep_tail:
  "list_rep m l (xs @ ys) \<Longrightarrow>
     \<exists>m' l'. sweep P m l \<lparr>iter_next = final 0 xs, direction = AL_START_TAIL\<rparr> = Some (m', l')
       \<and> list_rep m' l' (filter (\<lambda>x. \<not> P (snd x)) xs @ ys)
       \<and> freed m' = freed m @ freed_by l (rev (filter P (map snd xs))) \<and> same_callbacks l l'"
proof (induction xs arbitrary: m l ys rule: rev_induct)
  case Nil
  then show ?case by (simp add: sweep_end)
next
  case (snoc x xs)
  obtain a v where x: "x = (a, v)" by (cases x)
  have rep: "list_rep m l (xs @ (a, v) # ys)" using snoc.prems x by simp
  then have a: "a \<noteq> 0" "\<exists>n. cells m a = Some n \<and> node_value n = v" by (auto simp: list_rep_def)
  show ?case
  proof (cases "P v")
    case True
    from listDelNode_rep [OF rep] obtain m1 l1 where d: "listDelNode m l a = Some (m1, l1)"
      "list_rep m1 l1 (xs @ ys)" "freed m1 = freed m @ freed_by l [v]" "same_callbacks l l1" by blast
    have "sweep P m l \<lparr>iter_next = final 0 (xs @ [x]), direction = AL_START_TAIL\<rparr>
        = sweep P m1 l1 \<lparr>iter_next = final 0 xs, direction = AL_START_TAIL\<rparr>"
      using a True d(1) x by (subst sweep.simps) (auto simp: listNext_tail [OF rep])
    with snoc.IH [OF d(2)] True x show ?thesis
      using same_callbacks_trans [OF d(4)] by (auto simp: d(3) freed_by_Cons [OF d(4)])
  next
    case False
    have "sweep P m l \<lparr>iter_next = final 0 (xs @ [x]), direction = AL_START_TAIL\<rparr>
        = sweep P m l \<lparr>iter_next = final 0 xs, direction = AL_START_TAIL\<rparr>"
      using a False x by (subst sweep.simps) (auto simp: listNext_tail [OF rep])
    with snoc.IH [of m l "x # ys"] snoc.prems False x show ?thesis by simp
  qed
qed

subsection \<open>Main results\<close>

text \<open>An allocator with four addresses, for the witnesses.\<close>

definition al_env_ex :: "nat al_env" where
  "al_env_ex = \<lparr>zmalloc = (\<lambda>m. if cells m 8 = None then 8 else if cells m 16 = None then 16
       else if cells m 24 = None then 24 else if cells m 32 = None then 32 else 0),
     junk = 5, zmalloc_list = (\<lambda>m. True), zmalloc_iter = (\<lambda>m. True)\<rparr>"

definition al_list0 :: "nat adlist" where
  "al_list0 = \<lparr>head = 0, tail = 0, dup = None, free = True, match = None, len = 0\<rparr>"

definition al_list_ex :: "nat adlist" where
  "al_list_ex = \<lparr>head = 8, tail = 16, dup = None, free = True, match = None, len = 2\<rparr>"

definition al_mem_ex :: "nat mem" where
  "al_mem_ex = \<lparr>cells = [8 \<mapsto> \<lparr>node_prev = 0, node_next = 16, node_value = 3\<rparr>,
       16 \<mapsto> \<lparr>node_prev = 8, node_next = 0, node_value = 4\<rparr>], freed = []\<rparr>"

lemma al_env_ex_ok: "alloc_ok al_env_ex"
  by (auto simp: alloc_ok_def al_env_ex_def)

lemma al_list_ex_rep: "list_rep al_mem_ex al_list_ex [(8, 3), (16, 4)]"
  by (simp add: list_rep_def al_mem_ex_def al_list_ex_def)

text \<open>
  C28. Refinement.  Any sequence of the list operations on a newly created list (pushes at both ends,
  insertion before and after a position, deletion, search, access by position, rotations, clearing),
  for every allocator that returns NULL or memory not in use, never follows a pointer that is NULL or
  freed, and answers like the abstract sequence, where exactly the allocating operations for which
  \<open>zmalloc\<close> returns NULL are refused and leave the list as it was; another list in the same memory is not
  disturbed.
\<close>

theorem adlist_refines_sequence:
  assumes "alloc_ok env" "listCreate env m = Some l" "list_rep m l2 ns2" "list_all index_ok ops"
  shows "\<exists>m' l' ns. run_seq (al_apply env) ops (m, l) = Some ((m', l'), snd (spec_seq_run (=)
        (zip ops (full_steps (al_apply env) (\<lambda>s. zmalloc env (fst s) = 0) ops (m, l))) []))
    \<and> list_rep m' l' ns
    \<and> map snd ns = fst (spec_seq_run (=)
        (zip ops (full_steps (al_apply env) (\<lambda>s. zmalloc env (fst s) = 0) ops (m, l))) [])
    \<and> list_rep m' l2 ns2 \<and> addrs ns \<inter> addrs ns2 = {}"
proof -
  have "al_rep (=) l2 ns2 (m, l) []"
    using assms(2,3) by (auto simp: listCreate_def al_rep_def node_matches_def list_rep_def fun_eq_iff
      split: if_splits)
  with al_seq.run_refines [of env "(=)" l2 ns2 "(m, l)" "[]" ops] assms(1,4) obtain s' where
    "run_seq (al_apply env) ops (m, l) = Some (s', snd (spec_seq_run (=)
        (zip ops (full_steps (al_apply env) (\<lambda>s. zmalloc env (fst s) = 0) ops (m, l))) []))"
    "al_rep (=) l2 ns2 s' (fst (spec_seq_run (=)
        (zip ops (full_steps (al_apply env) (\<lambda>s. zmalloc env (fst s) = 0) ops (m, l))) []))" by blast
  then show ?thesis by (cases s') (auto simp: al_rep_def)
qed

text \<open>Two of the four cells are in use: the third allocation fails.\<close>

theorem adlist_refines_sequence_witness:
  "\<exists>m' l' ns. run_seq (al_apply al_env_ex) [QPushHead 1, QInsert (-1) 2 True, QPushTail 3, QNth 1]
        (al_mem_ex, al_list0\<lparr>free := False\<rparr>) = Some ((m', l'), [QDone, QDone, QFail, QElem (Some 2)])
    \<and> list_rep m' l' ns \<and> map snd ns = [1, 2]
    \<and> list_rep m' al_list_ex [(8, 3), (16, 4)] \<and> addrs ns \<inter> addrs [(8, 3), (16, 4 :: nat)] = {}"
proof -
  let ?ops = "[QPushHead 1, QInsert (-1) 2 True, QPushTail 3, QNth 1 :: nat seq_op]"
  let ?s = "(al_mem_ex, al_list0\<lparr>free := False\<rparr>)"
  have f: "full_steps (al_apply al_env_ex) (\<lambda>s. zmalloc al_env_ex (fst s) = 0) ?ops ?s = [False, False, True, True]"
    by code_simp
  have "listCreate al_env_ex al_mem_ex = Some (al_list0\<lparr>free := False\<rparr>)"
    by (simp add: listCreate_def al_env_ex_def al_list0_def)
  from adlist_refines_sequence [OF al_env_ex_ok this al_list_ex_rep, of ?ops] show ?thesis
    unfolding f by (simp add: spec_seq_step_def idx_in_def norm_idx_def)
qed

text \<open>
  C29. Deleting while iterating.  A loop over a list with \<open>listNext\<close>, from either end, whose body deletes
  the node just returned whenever it likes, visits every node once, ends, and leaves exactly the nodes
  it has not deleted, at their addresses and in their order; the deleted values are freed once each.
\<close>

theorem iterate_and_delete:
  assumes "list_rep m l ns"
  shows "\<exists>m' l'. sweep P m l (if fwd then listRewind l else listRewindTail l) = Some (m', l')
    \<and> list_rep m' l' (filter (\<lambda>x. \<not> P (snd x)) ns)
    \<and> freed m' = freed m @ (if free l then (if fwd then id else rev) (filter P (map snd ns)) else [])"
  using sweep_head [of m l "[]" ns P] sweep_tail [of m l ns "[]" P] assms
  by (auto simp: listRewind_def listRewindTail_def list_rep_def freed_by_def)

theorem iterate_and_delete_witness:
  "\<exists>m' l'. sweep even al_mem_ex al_list_ex (if True then listRewind al_list_ex else listRewindTail al_list_ex)
      = Some (m', l')
    \<and> list_rep m' l' (filter (\<lambda>x. \<not> even (snd x)) [(8, 3), (16, 4)])
    \<and> freed m' = freed al_mem_ex @ (if free al_list_ex then (if True then id else rev)
        (filter even (map snd [(8 :: ptr, 3), (16, 4)])) else [])"
  by (rule iterate_and_delete [OF al_list_ex_rep])

lemma listDup_done:
  assumes "list_rep m l ns" "alloc_ok env" "zmalloc_list env m"
  shows "\<exists>m' r. listDup env m l = Some (m', r) \<and> dup_done env m (empty_like l) [] (map snd ns) m' r"
proof -
  have "list_rep m (empty_like l) []" by (simp add: empty_like_def list_rep_def)
  moreover have "dlseg (cells m) 0 ns 0" "head l = first ns 0" using assms(1) by (simp_all add: list_rep_def)
  ultimately show ?thesis
    using listDup_loop_rep [OF assms(2), of m 0 ns "empty_like l" "[]"] assms(3)
    by (auto simp: listDup_def listRewind_def listCreate_def empty_like_def)
qed

lemma empty_like_callbacks [simp]: "dup_value (empty_like l) = dup_value l" "freed_by (empty_like l) = freed_by l"
  by (auto simp: empty_like_def dup_value_def freed_by_def fun_eq_iff)

lemma dup_copied:
  assumes "list_rep m l ns" "dup_done env m (empty_like l) [] (map snd ns) m' (Some l')"
  shows "\<exists>cs. list_rep m' l' cs \<and> those (map (dup_value l) (map snd ns)) = Some (map snd cs)
    \<and> list_rep m' l ns \<and> addrs cs \<inter> dom (cells m) = {} \<and> same_outside (addrs cs) m m' \<and> freed m' = freed m"
proof -
  from assms(2) obtain cs where cs: "list_rep m' l' cs" "those (map (dup_value l) (map snd ns)) = Some (map snd cs)"
    "freed m' = freed m" "\<forall>a \<in> addrs cs. cells m a = None" "same_outside (addrs cs) m m'"
    by (auto simp: dup_done_def same_outside_def)
  have "addrs ns \<inter> addrs cs = {}"
    using cs(4) dlseg_live [of "cells m" 0 ns 0] assms(1) by (fastforce simp: list_rep_def)
  with list_rep_frame [OF assms(1) cs(5)] have "list_rep m' l ns" by simp
  moreover have "addrs cs \<inter> dom (cells m) = {}" using cs(4) by (auto simp: dom_def)
  ultimately show ?thesis using cs by (auto intro!: exI [of _ cs])
qed

text \<open>
  C30. Duplication.  \<open>listDup\<close> ends.  A copy it returns holds the duplicated values in order, in memory
  that was not in use, and leaves the original and every other cell alone.  It returns NULL only when
  the list header cannot be allocated, or when, after the first \<open>k\<close> values have been copied, the \<open>dup\<close>
  callback fails on the next one or there is no memory for its node; then every cell of the memory is
  what it was before, and the values duplicated so far have been freed once each.
\<close>

theorem listDup_spec:
  assumes "list_rep m l ns" "alloc_ok env"
  shows "\<exists>m' r. listDup env m l = Some (m', r)
    \<and> (case r of
         Some l' \<Rightarrow> (\<exists>cs. list_rep m' l' cs \<and> those (map (dup_value l) (map snd ns)) = Some (map snd cs)
            \<and> list_rep m' l ns \<and> addrs cs \<inter> dom (cells m) = {} \<and> same_outside (addrs cs) m m' \<and> freed m' = freed m)
       | None \<Rightarrow> cells m' = cells m
            \<and> (if \<not> zmalloc_list env m then freed m' = freed m
               else \<exists>k vs mk lk. k < length ns \<and> those (map (dup_value l) (take k (map snd ns))) = Some vs
                 \<and> append_all env m (empty_like l) vs = Some (mk, lk)
                 \<and> (case dup_value l (snd (ns ! k)) of
                      None \<Rightarrow> mset (freed m') = mset (freed m) + mset (if free l then vs else [])
                    | Some v \<Rightarrow> zmalloc env mk = 0
                        \<and> mset (freed m') = mset (freed m) + mset (if free l then v # vs else []))))"
proof (cases "zmalloc_list env m")
  case False
  then show ?thesis by (simp add: listDup_def listCreate_def)
next
  case True
  with listDup_done [OF assms] obtain m' r where
    m': "listDup env m l = Some (m', r)" "dup_done env m (empty_like l) [] (map snd ns) m' r" by blast
  show ?thesis
  proof (cases r)
    case None
    with m' have d: "cells m' = cells m" "dup_stopped env m (empty_like l) [] (map snd ns) m'"
      by (auto simp: dup_done_def fun_eq_iff)
    from d(2) obtain k vs mk lk where k: "k < length ns" "those (map (dup_value l) (take k (map snd ns))) = Some vs"
      "append_all env m (empty_like l) vs = Some (mk, lk)"
      "case dup_value l (snd (ns ! k)) of
         None \<Rightarrow> mset (freed m') = mset (freed m) + mset (if free l then vs else [])
       | Some v \<Rightarrow> zmalloc env mk = 0 \<and> mset (freed m') = mset (freed m) + mset (if free l then v # vs else [])"
      unfolding dup_stopped_def empty_like_callbacks append_Nil freed_by_def by auto
    then show ?thesis
      by (intro exI [of _ m'] exI [of _ None])
         (simp only: m'(1) None d(1) True option.case simp_thms if_False, blast)
  next
    case (Some l')
    with dup_copied [OF assms(1)] m' show ?thesis by (intro exI [of _ m'] exI [of _ r]) simp
  qed
qed

text \<open>There is room for the two nodes of the copy, so that it succeeds.\<close>

theorem listDup_spec_witness:
  "\<exists>m' l' cs. listDup al_env_ex al_mem_ex al_list_ex = Some (m', Some l')
    \<and> list_rep m' l' cs \<and> map snd cs = [3, 4] \<and> list_rep m' al_list_ex [(8, 3), (16, 4)]
    \<and> addrs cs \<inter> dom (cells al_mem_ex) = {} \<and> same_outside (addrs cs) al_mem_ex m' \<and> freed m' = freed al_mem_ex"
proof -
  have d: "dup_value al_list_ex = Some" by (simp add: dup_value_def al_list_ex_def fun_eq_iff)
  have room: "zmalloc al_env_ex mk \<noteq> 0"
    if "append_all al_env_ex al_mem_ex (empty_like al_list_ex) vs = Some (mk, lk)"
      "vs = [] \<or> vs = [3]" for vs mk lk
  proof -
    have "map_option (\<lambda>(m, l). zmalloc al_env_ex m) (append_all al_env_ex al_mem_ex (empty_like al_list_ex) []) = Some 24"
      "map_option (\<lambda>(m, l). zmalloc al_env_ex m) (append_all al_env_ex al_mem_ex (empty_like al_list_ex) [3]) = Some 32"
      by code_simp+
    with that show ?thesis by auto
  qed
  have "\<not> (k < length [(8 :: ptr, 3 :: nat), (16, 4)] \<and> those (map Some (take k (map snd [(8 :: ptr, 3), (16, 4)]))) = Some vs
      \<and> append_all al_env_ex al_mem_ex (empty_like al_list_ex) vs = Some (mk, lk) \<and> zmalloc al_env_ex mk = 0)" for k vs mk lk
    using room [of vs mk lk] by (cases k; cases "k - 1") auto
  moreover have "zmalloc_list al_env_ex al_mem_ex" by (simp add: al_env_ex_def)
  moreover have "those (map Some [3, 4 :: nat]) = Some [3, 4]" by simp
  ultimately show ?thesis
    using listDup_spec [OF al_list_ex_rep al_env_ex_ok] unfolding d
    by (fastforce split: option.splits)
qed

end
