(* ===== verification/Kvstore_Index.thy ===== *)
theory Kvstore_Index
  imports Prelude
begin

section \<open>The cumulative key count of a key-value store (kvstore.c)\<close>

text \<open>
  \<open>dict_size_index\<close> of \<^verbatim>\<open>kvstore.c\<close> is a binary indexed tree (Fenwick tree) over the sizes of the
  dictionaries: entry \<open>i\<close>, counted from 1, holds the number of keys of the dictionaries from
  \<open>i - (i & -i)\<close> up to \<open>i - 1\<close>.  Here are its three loops and what they compute; entries are 64-bit
  words and wrap.  An access outside of the array, a failed assertion and the loop that would not end
  from index 0 are \<open>None\<close>.
\<close>

unbundle bit_operations_syntax

subsection \<open>The loops\<close>

definition lowbit :: "nat \<Rightarrow> nat" where
  "lowbit idx = nat (int idx AND - int idx)"

lemma lowbit_even: "lowbit (2 * n) = 2 * lowbit n"
proof -
  have "- (2 * int n) div 2 = - int n" using nonzero_mult_div_cancel_left [of 2 "- int n"] by simp
  then have "2 * int n AND - (2 * int n) = 2 * (int n AND - int n)" by (subst and_int_rec) simp
  then show ?thesis by (simp add: lowbit_def nat_mult_distrib)
qed

lemma lowbit_odd: "lowbit (2 * n + 1) = 1"
proof -
  have "(2 * int n + 1) div 2 = int n" "- (2 * int n + 1) div 2 = NOT (int n)" by (simp_all add: not_int_def)
  then have "(2 * int n + 1) AND - (2 * int n + 1) = 1" by (subst and_int_rec) simp
  moreover have "int (2 * n + 1) = 2 * int n + 1" by simp
  ultimately show ?thesis by (simp only: lowbit_def nat_1)
qed

lemma lowbit_pow: "lowbit (2 ^ k * (2 * q + 1)) = 2 ^ k"
proof (induction k)
  case (Suc k)
  have "2 ^ Suc k * (2 * q + 1) = 2 * (2 ^ k * (2 * q + 1))" by simp
  with Suc show ?case by (simp only: lowbit_even) simp
qed (use lowbit_odd [of q] in simp)

lemma pow_odd_decomp: "0 < n \<Longrightarrow> \<exists>k q. n = 2 ^ k * (2 * q + 1 :: nat)"
proof (induction n rule: less_induct)
  case (less n)
  show ?case
  proof (cases "even n")
    case True
    then obtain m where m: "n = 2 * m" by blast
    with less.prems have "0 < m" "m < n" by simp_all
    from less.IH [OF this(2,1)] obtain k q where "m = 2 ^ k * (2 * q + 1)" by blast
    with m have "n = 2 ^ Suc k * (2 * q + 1)" by simp
    then show ?thesis by blast
  next
    case False
    then obtain q where "n = 2 ^ 0 * (2 * q + 1)" by (auto elim: oddE)
    then show ?thesis by blast
  qed
qed

lemma lowbit_pos: "0 < n \<Longrightarrow> 0 < lowbit n"
  using pow_odd_decomp [of n] lowbit_pow by fastforce

lemma lowbit_le: "lowbit n \<le> n"
proof (cases "n = 0")
  case False
  then obtain k q where "n = 2 ^ k * (2 * q + 1)" using pow_odd_decomp [of n] by auto
  then show ?thesis using lowbit_pow [of k q] by simp
qed (simp add: lowbit_def)

function cumulativeRead_loop :: "64 word list \<Rightarrow> nat \<Rightarrow> 64 word \<Rightarrow> 64 word option" where
  "cumulativeRead_loop t idx acc =
     (if idx = 0 then Some acc
      else if length t \<le> idx then None
      else cumulativeRead_loop t (idx - lowbit idx) (acc + t ! idx))"
  by pat_completeness auto
termination
  by (relation "measure (\<lambda>(t, idx, acc). idx)") (auto simp: lowbit_pos)

function cumulativeAdd_loop :: "nat \<Rightarrow> int \<Rightarrow> 64 word list \<Rightarrow> nat \<Rightarrow> 64 word list option" where
  "cumulativeAdd_loop n delta t idx =
     (if n < idx then Some t
      else if length t \<le> idx \<or> idx = 0 then None
      else if delta < 0 \<and> \<not> t ! idx \<ge> of_int (abs delta) then None
      else cumulativeAdd_loop n delta (t[idx := t ! idx + of_int delta]) (idx + lowbit idx))"
  by pat_completeness auto
termination
proof (relation "measure (\<lambda>(n, delta, t, idx). Suc n - idx)", goal_cases)
  case (2 n delta t idx)
  with lowbit_pos [of idx] show ?case by simp
qed simp

fun findIndex_loop :: "64 word list \<Rightarrow> nat \<Rightarrow> nat \<Rightarrow> 64 word \<Rightarrow> nat option" where
  "findIndex_loop t i result target =
     (if i = 0 then Some result
      else if length t \<le> result + i then None
      else if target > t ! (result + i) then findIndex_loop t (i div 2) (result + i) (target - t ! (result + i))
      else findIndex_loop t (i div 2) result target)"

declare cumulativeRead_loop.simps [simp del] cumulativeAdd_loop.simps [simp del] findIndex_loop.simps [simp del]

declare of_nat_sum [simp del]

lemma unat_of_nat64: "n < 2 ^ 64 \<Longrightarrow> unat (of_nat n :: 64 word) = n"
  by (simp add: unat_of_nat take_bit_eq_mod)

subsection \<open>What the entries hold\<close>

definition fenwick :: "nat \<Rightarrow> (nat \<Rightarrow> nat) \<Rightarrow> 64 word list \<Rightarrow> bool" where
  "fenwick n f t \<longleftrightarrow> length t = Suc n
     \<and> (\<forall>i. 0 < i \<and> i \<le> n \<longrightarrow> t ! i = of_nat (sum f {i - lowbit i..<i}))"

lemma fenwick_0: "fenwick n (\<lambda>j. 0) (replicate (Suc n) 0)"
  unfolding fenwick_def by (auto simp del: replicate_Suc)

lemma cumulativeRead_loop_sum:
  assumes "fenwick n f t"
  shows "idx \<le> n \<Longrightarrow> cumulativeRead_loop t idx acc = Some (acc + of_nat (sum f {..<idx}))"
proof (induction idx arbitrary: acc rule: less_induct)
  case (less idx)
  show ?case
  proof (cases "idx = 0")
    case True
    then show ?thesis by (simp add: cumulativeRead_loop.simps)
  next
    case False
    let ?p = "idx - lowbit idx"
    have p: "?p < idx" using False lowbit_pos [of idx] by simp
    have t: "t ! idx = of_nat (sum f {?p..<idx})" "idx < length t"
      using assms False less.prems by (auto simp: fenwick_def)
    have s: "sum f {..<idx} = sum f {..<?p} + sum f {?p..<idx}"
      using sum.union_disjoint [of "{..<?p}" "{?p..<idx}" f] p by (simp add: ivl_disj_un ivl_disj_int)
    have "cumulativeRead_loop t idx acc = cumulativeRead_loop t ?p (acc + t ! idx)"
      using False t(2) by (subst cumulativeRead_loop.simps) simp
    also have "\<dots> = Some (acc + t ! idx + of_nat (sum f {..<?p}))"
      by (rule less.IH [OF p]) (use p less.prems in simp)
    finally show ?thesis by (simp add: t(1) s)
  qed
qed

subsection \<open>The indices an addition visits\<close>

definition covers :: "nat \<Rightarrow> nat \<Rightarrow> bool" where
  "covers d i \<longleftrightarrow> i - lowbit i \<le> d \<and> d < i"

lemma lowbit_shift:
  assumes "0 < r" "r < 2 ^ k"
  shows "lowbit (2 ^ k * m + r) = lowbit r"
proof -
  obtain j q where r: "r = 2 ^ j * (2 * q + 1)" using pow_odd_decomp [OF assms(1)] by blast
  have "(2::nat) ^ j \<le> r" by (simp add: r)
  from le_less_trans [OF this assms(2)] have "j < k" by simp
  then obtain e where "k = j + Suc e" by (metis add_Suc_right less_imp_Suc_add)
  then have "2 ^ k * m + r = 2 ^ j * (2 * (2 ^ e * m + q) + 1)" by (simp add: r power_add algebra_simps)
  then have "lowbit (2 ^ k * m + r) = 2 ^ j" by (simp only: lowbit_pow)
  moreover have "lowbit r = 2 ^ j" by (simp only: r lowbit_pow)
  ultimately show ?thesis by simp
qed

lemma covers_next:
  assumes "covers d i"
  shows "covers d (i + lowbit i)" "i < j \<Longrightarrow> j < i + lowbit i \<Longrightarrow> \<not> covers d j"
proof -
  have "0 < i" using assms by (simp add: covers_def)
  then obtain k q where i: "i = 2 ^ k * (2 * q + 1)" using pow_odd_decomp by blast
  have l: "lowbit i = 2 ^ k" unfolding i by (rule lowbit_pow)
  have "i - 2 ^ k = 2 ^ k * (2 * q)" by (simp add: i algebra_simps)
  then have lo: "2 ^ k * (2 * q) \<le> d" "d < i" using assms unfolding covers_def l by simp_all
  have n: "i + lowbit i = 2 ^ Suc k * (q + 1)" unfolding l by (simp add: i algebra_simps)
  obtain e p where e: "q + 1 = 2 ^ e * (2 * p + 1)" using pow_odd_decomp [of "q + 1"] by auto
  have "i + lowbit i = 2 ^ (Suc k + e) * (2 * p + 1)" by (simp only: n e power_add mult.assoc)
  then have "lowbit (i + lowbit i) = 2 ^ (Suc k + e)" by (simp only: lowbit_pow)
  moreover have "(2::nat) ^ Suc k \<le> 2 ^ (Suc k + e)" by (rule power_increasing) simp_all
  ultimately have "i + lowbit i - lowbit (i + lowbit i) \<le> i + lowbit i - 2 ^ Suc k"
    by (metis diff_le_mono2)
  also have "\<dots> \<le> d" using lo(1) by (simp add: n)
  finally show "covers d (i + lowbit i)" using lo(2) by (simp add: covers_def)
  assume j: "i < j" "j < i + lowbit i"
  define r where "r = j - i"
  have r: "0 < r" "r < 2 ^ k" "j = 2 ^ k * (2 * q + 1) + r" using j l by (simp_all add: r_def i)
  have "lowbit j = lowbit r" unfolding r(3) by (rule lowbit_shift [OF r(1,2)])
  then have "i \<le> j - lowbit j" using lowbit_le [of r] r(3) by (simp add: i)
  then show "\<not> covers d j" using lo(2) by (simp add: covers_def)
qed

lemma sum_upd:
  assumes "finite R"
  shows "int (sum (f(d := v)) R) = int (sum f R) + (if d \<in> R then int v - int (f d) else 0)"
  using assms by induction auto

lemma cumulativeAdd_loop_correct:
  assumes "length t = Suc n" "covers d idx" "\<And>i. 0 < i \<Longrightarrow> i \<le> n \<Longrightarrow>
      t ! i = of_nat (sum (if i < idx then f(d := v) else f) {i - lowbit i..<i})"
    "int v = int (f d) + delta" "sum f {..<n} < 2 ^ 64"
  shows "\<exists>t'. cumulativeAdd_loop n delta t idx = Some t' \<and> fenwick n (f(d := v)) t'"
  using assms
proof (induction n delta t idx rule: cumulativeAdd_loop.induct)
  case (1 n delta t idx)
  show ?case
  proof (cases "n < idx")
    case True
    with "1.prems"(1,3) show ?thesis by (subst cumulativeAdd_loop.simps) (auto simp: fenwick_def)
  next
    case False
    let ?R = "{idx - lowbit idx..<idx}" and ?f = "f(d := v)"
    let ?t = "t[idx := t ! idx + of_int delta]"
    have i: "0 < idx" "idx \<le> n" "idx < length t" "d \<in> ?R"
      using "1.prems"(1,2) False by (auto simp: covers_def)
    have t: "t ! idx = of_nat (sum f ?R)" using "1.prems"(3) [OF i(1,2)] by simp
    have "f d \<le> sum f ?R" using i(4) by (intro member_le_sum) auto
    have "sum f ?R \<le> sum f {..<n}" using i(2) by (intro sum_mono2) auto
    then have lt: "sum f ?R < 2 ^ 64" using "1.prems"(5) by simp
    have guard: "t ! idx \<ge> of_int (abs delta)" if "delta < 0"
    proof -
      have d: "nat (abs delta) \<le> sum f ?R" using \<open>f d \<le> sum f ?R\<close> "1.prems"(4) that by linarith
      have "(of_int (abs delta) :: 64 word) = of_nat (nat (abs delta))" by simp
      moreover have "unat (of_nat (nat (abs delta)) :: 64 word) = nat (abs delta)"
        "unat (of_nat (sum f ?R) :: 64 word) = sum f ?R"
        by (rule unat_of_nat64, use d lt in linarith)+
      ultimately show ?thesis unfolding t word_le_nat_alt using d by simp
    qed
    have up: "t ! idx + of_int delta = of_nat (sum ?f ?R)"
    proof -
      have "int (sum ?f ?R) = int (sum f ?R) + delta" using sum_upd [of ?R f d v] i(4) "1.prems"(4) by simp
      then have "(of_int (int (sum ?f ?R)) :: 64 word) = of_int (int (sum f ?R) + delta)" by (simp only:)
      then show ?thesis by (simp only: t of_int_of_nat_eq of_int_add)
    qed
    have same: "sum ?f {j - lowbit j..<j} = sum f {j - lowbit j..<j}" if "\<not> covers d j" for j
      using sum_upd [of "{j - lowbit j..<j}" f d v] that by (auto simp: covers_def)
    have inv: "?t ! j = of_nat (sum (if j < idx + lowbit idx then ?f else f) {j - lowbit j..<j})"
      if "0 < j" "j \<le> n" for j
    proof (cases "j = idx")
      case True
      then show ?thesis using up i lowbit_pos [OF i(1)] by simp
    next
      case False
      then have "?t ! j = t ! j" by simp
      then show ?thesis
        using "1.prems"(3) [OF that] False covers_next(2) [OF "1.prems"(2), of j] same [of j]
        by (cases "j < idx"; cases "j < idx + lowbit idx") simp_all
    qed
    have "\<exists>t'. cumulativeAdd_loop n delta ?t (idx + lowbit idx) = Some t' \<and> fenwick n ?f t'"
      by (rule "1.IH") (use False i guard "1.prems"(1,4,5) covers_next(1) [OF "1.prems"(2)] inv in auto)
    with False i guard show ?thesis by (subst cumulativeAdd_loop.simps) auto
  qed
qed

lemma cumulativeAdd_correct:
  assumes "fenwick n f t" "d < n" "int v = int (f d) + delta" "sum f {..<n} < 2 ^ 64"
  shows "\<exists>t'. cumulativeAdd_loop n delta t (Suc d) = Some t' \<and> fenwick n (f(d := v)) t'"
proof (rule cumulativeAdd_loop_correct [OF _ _ _ assms(3,4)])
  show "length t = Suc n" using assms(1) by (simp add: fenwick_def)
  show "covers d (Suc d)" using lowbit_pos [of "Suc d"] by (simp add: covers_def)
  show "t ! i = of_nat (sum (if i < Suc d then f(d := v) else f) {i - lowbit i..<i})" if "0 < i" "i \<le> n" for i
  proof -
    have "sum (f(d := v)) {i - lowbit i..<i} = sum f {i - lowbit i..<i}" if "i < Suc d"
      using that by (intro sum.cong) auto
    with assms(1) that show ?thesis by (auto simp: fenwick_def)
  qed
qed

subsection \<open>The dictionary that holds the key of a given rank\<close>

lemma sum_split: "a \<le> b \<Longrightarrow> b \<le> c \<Longrightarrow> sum f {a..<c} = sum f {a..<b} + sum (f :: nat \<Rightarrow> nat) {b..<c}"
  by (simp add: sum.atLeastLessThan_concat)

lemma findIndex_loop_correct:
  assumes "fenwick n f t" "sum f {..<n} < 2 ^ 64"
  shows "2 ^ Suc k dvd result \<Longrightarrow> result + 2 ^ Suc k \<le> n \<Longrightarrow> 0 < target
    \<Longrightarrow> unat target \<le> sum f {result..<result + 2 ^ Suc k}
    \<Longrightarrow> \<exists>res. findIndex_loop t (2 ^ k) result target = Some res \<and> result \<le> res \<and> res < result + 2 ^ Suc k
      \<and> sum f {result..<res} < unat target \<and> unat target \<le> sum f {result..<Suc res}"
proof (induction k arbitrary: result target)
  case 0
  have "lowbit (result + 1) = 1" using lowbit_odd 0(1) by (auto elim!: dvdE)
  then have t: "t ! (result + 1) = of_nat (f result)" "result + 1 < length t"
    using assms(1) 0(2) by (auto simp: fenwick_def)
  have s: "sum f {result..<result + 2 ^ Suc 0} = f result + f (Suc result)" by (simp add: numeral_2_eq_2)
  have "sum f {result..<result + 2 ^ Suc 0} \<le> sum f {..<n}" using 0(2) by (intro sum_mono2) auto
  then have lt: "f result < 2 ^ 64" using assms(2) s by simp
  then have u: "unat (of_nat (f result) :: 64 word) = f result" by (rule unat_of_nat64)
  have p: "0 < unat target" using 0(3) by (simp add: word_less_nat_alt)
  show ?case
  proof (cases "target > t ! (result + 1)")
    case True
    then have "f result < unat target" using t(1) u by (simp add: word_less_nat_alt)
    with True t 0(4) s show ?thesis
      by (subst findIndex_loop.simps, subst findIndex_loop.simps) simp
  next
    case False
    then have "unat target \<le> f result" using t(1) u by (simp add: word_less_nat_alt)
    with False t p show ?thesis
      by (subst findIndex_loop.simps, subst findIndex_loop.simps) simp
  qed
next
  case (Suc k)
  let ?m = "result + 2 ^ Suc k"
  obtain q where q: "result = 2 ^ Suc (Suc k) * q" using Suc.prems(1) by (elim dvdE)
  then have m: "?m = 2 ^ Suc k * (2 * q + 1)" by simp
  have lb: "lowbit ?m = 2 ^ Suc k" unfolding m by (rule lowbit_pow)
  have t: "t ! ?m = of_nat (sum f {result..<?m})" "?m < length t"
    using assms(1) Suc.prems(2) lb by (auto simp: fenwick_def)
  have s: "sum f {result..<result + 2 ^ Suc (Suc k)} = sum f {result..<?m} + sum f {?m..<?m + 2 ^ Suc k}"
    using sum_split [of result ?m "?m + 2 ^ Suc k" f] by (simp add: algebra_simps)
  have "sum f {result..<?m} \<le> sum f {..<n}" using Suc.prems(2) by (intro sum_mono2) auto
  then have "sum f {result..<?m} < 2 ^ 64" using assms(2) by simp
  then have u: "unat (t ! ?m) = sum f {result..<?m}"
    unfolding t(1) by (rule unat_of_nat64)
  have dv: "2 ^ Suc k dvd result" "2 ^ Suc k dvd ?m" by (auto simp: q)
  show ?case
  proof (cases "target > t ! ?m")
    case True
    let ?t = "target - t ! ?m"
    have ut: "unat ?t = unat target - sum f {result..<?m}" "sum f {result..<?m} < unat target"
      using True u by (simp_all add: word_less_nat_alt unat_sub word_le_nat_alt)
    have tp: "0 < ?t" using ut by (simp add: word_less_nat_alt)
    have le: "?m + 2 ^ Suc k \<le> n" "unat ?t \<le> sum f {?m..<?m + 2 ^ Suc k}"
      using Suc.prems(2,4) unfolding s ut(1) by simp_all
    from Suc.IH [OF dv(2) le(1) tp le(2)] obtain res where
      res: "findIndex_loop t (2 ^ k) ?m ?t = Some res" "?m \<le> res" "res < ?m + 2 ^ Suc k"
        "sum f {?m..<res} < unat ?t" "unat ?t \<le> sum f {?m..<Suc res}" by blast
    have "findIndex_loop t (2 ^ Suc k) result target = Some res"
      using True t(2) res(1) by (subst findIndex_loop.simps) simp
    moreover have "sum f {result..<res} = sum f {result..<?m} + sum f {?m..<res}"
      "sum f {result..<Suc res} = sum f {result..<?m} + sum f {?m..<Suc res}"
      by (rule sum_split; use res(2) in simp)+
    moreover have "result \<le> res" "res < result + 2 ^ Suc (Suc k)" using res(2,3) by simp_all
    ultimately show ?thesis using res(4,5) ut by (intro exI [of _ res]) linarith
  next
    case False
    then have "unat target \<le> sum f {result..<?m}" using u by (simp add: word_less_nat_alt)
    from Suc.IH [OF dv(1) _ Suc.prems(3) this] obtain res where
      "findIndex_loop t (2 ^ k) result target = Some res" "result \<le> res" "res < ?m"
        "sum f {result..<res} < unat target" "unat target \<le> sum f {result..<Suc res}"
      using Suc.prems(2) by auto
    moreover from this(1) have "findIndex_loop t (2 ^ Suc k) result target = Some res"
      using False t(2) by (subst findIndex_loop.simps) simp
    ultimately show ?thesis by (intro exI [of _ res]) auto
  qed
qed

text \<open>The search from the root, for \<open>2 ^ b\<close> dictionaries.\<close>

lemma findIndex_correct:
  assumes "fenwick (2 ^ b) f t" "sum f {..<2 ^ b} < 2 ^ 64" "0 < target" "unat target \<le> sum f {..<2 ^ b}"
  shows "\<exists>res < 2 ^ b. findIndex_loop t (2 ^ b) 0 target = Some res
    \<and> sum f {..<res} < unat target \<and> unat target \<le> sum f {..<Suc res}"
proof -
  have lb: "lowbit (2 ^ b) = 2 ^ b" using lowbit_pow [of b 0] by simp
  have "\<forall>i. 0 < i \<and> i \<le> 2 ^ b \<longrightarrow> t ! i = of_nat (sum f {i - lowbit i..<i})" "2 ^ b < length t"
    using assms(1) by (simp_all add: fenwick_def)
  from this(1) [rule_format, of "2 ^ b"] this(2) have t: "t ! (2 ^ b) = of_nat (sum f {..<2 ^ b})" "2 ^ b < length t"
    unfolding lb by (simp_all add: atLeast0LessThan)
  have u: "unat (t ! (2 ^ b)) = sum f {..<2 ^ b}"
    unfolding t(1) by (rule unat_of_nat64 [OF assms(2)])
  have nt: "\<not> target > t ! (2 ^ b)" using assms(4) u by (simp add: word_less_nat_alt)
  show ?thesis
  proof (cases b)
    case 0
    have "findIndex_loop t 1 0 target = Some 0"
      using nt t(2) 0 by (subst findIndex_loop.simps, subst findIndex_loop.simps) simp
    moreover have "0 < unat target" using assms(3) by (simp add: word_less_nat_alt)
    ultimately show ?thesis using 0 assms(4) by (intro exI [of _ 0]) simp
  next
    case (Suc k)
    have "findIndex_loop t (2 ^ b) 0 target = findIndex_loop t (2 ^ k) 0 target"
      using nt t(2) Suc by (subst findIndex_loop.simps) simp
    moreover have "\<exists>res. findIndex_loop t (2 ^ k) 0 target = Some res \<and> 0 \<le> res \<and> res < 0 + 2 ^ Suc k
        \<and> sum f {0..<res} < unat target \<and> unat target \<le> sum f {0..<Suc res}"
      by (rule findIndex_loop_correct [OF assms(1,2)])
         (use assms(3,4) Suc in \<open>simp_all add: atLeast0LessThan\<close>)
    ultimately show ?thesis using Suc by (auto simp: atLeast0LessThan)
  qed
qed

end
