(* ===== verification/Dict.thy ===== *)
theory Dict
  imports Prelude
begin

section \<open>Hash tables with incremental rehashing (dict.c): the model\<close>

text \<open>
  The dictionary of \<^verbatim>\<open>dict.c\<close>.  A bucket is the list of its chain, first entry first; an entry is a
  key with its value, \<open>None\<close> until \<open>dictSetVal\<close> has written it (\<open>dictAddRaw\<close> allocates the entry and
  leaves the value to the caller; dictionaries of type \<open>no_value\<close> never write it, and \<open>dictSetVal\<close>
  asserts that they do not).  The tagged
  pointers that save the entry of a \<open>no_value\<close> dictionary are a representation of these lists and
  are not modelled.  Keys are compared by \<open>=\<close>, which stands for the \<open>keyCompare\<close> of the type; the
  hash function and \<open>resizeAllowed\<close> callbacks are fields of \<open>dict_env\<close>, together with the global
  \<^verbatim>\<open>dict_can_resize\<close>.  A failed assertion and an access outside a table are \<open>None\<close>.
  The callbacks \<open>rehashingStarted\<close> and \<open>rehashingCompleted\<close> of the type are recorded: \<open>type_calls\<close> is
  the log of the calls the dictionary has made, each with the table sizes \<open>dictRehashingInfo\<close> reports
  at that moment, and the owner of the dictionary reacts to it (\<^verbatim>\<open>kvstore.c\<close> is the only one).
  The counter \<open>pauserehash\<close> is an integer; its 15 bits are enough for the nesting of pauses in use.
  A name with a prime stands for the source's name with a leading underscore.
\<close>

datatype dictResizeEnable = DICT_RESIZE_ENABLE | DICT_RESIZE_AVOID | DICT_RESIZE_FORBID

record 'k dict_env =
  hashFunction :: "'k \<Rightarrow> 64 word"
  resizeAllowed :: "(nat \<Rightarrow> nat \<times> nat \<Rightarrow> bool) option"
  dict_can_resize :: dictResizeEnable
  no_value :: bool

type_synonym ('k, 'v) bucket = "('k \<times> 'v option) list"

record ('k, 'v) ht =
  ht_table :: "('k, 'v) bucket list"
  ht_used :: nat
  ht_size_exp :: int

datatype dict_call = RehashingStarted nat nat | RehashingCompleted nat nat

record ('k, 'v) dict =
  ht0 :: "('k, 'v) ht"
  ht1 :: "('k, 'v) ht"
  rehashidx :: int
  pauserehash :: int
  pauseAutoResize :: int
  type_calls :: "dict_call list"

definition dict_force_resize_ratio :: nat where "dict_force_resize_ratio = 4"
definition HASHTABLE_MIN_FILL :: nat where "HASHTABLE_MIN_FILL = 8"
definition DICT_HT_INITIAL_EXP :: nat where "DICT_HT_INITIAL_EXP = 2"
definition DICT_HT_INITIAL_SIZE :: nat where "DICT_HT_INITIAL_SIZE = 2 ^ DICT_HT_INITIAL_EXP"
definition LONG_MAX :: nat where "LONG_MAX = 2 ^ 63 - 1"

definition DICTHT_SIZE :: "int \<Rightarrow> nat" where
  "DICTHT_SIZE e = (if e = -1 then 0 else 2 ^ nat e)"

definition DICTHT_SIZE_MASK :: "int \<Rightarrow> 64 word" where
  "DICTHT_SIZE_MASK e = (if e = -1 then 0 else of_nat (DICTHT_SIZE e) - 1)"

text \<open>The slot of a hash value: \<open>h & DICTHT_SIZE_MASK(exp)\<close>.\<close>

definition slot :: "64 word \<Rightarrow> int \<Rightarrow> nat" where
  "slot h e = unat (and h (DICTHT_SIZE_MASK e))"

definition dictSize :: "('k, 'v) dict \<Rightarrow> nat" where
  "dictSize d = ht_used (ht0 d) + ht_used (ht1 d)"

definition dictIsRehashing :: "('k, 'v) dict \<Rightarrow> bool" where
  "dictIsRehashing d \<longleftrightarrow> rehashidx d \<noteq> -1"

definition dictPauseRehashing :: "('k, 'v) dict \<Rightarrow> ('k, 'v) dict" where
  "dictPauseRehashing d = d\<lparr>pauserehash := pauserehash d + 1\<rparr>"

definition dictResumeRehashing :: "('k, 'v) dict \<Rightarrow> ('k, 'v) dict" where
  "dictResumeRehashing d = d\<lparr>pauserehash := pauserehash d - 1\<rparr>"

subsection \<open>Creation and resizing\<close>

definition dictReset' :: "('k, 'v) ht" where
  "dictReset' = \<lparr>ht_table = [], ht_used = 0, ht_size_exp = -1\<rparr>"

definition dictCreate :: "('k, 'v) dict" where
  "dictCreate = \<lparr>ht0 = dictReset', ht1 = dictReset', rehashidx = -1,
     pauserehash = 0, pauseAutoResize = 0, type_calls = []\<rparr>"

definition rehashingStarted :: "('k, 'v) dict \<Rightarrow> ('k, 'v) dict" where
  "rehashingStarted d = d\<lparr>type_calls := type_calls d @
     [RehashingStarted (DICTHT_SIZE (ht_size_exp (ht0 d))) (DICTHT_SIZE (ht_size_exp (ht1 d)))]\<rparr>"

definition rehashingCompleted :: "('k, 'v) dict \<Rightarrow> ('k, 'v) dict" where
  "rehashingCompleted d = d\<lparr>type_calls := type_calls d @
     [RehashingCompleted (DICTHT_SIZE (ht_size_exp (ht0 d))) (DICTHT_SIZE (ht_size_exp (ht1 d)))]\<rparr>"

text \<open>\<^verbatim>\<open>__builtin_clzl\<close> on 64 bits, for an argument that is not 0.\<close>

fun bit_length :: "nat \<Rightarrow> nat" where
  "bit_length n = (if n = 0 then 0 else Suc (bit_length (n div 2)))"

declare bit_length.simps [simp del]

definition clzl :: "nat \<Rightarrow> nat" where
  "clzl n = 64 - bit_length n"

definition dictNextExp' :: "nat \<Rightarrow> int" where
  "dictNextExp' sz =
     (if sz \<le> DICT_HT_INITIAL_SIZE then int DICT_HT_INITIAL_EXP
      else if sz \<ge> LONG_MAX then 8 * 8 - 1
      else int (8 * 8 - clzl (sz - 1)))"

text \<open>
  \<open>try_alloc\<close> is \<open>None\<close> when \<open>malloc_failed\<close> is NULL (an allocation failure then aborts the process),
  and \<open>Some ok\<close> with the outcome of \<^verbatim>\<open>ztrycalloc\<close> otherwise.  The result is the dictionary,
  whether the call returned \<^verbatim>\<open>DICT_OK\<close>, and \<open>*malloc_failed\<close>.
\<close>

definition dictResize' ::
  "('k, 'v) dict \<Rightarrow> nat \<Rightarrow> bool option \<Rightarrow> (('k, 'v) dict \<times> bool \<times> bool) option" where
  "dictResize' d sz try_alloc =
     (if dictIsRehashing d then None
      else
        (let new_exp = dictNextExp' sz; newsize = DICTHT_SIZE new_exp in
         if newsize < sz \<or> (newsize * 8) mod 2 ^ 64 < newsize then Some (d, False, False)
         else if new_exp = ht_size_exp (ht0 d) then Some (d, False, False)
         else if try_alloc = Some False then Some (d, False, True)
         else
           (let new_ht = \<lparr>ht_table = replicate newsize [], ht_used = 0, ht_size_exp = new_exp\<rparr>;
                d = rehashingStarted (d\<lparr>ht1 := new_ht, rehashidx := 0\<rparr>) in
            if ht_table (ht0 d) = [] \<or> ht_used (ht0 d) = 0
            then Some ((rehashingCompleted d)\<lparr>ht0 := new_ht, ht1 := dictReset', rehashidx := -1\<rparr>, True, False)
            else Some (d, True, False))))"

definition dictExpand' ::
  "('k, 'v) dict \<Rightarrow> nat \<Rightarrow> bool option \<Rightarrow> (('k, 'v) dict \<times> bool \<times> bool) option" where
  "dictExpand' d sz try_alloc =
     (if dictIsRehashing d \<or> ht_used (ht0 d) > sz \<or> DICTHT_SIZE (ht_size_exp (ht0 d)) \<ge> sz
      then Some (d, False, False)
      else dictResize' d sz try_alloc)"

definition dictExpand :: "('k, 'v) dict \<Rightarrow> nat \<Rightarrow> (('k, 'v) dict \<times> bool) option" where
  "dictExpand d sz = do { (d, ok, mf) \<leftarrow> dictExpand' d sz None; Some (d, ok) }"

definition dictTryExpand :: "bool \<Rightarrow> ('k, 'v) dict \<Rightarrow> nat \<Rightarrow> (('k, 'v) dict \<times> bool) option" where
  "dictTryExpand alloc_ok d sz =
     do { (d, ok, mf) \<leftarrow> dictExpand' d sz (Some alloc_ok); Some (d, \<not> mf) }"

definition dictShrink :: "('k, 'v) dict \<Rightarrow> nat \<Rightarrow> (('k, 'v) dict \<times> bool) option" where
  "dictShrink d sz =
     (if dictIsRehashing d \<or> ht_used (ht0 d) > sz \<or> DICTHT_SIZE (ht_size_exp (ht0 d)) \<le> sz
      then Some (d, False)
      else do { (d, ok, mf) \<leftarrow> dictResize' d sz None; Some (d, ok) })"

definition dictTypeResizeAllowed :: "'k dict_env \<Rightarrow> ('k, 'v) dict \<Rightarrow> nat \<Rightarrow> bool" where
  "dictTypeResizeAllowed env d sz =
     (case resizeAllowed env of None \<Rightarrow> True
      | Some f \<Rightarrow> f (DICTHT_SIZE (dictNextExp' sz) * 8)
                   (ht_used (ht0 d), DICTHT_SIZE (ht_size_exp (ht0 d))))"

definition dictExpandIfNeeded ::
  "'k dict_env \<Rightarrow> ('k, 'v) dict \<Rightarrow> (('k, 'v) dict \<times> bool) option" where
  "dictExpandIfNeeded env d =
     (let used = ht_used (ht0 d); sz = DICTHT_SIZE (ht_size_exp (ht0 d)) in
      if dictIsRehashing d then Some (d, True)
      else if sz = 0 then
        do { (d, ok) \<leftarrow> dictExpand d DICT_HT_INITIAL_SIZE; Some (d, True) }
      else if (dict_can_resize env = DICT_RESIZE_ENABLE \<and> used \<ge> sz)
           \<or> (dict_can_resize env \<noteq> DICT_RESIZE_FORBID \<and> used \<ge> dict_force_resize_ratio * sz) then
        do { d \<leftarrow> (if dictTypeResizeAllowed env d (used + 1)
                   then map_option fst (dictExpand d (used + 1)) else Some d);
             Some (d, True) }
      else Some (d, False))"

definition dictExpandIfNeeded' :: "'k dict_env \<Rightarrow> ('k, 'v) dict \<Rightarrow> ('k, 'v) dict option" where
  "dictExpandIfNeeded' env d =
     (if pauseAutoResize d > 0 then Some d else map_option fst (dictExpandIfNeeded env d))"

definition dictShrinkIfNeeded ::
  "'k dict_env \<Rightarrow> ('k, 'v) dict \<Rightarrow> (('k, 'v) dict \<times> bool) option" where
  "dictShrinkIfNeeded env d =
     (let used = ht_used (ht0 d); sz = DICTHT_SIZE (ht_size_exp (ht0 d)) in
      if dictIsRehashing d then Some (d, True)
      else if sz \<le> DICT_HT_INITIAL_SIZE then Some (d, True)
      else if (dict_can_resize env = DICT_RESIZE_ENABLE \<and> used * HASHTABLE_MIN_FILL \<le> sz)
           \<or> (dict_can_resize env \<noteq> DICT_RESIZE_FORBID
              \<and> used * HASHTABLE_MIN_FILL * dict_force_resize_ratio \<le> sz) then
        do { d \<leftarrow> (if dictTypeResizeAllowed env d used
                   then map_option fst (dictShrink d used) else Some d);
             Some (d, True) }
      else Some (d, False))"

definition dictShrinkIfNeeded' :: "'k dict_env \<Rightarrow> ('k, 'v) dict \<Rightarrow> ('k, 'v) dict option" where
  "dictShrinkIfNeeded' env d =
     (if pauseAutoResize d > 0 then Some d else map_option fst (dictShrinkIfNeeded env d))"

subsection \<open>Incremental rehashing\<close>

text \<open>The loop over the entries \<open>de\<close> of the bucket \<open>idx\<close>.\<close>

fun rehashEntries_loop ::
  "'k dict_env \<Rightarrow> nat \<Rightarrow> ('k, 'v) bucket \<Rightarrow> ('k, 'v) dict \<Rightarrow> ('k, 'v) dict option" where
  "rehashEntries_loop env idx [] d = Some d"
| "rehashEntries_loop env idx (de # nextde) d =
     (let e0 = ht_size_exp (ht0 d); e1 = ht_size_exp (ht1 d);
          h = (if e1 > e0 then slot (hashFunction env (fst de)) e1
               else unat (and (of_nat idx) (DICTHT_SIZE_MASK e1)));
          t1 = ht_table (ht1 d)
      in if h \<ge> length t1 then None
         else rehashEntries_loop env idx nextde
           (d\<lparr>ht1 := (ht1 d)\<lparr>ht_table := t1[h := de # t1 ! h], ht_used := ht_used (ht1 d) + 1\<rparr>,
              ht0 := (ht0 d)\<lparr>ht_used := ht_used (ht0 d) - 1\<rparr>\<rparr>))"

definition rehashEntriesInBucketAtIndex ::
  "'k dict_env \<Rightarrow> ('k, 'v) dict \<Rightarrow> nat \<Rightarrow> ('k, 'v) dict option" where
  "rehashEntriesInBucketAtIndex env d idx =
     (if idx \<ge> length (ht_table (ht0 d)) then None
      else do { d \<leftarrow> rehashEntries_loop env idx (ht_table (ht0 d) ! idx) d;
                Some (d\<lparr>ht0 := (ht0 d)\<lparr>ht_table := (ht_table (ht0 d))[idx := []]\<rparr>\<rparr>) })"

definition dictCheckRehashingCompleted :: "('k, 'v) dict \<Rightarrow> ('k, 'v) dict \<times> bool" where
  "dictCheckRehashingCompleted d =
     (if ht_used (ht0 d) \<noteq> 0 then (d, False)
      else ((rehashingCompleted d)\<lparr>ht0 := ht1 d, ht1 := dictReset', rehashidx := -1\<rparr>, True))"

text \<open>The early returns that \<open>dictRehash\<close> and \<open>dictBucketRehash'\<close> share.\<close>

definition rehash_refused :: "'k dict_env \<Rightarrow> ('k, 'v) dict \<Rightarrow> bool" where
  "rehash_refused env d =
     (let s0 = DICTHT_SIZE (ht_size_exp (ht0 d)); s1 = DICTHT_SIZE (ht_size_exp (ht1 d)) in
      dict_can_resize env = DICT_RESIZE_FORBID \<or> \<not> dictIsRehashing d
      \<or> (dict_can_resize env = DICT_RESIZE_AVOID
         \<and> ((s1 > s0 \<and> s1 < dict_force_resize_ratio * s0)
            \<or> (s1 < s0 \<and> s0 < HASHTABLE_MIN_FILL * dict_force_resize_ratio * s1))))"

text \<open>
  Skipping empty buckets, at most \<open>empty_visits\<close> of them: the flag tells whether the visits ran
  out.  A read past the end of the table is \<open>None\<close>.
\<close>

function skip_empty :: "('k, 'v) dict \<Rightarrow> int \<Rightarrow> (('k, 'v) dict \<times> int \<times> bool) option" where
  "skip_empty d empty_visits =
     (if rehashidx d < 0 \<or> nat (rehashidx d) \<ge> length (ht_table (ht0 d)) then None
      else if ht_table (ht0 d) ! nat (rehashidx d) = [] then
        (let d = d\<lparr>rehashidx := rehashidx d + 1\<rparr>; empty_visits = empty_visits - 1 in
         if empty_visits = 0 then Some (d, 0, True) else skip_empty d empty_visits)
      else Some (d, empty_visits, False))"
  by pat_completeness auto
termination
  by (relation "measure (\<lambda>(d, ev). length (ht_table (ht0 d)) - nat (rehashidx d))") auto

declare skip_empty.simps [simp del]

fun dictRehash_loop ::
  "'k dict_env \<Rightarrow> ('k, 'v) dict \<Rightarrow> nat \<Rightarrow> int \<Rightarrow> (('k, 'v) dict \<times> bool) option" where
  "dictRehash_loop env d 0 empty_visits = Some (d, False)"
| "dictRehash_loop env d (Suc n) empty_visits =
     (if ht_used (ht0 d) = 0 then Some (d, False)
      else if \<not> int (DICTHT_SIZE (ht_size_exp (ht0 d))) > rehashidx d then None
      else do {
        (d, empty_visits, out) \<leftarrow> skip_empty d empty_visits;
        if out then Some (d, True)
        else do {
          d \<leftarrow> rehashEntriesInBucketAtIndex env d (nat (rehashidx d));
          dictRehash_loop env (d\<lparr>rehashidx := rehashidx d + 1\<rparr>) n empty_visits } })"

text \<open>The budget \<open>n * 10\<close> is computed in an \<open>int\<close>, before the early returns: its overflow is \<open>None\<close>.\<close>

definition dictRehash ::
  "'k dict_env \<Rightarrow> ('k, 'v) dict \<Rightarrow> nat \<Rightarrow> (('k, 'v) dict \<times> bool) option" where
  "dictRehash env d n =
     (if int n * 10 > 2147483647 then None
      else if rehash_refused env d then Some (d, False)
      else do {
        (d, out) \<leftarrow> dictRehash_loop env d n (int n * 10);
        if out then Some (d, True)
        else (let (d, completed) = dictCheckRehashingCompleted d in Some (d, \<not> completed)) })"

definition dictRehashStep' :: "'k dict_env \<Rightarrow> ('k, 'v) dict \<Rightarrow> ('k, 'v) dict option" where
  "dictRehashStep' env d =
     (if pauserehash d = 0 then map_option fst (dictRehash env d 1) else Some d)"

definition dictBucketRehash' ::
  "'k dict_env \<Rightarrow> ('k, 'v) dict \<Rightarrow> nat \<Rightarrow> (('k, 'v) dict \<times> bool) option" where
  "dictBucketRehash' env d idx =
     (if pauserehash d \<noteq> 0 then Some (d, False)
      else if rehash_refused env d then Some (d, False)
      else do {
        d \<leftarrow> rehashEntriesInBucketAtIndex env d idx;
        Some (fst (dictCheckRehashingCompleted d), True) })"

text \<open>
  \<open>dictRehashMicroseconds\<close> makes one round of 100 steps and looks at the clock only after it: \<open>rounds\<close>
  is the number of rounds after the first that the clock allows.
\<close>

fun dictRehashRounds :: "'k dict_env \<Rightarrow> ('k, 'v) dict \<Rightarrow> nat \<Rightarrow> (('k, 'v) dict \<times> nat) option" where
  "dictRehashRounds env d 0 = Some (d, 0)"
| "dictRehashRounds env d (Suc rounds) =
     do { (d, more) \<leftarrow> dictRehash env d 100;
          if \<not> more then Some (d, 0)
          else do { (d, n) \<leftarrow> dictRehashRounds env d rounds; Some (d, n + 100) } }"

definition dictRehashMicroseconds ::
  "'k dict_env \<Rightarrow> ('k, 'v) dict \<Rightarrow> nat \<Rightarrow> (('k, 'v) dict \<times> nat) option" where
  "dictRehashMicroseconds env d rounds =
     (if pauserehash d > 0 then Some (d, 0) else dictRehashRounds env d (Suc rounds))"

subsection \<open>Search, insertion and deletion\<close>

text \<open>
  A pointer to an entry is its table, its bucket and its position in the chain; \<open>chain_find\<close> is the
  loop over a chain.
\<close>

type_synonym entry_ref = "nat \<times> nat \<times> nat"

definition get_ht :: "('k, 'v) dict \<Rightarrow> nat \<Rightarrow> ('k, 'v) ht" where
  "get_ht d t = (if t = 0 then ht0 d else ht1 d)"

definition set_ht :: "('k, 'v) dict \<Rightarrow> nat \<Rightarrow> ('k, 'v) ht \<Rightarrow> ('k, 'v) dict" where
  "set_ht d t h = (if t = 0 then d\<lparr>ht0 := h\<rparr> else d\<lparr>ht1 := h\<rparr>)"

fun chain_find :: "'k \<Rightarrow> ('k, 'v) bucket \<Rightarrow> nat \<Rightarrow> nat option" where
  "chain_find key [] pos = None"
| "chain_find key (he # next_he) pos =
     (if key = fst he then Some pos else chain_find key next_he (pos + 1))"

definition search_table :: "('k, 'v) dict \<Rightarrow> 'k \<Rightarrow> 64 word \<Rightarrow> nat \<Rightarrow> entry_ref option option" where
  "search_table d key h table =
     (let idx = slot h (ht_size_exp (get_ht d table)); t = ht_table (get_ht d table) in
      if idx \<ge> length t then None
      else Some (map_option (\<lambda>pos. (table, idx, pos)) (chain_find key (t ! idx) 0)))"

text \<open>
  The loop over the two tables; \<open>idx\<close> is the slot in table 0 from before the rehashing step.
\<close>

definition search_tables ::
  "('k, 'v) dict \<Rightarrow> 'k \<Rightarrow> 64 word \<Rightarrow> nat \<Rightarrow> entry_ref option option" where
  "search_tables d key h idx =
     (if int idx < rehashidx d then search_table d key h 1
      else do {
        r \<leftarrow> search_table d key h 0;
        if r \<noteq> None then Some r
        else if \<not> dictIsRehashing d then Some None
        else search_table d key h 1 })"

text \<open>
  The rehashing that \<open>dictFind\<close>, \<open>dictFindPositionForInsert\<close> and \<open>dictGenericDelete\<close> do first, on the
  bucket of the key when it still is in table 0.
\<close>

definition rehash_on_access :: "'k dict_env \<Rightarrow> ('k, 'v) dict \<Rightarrow> nat \<Rightarrow> ('k, 'v) dict option" where
  "rehash_on_access env d idx =
     (if dictIsRehashing d then
        (if int idx \<ge> rehashidx d then
           (if idx \<ge> length (ht_table (ht0 d)) then None
            else if ht_table (ht0 d) ! idx \<noteq> [] then map_option fst (dictBucketRehash' env d idx)
            else dictRehashStep' env d)
         else dictRehashStep' env d)
      else Some d)"

definition dictGetEntry :: "('k, 'v) dict \<Rightarrow> entry_ref \<Rightarrow> ('k \<times> 'v option) option" where
  "dictGetEntry d r =
     (let (t, idx, pos) = r; tab = ht_table (get_ht d t) in
      if idx \<ge> length tab \<or> pos \<ge> length (tab ! idx) then None else Some (tab ! idx ! pos))"

definition dictSetVal :: "'k dict_env \<Rightarrow> ('k, 'v) dict \<Rightarrow> entry_ref \<Rightarrow> 'v \<Rightarrow> ('k, 'v) dict option" where
  "dictSetVal env d r val =
     (let (t, idx, pos) = r; tab = ht_table (get_ht d t) in
      if no_value env then None
      else if idx \<ge> length tab \<or> pos \<ge> length (tab ! idx) then None
      else Some (set_ht d t ((get_ht d t)\<lparr>ht_table :=
             tab[idx := (tab ! idx)[pos := (fst (tab ! idx ! pos), Some val)]]\<rparr>)))"

definition dictFind ::
  "'k dict_env \<Rightarrow> ('k, 'v) dict \<Rightarrow> 'k \<Rightarrow> (('k, 'v) dict \<times> entry_ref option) option" where
  "dictFind env d key =
     (if dictSize d = 0 then Some (d, None)
      else
        (let h = hashFunction env key; idx = slot h (ht_size_exp (ht0 d)) in
         do { d \<leftarrow> rehash_on_access env d idx;
              r \<leftarrow> search_tables d key h idx;
              Some (d, r) }))"

definition dictFetchValue ::
  "'k dict_env \<Rightarrow> ('k, 'v) dict \<Rightarrow> 'k \<Rightarrow> (('k, 'v) dict \<times> 'v option) option" where
  "dictFetchValue env d key =
     do { (d, he) \<leftarrow> dictFind env d key;
          case he of None \<Rightarrow> Some (d, None)
          | Some r \<Rightarrow> do { (k, v) \<leftarrow> dictGetEntry d r; Some (d, v) } }"

text \<open>The position is the table and the bucket; \<open>Inl\<close> is the entry that exists already.\<close>

definition dictFindPositionForInsert ::
  "'k dict_env \<Rightarrow> ('k, 'v) dict \<Rightarrow> 'k \<Rightarrow> (('k, 'v) dict \<times> (entry_ref + nat \<times> nat)) option" where
  "dictFindPositionForInsert env d key =
     (let hash = hashFunction env key; idx = slot hash (ht_size_exp (ht0 d)) in
      do { d \<leftarrow> rehash_on_access env d idx;
           d \<leftarrow> dictExpandIfNeeded' env d;
           r \<leftarrow> search_tables d key hash idx;
           case r of Some he \<Rightarrow> Some (d, Inl he)
           | None \<Rightarrow>
               (let htidx = (if dictIsRehashing d then 1 else 0) in
                Some (d, Inr (htidx, slot hash (ht_size_exp (get_ht d htidx))))) })"

definition dictInsertAtPosition ::
  "('k, 'v) dict \<Rightarrow> 'k \<Rightarrow> nat \<times> nat \<Rightarrow> (('k, 'v) dict \<times> entry_ref) option" where
  "dictInsertAtPosition d key position =
     (let (table, bucket) = position; htidx = (if dictIsRehashing d then 1 else 0);
          h = get_ht d htidx in
      if \<not> (table = htidx \<and> int bucket \<le> uint (DICTHT_SIZE_MASK (ht_size_exp h))) then None
      else if bucket \<ge> length (ht_table h) then None
      else Some (set_ht d htidx (h\<lparr>ht_table := (ht_table h)[bucket := (key, None) # ht_table h ! bucket],
                                   ht_used := ht_used h + 1\<rparr>),
                 (htidx, bucket, 0)))"

text \<open>\<open>Inl\<close> is \<open>*existing\<close> with the result NULL, \<open>Inr\<close> the new entry.\<close>

definition dictAddRaw ::
  "'k dict_env \<Rightarrow> ('k, 'v) dict \<Rightarrow> 'k \<Rightarrow> (('k, 'v) dict \<times> (entry_ref + entry_ref)) option" where
  "dictAddRaw env d key =
     do { (d, position) \<leftarrow> dictFindPositionForInsert env d key;
          case position of Inl existing \<Rightarrow> Some (d, Inl existing)
          | Inr p \<Rightarrow> do { (d, entry) \<leftarrow> dictInsertAtPosition d key p; Some (d, Inr entry) } }"

definition dictAdd ::
  "'k dict_env \<Rightarrow> ('k, 'v) dict \<Rightarrow> 'k \<Rightarrow> 'v \<Rightarrow> (('k, 'v) dict \<times> bool) option" where
  "dictAdd env d key val =
     do { (d, entry) \<leftarrow> dictAddRaw env d key;
          case entry of Inl existing \<Rightarrow> Some (d, False)
          | Inr e \<Rightarrow>
              if no_value env then Some (d, True)
              else do { d \<leftarrow> dictSetVal env d e val; Some (d, True) } }"

definition dictReplace ::
  "'k dict_env \<Rightarrow> ('k, 'v) dict \<Rightarrow> 'k \<Rightarrow> 'v \<Rightarrow> (('k, 'v) dict \<times> bool) option" where
  "dictReplace env d key val =
     do { (d, entry) \<leftarrow> dictAddRaw env d key;
          case entry of Inl existing \<Rightarrow> do { d \<leftarrow> dictSetVal env d existing val; Some (d, False) }
          | Inr e \<Rightarrow> do { d \<leftarrow> dictSetVal env d e val; Some (d, True) } }"

definition dictAddOrFind ::
  "'k dict_env \<Rightarrow> ('k, 'v) dict \<Rightarrow> 'k \<Rightarrow> (('k, 'v) dict \<times> entry_ref) option" where
  "dictAddOrFind env d key =
     do { (d, entry) \<leftarrow> dictAddRaw env d key;
          Some (d, case entry of Inl existing \<Rightarrow> existing | Inr e \<Rightarrow> e) }"

text \<open>Unlinking the entry at a reference from its chain, and counting it out of its table.\<close>

definition unlink_at :: "('k, 'v) dict \<Rightarrow> entry_ref \<Rightarrow> (('k, 'v) dict \<times> ('k \<times> 'v option)) option" where
  "unlink_at d r =
     (let (t, idx, pos) = r; h = get_ht d t; tab = ht_table h in
      if idx \<ge> length tab \<or> pos \<ge> length (tab ! idx) then None
      else Some (set_ht d t (h\<lparr>ht_table := tab[idx := take pos (tab ! idx) @ drop (Suc pos) (tab ! idx)],
                              ht_used := ht_used h - 1\<rparr>),
                 tab ! idx ! pos))"

definition dictGenericDelete ::
  "'k dict_env \<Rightarrow> ('k, 'v) dict \<Rightarrow> 'k \<Rightarrow> (('k, 'v) dict \<times> ('k \<times> 'v option) option) option" where
  "dictGenericDelete env d key =
     (if dictSize d = 0 then Some (d, None)
      else
        (let h = hashFunction env key; idx = slot h (ht_size_exp (ht0 d)) in
         do { d \<leftarrow> rehash_on_access env d idx;
              r \<leftarrow> search_tables d key h idx;
              case r of None \<Rightarrow> Some (d, None)
              | Some he \<Rightarrow>
                  do { (d, entry) \<leftarrow> unlink_at d he;
                       d \<leftarrow> dictShrinkIfNeeded' env d;
                       Some (d, Some entry) } }))"

definition dictDelete ::
  "'k dict_env \<Rightarrow> ('k, 'v) dict \<Rightarrow> 'k \<Rightarrow> (('k, 'v) dict \<times> bool) option" where
  "dictDelete env d key =
     do { (d, he) \<leftarrow> dictGenericDelete env d key; Some (d, he \<noteq> None) }"

definition dictUnlink ::
  "'k dict_env \<Rightarrow> ('k, 'v) dict \<Rightarrow> 'k \<Rightarrow> (('k, 'v) dict \<times> ('k \<times> 'v option) option) option" where
  "dictUnlink env d key = dictGenericDelete env d key"

definition dictTwoPhaseUnlinkFind ::
  "'k dict_env \<Rightarrow> ('k, 'v) dict \<Rightarrow> 'k \<Rightarrow> (('k, 'v) dict \<times> entry_ref option) option" where
  "dictTwoPhaseUnlinkFind env d key =
     (if dictSize d = 0 then Some (d, None)
      else do {
        d \<leftarrow> (if dictIsRehashing d then dictRehashStep' env d else Some d);
        let h = hashFunction env key;
        r \<leftarrow> search_tables d key h (slot h (ht_size_exp (ht0 d)));
        Some (if r = None then d else dictPauseRehashing d, r) })"

definition dictTwoPhaseUnlinkFree ::
  "'k dict_env \<Rightarrow> ('k, 'v) dict \<Rightarrow> entry_ref option \<Rightarrow> ('k, 'v) dict option" where
  "dictTwoPhaseUnlinkFree env d he =
     (case he of None \<Rightarrow> Some d
      | Some r \<Rightarrow>
          do { (d, entry) \<leftarrow> unlink_at d r;
               d \<leftarrow> dictShrinkIfNeeded' env d;
               Some (dictResumeRehashing d) })"

text \<open>\<open>dictClear'\<close> frees every entry while \<open>ht_used\<close> is positive, then resets the table.\<close>

fun dictClear_loop :: "('k, 'v) bucket list \<Rightarrow> nat \<Rightarrow> ('k \<times> 'v option) list \<Rightarrow> ('k \<times> 'v option) list" where
  "dictClear_loop [] used freed = freed"
| "dictClear_loop (b # bs) used freed =
     (if used > 0 then dictClear_loop bs (used - length b) (freed @ b) else freed)"

definition dictClear' :: "('k, 'v) dict \<Rightarrow> nat \<Rightarrow> ('k, 'v) dict \<times> ('k \<times> 'v option) list" where
  "dictClear' d htidx =
     (set_ht d htidx dictReset',
      dictClear_loop (ht_table (get_ht d htidx)) (ht_used (get_ht d htidx)) [])"

definition dictEmpty :: "('k, 'v) dict \<Rightarrow> ('k, 'v) dict \<times> ('k \<times> 'v option) list" where
  "dictEmpty d =
     (let d = (if dictIsRehashing d then rehashingCompleted d else d); (d, f0) = dictClear' d 0; (d, f1) = dictClear' d 1 in
      (d\<lparr>rehashidx := -1, pauserehash := 0, pauseAutoResize := 0\<rparr>, f0 @ f1))"

text \<open>The dictionary is gone after \<open>dictRelease\<close>: what remains are its callbacks and the freed entries.\<close>

definition dictRelease :: "('k, 'v) dict \<Rightarrow> dict_call list \<times> ('k \<times> 'v option) list" where
  "dictRelease d =
     (let d = (if dictIsRehashing d then rehashingCompleted d else d);
          (d, f0) = dictClear' d 0; (d, f1) = dictClear' d 1 in (type_calls d, f0 @ f1))"

definition dictFindEntryByPtrAndHash ::
  "('k, 'v) dict \<Rightarrow> 'k \<Rightarrow> 64 word \<Rightarrow> entry_ref option option" where
  "dictFindEntryByPtrAndHash d oldptr hash =
     (if dictSize d = 0 then Some None
      else search_tables d oldptr hash (slot hash (ht_size_exp (ht0 d))))"

definition dictRehashingInfo :: "('k, 'v) dict \<Rightarrow> (nat \<times> nat) option" where
  "dictRehashingInfo d =
     (if \<not> dictIsRehashing d then None
      else Some (DICTHT_SIZE (ht_size_exp (ht0 d)), DICTHT_SIZE (ht_size_exp (ht1 d))))"

definition dictSetResizeEnabled :: "'k dict_env \<Rightarrow> dictResizeEnable \<Rightarrow> 'k dict_env" where
  "dictSetResizeEnabled env enable = env\<lparr>dict_can_resize := enable\<rparr>"

end
