(* ===== verification/Dict_Ops.thy ===== *)
theory Dict_Ops
  imports Dict Interfaces "HOL-Library.Multiset"
begin

section \<open>Hash tables: invariant and correctness\<close>

text \<open>
  The invariant of the dictionary of theory \<open>Dict\<close>, that every operation keeps it, and that the
  operations are those of a partial map, whatever the state of an incremental rehashing.
\<close>

declare length_concat [simp del]

subsection \<open>Slots\<close>

lemma mask_exp: "0 \<le> e \<Longrightarrow> DICTHT_SIZE_MASK e = mask (nat e)"
  by (simp add: DICTHT_SIZE_MASK_def DICTHT_SIZE_def mask_eq_exp_minus_1)

lemma slot_mod: "0 \<le> e \<Longrightarrow> slot h e = unat h mod 2 ^ nat e"
  by (simp add: slot_def mask_exp unsigned_take_bit_eq take_bit_eq_mod [of _ "unat h"] flip: take_bit_eq_mask)

lemma slot_less: "0 \<le> e \<Longrightarrow> slot h e < 2 ^ nat e"
  by (simp add: slot_mod)

lemma slot_le_mask: "int (slot h e) \<le> uint (DICTHT_SIZE_MASK e)"
proof -
  have "and h (DICTHT_SIZE_MASK e) \<le> DICTHT_SIZE_MASK e" by (rule word_and_le1)
  then show ?thesis by (simp add: slot_def word_le_def)
qed

text \<open>Shrinking maps a bucket index to a bucket index by the mask alone.\<close>

lemma slot_shrink:
  assumes "0 \<le> e1" "e1 \<le> e0" "e0 \<le> 63" "slot h e0 = i"
  shows "unat (and (of_nat i) (DICTHT_SIZE_MASK e1)) = slot h e1"
proof -
  have "i < 2 ^ nat e0" using assms slot_less [of e0 h] by auto
  also have "(2::nat) ^ nat e0 \<le> 2 ^ 63" using assms by (intro power_increasing) auto
  finally have "unat (of_nat i :: 64 word) = i" by (simp add: unat_of_nat take_bit_eq_mod)
  then have "slot (of_nat i) e1 = i mod 2 ^ nat e1" using slot_mod [OF assms(1)] by metis
  also have "\<dots> = unat h mod 2 ^ nat e1"
  proof -
    have "i = unat h mod 2 ^ nat e0" using assms slot_mod [of e0 h] by simp
    moreover have "(2::nat) ^ nat e1 dvd 2 ^ nat e0" using assms by (intro le_imp_power_dvd) simp
    ultimately show ?thesis by (simp only: mod_mod_cancel)
  qed
  finally show ?thesis by (simp add: slot_mod assms(1) flip: slot_def)
qed

subsection \<open>The invariant\<close>

definition bucket_ok :: "'k dict_env \<Rightarrow> int \<Rightarrow> nat \<Rightarrow> ('k, 'v) bucket \<Rightarrow> bool" where
  "bucket_ok env e i b = list_all (\<lambda>x. slot (hashFunction env (fst x)) e = i) b"

definition ht_ok :: "'k dict_env \<Rightarrow> ('k, 'v) ht \<Rightarrow> bool" where
  "ht_ok env h \<longleftrightarrow>
     (if ht_table h = [] then h = dictReset'
      else 0 \<le> ht_size_exp h \<and> ht_size_exp h \<le> 60
        \<and> length (ht_table h) = 2 ^ nat (ht_size_exp h)
        \<and> ht_used h = length (concat (ht_table h))
        \<and> (\<forall>i < length (ht_table h). bucket_ok env (ht_size_exp h) i (ht_table h ! i)))"

definition entries :: "('k, 'v) dict \<Rightarrow> ('k \<times> 'v option) list" where
  "entries d = concat (ht_table (ht0 d)) @ concat (ht_table (ht1 d))"

definition dict_map :: "('k, 'v) dict \<Rightarrow> 'k \<rightharpoonup> 'v option" where
  "dict_map d = map_of (entries d)"

text \<open>The buckets below \<open>rehashidx\<close> have moved to the second table.\<close>

definition rehash_ok :: "('k, 'v) dict \<Rightarrow> bool" where
  "rehash_ok d \<longleftrightarrow>
     (if rehashidx d = -1 then ht1 d = dictReset'
      else 0 \<le> rehashidx d \<and> rehashidx d \<le> int (length (ht_table (ht0 d)))
        \<and> ht_table (ht0 d) \<noteq> [] \<and> ht_table (ht1 d) \<noteq> []
        \<and> list_all (\<lambda>b. b = []) (take (nat (rehashidx d)) (ht_table (ht0 d))))"

definition dict_wf :: "'k dict_env \<Rightarrow> ('k, 'v) dict \<Rightarrow> bool" where
  "dict_wf env d \<longleftrightarrow> ht_ok env (ht0 d) \<and> ht_ok env (ht1 d)
     \<and> distinct (map fst (entries d)) \<and> rehash_ok d"

text \<open>
  What the owner of a dictionary can tell from its callbacks: the size of the table and, while a
  rehash is under way, the size of the new one.
\<close>

definition tabs :: "('k, 'v) dict \<Rightarrow> nat \<times> nat option" where
  "tabs d = (DICTHT_SIZE (ht_size_exp (ht0 d)),
     if dictIsRehashing d then Some (DICTHT_SIZE (ht_size_exp (ht1 d))) else None)"

fun replay :: "dict_call list \<Rightarrow> nat \<times> nat option \<Rightarrow> (nat \<times> nat option) option" where
  "replay [] s = Some s"
| "replay (RehashingStarted f t # cs) s = (if s = (f, None) then replay cs (f, Some t) else None)"
| "replay (RehashingCompleted f t # cs) s = (if s = (f, Some t) then replay cs (t, None) else None)"

definition calls_step :: "('k, 'v) dict \<Rightarrow> ('k, 'v) dict \<Rightarrow> bool" where
  "calls_step d d' \<longleftrightarrow> (\<exists>cs. type_calls d' = type_calls d @ cs \<and> replay cs (tabs d) = Some (tabs d'))"

lemma replay_append: "replay (cs @ cs') s = Option.bind (replay cs s) (replay cs')"
  by (induction cs s rule: replay.induct) auto

lemma calls_step_same: "type_calls d' = type_calls d \<Longrightarrow> tabs d' = tabs d \<Longrightarrow> calls_step d d'"
  by (simp add: calls_step_def)

lemma calls_step_refl [simp]: "calls_step d d"
  by (simp add: calls_step_same)

lemma calls_step_trans: "calls_step d d' \<Longrightarrow> calls_step d' d'' \<Longrightarrow> calls_step d d''"
  by (auto simp: calls_step_def replay_append)

text \<open>A step that reorganises the tables and leaves the contents alone.\<close>

definition dict_step :: "'k dict_env \<Rightarrow> ('k, 'v) dict \<Rightarrow> ('k, 'v) dict \<Rightarrow> bool" where
  "dict_step env d d' \<longleftrightarrow> dict_wf env d' \<and> mset (entries d') = mset (entries d)
     \<and> (ht_table (ht0 d) \<noteq> [] \<longrightarrow> ht_table (ht0 d') \<noteq> [])
     \<and> pauserehash d' = pauserehash d \<and> pauseAutoResize d' = pauseAutoResize d \<and> calls_step d d'"

lemma dict_step_refl: "dict_wf env d \<Longrightarrow> dict_step env d d"
  by (simp add: dict_step_def)

lemma dict_step_trans: "dict_step env d d' \<Longrightarrow> dict_step env d' d'' \<Longrightarrow> dict_step env d d''"
  using calls_step_trans by (auto simp: dict_step_def)

lemma map_of_mset_eq:
  assumes "distinct (map fst xs)" "mset ys = mset xs"
  shows "map_of ys = map_of xs"
proof -
  have "set ys = set xs" using assms(2) by (rule mset_eq_setD)
  moreover have "distinct (map fst ys)"
    using assms by (metis mset_map mset_eq_imp_distinct_iff)
  ultimately show ?thesis using assms(1) map_of_inject_set by blast
qed

lemma dict_step_map: "dict_wf env d \<Longrightarrow> dict_step env d d' \<Longrightarrow> dict_map d' = dict_map d"
  unfolding dict_map_def by (rule map_of_mset_eq) (auto simp: dict_wf_def dict_step_def)

lemma dict_step_wf: "dict_step env d d' \<Longrightarrow> dict_wf env d'"
  by (simp add: dict_step_def)

lemma ht_ok_reset [simp]: "ht_ok env dictReset'"
  by (simp add: ht_ok_def dictReset'_def)

lemma reset_simps [simp]:
  "ht_table dictReset' = []" "ht_used dictReset' = 0" "ht_size_exp dictReset' = -1"
  by (simp_all add: dictReset'_def)

lemma ht_ok_nonempty:
  assumes "ht_ok env h" "ht_table h \<noteq> []"
  shows "0 \<le> ht_size_exp h" "ht_size_exp h \<le> 60" "length (ht_table h) = 2 ^ nat (ht_size_exp h)"
    "ht_used h = length (concat (ht_table h))"
    "i < length (ht_table h) \<Longrightarrow> bucket_ok env (ht_size_exp h) i (ht_table h ! i)"
    "slot k (ht_size_exp h) < length (ht_table h)"
    "DICTHT_SIZE (ht_size_exp h) = length (ht_table h)"
  using assms by (auto simp: ht_ok_def slot_less DICTHT_SIZE_def)

lemma ht_ok_size: "ht_ok env h \<Longrightarrow> DICTHT_SIZE (ht_size_exp h) = length (ht_table h)"
  by (auto simp: ht_ok_def DICTHT_SIZE_def split: if_splits)

lemma ht_ok_used: "ht_ok env h \<Longrightarrow> ht_used h = length (concat (ht_table h))"
  by (auto simp: ht_ok_def split: if_splits)

lemma dictSize_entries: "dict_wf env d \<Longrightarrow> dictSize d = length (entries d)"
  using ht_ok_used [of env "ht0 d"] ht_ok_used [of env "ht1 d"]
  by (auto simp: dictSize_def entries_def dict_wf_def)

lemma dictSize_card: "dict_wf env d \<Longrightarrow> dictSize d = card (dom (dict_map d))"
proof -
  assume wf: "dict_wf env d"
  then have "distinct (map fst (entries d))" by (simp add: dict_wf_def)
  then have "card (set (map fst (entries d))) = length (map fst (entries d))" by (rule distinct_card)
  then show ?thesis by (simp add: dictSize_entries [OF wf] dict_map_def dom_map_of_conv_image_fst)
qed

subsection \<open>Replacing a bucket\<close>

lemma mset_concat_update:
  "i < length t \<Longrightarrow> mset (concat (t[i := b])) + mset (t ! i) = mset (concat t) + mset b"
proof (induction t arbitrary: i)
  case (Cons a t)
  then show ?case by (cases i) (auto simp: ac_simps)
qed simp

lemma length_concat_update:
  "i < length t \<Longrightarrow> length (concat (t[i := b])) + length (t ! i) = length (concat t) + length b"
  using arg_cong [where f = size, OF mset_concat_update, of i t b] by simp

lemma ht_ok_update:
  assumes "ht_ok env h" "i < length (ht_table h)" "bucket_ok env (ht_size_exp h) i b"
    "ht_used h + length b = u + length (ht_table h ! i)"
  shows "ht_ok env (h\<lparr>ht_table := (ht_table h)[i := b], ht_used := u\<rparr>)"
proof -
  have ne: "ht_table h \<noteq> []" using assms(2) by auto
  have "u = length (concat ((ht_table h)[i := b]))"
    using length_concat_update [OF assms(2), of b] assms(4) ht_ok_nonempty(4) [OF assms(1) ne] by simp
  moreover have "bucket_ok env (ht_size_exp h) j ((ht_table h)[i := b] ! j)" if "j < length (ht_table h)" for j
    using that assms(3) ht_ok_nonempty(5) [OF assms(1) ne that] by (cases "j = i") auto
  ultimately show ?thesis
    using ht_ok_nonempty [OF assms(1) ne] ne by (simp add: ht_ok_def)
qed

subsection \<open>Rehashing keeps the contents\<close>

lemma rehashEntries_loop_correct:
  assumes "ht_ok env (ht1 d)" "ht_table (ht1 d) \<noteq> []"
    "0 \<le> ht_size_exp (ht0 d)" "ht_size_exp (ht0 d) \<le> 60"
    "bucket_ok env (ht_size_exp (ht0 d)) idx b"
  shows "\<exists>t. rehashEntries_loop env idx b d
      = Some (d\<lparr>ht1 := t, ht0 := (ht0 d)\<lparr>ht_used := ht_used (ht0 d) - length b\<rparr>\<rparr>)
    \<and> ht_ok env t \<and> ht_table t \<noteq> [] \<and> ht_size_exp t = ht_size_exp (ht1 d)
    \<and> mset (concat (ht_table t)) = mset (concat (ht_table (ht1 d))) + mset b"
  using assms
proof (induction b arbitrary: d)
  case Nil
  then show ?case by (intro exI [of _ "ht1 d"]) simp
next
  case (Cons de b)
  let ?e0 = "ht_size_exp (ht0 d)" and ?e1 = "ht_size_exp (ht1 d)" and ?t1 = "ht_table (ht1 d)"
  let ?h = "slot (hashFunction env (fst de)) ?e1"
  have s0: "slot (hashFunction env (fst de)) ?e0 = idx" and b: "bucket_ok env ?e0 idx b"
    using Cons.prems(5) by (simp_all add: bucket_ok_def)
  have h: "(if ?e1 > ?e0 then ?h else unat (and (of_nat idx) (DICTHT_SIZE_MASK ?e1))) = ?h"
    using slot_shrink [OF ht_ok_nonempty(1) [OF Cons.prems(1,2)] _ _ s0] Cons.prems(4) by auto
  have lt: "?h < length ?t1" by (rule ht_ok_nonempty(6) [OF Cons.prems(1,2)])
  let ?ht1 = "(ht1 d)\<lparr>ht_table := ?t1[?h := de # ?t1 ! ?h], ht_used := ht_used (ht1 d) + 1\<rparr>"
  let ?d = "d\<lparr>ht1 := ?ht1, ht0 := (ht0 d)\<lparr>ht_used := ht_used (ht0 d) - 1\<rparr>\<rparr>"
  have "bucket_ok env ?e1 ?h (de # ?t1 ! ?h)"
    using ht_ok_nonempty(5) [OF Cons.prems(1,2) lt] by (simp add: bucket_ok_def)
  then have ok: "ht_ok env ?ht1" by (intro ht_ok_update [OF Cons.prems(1) lt]) simp_all
  have "\<exists>t. rehashEntries_loop env idx b ?d
      = Some (?d\<lparr>ht1 := t, ht0 := (ht0 ?d)\<lparr>ht_used := ht_used (ht0 ?d) - length b\<rparr>\<rparr>)
    \<and> ht_ok env t \<and> ht_table t \<noteq> [] \<and> ht_size_exp t = ht_size_exp (ht1 ?d)
    \<and> mset (concat (ht_table t)) = mset (concat (ht_table (ht1 ?d))) + mset b"
    by (rule Cons.IH) (use ok Cons.prems b in simp_all)
  moreover have "mset (concat (?t1[?h := de # ?t1 ! ?h])) = add_mset de (mset (concat ?t1))"
    using mset_concat_update [OF lt, of "de # ?t1 ! ?h"] by simp
  ultimately show ?case using h lt by (auto simp: Let_def)
qed

lemma dict_wf_rehashing:
  assumes "dict_wf env d" "dictIsRehashing d"
  shows "ht_ok env (ht0 d)" "ht_ok env (ht1 d)" "ht_table (ht0 d) \<noteq> []" "ht_table (ht1 d) \<noteq> []"
    "0 \<le> rehashidx d" "rehashidx d \<le> int (length (ht_table (ht0 d)))"
    "distinct (map fst (entries d))"
    "list_all (\<lambda>b. b = []) (take (nat (rehashidx d)) (ht_table (ht0 d)))"
  using assms by (simp_all add: dict_wf_def rehash_ok_def dictIsRehashing_def)

lemma dict_wf_not_rehashing:
  assumes "dict_wf env d" "\<not> dictIsRehashing d"
  shows "ht_ok env (ht0 d)" "ht1 d = dictReset'" "rehashidx d = -1"
  using assms by (simp_all add: dict_wf_def rehash_ok_def dictIsRehashing_def)

lemma dict_wfI_mset:
  assumes "dict_wf env d" "mset (entries d') = mset (entries d)"
    "ht_ok env (ht0 d')" "ht_ok env (ht1 d')" "rehash_ok d'"
  shows "dict_wf env d'"
  using assms by (metis dict_wf_def mset_eq_imp_distinct_iff mset_map)

lemma rehashEntriesInBucketAtIndex_correct:
  assumes wf: "dict_wf env d" and re: "dictIsRehashing d" and idx: "idx < length (ht_table (ht0 d))"
  shows "\<exists>d'. rehashEntriesInBucketAtIndex env d idx = Some d' \<and> dict_step env d d'
    \<and> ht_table (ht0 d') = (ht_table (ht0 d))[idx := []] \<and> rehashidx d' = rehashidx d
    \<and> ht_size_exp (ht0 d') = ht_size_exp (ht0 d) \<and> ht_size_exp (ht1 d') = ht_size_exp (ht1 d)"
proof -
  note r = dict_wf_rehashing [OF wf re]
  let ?t0 = "ht_table (ht0 d)"
  let ?b = "?t0 ! idx"
  have b: "bucket_ok env (ht_size_exp (ht0 d)) idx ?b" by (rule ht_ok_nonempty(5) [OF r(1,3) idx])
  obtain t where
    loop: "rehashEntries_loop env idx ?b d
      = Some (d\<lparr>ht1 := t, ht0 := (ht0 d)\<lparr>ht_used := ht_used (ht0 d) - length ?b\<rparr>\<rparr>)"
    and t: "ht_ok env t" "ht_table t \<noteq> []" "ht_size_exp t = ht_size_exp (ht1 d)"
      "mset (concat (ht_table t)) = mset (concat (ht_table (ht1 d))) + mset ?b"
    using rehashEntries_loop_correct [OF r(2,4) ht_ok_nonempty(1,2) [OF r(1,3)] b] by blast
  let ?d = "d\<lparr>ht1 := t, ht0 := (ht0 d)\<lparr>ht_table := ?t0[idx := []], ht_used := ht_used (ht0 d) - length ?b\<rparr>\<rparr>"
  have eq: "rehashEntriesInBucketAtIndex env d idx = Some ?d"
    using idx by (simp add: rehashEntriesInBucketAtIndex_def loop)
  have "length ?b \<le> ht_used (ht0 d)"
    using length_concat_update [OF idx, of "[]"] ht_ok_used [OF r(1)] by simp
  then have ok0: "ht_ok env (ht0 ?d)"
    using ht_ok_update [OF r(1) idx, of "[]" "ht_used (ht0 d) - length ?b"] by (simp add: bucket_ok_def)
  have ms: "mset (entries ?d) = mset (entries d)"
    using mset_concat_update [OF idx, of "[]"] t(4) by (simp add: entries_def)
  have "rehash_ok ?d"
    using r t(2) re by (auto simp: rehash_ok_def dictIsRehashing_def take_update_swap list_all_iff
      dest!: set_update_subset_insert [THEN subsetD])
  then have "dict_wf env ?d" using dict_wfI_mset [OF wf ms ok0] t(1) by simp
  moreover have "calls_step d ?d"
    by (rule calls_step_same) (simp_all add: tabs_def dictIsRehashing_def t(3))
  ultimately have "dict_step env d ?d" using ms t(3) by (simp add: dict_step_def)
  with eq t(3) show ?thesis by simp
qed

lemma rehashing_call_simps [simp]:
  "ht0 (rehashingStarted d) = ht0 d" "ht1 (rehashingStarted d) = ht1 d"
  "rehashidx (rehashingStarted d) = rehashidx d" "pauserehash (rehashingStarted d) = pauserehash d"
  "pauseAutoResize (rehashingStarted d) = pauseAutoResize d" "entries (rehashingStarted d) = entries d"
  "ht0 (rehashingCompleted d) = ht0 d" "ht1 (rehashingCompleted d) = ht1 d"
  "rehashidx (rehashingCompleted d) = rehashidx d" "pauserehash (rehashingCompleted d) = pauserehash d"
  "pauseAutoResize (rehashingCompleted d) = pauseAutoResize d" "entries (rehashingCompleted d) = entries d"
  by (simp_all add: rehashingStarted_def rehashingCompleted_def entries_def)

lemma calls_step_completed:
  "dictIsRehashing d \<Longrightarrow>
     calls_step d ((rehashingCompleted d)\<lparr>ht0 := ht1 d, ht1 := dictReset', rehashidx := -1\<rparr>)"
  by (simp add: calls_step_def tabs_def rehashingCompleted_def dictIsRehashing_def)

lemma calls_step_started:
  "\<not> dictIsRehashing d \<Longrightarrow> calls_step d (rehashingStarted (d\<lparr>ht1 := h, rehashidx := 0\<rparr>))"
  by (simp add: calls_step_def tabs_def rehashingStarted_def dictIsRehashing_def)

lemma dictCheckRehashingCompleted_correct:
  assumes wf: "dict_wf env d" and re: "dictIsRehashing d"
  shows "dict_step env d (fst (dictCheckRehashingCompleted d))"
    "snd (dictCheckRehashingCompleted d) \<longleftrightarrow> ht_used (ht0 d) = 0"
    "dictIsRehashing (fst (dictCheckRehashingCompleted d)) \<longleftrightarrow> ht_used (ht0 d) \<noteq> 0"
    "ht_used (ht0 d) \<noteq> 0 \<Longrightarrow> fst (dictCheckRehashingCompleted d) = d"
proof -
  note r = dict_wf_rehashing [OF wf re]
  let ?d = "(rehashingCompleted d)\<lparr>ht0 := ht1 d, ht1 := dictReset', rehashidx := -1\<rparr>"
  have "dict_step env d ?d" if "ht_used (ht0 d) = 0"
  proof -
    have "mset (entries ?d) = mset (entries d)"
      using that ht_ok_used [OF r(1)] by (simp add: entries_def)
    then show ?thesis using dict_wfI_mset [OF wf, of ?d] r(2,4) calls_step_completed [OF re]
      by (simp add: dict_step_def rehash_ok_def)
  qed
  then show "dict_step env d (fst (dictCheckRehashingCompleted d))"
    using dict_step_refl [OF wf] by (simp add: dictCheckRehashingCompleted_def)
qed (use re in \<open>auto simp: dictCheckRehashingCompleted_def dictIsRehashing_def\<close>)

lemma rehash_pending:
  assumes wf: "dict_wf env d" and re: "dictIsRehashing d" and used: "ht_used (ht0 d) \<noteq> 0"
  shows "\<exists>i \<ge> nat (rehashidx d). i < length (ht_table (ht0 d)) \<and> ht_table (ht0 d) ! i \<noteq> []"
proof -
  note r = dict_wf_rehashing [OF wf re]
  have "concat (ht_table (ht0 d)) \<noteq> []" using used ht_ok_used [OF r(1)] by auto
  then obtain b where b: "b \<in> set (ht_table (ht0 d))" "b \<noteq> []" by auto
  then obtain i where i: "i < length (ht_table (ht0 d))" "ht_table (ht0 d) ! i = b"
    by (auto simp: in_set_conv_nth)
  have "\<not> i < nat (rehashidx d)"
  proof
    assume "i < nat (rehashidx d)"
    then have "take (nat (rehashidx d)) (ht_table (ht0 d)) ! i = []"
      using r(8) i(1) by (auto simp: list_all_length)
    with \<open>i < nat (rehashidx d)\<close> i b(2) show False by simp
  qed
  with i b(2) show ?thesis by (auto simp: not_less)
qed

lemma skip_empty_correct:
  assumes "0 \<le> rehashidx d" "nat (rehashidx d) \<le> i" "i < length (ht_table (ht0 d))"
    "ht_table (ht0 d) ! i \<noteq> []" "list_all (\<lambda>b. b = []) (take (nat (rehashidx d)) (ht_table (ht0 d)))"
  shows "\<exists>r ev' out. skip_empty d ev = Some (d\<lparr>rehashidx := r\<rparr>, ev', out)
    \<and> rehashidx d \<le> r \<and> r \<le> int i \<and> r - rehashidx d = ev - ev'
    \<and> list_all (\<lambda>b. b = []) (take (nat r) (ht_table (ht0 d)))
    \<and> (if out then ev' = 0 \<and> rehashidx d < r else ht_table (ht0 d) ! nat r \<noteq> [])"
  using assms
proof (induction d ev rule: skip_empty.induct)
  case (1 d ev)
  let ?r = "nat (rehashidx d)" and ?t = "ht_table (ht0 d)"
  have lt: "?r < length ?t" using 1(3,4) by linarith
  show ?case
  proof (cases "?t ! ?r = []")
    case False
    then have "skip_empty d ev = Some (d, ev, False)"
      using lt 1(2) by (subst skip_empty.simps) simp
    moreover have "d = d\<lparr>rehashidx := rehashidx d\<rparr>" by simp
    ultimately show ?thesis using False 1(2,3,6)
      by (intro exI [of _ "rehashidx d"] exI [of _ ev] exI [of _ False]) auto
  next
    case True
    let ?d = "d\<lparr>rehashidx := rehashidx d + 1\<rparr>"
    have n: "nat (rehashidx d + 1) = Suc ?r" using 1(2) by simp
    have emp: "list_all (\<lambda>b. b = []) (take (Suc ?r) ?t)"
      using 1(6) True lt by (simp add: take_Suc_conv_app_nth)
    have i: "Suc ?r \<le> i" using True 1(3,5) by (cases "?r = i") auto
    show ?thesis
    proof (cases "ev - 1 = 0")
      case ev: True
      then have "skip_empty d ev = Some (?d, 0, True)"
        using lt 1(2) True by (subst skip_empty.simps) simp
      then show ?thesis using ev emp n i 1(2)
        by (intro exI [of _ "rehashidx d + 1"] exI [of _ 0] exI [of _ True]) auto
    next
      case ev: False
      have eq: "skip_empty d ev = skip_empty ?d (ev - 1)"
        using lt 1(2) True ev by (subst skip_empty.simps) simp
      have "\<exists>r ev' out. skip_empty ?d (ev - 1) = Some (?d\<lparr>rehashidx := r\<rparr>, ev', out)
        \<and> rehashidx ?d \<le> r \<and> r \<le> int i \<and> r - rehashidx ?d = ev - 1 - ev'
        \<and> list_all (\<lambda>b. b = []) (take (nat r) (ht_table (ht0 ?d)))
        \<and> (if out then ev' = 0 \<and> rehashidx ?d < r else ht_table (ht0 ?d) ! nat r \<noteq> [])"
        by (rule 1(1) [OF _ True refl refl ev]) (use 1(2,4,5) lt emp n i in auto)
      then show ?thesis unfolding eq by (fastforce split: if_splits)
    qed
  qed
qed

lemma rehash_ok_move:
  assumes "dict_wf env d" "dictIsRehashing d" "rehashidx d \<le> r" "r \<le> int (length (ht_table (ht0 d)))"
    "list_all (\<lambda>b. b = []) (take (nat r) (ht_table (ht0 d)))"
  shows "dict_step env d (d\<lparr>rehashidx := r\<rparr>)" "dictIsRehashing (d\<lparr>rehashidx := r\<rparr>)"
proof -
  note r = dict_wf_rehashing [OF assms(1,2)]
  show "dictIsRehashing (d\<lparr>rehashidx := r\<rparr>)" using r(5) assms(3) by (simp add: dictIsRehashing_def)
  then show "dict_step env d (d\<lparr>rehashidx := r\<rparr>)"
    using r assms by (simp add: dict_step_def dict_wf_def rehash_ok_def dictIsRehashing_def entries_def
      calls_step_def tabs_def)
qed

text \<open>One round of the loop: skip the empty buckets, then move the next one.\<close>

lemma rehash_round:
  assumes wf: "dict_wf env d" and re: "dictIsRehashing d" and used: "ht_used (ht0 d) \<noteq> 0"
  shows "\<exists>d1 ev' out. skip_empty d ev = Some (d1, ev', out) \<and> dict_step env d d1 \<and> dictIsRehashing d1
    \<and> ht_size_exp (ht0 d1) = ht_size_exp (ht0 d) \<and> ht_size_exp (ht1 d1) = ht_size_exp (ht1 d)
    \<and> rehashidx d1 - rehashidx d = ev - ev' \<and> rehashidx d \<le> rehashidx d1
    \<and> (if out then ev' = 0 \<and> rehashidx d < rehashidx d1
       else \<exists>d2. rehashEntriesInBucketAtIndex env d1 (nat (rehashidx d1)) = Some d2
         \<and> dict_step env d (d2\<lparr>rehashidx := rehashidx d2 + 1\<rparr>)
         \<and> dictIsRehashing (d2\<lparr>rehashidx := rehashidx d2 + 1\<rparr>) \<and> rehashidx d2 = rehashidx d1
         \<and> ht_size_exp (ht0 d2) = ht_size_exp (ht0 d) \<and> ht_size_exp (ht1 d2) = ht_size_exp (ht1 d))"
proof -
  note r = dict_wf_rehashing [OF wf re]
  obtain i where i: "nat (rehashidx d) \<le> i" "i < length (ht_table (ht0 d))" "ht_table (ht0 d) ! i \<noteq> []"
    using rehash_pending [OF wf re used] by blast
  from skip_empty_correct [OF r(5) i r(8), of ev] obtain ri ev' out where
    sk: "skip_empty d ev = Some (d\<lparr>rehashidx := ri\<rparr>, ev', out)" and
    ri: "rehashidx d \<le> ri" "ri \<le> int i" "ri - rehashidx d = ev - ev'"
      "list_all (\<lambda>b. b = []) (take (nat ri) (ht_table (ht0 d)))"
      "if out then ev' = 0 \<and> rehashidx d < ri else ht_table (ht0 d) ! nat ri \<noteq> []" by blast
  let ?d1 = "d\<lparr>rehashidx := ri\<rparr>"
  have "ri \<le> int (length (ht_table (ht0 d)))" using ri(2) i(2) by linarith
  note s1 = rehash_ok_move [OF wf re ri(1) this ri(4)]
  show ?thesis
  proof (cases out)
    case True
    with sk s1 ri show ?thesis by auto
  next
    case False
    have lt: "nat ri < length (ht_table (ht0 ?d1))" using ri(1,2) i(2) r(5) by simp
    from rehashEntriesInBucketAtIndex_correct [OF dict_step_wf [OF s1(1)] s1(2) lt] obtain d2 where
      d2: "rehashEntriesInBucketAtIndex env ?d1 (nat ri) = Some d2" "dict_step env ?d1 d2"
        "ht_table (ht0 d2) = (ht_table (ht0 d))[nat ri := []]" "rehashidx d2 = ri"
        "ht_size_exp (ht0 d2) = ht_size_exp (ht0 d)" "ht_size_exp (ht1 d2) = ht_size_exp (ht1 d)" by auto
    have ri0: "0 \<le> ri" using ri(1) r(5) by linarith
    have re2: "dictIsRehashing d2" using d2(4) ri0 by (simp add: dictIsRehashing_def)
    have n: "nat (ri + 1) = Suc (nat ri)" using ri0 by simp
    have "dict_step env d2 (d2\<lparr>rehashidx := ri + 1\<rparr>)" "dictIsRehashing (d2\<lparr>rehashidx := ri + 1\<rparr>)"
      by (rule rehash_ok_move [OF dict_step_wf [OF d2(2)] re2];
          use d2(3,4) lt ri0 ri(4) n in \<open>simp add: take_Suc_conv_app_nth\<close>)+
    with dict_step_trans [OF dict_step_trans [OF s1(1) d2(2)]] sk s1 d2 ri False show ?thesis
      by (intro exI [of _ ?d1] exI [of _ ev'] exI [of _ False]) simp
  qed
qed

lemma dictRehash_loop_correct:
  assumes "dict_wf env d" "dictIsRehashing d"
  shows "\<exists>d' out. dictRehash_loop env d n ev = Some (d', out) \<and> dict_step env d d' \<and> dictIsRehashing d'
    \<and> ht_size_exp (ht0 d') = ht_size_exp (ht0 d) \<and> ht_size_exp (ht1 d') = ht_size_exp (ht1 d)
    \<and> rehashidx d \<le> rehashidx d'
    \<and> (if out then rehashidx d + ev \<le> rehashidx d' \<and> rehashidx d < rehashidx d'
       else ht_used (ht0 d') = 0 \<or> rehashidx d + int n \<le> rehashidx d')"
  using assms
proof (induction n arbitrary: d ev)
  case 0
  then show ?case by (intro exI [of _ d] exI [of _ False]) (simp add: dict_step_refl)
next
  case (Suc n)
  note r = dict_wf_rehashing [OF Suc.prems]
  show ?case
  proof (cases "ht_used (ht0 d) = 0")
    case True
    with Suc.prems show ?thesis by (intro exI [of _ d] exI [of _ False]) (simp add: dict_step_refl)
  next
    case used: False
    obtain i where "nat (rehashidx d) \<le> i" "i < length (ht_table (ht0 d))"
      using rehash_pending [OF Suc.prems used] by blast
    then have asrt: "int (DICTHT_SIZE (ht_size_exp (ht0 d))) > rehashidx d"
      using ht_ok_size [OF r(1)] r(5) by linarith
    from rehash_round [OF Suc.prems used, of ev] obtain d1 ev' out where
      sk: "skip_empty d ev = Some (d1, ev', out)" and
      d1: "dict_step env d d1" "dictIsRehashing d1" "ht_size_exp (ht0 d1) = ht_size_exp (ht0 d)"
        "ht_size_exp (ht1 d1) = ht_size_exp (ht1 d)"
        "rehashidx d1 - rehashidx d = ev - ev'" "rehashidx d \<le> rehashidx d1" and
      oc: "if out then ev' = 0 \<and> rehashidx d < rehashidx d1
       else \<exists>d2. rehashEntriesInBucketAtIndex env d1 (nat (rehashidx d1)) = Some d2
         \<and> dict_step env d (d2\<lparr>rehashidx := rehashidx d2 + 1\<rparr>)
         \<and> dictIsRehashing (d2\<lparr>rehashidx := rehashidx d2 + 1\<rparr>) \<and> rehashidx d2 = rehashidx d1
         \<and> ht_size_exp (ht0 d2) = ht_size_exp (ht0 d) \<and> ht_size_exp (ht1 d2) = ht_size_exp (ht1 d)"
      by blast
    show ?thesis
    proof (cases out)
      case True
      with oc d1 sk used asrt show ?thesis by (intro exI [of _ d1] exI [of _ True]) simp
    next
      case False
      with oc obtain d2 where d2: "rehashEntriesInBucketAtIndex env d1 (nat (rehashidx d1)) = Some d2"
        "dict_step env d (d2\<lparr>rehashidx := rehashidx d2 + 1\<rparr>)"
        "dictIsRehashing (d2\<lparr>rehashidx := rehashidx d2 + 1\<rparr>)" "rehashidx d2 = rehashidx d1"
        "ht_size_exp (ht0 d2) = ht_size_exp (ht0 d)" "ht_size_exp (ht1 d2) = ht_size_exp (ht1 d)" by auto
      let ?d2 = "d2\<lparr>rehashidx := rehashidx d2 + 1\<rparr>"
      from Suc.IH [OF dict_step_wf [OF d2(2)] d2(3), of ev'] obtain d' out' where
        d': "dictRehash_loop env ?d2 n ev' = Some (d', out')" "dict_step env ?d2 d'" "dictIsRehashing d'"
          "ht_size_exp (ht0 d') = ht_size_exp (ht0 d)" "ht_size_exp (ht1 d') = ht_size_exp (ht1 d)"
          "rehashidx d1 + 1 \<le> rehashidx d'" and
        o': "if out' then rehashidx d1 + 1 + ev' \<le> rehashidx d' \<and> rehashidx d1 + 1 < rehashidx d'
         else ht_used (ht0 d') = 0 \<or> rehashidx d1 + 1 + int n \<le> rehashidx d'"
        using d2(4,5,6) by (auto split: if_splits)
      have eq: "dictRehash_loop env d (Suc n) ev = Some (d', out')"
        using used asrt sk False d2(1) d'(1) by simp
      have o2: "if out' then rehashidx d + ev \<le> rehashidx d' \<and> rehashidx d < rehashidx d'
         else ht_used (ht0 d') = 0 \<or> rehashidx d + int (Suc n) \<le> rehashidx d'"
        using o' d1(5,6) by (auto split: if_splits)
      have "rehashidx d \<le> rehashidx d'" using d'(6) d1(6) by linarith
      with eq dict_step_trans [OF d2(2) d'(2)] d'(3,4,5) o2 show ?thesis by blast
    qed
  qed
qed

lemma dictRehash_correct:
  assumes wf: "dict_wf env d" and bound: "n \<le> 214748364"
  shows "\<exists>d' more. dictRehash env d n = Some (d', more) \<and> dict_step env d d'
    \<and> (if rehash_refused env d then d' = d \<and> \<not> more
       else more = dictIsRehashing d'
         \<and> (more \<longrightarrow> ht_size_exp (ht0 d') = ht_size_exp (ht0 d) \<and> ht_size_exp (ht1 d') = ht_size_exp (ht1 d)
             \<and> (0 < n \<longrightarrow> rehashidx d < rehashidx d')
             \<and> n < length (ht_table (ht0 d))))"
proof (cases "rehash_refused env d")
  case True
  then show ?thesis using dict_step_refl [OF wf] bound
    by (intro exI [of _ d] exI [of _ False]) (simp add: dictRehash_def)
next
  case False
  then have re: "dictIsRehashing d" by (auto simp: rehash_refused_def Let_def)
  note r = dict_wf_rehashing [OF wf re]
  from dictRehash_loop_correct [OF wf re, of n "int n * 10"] obtain d1 out where
    loop: "dictRehash_loop env d n (int n * 10) = Some (d1, out)" and
    d1: "dict_step env d d1" "dictIsRehashing d1" "ht_size_exp (ht0 d1) = ht_size_exp (ht0 d)"
      "ht_size_exp (ht1 d1) = ht_size_exp (ht1 d)" "rehashidx d \<le> rehashidx d1" and
    oc: "if out then rehashidx d + int n * 10 \<le> rehashidx d1 \<and> rehashidx d < rehashidx d1
       else ht_used (ht0 d1) = 0 \<or> rehashidx d + int n \<le> rehashidx d1" by blast
  note r1 = dict_wf_rehashing [OF dict_step_wf [OF d1(1)] d1(2)]
  have len: "length (ht_table (ht0 d1)) = length (ht_table (ht0 d))"
    using ht_ok_size [OF r1(1)] ht_ok_size [OF r(1)] d1(3) by simp
  have pos: "0 < length (ht_table (ht0 d))" using r(3) by simp
  show ?thesis
  proof (cases out)
    case True
    have "int n * 10 \<le> int (length (ht_table (ht0 d)))" using oc True r1(6) r(5) len by auto
    with pos have "n < length (ht_table (ht0 d))" by linarith
    with True oc d1 loop False bound show ?thesis
      by (intro exI [of _ d1] exI [of _ True]) (simp add: dictRehash_def)
  next
    case not_out: False
    note c = dictCheckRehashingCompleted_correct [OF dict_step_wf [OF d1(1)] d1(2)]
    let ?d2 = "fst (dictCheckRehashingCompleted d1)"
    have eq: "dictRehash env d n = Some (?d2, dictIsRehashing ?d2)"
      using False not_out loop c(2,3) bound by (auto simp: dictRehash_def split: prod.splits)
    have "?d2 = d1 \<and> rehashidx d + int n \<le> rehashidx d1 \<and> n < length (ht_table (ht0 d))"
      if "dictIsRehashing ?d2"
    proof -
      have u: "ht_used (ht0 d1) \<noteq> 0" using that c(3) by simp
      from rehash_pending [OF dict_step_wf [OF d1(1)] d1(2) u]
      have "rehashidx d1 < int (length (ht_table (ht0 d)))" using len r1(5) by auto
      with u oc not_out c(4) r(5) show ?thesis by auto
    qed
    with eq dict_step_trans [OF d1(1) c(1)] False d1(3,4) show ?thesis by auto
  qed
qed

text \<open>
  The lookups compute the slot in table 0 before they rehash; it is compared with \<open>rehashidx\<close>
  afterwards.
\<close>

definition skip_ok :: "64 word \<Rightarrow> ('k, 'v) dict \<Rightarrow> nat \<Rightarrow> bool" where
  "skip_ok h d idx \<longleftrightarrow> (int idx < rehashidx d \<longrightarrow> idx = slot h (ht_size_exp (ht0 d)))"

lemma dictRehash_skip_ok:
  assumes wf: "dict_wf env d" and idx: "idx = slot h (ht_size_exp (ht0 d))" and bound: "n \<le> 214748364"
  shows "\<exists>d' more. dictRehash env d n = Some (d', more) \<and> dict_step env d d' \<and> skip_ok h d' idx"
proof -
  from dictRehash_correct [OF wf bound] obtain d' more where
    d': "dictRehash env d n = Some (d', more)" "dict_step env d d'"
    "if rehash_refused env d then d' = d \<and> \<not> more
       else more = dictIsRehashing d' \<and> (more \<longrightarrow> ht_size_exp (ht0 d') = ht_size_exp (ht0 d))" by auto
  then have "skip_ok h d' idx"
    using idx dict_wf_not_rehashing(3) [OF dict_step_wf [OF d'(2)]]
    by (cases "dictIsRehashing d'") (auto simp: skip_ok_def split: if_splits)
  with d' show ?thesis by blast
qed

lemma dictRehashStep_correct:
  assumes wf: "dict_wf env d" and idx: "idx = slot h (ht_size_exp (ht0 d))"
  shows "\<exists>d'. dictRehashStep' env d = Some d' \<and> dict_step env d d' \<and> skip_ok h d' idx"
proof (cases "pauserehash d = 0")
  case True
  then show ?thesis using dictRehash_skip_ok [OF assms, of 1] by (auto simp: dictRehashStep'_def)
next
  case False
  then show ?thesis using dict_step_refl [OF wf] idx by (simp add: dictRehashStep'_def skip_ok_def)
qed

lemma dictBucketRehash_correct:
  assumes wf: "dict_wf env d" and re: "dictIsRehashing d" and lt: "i < length (ht_table (ht0 d))"
    and idx: "idx = slot h (ht_size_exp (ht0 d))"
  shows "\<exists>d' b. dictBucketRehash' env d i = Some (d', b) \<and> dict_step env d d' \<and> skip_ok h d' idx"
proof (cases "pauserehash d \<noteq> 0 \<or> rehash_refused env d")
  case True
  then show ?thesis using dict_step_refl [OF wf] idx by (auto simp: dictBucketRehash'_def skip_ok_def)
next
  case False
  from rehashEntriesInBucketAtIndex_correct [OF wf re lt] obtain d1 where
    d1: "rehashEntriesInBucketAtIndex env d i = Some d1" "dict_step env d d1" "rehashidx d1 = rehashidx d"
      "ht_size_exp (ht0 d1) = ht_size_exp (ht0 d)" by blast
  have re1: "dictIsRehashing d1" using re d1(3) by (simp add: dictIsRehashing_def)
  note c = dictCheckRehashingCompleted_correct [OF dict_step_wf [OF d1(2)] re1]
  let ?d2 = "fst (dictCheckRehashingCompleted d1)"
  have "dictBucketRehash' env d i = Some (?d2, True)" using False d1(1) by (simp add: dictBucketRehash'_def)
  moreover have "skip_ok h ?d2 idx"
    using c(3,4) d1(4) idx dict_wf_not_rehashing(3) [OF dict_step_wf [OF c(1)]]
    by (cases "ht_used (ht0 d1) = 0") (auto simp: skip_ok_def)
  ultimately show ?thesis using dict_step_trans [OF d1(2) c(1)] by blast
qed

lemma rehash_on_access_correct:
  assumes wf: "dict_wf env d" and idx: "idx = slot h (ht_size_exp (ht0 d))"
  shows "\<exists>d'. rehash_on_access env d idx = Some d' \<and> dict_step env d d' \<and> skip_ok h d' idx"
proof (cases "dictIsRehashing d")
  case False
  then show ?thesis using dict_step_refl [OF wf] idx by (simp add: rehash_on_access_def skip_ok_def)
next
  case True
  note r = dict_wf_rehashing [OF wf True]
  have lt: "idx < length (ht_table (ht0 d))" using ht_ok_nonempty(6) [OF r(1,3)] idx by simp
  show ?thesis
    using True lt dictBucketRehash_correct [OF wf True lt idx] dictRehashStep_correct [OF assms]
    by (auto simp: rehash_on_access_def)
qed

lemma dictRehashRounds_correct:
  "dict_wf env d \<Longrightarrow> \<exists>d' n. dictRehashRounds env d k = Some (d', n) \<and> dict_step env d d'"
proof (induction k arbitrary: d)
  case 0
  then show ?case by (simp add: dict_step_refl)
next
  case (Suc k)
  from dictRehash_correct [OF Suc.prems, of 100] obtain d1 more where
    d1: "dictRehash env d 100 = Some (d1, more)" "dict_step env d d1" by auto
  from Suc.IH [OF dict_step_wf [OF d1(2)]] obtain d' n where
    d': "dictRehashRounds env d1 k = Some (d', n)" "dict_step env d1 d'" by blast
  show ?case using d1 d' dict_step_trans [OF d1(2) d'(2)] by (cases more) auto
qed

subsection \<open>Resizing\<close>

lemma bit_length_bounds: "0 < n \<Longrightarrow> 2 ^ (bit_length n - 1) \<le> n \<and> n < 2 ^ bit_length n \<and> 0 < bit_length n"
proof (induction n rule: bit_length.induct)
  case (1 n)
  show ?case
  proof (cases "n = 1")
    case True
    then show ?thesis by (simp add: bit_length.simps)
  next
    case False
    with 1(2) have p: "0 < n div 2" "n \<noteq> 0" by simp_all
    have bl: "bit_length n = Suc (bit_length (n div 2))" using p(2) by (subst bit_length.simps) simp
    from 1(1) [OF p(2) p(1)] obtain m where m: "bit_length (n div 2) = Suc m"
      "2 ^ m \<le> n div 2" "n div 2 < 2 ^ Suc m" by (metis Suc_pred' diff_Suc_1)
    have "2 * 2 ^ m \<le> n" "n < 2 * 2 ^ Suc m" using m(2,3) by linarith+
    then show ?thesis by (simp add: bl m(1))
  qed
qed

lemma bit_length_le: assumes "n < 2 ^ k" shows "bit_length n \<le> k"
proof (cases "n = 0")
  case True
  then show ?thesis by (simp add: bit_length.simps)
next
  case False
  then have "2 ^ (bit_length n - 1) \<le> n" using bit_length_bounds by simp
  then have "(2::nat) ^ (bit_length n - 1) < 2 ^ k" using assms by (rule le_less_trans)
  then have "bit_length n - 1 < k" by simp
  then show ?thesis by simp
qed

text \<open>\<open>dictNextExp'\<close> is the least exponent, from 2 on, whose power of two holds the size.\<close>

lemma dictNextExp_range: "2 \<le> dictNextExp' sz" "dictNextExp' sz \<le> 63"
proof -
  have b: "2 \<le> bit_length (sz - 1)" if "4 < sz"
  proof (rule ccontr)
    assume "\<not> 2 \<le> bit_length (sz - 1)"
    then have "(2::nat) ^ bit_length (sz - 1) \<le> 2 ^ 1" by (intro power_increasing) auto
    moreover have "sz - 1 < 2 ^ bit_length (sz - 1)" using that bit_length_bounds [of "sz - 1"] by simp
    ultimately show False using that by simp
  qed
  have l: "bit_length (sz - 1) \<le> 63" if "sz < LONG_MAX"
    using that by (intro bit_length_le) (simp add: LONG_MAX_def)
  show "2 \<le> dictNextExp' sz" "dictNextExp' sz \<le> 63"
    using b l by (auto simp: dictNextExp'_def clzl_def DICT_HT_INITIAL_SIZE_def DICT_HT_INITIAL_EXP_def)
qed

lemma dictNextExp_least:
  assumes "sz \<le> 2 ^ 63"
  shows "sz \<le> DICTHT_SIZE (dictNextExp' sz)"
    "dictNextExp' sz \<noteq> 2 \<Longrightarrow> DICTHT_SIZE (dictNextExp' sz - 1) < sz"
proof -
  have bounds: "sz \<le> 2 ^ bit_length (sz - 1) \<and> 2 ^ (bit_length (sz - 1) - 1) < sz" if "4 < sz"
    using that bit_length_bounds [of "sz - 1"] by linarith
  have l: "bit_length (sz - 1) \<le> 63" if "sz < LONG_MAX"
    using that by (intro bit_length_le) (simp add: LONG_MAX_def)
  note defs = dictNextExp'_def clzl_def DICT_HT_INITIAL_SIZE_def DICT_HT_INITIAL_EXP_def DICTHT_SIZE_def
  show "sz \<le> DICTHT_SIZE (dictNextExp' sz)"
    using assms bounds l by (auto simp: defs)
  show "DICTHT_SIZE (dictNextExp' sz - 1) < sz" if "dictNextExp' sz \<noteq> 2"
    using that bounds l by (auto simp: defs nat_diff_distrib' LONG_MAX_def split: if_splits)
qed

lemma exp_guard:
  assumes "0 \<le> e" "e \<le> 63" "\<not> (DICTHT_SIZE e * 8) mod 2 ^ 64 < DICTHT_SIZE e"
  shows "e \<le> 60"
proof (rule ccontr)
  assume "\<not> e \<le> 60"
  then have "e = 61 \<or> e = 62 \<or> e = 63" using assms(2) by arith
  with assms(3) show False by (auto simp: DICTHT_SIZE_def)
qed

lemma ht_ok_new:
  assumes "0 \<le> e" "e \<le> 60"
  shows "ht_ok env \<lparr>ht_table = replicate (DICTHT_SIZE e) [], ht_used = 0, ht_size_exp = e\<rparr>"
  using assms by (auto simp: ht_ok_def DICTHT_SIZE_def bucket_ok_def)

lemma dictResize_correct:
  assumes wf: "dict_wf env d" and nre: "\<not> dictIsRehashing d"
  shows "\<exists>d' ok mf. dictResize' d sz ta = Some (d', ok, mf) \<and> dict_step env d d' \<and> rehashidx d' \<le> 0
    \<and> (if ok then ht_table (ht0 d') \<noteq> []
         \<and> ht_size_exp (if dictIsRehashing d' then ht1 d' else ht0 d') = dictNextExp' sz
         \<and> sz \<le> DICTHT_SIZE (dictNextExp' sz) \<and> dictNextExp' sz \<noteq> ht_size_exp (ht0 d)
       else d' = d)
    \<and> (mf \<longrightarrow> ta = Some False)
    \<and> (ta \<noteq> Some False \<and> sz \<le> 2 ^ 60 \<and> dictNextExp' sz \<noteq> ht_size_exp (ht0 d) \<longrightarrow> ok)"
proof -
  note r = dict_wf_not_rehashing [OF wf nre]
  let ?e = "dictNextExp' sz" and ?n = "DICTHT_SIZE (dictNextExp' sz)"
  let ?new = "\<lparr>ht_table = replicate ?n [], ht_used = 0, ht_size_exp = ?e\<rparr> :: ('a, 'b) ht"
  define bad where "bad \<longleftrightarrow> ?n < sz \<or> (?n * 8) mod 2 ^ 64 < ?n"
  have fits: "\<not> bad" if le: "sz \<le> 2 ^ 60"
  proof -
    have sz: "sz \<le> 2 ^ 63" using le by simp
    have "?e \<le> 60"
    proof (rule ccontr)
      assume a: "\<not> ?e \<le> 60"
      then have "DICTHT_SIZE (?e - 1) < sz" using dictNextExp_least(2) [OF sz] by simp
      moreover have "(2::nat) ^ 60 \<le> 2 ^ nat (?e - 1)" using a by (intro power_increasing) auto
      ultimately show False using le a by (simp add: DICTHT_SIZE_def split: if_splits)
    qed
    moreover have "?n * 8 < 2 ^ 64 \<and> ?n \<le> ?n * 8"
    proof -
      have "(2::nat) ^ nat ?e \<le> 2 ^ 60" using \<open>?e \<le> 60\<close> by (intro power_increasing) auto
      then show ?thesis by (simp add: DICTHT_SIZE_def)
    qed
    ultimately show ?thesis using dictNextExp_least(1) [OF sz] by (simp add: bad_def)
  qed
  show ?thesis
  proof (cases "bad \<or> ?e = ht_size_exp (ht0 d) \<or> ta = Some False")
    case True
    have "\<exists>mf. dictResize' d sz ta = Some (d, False, mf) \<and> (mf \<longrightarrow> ta = Some False)"
      using True nre by (auto simp: dictResize'_def Let_def bad_def)
    then obtain mf where "dictResize' d sz ta = Some (d, False, mf)" "mf \<longrightarrow> ta = Some False" by blast
    with True dict_step_refl [OF wf] r(3) fits show ?thesis
      by (intro exI [of _ d] exI [of _ False] exI [of _ mf]) auto
  next
    case False
    have "\<not> (?n * 8) mod 2 ^ 64 < ?n" using False by (simp add: bad_def)
    with dictNextExp_range [of sz] have e: "0 \<le> ?e" "?e \<le> 60" using exp_guard [of ?e] by auto
    have ok: "ht_ok env ?new" by (rule ht_ok_new [OF e])
    have pos: "?n \<noteq> 0" using e by (simp add: DICTHT_SIZE_def)
    have sz: "sz \<le> ?n" using False by (simp add: bad_def)
    show ?thesis
    proof (cases "ht_table (ht0 d) = [] \<or> ht_used (ht0 d) = 0")
      case True
      let ?s = "rehashingStarted (d\<lparr>ht1 := ?new, rehashidx := 0\<rparr>)"
      let ?d = "(rehashingCompleted ?s)\<lparr>ht0 := ?new, ht1 := dictReset', rehashidx := -1\<rparr>"
      have "concat (ht_table (ht0 d)) = []" using True ht_ok_used [OF r(1)] by auto
      then have ms: "mset (entries ?d) = mset (entries d)" using r(2) by (simp add: entries_def)
      have "dict_wf env ?d" using dict_wfI_mset [OF wf ms] ok by (simp add: rehash_ok_def)
      moreover have "calls_step d ?d"
        using calls_step_trans [OF calls_step_started [OF nre, of ?new] calls_step_completed [of ?s]]
        by (simp add: dictIsRehashing_def)
      ultimately have "dict_step env d ?d" using ms pos by (simp add: dict_step_def)
      with False True nre pos sz show ?thesis
        by (intro exI [of _ ?d] exI [of _ True] exI [of _ False])
           (auto simp: dictResize'_def Let_def bad_def dictIsRehashing_def)
    next
      case ne: False
      let ?d = "rehashingStarted (d\<lparr>ht1 := ?new, rehashidx := 0\<rparr>)"
      have ms: "mset (entries ?d) = mset (entries d)" using r(2) by (simp add: entries_def)
      have "dict_wf env ?d" using dict_wfI_mset [OF wf ms] ok r(1) ne pos by (simp add: rehash_ok_def)
      with ms calls_step_started [OF nre, of ?new] have "dict_step env d ?d" by (simp add: dict_step_def)
      with False ne nre sz show ?thesis
        by (intro exI [of _ ?d] exI [of _ True] exI [of _ False])
           (auto simp: dictResize'_def Let_def bad_def dictIsRehashing_def)
    qed
  qed
qed

lemma dictExpand_correct:
  assumes wf: "dict_wf env d"
  shows "\<exists>d' ok mf. dictExpand' d sz ta = Some (d', ok, mf) \<and> dict_step env d d'
    \<and> (d' = d \<or> rehashidx d' \<le> 0) \<and> (ht_table (ht0 d) \<noteq> [] \<longrightarrow> ht_table (ht0 d') \<noteq> [])
    \<and> (ta = None \<and> \<not> dictIsRehashing d \<and> ht_table (ht0 d) = [] \<and> 0 < sz \<and> sz \<le> 2 ^ 60 \<longrightarrow> ht_table (ht0 d') \<noteq> [])"
proof (cases "dictIsRehashing d \<or> ht_used (ht0 d) > sz \<or> DICTHT_SIZE (ht_size_exp (ht0 d)) \<ge> sz")
  case True
  have "ht_ok env (ht0 d)" using wf by (simp add: dict_wf_def)
  then have "ht_table (ht0 d) = [] \<longrightarrow> ht_used (ht0 d) = 0 \<and> DICTHT_SIZE (ht_size_exp (ht0 d)) = 0"
    by (auto simp: ht_ok_def DICTHT_SIZE_def)
  with True dict_step_refl [OF wf] show ?thesis by (auto simp: dictExpand'_def)
next
  case False
  then have nre: "\<not> dictIsRehashing d" by simp
  have "ht_ok env (ht0 d)" using wf by (simp add: dict_wf_def)
  then have e: "ht_table (ht0 d) = [] \<Longrightarrow> dictNextExp' sz \<noteq> ht_size_exp (ht0 d)"
    using dictNextExp_range(1) [of sz] by (auto simp: ht_ok_def)
  from dictResize_correct [OF wf nre, of sz ta] obtain d' ok mf where
    d': "dictResize' d sz ta = Some (d', ok, mf)" "dict_step env d d'" "rehashidx d' \<le> 0"
      "if ok then ht_table (ht0 d') \<noteq> []
         \<and> ht_size_exp (if dictIsRehashing d' then ht1 d' else ht0 d') = dictNextExp' sz
         \<and> sz \<le> DICTHT_SIZE (dictNextExp' sz) \<and> dictNextExp' sz \<noteq> ht_size_exp (ht0 d)
       else d' = d"
      "ta \<noteq> Some False \<and> sz \<le> 2 ^ 60 \<and> dictNextExp' sz \<noteq> ht_size_exp (ht0 d) \<longrightarrow> ok" by blast
  moreover have "dictExpand' d sz ta = Some (d', ok, mf)" using False d'(1) by (simp add: dictExpand'_def)
  ultimately show ?thesis using e by (auto split: if_splits)
qed

lemma dictExpandIfNeeded_correct:
  assumes wf: "dict_wf env d"
  shows "\<exists>d' ok. dictExpandIfNeeded env d = Some (d', ok) \<and> dict_step env d d'
    \<and> (d' = d \<or> rehashidx d' \<le> 0) \<and> ht_table (ht0 d') \<noteq> []"
proof (cases "dictIsRehashing d")
  case True
  then show ?thesis
    using dict_step_refl [OF wf] dict_wf_rehashing(3) [OF wf] by (auto simp: dictExpandIfNeeded_def Let_def)
next
  case nre: False
  have sz: "DICTHT_SIZE (ht_size_exp (ht0 d)) = length (ht_table (ht0 d))"
    using wf by (auto simp: dict_wf_def intro: ht_ok_size)
  show ?thesis
  proof (cases "ht_table (ht0 d) = []")
    case True
    from dictExpand_correct [OF wf, of DICT_HT_INITIAL_SIZE None] True nre show ?thesis
      by (auto simp: dictExpandIfNeeded_def sz dictExpand_def DICT_HT_INITIAL_SIZE_def DICT_HT_INITIAL_EXP_def)
  next
    case False
    have ex: "\<exists>d'. map_option fst (dictExpand d (ht_used (ht0 d) + 1)) = Some d' \<and> dict_step env d d'
      \<and> (d' = d \<or> rehashidx d' \<le> 0) \<and> ht_table (ht0 d') \<noteq> []"
      using dictExpand_correct [OF wf, of "ht_used (ht0 d) + 1" None] False by (auto simp: dictExpand_def)
    with False nre dict_step_refl [OF wf] show ?thesis
      by (auto simp: dictExpandIfNeeded_def Let_def sz)
  qed
qed

lemma dictShrinkIfNeeded_correct:
  assumes wf: "dict_wf env d"
  shows "\<exists>d' ok. dictShrinkIfNeeded env d = Some (d', ok) \<and> dict_step env d d'"
proof -
  have "\<exists>d'. map_option fst (dictShrink d sz) = Some d' \<and> dict_step env d d'" for sz
  proof (cases "dictIsRehashing d \<or> ht_used (ht0 d) > sz \<or> DICTHT_SIZE (ht_size_exp (ht0 d)) \<le> sz")
    case True
    then show ?thesis using dict_step_refl [OF wf] by (auto simp: dictShrink_def)
  next
    case False
    then show ?thesis using dictResize_correct [OF wf, of sz None] by (auto simp: dictShrink_def)
  qed
  from this [of "ht_used (ht0 d)"] show ?thesis
    using dict_step_refl [OF wf] by (auto simp: dictShrinkIfNeeded_def Let_def)
qed

lemma dictShrinkIfNeeded'_correct:
  assumes wf: "dict_wf env d"
  shows "\<exists>d'. dictShrinkIfNeeded' env d = Some d' \<and> dict_step env d d'"
  using dictShrinkIfNeeded_correct [OF wf] dict_step_refl [OF wf] by (auto simp: dictShrinkIfNeeded'_def)

lemma dictExpandIfNeeded'_correct:
  assumes wf: "dict_wf env d" and sk: "skip_ok h d idx"
    and tab: "ht_table (ht0 d) \<noteq> [] \<or> pauseAutoResize d \<le> 0"
  shows "\<exists>d'. dictExpandIfNeeded' env d = Some d' \<and> dict_step env d d' \<and> skip_ok h d' idx
    \<and> ht_table (ht0 d') \<noteq> []"
  using dictExpandIfNeeded_correct [OF wf] dict_step_refl [OF wf] sk tab
  by (auto simp: dictExpandIfNeeded'_def skip_ok_def)

subsection \<open>Search\<close>

lemma chain_find_correct:
  "case chain_find key b p of None \<Rightarrow> key \<notin> fst ` set b
   | Some q \<Rightarrow> p \<le> q \<and> q - p < length b \<and> fst (b ! (q - p)) = key"
proof (induction b arbitrary: p)
  case (Cons he b)
  show ?case
  proof (cases "key = fst he")
    case False
    then show ?thesis using Cons.IH [of "p + 1"]
      by (auto simp: nth_Cons' Suc_diff_le split: option.splits)
  qed simp
qed simp

lemma in_concat_nth: "x \<in> set (concat t) \<longleftrightarrow> (\<exists>i < length t. x \<in> set (t ! i))"
  by (auto simp: in_set_conv_nth [of _ t]) (meson nth_mem)

lemma dictGetEntry_in: "dictGetEntry d r = Some e \<Longrightarrow> e \<in> set (entries d)"
  by (auto simp: dictGetEntry_def Let_def entries_def get_ht_def in_concat_nth not_le simp del: set_concat
      split: prod.splits if_splits)

lemma dictGetEntry_map:
  "dict_wf env d \<Longrightarrow> dictGetEntry d r = Some (k, v) \<Longrightarrow> dict_map d k = Some v"
  using dictGetEntry_in by (fastforce simp: dict_wf_def dict_map_def intro: map_of_is_SomeI)

lemma search_table_correct:
  assumes t: "get_ht d t = H" and ok: "ht_ok env H" and ne: "ht_table H \<noteq> []"
    and h: "h = hashFunction env key"
  shows "\<exists>r. search_table d key h t = Some r
    \<and> (case r of None \<Rightarrow> key \<notin> fst ` set (concat (ht_table H))
       | Some ref \<Rightarrow> \<exists>v. dictGetEntry d ref = Some (key, v))"
proof -
  let ?tab = "ht_table H" and ?idx = "slot h (ht_size_exp H)"
  have lt: "?idx < length ?tab" by (rule ht_ok_nonempty(6) [OF ok ne])
  have "key \<notin> fst ` set (concat ?tab)" if "key \<notin> fst ` set (?tab ! ?idx)"
  proof
    assume "key \<in> fst ` set (concat ?tab)"
    then obtain i x where i: "i < length ?tab" "x \<in> set (?tab ! i)" "fst x = key"
      unfolding image_iff Bex_def in_concat_nth by blast
    with ht_ok_nonempty(5) [OF ok ne i(1)] h have "i = ?idx" by (auto simp: bucket_ok_def list_all_iff)
    with i that show False by force
  qed
  then show ?thesis using lt chain_find_correct [of key "?tab ! ?idx" 0]
    by (auto simp: search_table_def t Let_def dictGetEntry_def prod_eq_iff split: option.splits)
qed

lemma search_tables_correct:
  assumes wf: "dict_wf env d" and ne: "ht_table (ht0 d) \<noteq> []"
    and h: "h = hashFunction env key" and sk: "skip_ok h d idx"
  shows "\<exists>r. search_tables d key h idx = Some r
    \<and> (case r of None \<Rightarrow> dict_map d key = None
       | Some ref \<Rightarrow> \<exists>v. dictGetEntry d ref = Some (key, v) \<and> dict_map d key = Some v)"
proof -
  have s0: "\<exists>r. search_table d key h 0 = Some r
    \<and> (case r of None \<Rightarrow> key \<notin> fst ` set (concat (ht_table (ht0 d)))
       | Some ref \<Rightarrow> \<exists>v. dictGetEntry d ref = Some (key, v))"
    by (rule search_table_correct) (use wf ne h in \<open>simp_all add: dict_wf_def get_ht_def\<close>)
  have s1: "\<exists>r. search_table d key h 1 = Some r
    \<and> (case r of None \<Rightarrow> key \<notin> fst ` set (concat (ht_table (ht1 d)))
       | Some ref \<Rightarrow> \<exists>v. dictGetEntry d ref = Some (key, v))" if "dictIsRehashing d"
    by (rule search_table_correct) (use dict_wf_rehashing [OF wf that] h in \<open>simp_all add: get_ht_def\<close>)
  have skip: "key \<notin> fst ` set (concat (ht_table (ht0 d)))" if l: "int idx < rehashidx d"
  proof
    assume "key \<in> fst ` set (concat (ht_table (ht0 d)))"
    then obtain i x where i: "i < length (ht_table (ht0 d))" "x \<in> set (ht_table (ht0 d) ! i)" "fst x = key"
      unfolding image_iff Bex_def in_concat_nth by blast
    have re: "dictIsRehashing d" using l by (simp add: dictIsRehashing_def)
    note r = dict_wf_rehashing [OF wf re]
    have "i = idx" using ht_ok_nonempty(5) [OF r(1,3) i(1)] i h sk l
      by (auto simp: bucket_ok_def list_all_iff skip_ok_def)
    then have "i < nat (rehashidx d)" using l by simp
    then have "ht_table (ht0 d) ! i = []" using r(8) i(1) by (auto simp: list_all_length)
    with i show False by simp
  qed
  have none: "dict_map d key = None" if "key \<notin> fst ` set (concat (ht_table (ht0 d)))"
    "key \<notin> fst ` set (concat (ht_table (ht1 d)))"
    using that by (auto simp: dict_map_def entries_def map_of_eq_None_iff image_Un)
  have h1: "ht_table (ht1 d) = []" if "\<not> dictIsRehashing d"
    using dict_wf_not_rehashing(2) [OF wf that] by simp
  show ?thesis
  proof (cases "int idx < rehashidx d")
    case True
    then have re: "dictIsRehashing d" by (auto simp: dictIsRehashing_def)
    from s1 [OF re] obtain r where r: "search_table d key h 1 = Some r"
      "case r of None \<Rightarrow> key \<notin> fst ` set (concat (ht_table (ht1 d)))
       | Some ref \<Rightarrow> \<exists>v. dictGetEntry d ref = Some (key, v)" by blast
    then have "search_tables d key h idx = Some r" using True by (simp add: search_tables_def)
    with r none [OF skip [OF True]] show ?thesis
      by (cases r) (auto dest: dictGetEntry_map [OF wf])
  next
    case False
    from s0 obtain r0 where r0: "search_table d key h 0 = Some r0"
      "case r0 of None \<Rightarrow> key \<notin> fst ` set (concat (ht_table (ht0 d)))
       | Some ref \<Rightarrow> \<exists>v. dictGetEntry d ref = Some (key, v)" by blast
    show ?thesis
    proof (cases "r0 \<noteq> None \<or> \<not> dictIsRehashing d")
      case True
      then have "search_tables d key h idx = Some r0" using False r0(1) by (cases r0) (auto simp: search_tables_def)
      with r0 True none h1 show ?thesis
        by (cases r0) (auto dest: dictGetEntry_map [OF wf])
    next
      case c: False
      then have r0n: "r0 = None" by blast
      from c s1 obtain r where r: "search_table d key h 1 = Some r"
        "case r of None \<Rightarrow> key \<notin> fst ` set (concat (ht_table (ht1 d)))
         | Some ref \<Rightarrow> \<exists>v. dictGetEntry d ref = Some (key, v)" by blast
      then have "search_tables d key h idx = Some r" using c False r0(1) by (simp add: search_tables_def)
      with r r0(2) none show ?thesis unfolding r0n
        by (cases r) (auto dest: dictGetEntry_map [OF wf])
    qed
  qed
qed

subsection \<open>Changing one bucket\<close>

lemma map_of_mset_add:
  assumes "distinct (map fst xs)" "k \<notin> fst ` set xs" "mset ys = add_mset (k, v) (mset xs)"
  shows "distinct (map fst ys)" "map_of ys = (map_of xs)(k \<mapsto> v)"
proof -
  have "mset (map fst ys) = mset (map fst ((k, v) # xs))" using assms(3) by simp
  then show "distinct (map fst ys)" using assms(1,2) by (metis distinct.simps(2) fst_conv list.map(2) list.set_map mset_eq_imp_distinct_iff)
  show "map_of ys = (map_of xs)(k \<mapsto> v)"
    using map_of_mset_eq [of "(k, v) # xs" ys] assms by simp
qed

lemma map_of_mset_remove:
  assumes "distinct (map fst xs)" "mset xs = add_mset (k, v) (mset ys)"
  shows "distinct (map fst ys)" "map_of ys = (map_of xs)(k := None)" "k \<notin> fst ` set ys"
proof -
  have "mset (map fst ((k, v) # ys)) = mset (map fst xs)" using assms(2) by simp
  then have d: "distinct (map fst ((k, v) # ys))" using assms(1) mset_eq_imp_distinct_iff by metis
  then show "distinct (map fst ys)" "k \<notin> fst ` set ys" by simp_all
  then have n: "map_of ys k = None" by (simp add: map_of_eq_None_iff)
  have "map_of xs = (map_of ys)(k \<mapsto> v)" using map_of_mset_eq [OF d] assms(2) by simp
  then show "map_of ys = (map_of xs)(k := None)" using n by (simp add: fun_eq_iff)
qed

lemma map_of_mset_replace:
  assumes "distinct (map fst xs)" "(k, old) \<in> set xs" "add_mset (k, old) (mset ys) = add_mset (k, v) (mset xs)"
  shows "distinct (map fst ys)" "map_of ys = (map_of xs)(k \<mapsto> v)"
proof -
  let ?zs = "remove1 (k, old) xs"
  have x: "mset xs = add_mset (k, old) (mset ?zs)" using assms(2) by simp
  note z = map_of_mset_remove [OF assms(1) x]
  have y: "mset ys = add_mset (k, v) (mset ?zs)" using assms(3) unfolding x by (simp add: add_mset_commute)
  show "distinct (map fst ys)" "map_of ys = (map_of xs)(k \<mapsto> v)"
    using map_of_mset_add [OF z(1,3) y] z(2) by simp_all
qed

definition set_bucket ::
  "('k, 'v) dict \<Rightarrow> nat \<Rightarrow> nat \<Rightarrow> ('k, 'v) bucket \<Rightarrow> nat \<Rightarrow> ('k, 'v) dict" where
  "set_bucket d t idx b u =
     set_ht d t ((get_ht d t)\<lparr>ht_table := (ht_table (get_ht d t))[idx := b], ht_used := u\<rparr>)"

lemma mset_set_bucket:
  assumes "idx < length (ht_table (get_ht d t))"
  shows "mset (entries (set_bucket d t idx b u)) + mset (ht_table (get_ht d t) ! idx)
    = mset (entries d) + mset b"
  using mset_concat_update [OF assms, of b]
  by (cases "t = 0") (simp_all add: set_bucket_def entries_def get_ht_def set_ht_def ac_simps)

lemma set_bucket_pause:
  "pauserehash (set_bucket d t idx b u) = pauserehash d"
  "pauseAutoResize (set_bucket d t idx b u) = pauseAutoResize d"
  "dictIsRehashing (set_bucket d t idx b u) = dictIsRehashing d"
  by (simp_all add: set_bucket_def set_ht_def dictIsRehashing_def)

lemma set_bucket_wf:
  assumes wf: "dict_wf env d" and idx: "idx < length (ht_table (get_ht d t))"
    and b: "bucket_ok env (ht_size_exp (get_ht d t)) idx b"
    and u: "ht_used (get_ht d t) + length b = u + length (ht_table (get_ht d t) ! idx)"
    and free: "dictIsRehashing d \<Longrightarrow> t = 0 \<Longrightarrow> ht_table (ht0 d) ! idx \<noteq> []"
    and dist: "distinct (map fst (entries (set_bucket d t idx b u)))"
  shows "dict_wf env (set_bucket d t idx b u)"
proof -
  let ?d = "set_bucket d t idx b u"
  have ok: "ht_ok env (ht0 d)" "ht_ok env (ht1 d)" using wf by (simp_all add: dict_wf_def)
  then have "ht_ok env (get_ht d t)" by (simp add: get_ht_def)
  from ht_ok_update [OF this idx b u] have ok': "ht_ok env (ht0 ?d)" "ht_ok env (ht1 ?d)"
    using ok by (cases "t = 0"; simp add: set_bucket_def set_ht_def get_ht_def)+
  have "rehash_ok ?d"
  proof (cases "dictIsRehashing d")
    case False
    with dict_wf_not_rehashing [OF wf False] idx show ?thesis
      by (auto simp: rehash_ok_def set_bucket_def set_ht_def get_ht_def)
  next
    case True
    note r = dict_wf_rehashing [OF wf True]
    have "\<not> idx < nat (rehashidx d)" if "t = 0"
    proof
      assume "idx < nat (rehashidx d)"
      then have "ht_table (ht0 d) ! idx = []" using r(8) idx that by (auto simp: list_all_length get_ht_def)
      with free [OF True that] show False by simp
    qed
    with r True show ?thesis
      by (cases "t = 0") (auto simp: rehash_ok_def set_bucket_def set_ht_def get_ht_def dictIsRehashing_def not_less)
  qed
  with ok' dist show ?thesis by (simp add: dict_wf_def)
qed

lemma dictGetEntryE:
  assumes "dictGetEntry d r = Some e"
  obtains t idx pos where "r = (t, idx, pos)" "idx < length (ht_table (get_ht d t))"
    "pos < length (ht_table (get_ht d t) ! idx)" "ht_table (get_ht d t) ! idx ! pos = e"
  using assms by (cases r) (auto simp: dictGetEntry_def Let_def not_le split: if_splits)

lemma get_ht_ok: "dict_wf env d \<Longrightarrow> ht_ok env (get_ht d t)"
  by (simp add: dict_wf_def get_ht_def)

lemma get_bucket_ok:
  "dict_wf env d \<Longrightarrow> idx < length (ht_table (get_ht d t))
    \<Longrightarrow> bucket_ok env (ht_size_exp (get_ht d t)) idx (ht_table (get_ht d t) ! idx)"
  by (rule ht_ok_nonempty(5) [OF get_ht_ok]) auto

lemma mset_list_update: "i < length xs \<Longrightarrow> add_mset (xs ! i) (mset (xs[i := x])) = add_mset x (mset xs)"
  by (simp add: mset_update)

lemma set_bucket_calls [simp]: "calls_step d (set_bucket d t idx b u)"
  by (rule calls_step_same) (auto simp: set_bucket_def set_ht_def get_ht_def tabs_def dictIsRehashing_def)

lemma dictSetVal_correct:
  assumes wf: "dict_wf env d" and e: "dictGetEntry d r = Some (k, old)" and nv: "\<not> no_value env"
  shows "\<exists>d'. dictSetVal env d r val = Some d' \<and> dict_wf env d' \<and> dict_map d' = (dict_map d)(k \<mapsto> Some val)
    \<and> pauserehash d' = pauserehash d \<and> pauseAutoResize d' = pauseAutoResize d \<and> calls_step d d'"
proof -
  from e obtain t idx pos where r: "r = (t, idx, pos)" "idx < length (ht_table (get_ht d t))"
    "pos < length (ht_table (get_ht d t) ! idx)" "ht_table (get_ht d t) ! idx ! pos = (k, old)"
    by (rule dictGetEntryE)
  let ?b = "ht_table (get_ht d t) ! idx"
  let ?b' = "?b[pos := (k, Some val)]" and ?u = "ht_used (get_ht d t)"
  let ?d = "set_bucket d t idx ?b' ?u"
  have eq: "dictSetVal env d r val = Some ?d"
    using r nv by (auto simp: dictSetVal_def Let_def set_bucket_def)
  have b': "add_mset (k, old) (mset ?b') = add_mset (k, Some val) (mset ?b)"
    using mset_list_update [OF r(3), of "(k, Some val)"] r(4) by simp
  have "add_mset (k, old) (mset (entries ?d)) + mset ?b = mset (entries d) + add_mset (k, old) (mset ?b')"
    using mset_set_bucket [OF r(2), of ?b' ?u] by simp
  also have "\<dots> = add_mset (k, Some val) (mset (entries d)) + mset ?b"
    unfolding b' by simp
  finally have "add_mset (k, old) (mset (entries ?d)) + mset ?b
      = add_mset (k, Some val) (mset (entries d)) + mset ?b" .
  then have ms: "add_mset (k, old) (mset (entries ?d)) = add_mset (k, Some val) (mset (entries d))" by simp
  have dist: "distinct (map fst (entries d))" using wf by (simp add: dict_wf_def)
  note m = map_of_mset_replace [OF dist dictGetEntry_in [OF e] ms]
  have "bucket_ok env (ht_size_exp (get_ht d t)) idx ?b'"
    using get_bucket_ok [OF wf r(2)] r(3,4)
    by (auto simp: bucket_ok_def list_all_length nth_list_update)
  then have "dict_wf env ?d"
    by (intro set_bucket_wf [OF wf r(2)]) (use r m in \<open>auto simp: get_ht_def\<close>)
  with eq m(2) show ?thesis by (simp add: dict_map_def set_bucket_pause)
qed

lemma unlink_at_correct:
  assumes wf: "dict_wf env d" and e: "dictGetEntry d r = Some (k, v)"
  shows "\<exists>d'. unlink_at d r = Some (d', (k, v)) \<and> dict_wf env d' \<and> dict_map d' = (dict_map d)(k := None)
    \<and> pauserehash d' = pauserehash d \<and> pauseAutoResize d' = pauseAutoResize d \<and> calls_step d d'"
proof -
  from e obtain t idx pos where r: "r = (t, idx, pos)" "idx < length (ht_table (get_ht d t))"
    "pos < length (ht_table (get_ht d t) ! idx)" "ht_table (get_ht d t) ! idx ! pos = (k, v)"
    by (rule dictGetEntryE)
  let ?b = "ht_table (get_ht d t) ! idx"
  let ?b' = "take pos ?b @ drop (Suc pos) ?b" and ?u = "ht_used (get_ht d t) - 1"
  let ?d = "set_bucket d t idx ?b' ?u"
  have eq: "unlink_at d r = Some (?d, (k, v))"
    using r by (auto simp: unlink_at_def Let_def set_bucket_def)
  have b: "?b = take pos ?b @ (k, v) # drop (Suc pos) ?b" using id_take_nth_drop [OF r(3)] r(4) by simp
  have mb: "mset ?b = add_mset (k, v) (mset ?b')" by (subst b) simp
  have "add_mset (k, v) (mset (entries ?d)) + mset ?b' = mset (entries d) + mset ?b'"
    using mset_set_bucket [OF r(2), of ?b' ?u] unfolding mb by simp
  then have ms: "mset (entries d) = add_mset (k, v) (mset (entries ?d))" by simp
  have dist: "distinct (map fst (entries d))" using wf by (simp add: dict_wf_def)
  note m = map_of_mset_remove [OF dist ms]
  have bok: "bucket_ok env (ht_size_exp (get_ht d t)) idx ?b'"
    using get_bucket_ok [OF wf r(2)] by (auto simp: bucket_ok_def list_all_iff dest: in_set_takeD in_set_dropD)
  have "length ?b \<le> ht_used (get_ht d t)"
    using length_concat_update [OF r(2), of "[]"] ht_ok_used [OF get_ht_ok [OF wf]] by simp
  then have "dict_wf env ?d"
    by (intro set_bucket_wf [OF wf r(2) bok]) (use r m in \<open>auto simp: get_ht_def\<close>)
  with eq m(2) show ?thesis by (simp add: dict_map_def set_bucket_pause)
qed

lemma dictInsertAtPosition_correct:
  assumes wf: "dict_wf env d" and ne: "ht_table (ht0 d) \<noteq> []" and k: "dict_map d key = None"
    and t: "t = (if dictIsRehashing d then 1 else 0)"
    and idx: "idx = slot (hashFunction env key) (ht_size_exp (get_ht d t))"
  shows "\<exists>d' r. dictInsertAtPosition d key (t, idx) = Some (d', r) \<and> dict_wf env d'
    \<and> dict_map d' = (dict_map d)(key \<mapsto> None) \<and> dictGetEntry d' r = Some (key, None)
    \<and> pauserehash d' = pauserehash d \<and> pauseAutoResize d' = pauseAutoResize d \<and> calls_step d d'"
proof -
  have "ht_table (get_ht d t) \<noteq> []" using ne t dict_wf_rehashing(4) [OF wf] by (simp add: get_ht_def)
  note H = ht_ok_nonempty [OF get_ht_ok [OF wf] this]
  have lt: "idx < length (ht_table (get_ht d t))" using H(6) idx by simp
  let ?b = "ht_table (get_ht d t) ! idx"
  let ?b' = "(key, None) # ?b" and ?u = "ht_used (get_ht d t) + 1"
  let ?d = "set_bucket d t idx ?b' ?u"
  have "int idx \<le> uint (DICTHT_SIZE_MASK (ht_size_exp (get_ht d t)))" unfolding idx by (rule slot_le_mask)
  then have eq: "dictInsertAtPosition d key (t, idx) = Some (?d, (t, idx, 0))"
    using lt by (auto simp: dictInsertAtPosition_def t [symmetric] Let_def set_bucket_def)
  have get: "dictGetEntry ?d (t, idx, 0) = Some (key, None)"
    using lt by (cases "t = 0") (simp_all add: dictGetEntry_def Let_def set_bucket_def get_ht_def set_ht_def)
  have ms: "mset (entries ?d) = add_mset (key, None) (mset (entries d))"
    using mset_set_bucket [OF lt, of ?b' ?u] by simp
  have dist: "distinct (map fst (entries d))" using wf by (simp add: dict_wf_def)
  have "key \<notin> fst ` set (entries d)" using k by (simp add: dict_map_def map_of_eq_None_iff)
  note m = map_of_mset_add [OF dist this ms]
  have bok: "bucket_ok env (ht_size_exp (get_ht d t)) idx ?b'"
    using get_bucket_ok [OF wf lt] idx by (simp add: bucket_ok_def)
  have "dict_wf env ?d" by (rule set_bucket_wf [OF wf lt bok _ _ m(1)]) (use t in auto)
  with eq get m(2) show ?thesis by (simp add: dict_map_def set_bucket_pause)
qed

end
