(* ===== verification/Dict_Map.thy ===== *)
theory Dict_Map
  imports Dict_Ops
begin

section \<open>Hash tables: the operations as those of a partial map\<close>

text \<open>
  Each operation of theory \<open>Dict\<close> on a well-formed dictionary: it does not fail, keeps the
  invariant and acts on \<open>dict_map\<close> as the operation of a partial map.  The dictionaries whose
  entries all have a value then refine \<open>map_store\<close>.
\<close>

subsection \<open>The operations\<close>

lemma dict_wf_table:
  assumes "dict_wf env d" "dictSize d \<noteq> 0"
  shows "ht_table (ht0 d) \<noteq> []"
proof
  assume a: "ht_table (ht0 d) = []"
  then have "\<not> dictIsRehashing d" using dict_wf_rehashing(3) [OF assms(1)] by auto
  from dict_wf_not_rehashing [OF assms(1) this] a show False
    using assms(2) ht_ok_used [of env "ht0 d"] by (simp add: dictSize_def)
qed

lemma dict_step_size: "dict_wf env d \<Longrightarrow> dict_step env d d' \<Longrightarrow> dictSize d' = dictSize d"
  using dictSize_entries [of env d] dictSize_entries [of env d']
  by (metis dict_step_def size_mset)

lemma dictSize_0_map: "dict_wf env d \<Longrightarrow> dictSize d = 0 \<Longrightarrow> dict_map d = Map.empty"
  using dictSize_entries [of env d] by (simp add: dict_map_def)

lemma dictFind_correct:
  assumes wf: "dict_wf env d"
  shows "\<exists>d' r. dictFind env d key = Some (d', r) \<and> dict_step env d d'
    \<and> (case r of None \<Rightarrow> dict_map d key = None
       | Some ref \<Rightarrow> \<exists>v. dictGetEntry d' ref = Some (key, v) \<and> dict_map d key = Some v)"
proof (cases "dictSize d = 0")
  case True
  then show ?thesis using dictSize_0_map [OF wf] dict_step_refl [OF wf]
    by (intro exI [of _ d] exI [of _ None]) (simp add: dictFind_def)
next
  case False
  let ?h = "hashFunction env key"
  let ?idx = "slot ?h (ht_size_exp (ht0 d))"
  from rehash_on_access_correct [OF wf refl] obtain d' where
    d': "rehash_on_access env d ?idx = Some d'" "dict_step env d d'" "skip_ok ?h d' ?idx" by blast
  have "ht_table (ht0 d') \<noteq> []"
    using dict_wf_table [OF dict_step_wf [OF d'(2)]] dict_step_size [OF wf d'(2)] False by simp
  from search_tables_correct [OF dict_step_wf [OF d'(2)] this refl d'(3)] obtain r where
    r: "search_tables d' key ?h ?idx = Some r"
      "case r of None \<Rightarrow> dict_map d' key = None
       | Some ref \<Rightarrow> \<exists>v. dictGetEntry d' ref = Some (key, v) \<and> dict_map d' key = Some v" by blast
  have "dictFind env d key = Some (d', r)" using False d'(1) r(1) by (simp add: dictFind_def Let_def)
  with r(2) d'(2) show ?thesis unfolding dict_step_map [OF wf d'(2)] by blast
qed

lemma dictFetchValue_correct:
  assumes wf: "dict_wf env d"
  shows "\<exists>d'. dictFetchValue env d key = Some (d', Option.bind (dict_map d key) id) \<and> dict_step env d d'"
proof -
  from dictFind_correct [OF wf, of key] obtain d' r where
    r: "dictFind env d key = Some (d', r)" "dict_step env d d'"
      "case r of None \<Rightarrow> dict_map d key = None
       | Some ref \<Rightarrow> \<exists>v. dictGetEntry d' ref = Some (key, v) \<and> dict_map d key = Some v" by blast
  then show ?thesis by (cases r) (auto simp: dictFetchValue_def)
qed

lemma dictFindPositionForInsert_correct:
  assumes wf: "dict_wf env d" and tab: "ht_table (ht0 d) \<noteq> [] \<or> pauseAutoResize d \<le> 0"
  shows "\<exists>d' p. dictFindPositionForInsert env d key = Some (d', p) \<and> dict_step env d d' \<and> ht_table (ht0 d') \<noteq> []
    \<and> (case p of Inl ref \<Rightarrow> \<exists>v. dictGetEntry d' ref = Some (key, v) \<and> dict_map d key = Some v
       | Inr (t, idx) \<Rightarrow> dict_map d key = None \<and> t = (if dictIsRehashing d' then 1 else 0)
           \<and> idx = slot (hashFunction env key) (ht_size_exp (get_ht d' t)))"
proof -
  let ?h = "hashFunction env key"
  let ?idx = "slot ?h (ht_size_exp (ht0 d))"
  from rehash_on_access_correct [OF wf refl] obtain d1 where
    d1: "rehash_on_access env d ?idx = Some d1" "dict_step env d d1" "skip_ok ?h d1 ?idx" by blast
  have tab1: "ht_table (ht0 d1) \<noteq> [] \<or> pauseAutoResize d1 \<le> 0"
    using tab d1(2) by (auto simp: dict_step_def)
  from dictExpandIfNeeded'_correct [OF dict_step_wf [OF d1(2)] d1(3) tab1] obtain d2 where
    d2: "dictExpandIfNeeded' env d1 = Some d2" "dict_step env d1 d2" "skip_ok ?h d2 ?idx"
      "ht_table (ht0 d2) \<noteq> []" by blast
  have st: "dict_step env d d2" by (rule dict_step_trans [OF d1(2) d2(2)])
  from search_tables_correct [OF dict_step_wf [OF d2(2)] d2(4) refl d2(3)] obtain r where
    r: "search_tables d2 key ?h ?idx = Some r"
      "case r of None \<Rightarrow> dict_map d2 key = None
       | Some ref \<Rightarrow> \<exists>v. dictGetEntry d2 ref = Some (key, v) \<and> dict_map d2 key = Some v" by blast
  have m: "dict_map d2 = dict_map d" by (rule dict_step_map [OF wf st])
  show ?thesis
  proof (cases r)
    case None
    with d1(1) d2 r m st show ?thesis by (auto simp: dictFindPositionForInsert_def Let_def)
  next
    case (Some ref)
    with d1(1) d2 r m st show ?thesis
      by (intro exI [of _ d2] exI [of _ "Inl ref"]) (auto simp: dictFindPositionForInsert_def Let_def)
  qed
qed

lemma dictAddRaw_correct:
  assumes wf: "dict_wf env d" and tab: "ht_table (ht0 d) \<noteq> [] \<or> pauseAutoResize d \<le> 0"
  shows "\<exists>d' r. dictAddRaw env d key = Some (d', r) \<and> dict_wf env d'
    \<and> pauserehash d' = pauserehash d \<and> pauseAutoResize d' = pauseAutoResize d \<and> calls_step d d'
    \<and> (case r of Inl ref \<Rightarrow> \<exists>v. dictGetEntry d' ref = Some (key, v) \<and> dict_map d key = Some v \<and> dict_map d' = dict_map d
       | Inr ref \<Rightarrow> dict_map d key = None \<and> dictGetEntry d' ref = Some (key, None)
           \<and> dict_map d' = (dict_map d)(key \<mapsto> None))"
proof -
  from dictFindPositionForInsert_correct [OF assms, of key] obtain d1 p where
    p: "dictFindPositionForInsert env d key = Some (d1, p)" "dict_step env d d1" "ht_table (ht0 d1) \<noteq> []"
      "case p of Inl ref \<Rightarrow> \<exists>v. dictGetEntry d1 ref = Some (key, v) \<and> dict_map d key = Some v
       | Inr (t, idx) \<Rightarrow> dict_map d key = None \<and> t = (if dictIsRehashing d1 then 1 else 0)
           \<and> idx = slot (hashFunction env key) (ht_size_exp (get_ht d1 t))" by blast
  have m: "dict_map d1 = dict_map d" by (rule dict_step_map [OF wf p(2)])
  show ?thesis
  proof (cases p)
    case (Inl ref)
    with p m show ?thesis
      by (intro exI [of _ d1] exI [of _ "Inl ref"]) (auto simp: dictAddRaw_def dict_step_def)
  next
    case (Inr q)
    obtain t idx where q: "q = (t, idx)" by (cases q)
    from p(4) have t: "dict_map d1 key = None" "t = (if dictIsRehashing d1 then 1 else 0)"
      "idx = slot (hashFunction env key) (ht_size_exp (get_ht d1 t))" by (simp_all add: Inr q m)
    from dictInsertAtPosition_correct [OF dict_step_wf [OF p(2)] p(3) t] obtain d' r where
      d': "dictInsertAtPosition d1 key (t, idx) = Some (d', r)" "dict_wf env d'"
        "dict_map d' = (dict_map d1)(key \<mapsto> None)" "dictGetEntry d' r = Some (key, None)"
        "pauserehash d' = pauserehash d1" "pauseAutoResize d' = pauseAutoResize d1" "calls_step d1 d'" by blast
    then show ?thesis using p(1,2) t(1) m calls_step_trans [of d d1 d']
      by (intro exI [of _ d'] exI [of _ "Inr r"]) (simp add: dictAddRaw_def Inr q dict_step_def)
  qed
qed

lemma dictAdd_correct:
  assumes wf: "dict_wf env d" and tab: "ht_table (ht0 d) \<noteq> [] \<or> pauseAutoResize d \<le> 0"
  shows "\<exists>d'. dictAdd env d key val = Some (d', dict_map d key = None) \<and> dict_wf env d'
    \<and> pauserehash d' = pauserehash d \<and> pauseAutoResize d' = pauseAutoResize d \<and> calls_step d d'
    \<and> dict_map d' = (if dict_map d key = None
        then (dict_map d)(key \<mapsto> if no_value env then None else Some val) else dict_map d)"
proof -
  from dictAddRaw_correct [OF assms, of key] obtain d1 r where
    r: "dictAddRaw env d key = Some (d1, r)" "dict_wf env d1"
      "pauserehash d1 = pauserehash d" "pauseAutoResize d1 = pauseAutoResize d" "calls_step d d1"
      "case r of Inl ref \<Rightarrow> \<exists>v. dictGetEntry d1 ref = Some (key, v) \<and> dict_map d key = Some v \<and> dict_map d1 = dict_map d
       | Inr ref \<Rightarrow> dict_map d key = None \<and> dictGetEntry d1 ref = Some (key, None)
           \<and> dict_map d1 = (dict_map d)(key \<mapsto> None)" by blast
  show ?thesis
  proof (cases r)
    case (Inl ref)
    with r show ?thesis by (auto simp: dictAdd_def)
  next
    case (Inr ref)
    show ?thesis
    proof (cases "no_value env")
      case True
      with r Inr show ?thesis by (auto simp: dictAdd_def)
    next
      case False
      from dictSetVal_correct [OF r(2) _ False, of ref key None val] r Inr False calls_step_trans [OF r(5)]
      show ?thesis by (auto simp: dictAdd_def)
    qed
  qed
qed

lemma dictReplace_correct:
  assumes wf: "dict_wf env d" and tab: "ht_table (ht0 d) \<noteq> [] \<or> pauseAutoResize d \<le> 0"
    and nv: "\<not> no_value env"
  shows "\<exists>d'. dictReplace env d key val = Some (d', dict_map d key = None) \<and> dict_wf env d'
    \<and> pauserehash d' = pauserehash d \<and> pauseAutoResize d' = pauseAutoResize d \<and> calls_step d d'
    \<and> dict_map d' = (dict_map d)(key \<mapsto> Some val)"
proof -
  from dictAddRaw_correct [OF assms(1,2), of key] obtain d1 r where
    r: "dictAddRaw env d key = Some (d1, r)" "dict_wf env d1"
      "pauserehash d1 = pauserehash d" "pauseAutoResize d1 = pauseAutoResize d" "calls_step d d1"
      "case r of Inl ref \<Rightarrow> \<exists>v. dictGetEntry d1 ref = Some (key, v) \<and> dict_map d key = Some v \<and> dict_map d1 = dict_map d
       | Inr ref \<Rightarrow> dict_map d key = None \<and> dictGetEntry d1 ref = Some (key, None)
           \<and> dict_map d1 = (dict_map d)(key \<mapsto> None)" by blast
  show ?thesis
  proof (cases r)
    case (Inl ref)
    then obtain v where v: "dictGetEntry d1 ref = Some (key, v)" "dict_map d key = Some v"
      "dict_map d1 = dict_map d" using r(6) by auto
    from dictSetVal_correct [OF r(2) v(1) nv, of val] v r Inl calls_step_trans [OF r(5)]
    show ?thesis by (auto simp: dictReplace_def)
  next
    case (Inr ref)
    with r(6) have v: "dict_map d key = None" "dictGetEntry d1 ref = Some (key, None)"
      "dict_map d1 = (dict_map d)(key \<mapsto> None)" by auto
    from dictSetVal_correct [OF r(2) v(2) nv, of val] v r Inr calls_step_trans [OF r(5)]
    show ?thesis by (auto simp: dictReplace_def)
  qed
qed

lemma dictGenericDelete_correct:
  assumes wf: "dict_wf env d"
  shows "\<exists>d'. dictGenericDelete env d key = Some (d', map_option (Pair key) (dict_map d key)) \<and> dict_wf env d'
    \<and> pauserehash d' = pauserehash d \<and> pauseAutoResize d' = pauseAutoResize d \<and> calls_step d d'
    \<and> dict_map d' = (dict_map d)(key := None)"
proof (cases "dictSize d = 0")
  case True
  then show ?thesis using dictSize_0_map [OF wf] wf by (auto simp: dictGenericDelete_def)
next
  case False
  let ?h = "hashFunction env key"
  let ?idx = "slot ?h (ht_size_exp (ht0 d))"
  from rehash_on_access_correct [OF wf refl] obtain d1 where
    d1: "rehash_on_access env d ?idx = Some d1" "dict_step env d d1" "skip_ok ?h d1 ?idx" by blast
  note wf1 = dict_step_wf [OF d1(2)]
  have "ht_table (ht0 d1) \<noteq> []"
    using dict_wf_table [OF wf1] dict_step_size [OF wf d1(2)] False by simp
  from search_tables_correct [OF wf1 this refl d1(3)] obtain r where
    r: "search_tables d1 key ?h ?idx = Some r"
      "case r of None \<Rightarrow> dict_map d1 key = None
       | Some ref \<Rightarrow> \<exists>v. dictGetEntry d1 ref = Some (key, v) \<and> dict_map d1 key = Some v" by blast
  have m: "dict_map d1 = dict_map d" by (rule dict_step_map [OF wf d1(2)])
  have p: "pauserehash d1 = pauserehash d" "pauseAutoResize d1 = pauseAutoResize d" "calls_step d d1"
    using d1(2) by (simp_all add: dict_step_def)
  show ?thesis
  proof (cases r)
    case None
    with r m have "dict_map d key = None" by simp
    then show ?thesis using False d1(1) r(1) None wf1 m p
      by (auto simp: dictGenericDelete_def Let_def fun_upd_idem)
  next
    case (Some ref)
    then obtain v where v: "dictGetEntry d1 ref = Some (key, v)" "dict_map d key = Some v"
      using r(2) m by auto
    from unlink_at_correct [OF wf1 v(1)] obtain d2 where
      d2: "unlink_at d1 ref = Some (d2, (key, v))" "dict_wf env d2" "dict_map d2 = (dict_map d1)(key := None)"
        "pauserehash d2 = pauserehash d1" "pauseAutoResize d2 = pauseAutoResize d1" "calls_step d1 d2" by blast
    from dictShrinkIfNeeded'_correct [OF d2(2)] obtain d3 where
      d3: "dictShrinkIfNeeded' env d2 = Some d3" "dict_step env d2 d3" by blast
    have m3: "dict_map d3 = (dict_map d)(key := None)" using dict_step_map [OF d2(2) d3(2)] d2(3) m by simp
    have "dictGenericDelete env d key = Some (d3, Some (key, v))"
      using False d1(1) r(1) Some d2(1) d3(1) by (simp add: dictGenericDelete_def Let_def)
    with m3 v(2) d3(2) d2(4,5) p calls_step_trans [OF calls_step_trans [OF p(3) d2(6)]]
    show ?thesis by (auto simp: dict_step_def)
  qed
qed

lemma pause_simps [simp]:
  "type_calls (dictPauseRehashing d) = type_calls d" "type_calls (dictResumeRehashing d) = type_calls d"
  "tabs (dictPauseRehashing d) = tabs d" "tabs (dictResumeRehashing d) = tabs d"
  "calls_step d0 (dictPauseRehashing d) = calls_step d0 d" "calls_step d0 (dictResumeRehashing d) = calls_step d0 d"
  "calls_step (dictPauseRehashing d) d0 = calls_step d d0" "calls_step (dictResumeRehashing d) d0 = calls_step d d0"
  "dict_wf env (dictPauseRehashing d) = dict_wf env d" "dict_map (dictPauseRehashing d) = dict_map d"
  "dictGetEntry (dictPauseRehashing d) r = dictGetEntry d r"
  "dict_wf env (dictResumeRehashing d) = dict_wf env d" "dict_map (dictResumeRehashing d) = dict_map d"
  "pauserehash (dictPauseRehashing d) = pauserehash d + 1"
  "pauseAutoResize (dictPauseRehashing d) = pauseAutoResize d"
  "pauseAutoResize (dictResumeRehashing d) = pauseAutoResize d"
  "pauserehash (dictResumeRehashing d) = pauserehash d - 1"
  by (cases r; simp add: dictPauseRehashing_def dictResumeRehashing_def dict_wf_def rehash_ok_def entries_def
    dict_map_def dictGetEntry_def get_ht_def tabs_def dictIsRehashing_def calls_step_def)+

lemma dictTwoPhaseUnlinkFind_correct:
  assumes wf: "dict_wf env d"
  shows "\<exists>d1 he. dictTwoPhaseUnlinkFind env d key = Some (d1, he) \<and> dict_wf env d1
    \<and> dict_map d1 = dict_map d \<and> pauserehash d1 = pauserehash d + (if he = None then 0 else 1)
    \<and> calls_step d d1 \<and> pauseAutoResize d1 = pauseAutoResize d
    \<and> (case he of None \<Rightarrow> dict_map d key = None
       | Some ref \<Rightarrow> \<exists>v. dictGetEntry d1 ref = Some (key, v) \<and> dict_map d key = Some v)"
proof (cases "dictSize d = 0")
  case True
  then show ?thesis using dictSize_0_map [OF wf] wf
    by (intro exI [of _ d] exI [of _ None]) (simp add: dictTwoPhaseUnlinkFind_def)
next
  case False
  let ?h = "hashFunction env key"
  obtain d1 where d1: "(if dictIsRehashing d then dictRehashStep' env d else Some d) = Some d1" "dict_step env d d1"
    using dictRehashStep_correct [OF wf refl] dict_step_refl [OF wf] by (cases "dictIsRehashing d") auto
  note wf1 = dict_step_wf [OF d1(2)]
  have "ht_table (ht0 d1) \<noteq> []"
    using dict_wf_table [OF wf1] dict_step_size [OF wf d1(2)] False by simp
  from search_tables_correct [OF wf1 this refl, of key "slot ?h (ht_size_exp (ht0 d1))"] obtain r where
    r: "search_tables d1 key ?h (slot ?h (ht_size_exp (ht0 d1))) = Some r"
      "case r of None \<Rightarrow> dict_map d1 key = None
       | Some ref \<Rightarrow> \<exists>v. dictGetEntry d1 ref = Some (key, v) \<and> dict_map d1 key = Some v"
    by (auto simp: skip_ok_def)
  have "dict_map d1 = dict_map d" by (rule dict_step_map [OF wf d1(2)])
  moreover have "pauserehash d1 = pauserehash d" "pauseAutoResize d1 = pauseAutoResize d" "calls_step d d1"
    using d1(2) by (simp_all add: dict_step_def)
  moreover have "dictTwoPhaseUnlinkFind env d key = Some (if r = None then d1 else dictPauseRehashing d1, r)"
    using False d1(1) r(1) by (simp add: dictTwoPhaseUnlinkFind_def)
  ultimately show ?thesis using wf1 r(2)
    by (intro exI [of _ "if r = None then d1 else dictPauseRehashing d1"] exI [of _ r]) (auto split: option.splits)
qed

lemma dictTwoPhaseUnlinkFree_correct:
  assumes wf: "dict_wf env d" and e: "dictGetEntry d ref = Some (key, v)"
  shows "\<exists>d'. dictTwoPhaseUnlinkFree env d (Some ref) = Some d' \<and> dict_wf env d'
    \<and> dict_map d' = (dict_map d)(key := None) \<and> pauserehash d' = pauserehash d - 1
    \<and> calls_step d d' \<and> pauseAutoResize d' = pauseAutoResize d"
proof -
  from unlink_at_correct [OF wf e] obtain d2 where
    d2: "unlink_at d ref = Some (d2, (key, v))" "dict_wf env d2" "dict_map d2 = (dict_map d)(key := None)"
      "pauserehash d2 = pauserehash d" "pauseAutoResize d2 = pauseAutoResize d" "calls_step d d2" by blast
  from dictShrinkIfNeeded'_correct [OF d2(2)] obtain d3 where
    d3: "dictShrinkIfNeeded' env d2 = Some d3" "dict_step env d2 d3" by blast
  have "dict_map d3 = (dict_map d)(key := None)" using dict_step_map [OF d2(2) d3(2)] d2(3) by simp
  then show ?thesis using d2 d3 calls_step_trans [OF d2(6), of d3]
    by (simp add: dictTwoPhaseUnlinkFree_def dict_step_def)
qed

lemma dictTwoPhaseUnlink_correct:
  assumes wf: "dict_wf env d"
  shows "\<exists>d1 he. dictTwoPhaseUnlinkFind env d key = Some (d1, he) \<and> dict_wf env d1
    \<and> dict_map d1 = dict_map d \<and> (he = None \<longleftrightarrow> dict_map d key = None)
    \<and> pauserehash d1 = pauserehash d + (if he = None then 0 else 1)
    \<and> (\<exists>d2. dictTwoPhaseUnlinkFree env d1 he = Some d2 \<and> dict_wf env d2
        \<and> dict_map d2 = (dict_map d)(key := None) \<and> pauserehash d2 = pauserehash d)"
proof -
  from dictTwoPhaseUnlinkFind_correct [OF wf, of key] obtain d1 he where
    d1: "dictTwoPhaseUnlinkFind env d key = Some (d1, he)" "dict_wf env d1" "dict_map d1 = dict_map d"
      "pauserehash d1 = pauserehash d + (if he = None then 0 else 1)"
      "case he of None \<Rightarrow> dict_map d key = None
       | Some ref \<Rightarrow> \<exists>v. dictGetEntry d1 ref = Some (key, v) \<and> dict_map d key = Some v" by blast
  show ?thesis
  proof (cases he)
    case None
    with d1 show ?thesis by (auto simp: dictTwoPhaseUnlinkFree_def fun_upd_idem)
  next
    case (Some ref)
    with d1(5) obtain v where v: "dictGetEntry d1 ref = Some (key, v)" "dict_map d key = Some v" by auto
    from dictTwoPhaseUnlinkFree_correct [OF d1(2) v(1)] d1 Some v(2) show ?thesis by (cases ref) auto
  qed
qed

lemma dictClear_loop_eq:
  "used = length (concat bs) \<Longrightarrow> dictClear_loop bs used freed = freed @ concat bs"
proof (induction bs used freed rule: dictClear_loop.induct)
  case (2 b bs used freed)
  show ?case
  proof (cases "used = 0")
    case True
    with 2(2) show ?thesis by simp
  next
    case False
    with 2 show ?thesis by simp
  qed
qed simp

lemma dictEmpty_dict:
  "fst (dictEmpty d) = dictCreate\<lparr>type_calls := type_calls (if dictIsRehashing d then rehashingCompleted d else d)\<rparr>"
  by (cases d) (simp add: dictEmpty_def dictClear'_def set_ht_def dictCreate_def Let_def rehashingCompleted_def)

lemma dictEmpty_correct:
  assumes "dict_wf env d"
  shows "dict_wf env (fst (dictEmpty d))" "dict_map (fst (dictEmpty d)) = Map.empty"
    "snd (dictEmpty d) = entries d" "snd (dictRelease d) = entries d"
proof -
  have "dictClear_loop (ht_table (ht0 d)) (ht_used (ht0 d)) [] = concat (ht_table (ht0 d))"
    "dictClear_loop (ht_table (ht1 d)) (ht_used (ht1 d)) [] = concat (ht_table (ht1 d))"
    using assms dictClear_loop_eq [OF ht_ok_used] by (fastforce simp: dict_wf_def)+
  then show "snd (dictEmpty d) = entries d" "snd (dictRelease d) = entries d"
    by (auto simp: dictEmpty_def dictRelease_def entries_def dictClear'_def get_ht_def set_ht_def)
  show "dict_wf env (fst (dictEmpty d))" "dict_map (fst (dictEmpty d)) = Map.empty"
    by (simp_all add: dictEmpty_dict dictCreate_def dict_wf_def entries_def dict_map_def rehash_ok_def)
qed

subsection \<open>Completion of the rehashing\<close>

lemma dictRehashRounds_completes:
  assumes "dict_wf env d" "dict_can_resize env = DICT_RESIZE_ENABLE" "dictIsRehashing d"
    "int (length (ht_table (ht0 d))) < rehashidx d + int k"
  shows "\<exists>d' n. dictRehashRounds env d k = Some (d', n) \<and> dict_step env d d' \<and> \<not> dictIsRehashing d'"
  using assms
proof (induction k arbitrary: d)
  case 0
  then show ?case using dict_wf_rehashing(6) [OF 0(1,3)] by simp
next
  case (Suc k)
  have nr: "\<not> rehash_refused env d" using Suc.prems by (simp add: rehash_refused_def Let_def)
  from dictRehash_correct [OF Suc.prems(1), of 100] nr obtain d1 more where
    d1: "dictRehash env d 100 = Some (d1, more)" "dict_step env d d1" "more = dictIsRehashing d1"
      "more \<longrightarrow> ht_size_exp (ht0 d1) = ht_size_exp (ht0 d) \<and> rehashidx d < rehashidx d1" by auto
  show ?case
  proof (cases more)
    case False
    with d1 show ?thesis by auto
  next
    case True
    note wf1 = dict_step_wf [OF d1(2)]
    have "length (ht_table (ht0 d1)) = length (ht_table (ht0 d))"
      using d1(4) True ht_ok_size [of env "ht0 d"] ht_ok_size [of env "ht0 d1"] wf1 Suc.prems(1)
      by (simp add: dict_wf_def)
    then have "int (length (ht_table (ht0 d1))) < rehashidx d1 + int k" using d1(4) True Suc.prems(4) by simp
    from Suc.IH [OF wf1 Suc.prems(2) _ this] d1(3) True obtain d' n where
      "dictRehashRounds env d1 k = Some (d', n)" "dict_step env d1 d'" "\<not> dictIsRehashing d'" by blast
    with d1 True dict_step_trans [OF d1(2)] show ?thesis by auto
  qed
qed

subsection \<open>The dictionary as a map store\<close>

definition has_value :: "'k dict_env \<Rightarrow> 'k dict_env" where
  "has_value env = env\<lparr>no_value := False\<rparr>"

definition dict_inv :: "'k dict_env \<Rightarrow> ('k, 'v) dict \<Rightarrow> bool" where
  "dict_inv env d \<longleftrightarrow> dict_wf env d \<and> None \<notin> ran (dict_map d) \<and> pauseAutoResize d \<le> 0"

definition dict_vals :: "('k, 'v) dict \<Rightarrow> 'k \<rightharpoonup> 'v" where
  "dict_vals d k = Option.bind (dict_map d k) id"

lemma dict_vals_None: "dict_inv env d \<Longrightarrow> dict_vals d k = None \<longleftrightarrow> dict_map d k = None"
  by (cases "dict_map d k"; cases "the (dict_map d k)") (auto simp: dict_inv_def dict_vals_def ran_def)

lemma dict_vals_upd: "dict_map d' = (dict_map d)(k \<mapsto> Some v) \<Longrightarrow> dict_vals d' = (dict_vals d)(k \<mapsto> v)"
  by (auto simp: dict_vals_def fun_eq_iff)

lemma dict_vals_del: "dict_map d' = (dict_map d)(k := None) \<Longrightarrow> dict_vals d' = (dict_vals d)(k := None)"
  by (auto simp: dict_vals_def fun_eq_iff)

lemma dictCreate_wf: "dict_wf env dictCreate" "dict_map dictCreate = Map.empty"
  by (simp_all add: dictCreate_def dict_wf_def entries_def dict_map_def rehash_ok_def)

lemma ran_upd_None: "None \<notin> ran m \<Longrightarrow> None \<notin> ran (m(k \<mapsto> Some v))" "None \<notin> ran m \<Longrightarrow> None \<notin> ran (m(k := None))"
  by (auto simp: ran_def)

lemma dict_inv_upd:
  assumes "dict_inv env d" "dict_wf env d'" "pauseAutoResize d' = pauseAutoResize d"
    "dict_map d' = dict_map d \<or> dict_map d' = (dict_map d)(k \<mapsto> Some v) \<or> dict_map d' = (dict_map d)(k := None)"
  shows "dict_inv env d'"
  using assms by (auto simp: dict_inv_def ran_upd_None)

interpretation dict_store: map_store dictCreate "dictAdd (has_value env)" "dictReplace (has_value env)"
  "dictDelete (has_value env)" "dictFetchValue (has_value env)" "dict_inv (has_value env)" dict_vals for env
proof (unfold_locales, goal_cases)
  case 1
  show ?case by (simp add: dict_inv_def dictCreate_wf) (simp add: dictCreate_def)
next
  case 2
  show ?case by (simp add: dict_vals_def dictCreate_wf fun_eq_iff)
next
  case (3 d k v)
  then have wf: "dict_wf (has_value env) d" "pauseAutoResize d \<le> 0" by (simp_all add: dict_inv_def)
  from dictAdd_correct [of "has_value env" d k v] wf obtain d' where
    d': "dictAdd (has_value env) d k v = Some (d', dict_map d k = None)" "dict_wf (has_value env) d'"
      "pauseAutoResize d' = pauseAutoResize d"
      "dict_map d' = (if dict_map d k = None then (dict_map d)(k \<mapsto> Some v) else dict_map d)"
    by (auto simp: has_value_def)
  have inv: "dict_inv (has_value env) d'" by (rule dict_inv_upd [OF 3 d'(2,3), of k v]) (simp add: d'(4))
  have vals: "dict_vals d' = (if dict_map d k = None then (dict_vals d)(k \<mapsto> v) else dict_vals d)"
    using dict_vals_upd [of d' d k v] d'(4) by (auto simp: dict_vals_def fun_eq_iff)
  show ?case unfolding dict_vals_None [OF 3] using d'(1) inv vals by blast
next
  case (4 d k v)
  then have wf: "dict_wf (has_value env) d" "pauseAutoResize d \<le> 0" by (simp_all add: dict_inv_def)
  from dictReplace_correct [of "has_value env" d k v] wf obtain d' where
    d': "dictReplace (has_value env) d k v = Some (d', dict_map d k = None)" "dict_wf (has_value env) d'"
      "pauseAutoResize d' = pauseAutoResize d" "dict_map d' = (dict_map d)(k \<mapsto> Some v)"
    by (auto simp: has_value_def)
  with dict_inv_upd [OF 4 d'(2,3)] dict_vals_upd [OF d'(4)] show ?case
    by (auto simp: dict_vals_None [OF 4])
next
  case (5 d k)
  then have wf: "dict_wf (has_value env) d" by (simp add: dict_inv_def)
  from dictGenericDelete_correct [OF wf, of k] obtain d' where
    d': "dictGenericDelete (has_value env) d k = Some (d', map_option (Pair k) (dict_map d k))"
      "dict_wf (has_value env) d'" "pauseAutoResize d' = pauseAutoResize d"
      "dict_map d' = (dict_map d)(k := None)" by blast
  with dict_inv_upd [OF 5 d'(2,3)] dict_vals_del [OF d'(4)] show ?case
    by (auto simp: dict_vals_None [OF 5] dictDelete_def)
next
  case (6 d k)
  then have wf: "dict_wf (has_value env) d" by (simp add: dict_inv_def)
  from dictFetchValue_correct [OF wf, of k] obtain d' where
    d': "dictFetchValue (has_value env) d k = Some (d', Option.bind (dict_map d k) id)"
      "dict_step (has_value env) d d'" by blast
  have m: "dict_map d' = dict_map d" by (rule dict_step_map [OF wf d'(2)])
  then have "dict_inv (has_value env) d'"
    using dict_inv_upd [OF 6 dict_step_wf [OF d'(2)]] d'(2) by (simp add: dict_step_def)
  with d'(1) m show ?case by (auto simp: dict_vals_def fun_eq_iff)
qed

subsection \<open>A dictionary in the middle of a rehashing\<close>

text \<open>Two keys in four buckets, with a new table of eight: the state the witnesses start from.\<close>

definition env_ex :: "nat dict_env" where
  "env_ex = \<lparr>hashFunction = of_nat, resizeAllowed = None, dict_can_resize = DICT_RESIZE_ENABLE, no_value = False\<rparr>"

definition dict_ex :: "(nat, nat) dict" where
  "dict_ex = \<lparr>ht0 = \<lparr>ht_table = [[], [(1, Some 10)], [], [(7, Some 30)]], ht_used = 2, ht_size_exp = 2\<rparr>,
     ht1 = \<lparr>ht_table = replicate 8 [], ht_used = 0, ht_size_exp = 3\<rparr>,
     rehashidx = 0, pauserehash = 0, pauseAutoResize = 0, type_calls = [RehashingStarted 4 8]\<rparr>"

lemma dict_ex_wf: "dict_wf env_ex dict_ex"
  by (simp add: dict_ex_def env_ex_def dict_wf_def ht_ok_def rehash_ok_def entries_def bucket_ok_def slot_mod
      All_less_Suc)

lemma dict_ex_map: "dict_map dict_ex = [1 \<mapsto> Some 10, 7 \<mapsto> Some 30]"
  by (auto simp: dict_ex_def dict_map_def entries_def fun_eq_iff)

subsection \<open>Main results\<close>

text \<open>
  C11. Refinement.  Any sequence of \<open>dictAdd\<close>, \<open>dictReplace\<close>, \<open>dictDelete\<close> and \<open>dictFetchValue\<close> on a
  new dictionary, with the resizing and the incremental rehashing they trigger on the way, for every
  hash function, resize policy and \<open>resizeAllowed\<close> callback, never fails an assertion or leaves a
  table, and answers every call like a partial map.
\<close>

theorem dict_refines_map:
  "\<exists>d. run_map (dictAdd (has_value env)) (dictReplace (has_value env)) (dictDelete (has_value env))
      (dictFetchValue (has_value env)) ops dictCreate = Some (d, snd (spec_map ops Map.empty))
    \<and> dict_inv (has_value env) d \<and> dict_vals d = fst (spec_map ops Map.empty)"
  by (rule dict_store.run_from_new)

text \<open>
  C13. Rehashing.  A call of \<open>dictRehash\<close> on a well-formed dictionary keeps the invariant and the
  contents, for every number \<open>n\<close> of steps whose budget \<open>n * 10\<close> of empty buckets fits an \<open>int\<close>.  When
  there is no rehashing, or the resize policy refuses it, the call returns 0 and changes nothing,
  although keys may be left to move.  Otherwise the returned flag tells whether the rehashing is still
  going on, a call with \<open>n > 0\<close> that does not finish it advances \<open>rehashidx\<close>, and one with \<open>n\<close> at least
  the size of the old table finishes it.
\<close>

theorem dictRehash_spec:
  assumes "dict_wf env d" "n \<le> 214748364"
  shows "\<exists>d' more. dictRehash env d n = Some (d', more) \<and> dict_wf env d'
    \<and> dict_map d' = dict_map d \<and> dictSize d' = dictSize d
    \<and> (if rehash_refused env d then d' = d \<and> \<not> more
       else more = dictIsRehashing d'
         \<and> (more \<longrightarrow> (0 < n \<longrightarrow> rehashidx d < rehashidx d') \<and> n < DICTHT_SIZE (ht_size_exp (ht0 d))))"
proof -
  from dictRehash_correct [OF assms] obtain d' more where
    d': "dictRehash env d n = Some (d', more)" "dict_step env d d'"
      "if rehash_refused env d then d' = d \<and> \<not> more
       else more = dictIsRehashing d'
         \<and> (more \<longrightarrow> ht_size_exp (ht0 d') = ht_size_exp (ht0 d) \<and> ht_size_exp (ht1 d') = ht_size_exp (ht1 d)
             \<and> (0 < n \<longrightarrow> rehashidx d < rehashidx d') \<and> n < length (ht_table (ht0 d)))" by blast
  have sz: "DICTHT_SIZE (ht_size_exp (ht0 d)) = length (ht_table (ht0 d))"
    using assms(1) by (auto simp: dict_wf_def intro: ht_ok_size)
  show ?thesis
    unfolding sz using d' dict_step_map [OF assms(1) d'(2)] dict_step_size [OF assms(1) d'(2)] dict_step_wf [OF d'(2)]
    by (intro exI [of _ d'] exI [of _ more]) (simp split: if_splits)
qed

theorem dictRehash_spec_witness:
  "\<not> rehash_refused env_ex dict_ex
    \<and> (\<exists>d' more. dictRehash env_ex dict_ex 1 = Some (d', more) \<and> dict_wf env_ex d'
         \<and> dict_map d' = [1 \<mapsto> Some 10, 7 \<mapsto> Some 30] \<and> more = dictIsRehashing d')"
proof -
  have nr: "\<not> rehash_refused env_ex dict_ex"
    by (simp add: rehash_refused_def dict_ex_def env_ex_def dictIsRehashing_def)
  from dictRehash_spec [OF dict_ex_wf, of 1] nr dict_ex_map show ?thesis by auto
qed

text \<open>
  C16. Liveness of the rehashing.  While resizing is enabled and rehashing is not paused, a call of
  \<open>dictRehashMicroseconds\<close> whose clock allows as many rounds after the first as the old table has
  buckets left completes the rehashing.
\<close>

theorem dictRehashMicroseconds_completes:
  assumes "dict_wf env d" "dict_can_resize env = DICT_RESIZE_ENABLE" "dictIsRehashing d" "pauserehash d = 0"
    "int (DICTHT_SIZE (ht_size_exp (ht0 d))) \<le> rehashidx d + int rounds"
  shows "\<exists>d' n. dictRehashMicroseconds env d rounds = Some (d', n) \<and> dict_wf env d'
    \<and> dict_map d' = dict_map d \<and> \<not> dictIsRehashing d' \<and> ht1 d' = dictReset'"
proof -
  have sz: "DICTHT_SIZE (ht_size_exp (ht0 d)) = length (ht_table (ht0 d))"
    using assms(1) by (auto simp: dict_wf_def intro: ht_ok_size)
  from dictRehashRounds_completes [OF assms(1-3), of "Suc rounds"] assms(4,5) sz obtain d' n where
    d': "dictRehashMicroseconds env d rounds = Some (d', n)" "dict_step env d d'" "\<not> dictIsRehashing d'"
    by (auto simp: dictRehashMicroseconds_def simp del: dictRehashRounds.simps)
  then show ?thesis
    using dict_step_map [OF assms(1) d'(2)] dict_step_wf [OF d'(2)] dict_wf_not_rehashing(2) by blast
qed

theorem dictRehashMicroseconds_completes_witness:
  "\<exists>d' n. dictRehashMicroseconds env_ex dict_ex 5 = Some (d', n) \<and> dict_wf env_ex d'
    \<and> dict_map d' = dict_map dict_ex \<and> \<not> dictIsRehashing d' \<and> ht1 d' = dictReset'"
  by (rule dictRehashMicroseconds_completes [OF dict_ex_wf])
     (simp_all add: dict_ex_def env_ex_def dictIsRehashing_def DICTHT_SIZE_def)

text \<open>
  Lookup.  \<open>dictFind\<close> on a well-formed dictionary, rehashing or not, finds the entry of the key
  in whichever table holds it, or NULL when the key is absent, and leaves the contents as they are.
\<close>

theorem dictFind_spec:
  assumes "dict_wf env d"
  shows "\<exists>d' r. dictFind env d key = Some (d', r) \<and> dict_wf env d' \<and> dict_map d' = dict_map d
    \<and> Option.bind r (dictGetEntry d') = map_option (Pair key) (dict_map d key)"
proof -
  from dictFind_correct [OF assms, of key] obtain d' r where
    d': "dictFind env d key = Some (d', r)" "dict_step env d d'"
      "case r of None \<Rightarrow> dict_map d key = None
       | Some ref \<Rightarrow> \<exists>v. dictGetEntry d' ref = Some (key, v) \<and> dict_map d key = Some v" by blast
  then have "Option.bind r (dictGetEntry d') = map_option (Pair key) (dict_map d key)" by (cases r) auto
  with d' dict_step_map [OF assms d'(2)] dict_step_wf [OF d'(2)] show ?thesis by blast
qed

theorem dictFind_spec_witness:
  "\<exists>d' r. dictFind env_ex dict_ex 7 = Some (d', r) \<and> dict_wf env_ex d' \<and> dict_map d' = dict_map dict_ex
    \<and> Option.bind r (dictGetEntry d') = Some (7, Some 30)"
  using dictFind_spec [OF dict_ex_wf, of 7] dict_ex_map by simp

text \<open>
  C14. Deletion.  \<open>dictGenericDelete\<close> removes exactly the entry of the key and returns it (NULL when
  there is none), and the shrinking it may start keeps the other entries.
\<close>

theorem dictGenericDelete_spec:
  assumes "dict_wf env d"
  shows "\<exists>d'. dictGenericDelete env d key = Some (d', map_option (Pair key) (dict_map d key))
    \<and> dict_wf env d' \<and> dict_map d' = (dict_map d)(key := None)"
  using dictGenericDelete_correct [OF assms, of key] by blast

theorem dictGenericDelete_spec_witness:
  "\<exists>d'. dictGenericDelete env_ex dict_ex 1 = Some (d', Some (1, Some 10))
    \<and> dict_wf env_ex d' \<and> dict_map d' = [7 \<mapsto> Some 30]"
  using dictGenericDelete_spec [OF dict_ex_wf, of 1] dict_ex_map by (auto simp: fun_upd_twist)

text \<open>
  C15. Two-phase unlink.  \<open>dictTwoPhaseUnlinkFind\<close> finds the key and pauses the rehashing exactly when
  it does; \<open>dictTwoPhaseUnlinkFree\<close> with its result then removes exactly that key and resumes it.
\<close>

theorem dictTwoPhaseUnlink_spec:
  assumes "dict_wf env d"
  shows "\<exists>d1 he d2. dictTwoPhaseUnlinkFind env d key = Some (d1, he)
    \<and> dict_map d1 = dict_map d \<and> (he = None \<longleftrightarrow> dict_map d key = None)
    \<and> pauserehash d1 = pauserehash d + (if he = None then 0 else 1)
    \<and> dictTwoPhaseUnlinkFree env d1 he = Some d2 \<and> dict_wf env d2
    \<and> dict_map d2 = (dict_map d)(key := None) \<and> pauserehash d2 = pauserehash d"
  using dictTwoPhaseUnlink_correct [OF assms, of key] by metis

theorem dictTwoPhaseUnlink_spec_witness:
  "\<exists>d1 he d2. dictTwoPhaseUnlinkFind env_ex dict_ex 7 = Some (d1, he) \<and> he \<noteq> None
    \<and> dictTwoPhaseUnlinkFree env_ex d1 he = Some d2 \<and> dict_map d2 = [1 \<mapsto> Some 10]"
proof -
  have "(dict_map dict_ex)(7 := None) = [1 \<mapsto> Some 10]" "dict_map dict_ex 7 \<noteq> None"
    by (auto simp: dict_ex_map)
  with dictTwoPhaseUnlink_spec [OF dict_ex_wf, of 7] show ?thesis by metis
qed

text \<open>
  Clearing.  \<open>dictEmpty\<close> and \<open>dictRelease\<close> free every entry of both tables exactly once, although
  their loops stop as soon as \<open>ht_used\<close> is 0, and \<open>dictEmpty\<close> leaves an empty dictionary.
\<close>

theorem dictEmpty_spec:
  assumes "dict_wf env d"
  shows "snd (dictEmpty d) = entries d \<and> snd (dictRelease d) = entries d
    \<and> dict_wf env (fst (dictEmpty d)) \<and> dict_map (fst (dictEmpty d)) = Map.empty"
  using dictEmpty_correct [OF assms] by blast

theorem dictEmpty_spec_witness:
  "snd (dictEmpty dict_ex) = entries dict_ex \<and> snd (dictRelease dict_ex) = entries dict_ex
    \<and> dict_wf env_ex (fst (dictEmpty dict_ex)) \<and> dict_map (fst (dictEmpty dict_ex)) = Map.empty"
  by (rule dictEmpty_spec [OF dict_ex_wf])

text \<open>
  C17. Resizing.  On a dictionary that is not rehashing, \<open>dictResize'\<close> without an allocation failure
  keeps the invariant and the contents, and for a size up to \<open>2 ^ 60\<close> it either finds the table
  already of the exponent wanted or installs a table of the least power of two, from 4 on, that
  holds the size.
\<close>

theorem dictResize_spec:
  assumes "dict_wf env d" "\<not> dictIsRehashing d" "sz \<le> 2 ^ 60"
  shows "\<exists>d' ok. dictResize' d sz None = Some (d', ok, False) \<and> dict_wf env d' \<and> dict_map d' = dict_map d
    \<and> sz \<le> DICTHT_SIZE (dictNextExp' sz)
    \<and> (dictNextExp' sz = 2 \<or> DICTHT_SIZE (dictNextExp' sz - 1) < sz)
    \<and> (if ok then ht_size_exp (if dictIsRehashing d' then ht1 d' else ht0 d') = dictNextExp' sz
       else d' = d \<and> dictNextExp' sz = ht_size_exp (ht0 d))"
proof -
  from dictResize_correct [OF assms(1,2), of sz None] obtain d' ok mf where
    d': "dictResize' d sz None = Some (d', ok, mf)" "dict_step env d d'" "\<not> mf"
      "if ok then ht_table (ht0 d') \<noteq> []
         \<and> ht_size_exp (if dictIsRehashing d' then ht1 d' else ht0 d') = dictNextExp' sz
         \<and> sz \<le> DICTHT_SIZE (dictNextExp' sz) \<and> dictNextExp' sz \<noteq> ht_size_exp (ht0 d)
       else d' = d"
      "sz \<le> 2 ^ 60 \<and> dictNextExp' sz \<noteq> ht_size_exp (ht0 d) \<longrightarrow> ok" by blast
  have sz: "sz \<le> 2 ^ 63" using assms(3) by simp
  note l = dictNextExp_least [OF sz]
  show ?thesis
    using d' l assms(3) dict_step_map [OF assms(1) d'(2)] dict_step_wf [OF d'(2)]
    by (intro exI [of _ d'] exI [of _ ok]) (auto split: if_splits)
qed

theorem dictResize_spec_witness:
  "\<exists>d' ok. dictResize' (dictCreate :: (nat, nat) dict) 5 None = Some (d', ok, False) \<and> dict_wf env_ex d'
    \<and> dict_map d' = dict_map dictCreate \<and> 5 \<le> DICTHT_SIZE (dictNextExp' 5)
    \<and> (dictNextExp' 5 = 2 \<or> DICTHT_SIZE (dictNextExp' 5 - 1) < 5)
    \<and> (if ok then ht_size_exp (if dictIsRehashing d' then ht1 d' else ht0 d') = dictNextExp' 5
       else d' = dictCreate \<and> dictNextExp' 5 = ht_size_exp (ht0 (dictCreate :: (nat, nat) dict)))"
  by (rule dictResize_spec [OF dictCreate_wf(1)]) (simp_all add: dictCreate_def dictIsRehashing_def)

text \<open>
  C18. The automatic resizing allocates the first table.  While it is paused on a dictionary without
  a table, an insertion dereferences the NULL table.
\<close>

theorem dictAdd_paused_null:
  assumes "pauseAutoResize d > 0" "\<not> dictIsRehashing d" "ht_table (ht0 d) = []" "ht_size_exp (ht0 d) = -1"
  shows "dictAdd env d key val = None"
  using assms by (simp add: dictAdd_def dictAddRaw_def dictFindPositionForInsert_def Let_def rehash_on_access_def
      dictExpandIfNeeded'_def search_tables_def search_table_def get_ht_def dictIsRehashing_def slot_def)

theorem dictAdd_paused_null_witness:
  "dictAdd env_ex (dictCreate\<lparr>pauseAutoResize := 1\<rparr>) 3 4 = (None :: ((nat, nat) dict \<times> bool) option)"
  by (rule dictAdd_paused_null) (simp_all add: dictCreate_def dictIsRehashing_def)

end
