(* ===== verification/Dict_Scan.thy ===== *)
theory Dict_Scan
  imports Dict_Map
begin

section \<open>The stateless cursor of dictScan\<close>

text \<open>
  \<open>rev\<close> and \<open>dictScan\<close> (\<open>dictScanDefrag\<close> without defragmentation callbacks) of \<^verbatim>\<open>dict.c\<close>, and the
  guarantee of SCAN: whatever happens to the dictionary between the calls, a key that is present
  at every call is returned before the cursor is back at 0.  The callback \<open>fn\<close> is modelled by the
  list of the entries it is called with; it leaves the tables alone.
\<close>

subsection \<open>Definitions\<close>

function rev_loop :: "nat \<Rightarrow> 64 word \<Rightarrow> 64 word \<Rightarrow> 64 word" where
  "rev_loop s m v =
     (let s = s div 2 in
      if s > 0 then
        (let m = xor m (push_bit s m) in
         rev_loop s m (or (and (drop_bit s v) m) (and (push_bit s v) (not m))))
      else v)"
  by pat_completeness auto
termination
  by (relation "measure (\<lambda>(s, m, v). s)") auto

declare rev_loop.simps [simp del]

definition rev :: "64 word \<Rightarrow> 64 word" where
  "rev v = rev_loop (8 * 8) (not 0) v"

text \<open>Setting the unmasked bits and incrementing the reversed cursor.\<close>

definition next_cursor :: "64 word \<Rightarrow> 64 word \<Rightarrow> 64 word" where
  "next_cursor m v = rev (rev (or v (not m)) + 1)"

definition bucket_at :: "('k, 'v) bucket list \<Rightarrow> 64 word \<Rightarrow> ('k, 'v) bucket option" where
  "bucket_at tab i = (if unat i < length tab then Some (tab ! unat i) else None)"

subsection \<open>Bit reversal\<close>

definition block_mask :: "nat \<Rightarrow> 64 word \<Rightarrow> bool" where
  "block_mask s m \<longleftrightarrow> (\<forall>j < 64. bit m j \<longleftrightarrow> even (j div s))"

definition swap_pos :: "nat \<Rightarrow> nat \<Rightarrow> nat" where
  "swap_pos s j = (if even (j div s) then j + s else j - s)"

lemma even_blocks:
  fixes s j :: nat
  assumes "0 < s"
  shows "(even (j div (2 * s)) \<noteq> (s \<le> j \<and> even ((j - s) div (2 * s)))) \<longleftrightarrow> even (j div s)"
proof -
  define q r where "q = j div (2 * s)" and "r = j mod (2 * s)"
  have j: "j = 2 * s * q + r" and r: "r < 2 * s" using assms by (simp_all add: q_def r_def)
  show ?thesis
  proof (cases "r < s")
    case True
    have "j div s = 2 * q"
      using True by (intro div_nat_eqI) (simp_all add: j algebra_simps)
    moreover have "(j - s) div (2 * s) = q - 1" if q0: "0 < q"
    proof (rule div_nat_eqI)
      obtain p where p: "q = Suc p" using q0 by (cases q) auto
      show "2 * s * (q - 1) \<le> j - s" "j - s < 2 * s * Suc (q - 1)"
        using True assms by (simp_all add: j p algebra_simps)
    qed
    moreover have "s \<le> j \<longleftrightarrow> 0 < q"
      using True assms by (cases q) (auto simp: j)
    moreover have "even q \<noteq> (0 < q \<and> even (q - 1))" by (cases q) auto
    ultimately show ?thesis unfolding q_def by (metis dvd_triv_left)
  next
    case False
    have "j div s = 2 * q + 1"
      using False r by (intro div_nat_eqI) (simp_all add: j algebra_simps)
    moreover have "(j - s) div (2 * s) = q"
      using False r by (intro div_nat_eqI) (auto simp: j algebra_simps)
    moreover have "s \<le> j" using False by (simp add: j)
    ultimately show ?thesis by (simp add: q_def)
  qed
qed

lemma block_mask_step:
  assumes "block_mask (2 * s) m" "0 < s"
  shows "block_mask s (xor m (push_bit s m))"
  unfolding block_mask_def
proof (intro allI impI)
  fix j :: nat assume j: "j < 64"
  have "bit (xor m (push_bit s m)) j \<longleftrightarrow> (bit m j \<noteq> (s \<le> j \<and> bit m (j - s)))"
    using j by (simp add: bit_xor_iff bit_push_bit_iff)
  also have "\<dots> \<longleftrightarrow> even (j div s)"
    using assms(1) j even_blocks [OF assms(2), of j] by (auto simp: block_mask_def)
  finally show "bit (xor m (push_bit s m)) j \<longleftrightarrow> even (j div s)" .
qed

lemma bit_swap:
  assumes "block_mask s m" "0 < s" "j < 64"
  shows "bit (or (and (drop_bit s v) m) (and (push_bit s v) (not m))) j \<longleftrightarrow> bit (v :: 64 word) (swap_pos s j)"
proof -
  have b: "bit m j \<longleftrightarrow> even (j div s)" using assms by (simp add: block_mask_def)
  have "s \<le> j" if "odd (j div s)"
  proof (rule ccontr)
    assume "\<not> s \<le> j"
    then have "j div s = 0" by simp
    with that show False by simp
  qed
  then show ?thesis using b assms(3)
    by (auto simp: bit_simps swap_pos_def ac_simps)
qed

lemma rev_loop_step:
  assumes "block_mask (2 * s) m" "0 < s"
  shows "\<exists>m' v'. rev_loop (2 * s) m v = rev_loop s m' v' \<and> block_mask s m'
    \<and> (\<forall>j < 64. bit v' j \<longleftrightarrow> bit v (swap_pos s j))"
proof -
  let ?m = "xor m (push_bit s m)"
  have "rev_loop (2 * s) m v = rev_loop s ?m (or (and (drop_bit s v) ?m) (and (push_bit s v) (not ?m)))"
    using assms(2) by (subst rev_loop.simps) (simp add: Let_def)
  with block_mask_step [OF assms] bit_swap [OF block_mask_step [OF assms] assms(2)] show ?thesis by blast
qed

lemma swap_pos_double: "0 < s \<Longrightarrow> swap_pos (2 * s) j = 2 * swap_pos s (j div 2) + j mod 2"
proof -
  assume s: "0 < s"
  have d: "j div (2 * s) = j div 2 div s" by (simp add: div_mult2_eq)
  have j: "2 * (j div 2) + j mod 2 = j" by simp
  show ?thesis
  proof (cases "even (j div 2 div s)")
    case True
    then show ?thesis using j by (simp add: swap_pos_def d)
  next
    case False
    then have "s \<le> j div 2" by (metis div_less even_zero not_le)
    then have "j - 2 * s = 2 * (j div 2 - s) + j mod 2" using j by arith
    then show ?thesis using False by (simp add: swap_pos_def d)
  qed
qed

lemma swap_pos_one: "swap_pos 1 j = 2 * (j div 2) + (1 - j mod 2)"
  by (cases "even j") (auto simp: swap_pos_def elim!: evenE oddE)

text \<open>All the swaps up to block size \<open>2 ^ k\<close>, smallest first.\<close>

fun flip :: "nat \<Rightarrow> nat \<Rightarrow> nat" where
  "flip 0 j = j"
| "flip (Suc k) j = swap_pos (2 ^ k) (flip k j)"

lemma double_div_mod: "c < 2 \<Longrightarrow> (2 * y + c) div 2 = y" "c < 2 \<Longrightarrow> (2 * y + c) mod 2 = (c :: nat)"
  by simp_all

lemma flip_double: "flip (Suc k) j = 2 * flip k (j div 2) + (1 - j mod 2)"
proof (induction k)
  case 0
  show ?case by (simp only: flip.simps power_0 swap_pos_one)
next
  case (Suc k)
  have "flip (Suc (Suc k)) j = swap_pos (2 * 2 ^ k) (flip (Suc k) j)" by simp
  also have "\<dots> = 2 * swap_pos (2 ^ k) (flip (Suc k) j div 2) + flip (Suc k) j mod 2"
    by (rule swap_pos_double) simp
  also have "flip (Suc k) j div 2 = flip k (j div 2)" unfolding Suc by (rule double_div_mod) simp
  also have "flip (Suc k) j mod 2 = 1 - j mod 2" unfolding Suc by (rule double_div_mod) simp
  also have "swap_pos (2 ^ k) (flip k (j div 2)) = flip (Suc k) (j div 2)" by simp
  finally show ?case .
qed

lemma flip_eq: "j < 2 ^ k \<Longrightarrow> flip k j = 2 ^ k - 1 - j"
proof (induction k arbitrary: j)
  case (Suc k)
  then have "j div 2 < 2 ^ k" by auto
  from Suc.IH [OF this] have "flip (Suc k) j = 2 * (2 ^ k - 1 - j div 2) + (1 - j mod 2)"
    by (simp only: flip_double)
  also have "\<dots> = 2 ^ Suc k - 1 - j" using Suc.prems by simp arith
  finally show ?case .
qed simp

lemma flip_less: "k \<le> n \<Longrightarrow> j < 2 ^ n \<Longrightarrow> flip k j < 2 ^ n"
proof (induction k arbitrary: j n)
  case (Suc k)
  then obtain n' where n: "n = Suc n'" "k \<le> n'" by (cases n) auto
  then have "flip k (j div 2) < 2 ^ n'" using Suc.IH [OF n(2), of "j div 2"] Suc.prems(2) by auto
  then show ?case unfolding flip_double n(1) by simp
qed simp

lemma rev_loop_flip:
  assumes "block_mask (2 ^ k) m" "k \<le> 6" "j < 64"
  shows "bit (rev_loop (2 ^ k) m v) j \<longleftrightarrow> bit v (flip k j)"
  using assms
proof (induction k arbitrary: m v)
  case 0
  have "rev_loop (2 ^ 0) m v = v" by (subst rev_loop.simps) simp
  then show ?case by simp
next
  case (Suc k)
  from rev_loop_step [of "2 ^ k" m v] Suc.prems obtain m' v' where
    s: "rev_loop (2 ^ Suc k) m v = rev_loop (2 ^ k) m' v'" "block_mask (2 ^ k) m'"
      "\<forall>j < 64. bit v' j \<longleftrightarrow> bit v (swap_pos (2 ^ k) j)" by auto
  have "flip k j < 64" using flip_less [of k 6 j] Suc.prems by simp
  with Suc.IH [OF s(2)] Suc.prems s show ?case by simp
qed

lemma bit_rev: assumes "j < 64" shows "bit (rev v) j \<longleftrightarrow> bit v (63 - j)"
proof -
  have "block_mask (2 ^ 6) (not 0)" by (simp add: block_mask_def bit_not_iff)
  from rev_loop_flip [OF this _ assms, of v] flip_eq [of j 6] assms show ?thesis by (simp add: rev_def)
qed

lemma rev_eqI: "(\<And>j. j < 64 \<Longrightarrow> bit (a :: 64 word) j = bit b j) \<Longrightarrow> a = b"
  by (rule bit_word_eqI) simp

lemma rev_rev [simp]: "rev (rev v) = v"
  by (rule rev_eqI) (simp add: bit_rev)

lemma rev_or: "rev (or a b) = or (rev a) (rev b)"
  by (rule rev_eqI) (simp add: bit_rev bit_simps)

lemma rev_not_mask: "e \<le> 64 \<Longrightarrow> rev (not (mask e)) = mask (64 - e)"
  by (rule rev_eqI) (auto simp: bit_rev bit_simps)

lemma rev_0 [simp]: "rev 0 = 0" "rev v = 0 \<longleftrightarrow> v = 0"
proof -
  show r0: "rev 0 = 0" by (rule rev_eqI) (simp add: bit_rev)
  show "rev v = 0 \<longleftrightarrow> v = 0" using r0 by (metis rev_rev)
qed

lemma unat_mask64: "k \<le> 64 \<Longrightarrow> unat (mask k :: 64 word) = mask k"
  using uint_mask_eq [where 'a = 64, of k] by (simp add: min_def nat_mask_eq flip: nat_uint_eq)

lemma unat_drop64: "unat (drop_bit k (w :: 64 word)) = unat w div 2 ^ k"
proof -
  have "take_bit 64 (unat w) = unat w" using unsigned_less [of w, where 'a = nat] by (simp add: take_bit_nat_eq_self)
  then show ?thesis using unsigned_drop_bit_eq [of k w, where 'a = nat] by (simp add: drop_bit_eq_div [of k "unat w"])
qed

lemma unat_or_mask:
  assumes "k \<le> 64"
  shows "unat (or (w :: 64 word) (mask k)) = unat w div 2 ^ k * 2 ^ k + (2 ^ k - 1)"
proof -
  let ?x = "or (unat w) (mask k)"
  have "?x = push_bit k (drop_bit k ?x) + take_bit k ?x" by (rule bits_ident [symmetric])
  moreover have "drop_bit k ?x = drop_bit k (unat w)" by (simp add: drop_bit_or drop_bit_mask_eq)
  moreover have "take_bit k ?x = mask k" by (rule bit_eqI) (auto simp: bit_simps)
  ultimately have "?x = unat w div 2 ^ k * 2 ^ k + (2 ^ k - 1)"
    by (simp add: push_bit_eq_mult drop_bit_eq_div mask_eq_exp_minus_1)
  moreover have "unat (or w (mask k)) = ?x"
    using assms by (simp add: unsigned_or_eq unat_mask64)
  ultimately show ?thesis by simp
qed

text \<open>
  The position of a cursor or of a hash value is its bit reversal.  A table of exponent \<open>e\<close> divides
  the positions into \<open>2 ^ e\<close> blocks of size \<open>2 ^ (64 - e)\<close>, one for each bucket, and a step of the
  cursor goes to the start of the next block.
\<close>

definition pos :: "64 word \<Rightarrow> nat" where
  "pos v = unat (rev v)"

lemma pos_less: "pos v < 2 ^ 64"
  using unsigned_less [of "rev v"] by (simp add: pos_def)

lemma pos_0 [simp]: "pos 0 = 0" "pos v = 0 \<longleftrightarrow> v = 0"
  by (simp_all add: pos_def unat_eq_zero)

lemma pos_next_cursor:
  assumes "0 \<le> e" "e \<le> 63"
  shows "pos (next_cursor (DICTHT_SIZE_MASK e) v)
    = (pos v div 2 ^ (64 - nat e) + 1) * 2 ^ (64 - nat e) mod 2 ^ 64"
proof -
  let ?k = "64 - nat e"
  have "rev (or v (not (DICTHT_SIZE_MASK e))) = or (rev v) (mask ?k)"
    using assms by (simp add: rev_or mask_exp rev_not_mask)
  then have "pos (next_cursor (DICTHT_SIZE_MASK e) v) = unat (or (rev v) (mask ?k) + 1)"
    by (simp add: pos_def next_cursor_def)
  also have "\<dots> = (unat (or (rev v) (mask ?k)) + 1) mod 2 ^ 64"
    by (simp add: unat_word_ariths)
  also have "unat (or (rev v) (mask ?k)) + 1 = (pos v div 2 ^ ?k + 1) * 2 ^ ?k"
    by (simp add: unat_or_mask pos_def algebra_simps)
  finally show ?thesis .
qed

lemma next_block:
  fixes R :: nat
  assumes "k \<le> 64" "R < 2 ^ 64" "R' = (R div 2 ^ k + 1) * 2 ^ k mod 2 ^ 64"
  shows "R' = 0 \<or> R < R'" "R' \<noteq> 0 \<Longrightarrow> R' = (R div 2 ^ k + 1) * 2 ^ k"
    "R \<le> H \<Longrightarrow> H < 2 ^ 64 \<Longrightarrow> R' = 0 \<or> H < R' \<Longrightarrow> H div 2 ^ k = R div 2 ^ k"
    "2 ^ k dvd R'"
proof -
  have b: "R < (R div 2 ^ k + 1) * 2 ^ k"
    using dividend_less_div_times [of "2 ^ k" R] by (simp add: algebra_simps)
  have "(2::nat) ^ 64 = 2 ^ (64 - k) * 2 ^ k" using assms(1) by (simp add: power_add [symmetric])
  moreover have "R div 2 ^ k < 2 ^ (64 - k)"
    using assms(2) calculation by (simp add: less_mult_imp_div_less)
  ultimately have le: "(R div 2 ^ k + 1) * 2 ^ k \<le> 2 ^ 64"
    by (metis Suc_eq_plus1 Suc_leI mult_le_mono1)
  have eq: "R' = (if (R div 2 ^ k + 1) * 2 ^ k = 2 ^ 64 then 0 else (R div 2 ^ k + 1) * 2 ^ k)"
    using le assms(3) by (auto simp: less_le)
  show "R' = 0 \<or> R < R'" "R' \<noteq> 0 \<Longrightarrow> R' = (R div 2 ^ k + 1) * 2 ^ k" using eq b by auto
  have "2 ^ k dvd (R div 2 ^ k + 1) * 2 ^ k" by (rule dvd_triv_right)
  then show "2 ^ k dvd R'" unfolding eq by simp
  assume H: "R \<le> H" "H < 2 ^ 64" "R' = 0 \<or> H < R'"
  then have "H < (R div 2 ^ k + 1) * 2 ^ k" using eq by (auto split: if_splits)
  then have "H div 2 ^ k < R div 2 ^ k + 1" by (simp add: less_mult_imp_div_less)
  moreover have "R div 2 ^ k \<le> H div 2 ^ k" by (rule div_le_mono [OF H(1)])
  ultimately show "H div 2 ^ k = R div 2 ^ k" by simp
qed

lemma slot_pos:
  assumes "0 \<le> e" "e \<le> 63"
  shows "slot h e = slot v e \<longleftrightarrow> pos h div 2 ^ (64 - nat e) = pos v div 2 ^ (64 - nat e)"
proof -
  let ?n = "nat e"
  have "slot h e = slot v e \<longleftrightarrow> take_bit ?n h = take_bit ?n v"
    using assms by (simp add: slot_def mask_exp word_unat_eq_iff flip: take_bit_eq_mask)
  also have "\<dots> \<longleftrightarrow> (\<forall>j < 64. j < ?n \<longrightarrow> bit h j = bit v j)"
    by (auto simp: bit_eq_iff bit_simps)
  also have "\<dots> \<longleftrightarrow> (\<forall>j < 64. 64 - ?n \<le> j \<longrightarrow> bit (rev h) j = bit (rev v) j)"
  proof (rule iffI; intro allI impI)
    fix j assume a: "\<forall>j < 64. j < ?n \<longrightarrow> bit h j = bit v j" "j < 64" "64 - ?n \<le> j"
    then show "bit (rev h) j = bit (rev v) j" by (simp add: bit_rev)
  next
    fix j assume a: "\<forall>j < 64. 64 - ?n \<le> j \<longrightarrow> bit (rev h) j = bit (rev v) j" "j < 64" "j < ?n"
    then have "bit (rev h) (63 - j) = bit (rev v) (63 - j)" using assms by simp
    then show "bit h j = bit v j" using a(2) by (simp add: bit_rev)
  qed
  also have "\<dots> \<longleftrightarrow> drop_bit (64 - ?n) (rev h) = drop_bit (64 - ?n) (rev v)"
  proof
    assume a: "\<forall>j < 64. 64 - ?n \<le> j \<longrightarrow> bit (rev h) j = bit (rev v) j"
    show "drop_bit (64 - ?n) (rev h) = drop_bit (64 - ?n) (rev v)"
    proof (rule bit_eqI)
      fix i
      show "bit (drop_bit (64 - ?n) (rev h)) i = bit (drop_bit (64 - ?n) (rev v)) i"
        using a by (cases "64 - ?n + i < 64") (auto simp: bit_simps dest: bit_imp_le_length)
    qed
  next
    assume a: "drop_bit (64 - ?n) (rev h) = drop_bit (64 - ?n) (rev v)"
    show "\<forall>j < 64. 64 - ?n \<le> j \<longrightarrow> bit (rev h) j = bit (rev v) j"
    proof (intro allI impI)
      fix j assume "j < 64" "64 - ?n \<le> j"
      with arg_cong [OF a, of "\<lambda>w. bit w (j - (64 - ?n))"] show "bit (rev h) j = bit (rev v) j"
        by (simp add: bit_simps)
    qed
  qed
  also have "\<dots> \<longleftrightarrow> pos h div 2 ^ (64 - ?n) = pos v div 2 ^ (64 - ?n)"
    unfolding pos_def by (simp add: word_unat_eq_iff unat_drop64)
  finally show ?thesis .
qed

lemma coarse:
  fixes R k0 k1 :: nat
  assumes "k1 \<le> k0"
  defines "N \<equiv> (R div 2 ^ k1 + 1) * 2 ^ k1" and "N0 \<equiv> (R div 2 ^ k0 + 1) * 2 ^ k0"
  shows "2 ^ k0 dvd N \<Longrightarrow> N = N0" "\<not> 2 ^ k0 dvd N \<Longrightarrow> N < N0 \<and> N div 2 ^ k0 = R div 2 ^ k0"
proof -
  let ?a = "2 ^ k1 :: nat" and ?c = "2 ^ (k0 - k1) :: nat"
  have b: "(2::nat) ^ k0 = ?a * ?c" using assms(1) by (simp add: power_add [symmetric])
  define q where "q = R div ?a"
  define p s where "p = q div ?c" and "s = q mod ?c"
  have q: "q = ?c * p + s" and s: "s < ?c" by (simp_all add: p_def s_def)
  have N: "N = ?a * (q + 1)" by (simp add: N_def q_def)
  have Rb: "R div 2 ^ k0 = p" 
  proof -
    have "R div 2 ^ k0 = R div ?a div ?c" unfolding b by (rule div_mult2_eq)
    then show ?thesis by (simp only: q_def p_def)
  qed
  have N0: "N0 = ?a * (?c * (p + 1))" unfolding N0_def Rb unfolding b by (simp add: algebra_simps)
  have dvd: "2 ^ k0 dvd N \<longleftrightarrow> ?c dvd q + 1" unfolding N b by (rule nat_mult_dvd_cancel1) simp
  have dvd2: "?c dvd q + 1 \<longleftrightarrow> s + 1 = ?c"
  proof
    assume "?c dvd q + 1"
    then have "?c dvd s + 1" unfolding q by (metis add.assoc dvd_add_right_iff dvd_triv_left)
    then have "?c \<le> s + 1" by (rule dvd_imp_le) simp
    then show "s + 1 = ?c" using s by linarith
  next
    assume "s + 1 = ?c"
    then have "q + 1 = ?c * (p + 1)" unfolding q by (simp add: algebra_simps)
    then show "?c dvd q + 1" by (simp only: dvd_triv_left)
  qed
  show "N = N0" if "2 ^ k0 dvd N"
  proof -
    have "q + 1 = ?c * (p + 1)" using that dvd dvd2 q by (simp add: algebra_simps)
    then show ?thesis by (simp only: N N0)
  qed
  show "N < N0 \<and> N div 2 ^ k0 = R div 2 ^ k0" if "\<not> 2 ^ k0 dvd N"
  proof
    have s1: "s + 1 < ?c" using that dvd dvd2 s by linarith
    have "q + 1 < ?c * (p + 1)" using s1 unfolding q by (simp add: algebra_simps)
    then show "N < N0" unfolding N N0 by (rule mult_less_mono2) simp
    have "(q + 1) div ?c = p" using s1 unfolding q by (intro div_nat_eqI) (simp_all add: algebra_simps)
    then show "N div 2 ^ k0 = R div 2 ^ k0" unfolding Rb unfolding N b by (simp add: div_mult2_eq [of _ "2 ^ k1"])
  qed
qed

subsection \<open>The scan step\<close>

lemma pos_next_cursor_gt:
  assumes "next_cursor m v \<noteq> 0"
  shows "pos v < pos (next_cursor m v)"
proof -
  let ?w = "rev (or v (not m))"
  have w: "?w + 1 \<noteq> 0" using assms by (simp add: next_cursor_def)
  have "rev v \<le> ?w" unfolding rev_or by (rule le_word_or2)
  then have "unat (rev v) \<le> unat ?w" by (simp only: word_le_nat_alt)
  also have "\<dots> < unat (?w + 1)" using unatSuc [of ?w] w by (simp add: add.commute)
  finally show ?thesis by (simp add: pos_def next_cursor_def)
qed

function scan_loop ::
  "('k, 'v) bucket list \<Rightarrow> 64 word \<Rightarrow> 64 word \<Rightarrow> 64 word \<Rightarrow> (64 word \<times> ('k, 'v) bucket) option" where
  "scan_loop tab m0 m1 v =
     do { b \<leftarrow> bucket_at tab (and v m1);
          let v = next_cursor m1 v;
          if and v (xor m0 m1) \<noteq> 0
          then do { (w, es) \<leftarrow> scan_loop tab m0 m1 v; Some (w, b @ es) }
          else Some (v, b) }"
  by pat_completeness auto
termination
proof (relation "measure (\<lambda>(tab, m0, m1, v). 2 ^ 64 - pos v)", goal_cases)
  case (2 tab m0 m1 v b w)
  then have "w \<noteq> 0" by auto
  with 2 pos_next_cursor_gt [of m1 v] pos_less [of w] show ?case by simp
qed simp

declare scan_loop.simps [simp del]

definition dictScan ::
  "('k, 'v) dict \<Rightarrow> 64 word \<Rightarrow> (('k, 'v) dict \<times> 64 word \<times> ('k, 'v) bucket) option" where
  "dictScan d v =
     (if dictSize d = 0 then Some (d, 0, [])
      else
        (let d = dictPauseRehashing d in
         do { (v, es) \<leftarrow>
                (if \<not> dictIsRehashing d then
                   (let m0 = DICTHT_SIZE_MASK (ht_size_exp (ht0 d)) in
                    do { b \<leftarrow> bucket_at (ht_table (ht0 d)) (and v m0);
                         Some (next_cursor m0 v, b) })
                 else
                   (let (t0, t1) =
                          (if DICTHT_SIZE (ht_size_exp (ht0 d)) > DICTHT_SIZE (ht_size_exp (ht1 d))
                           then (ht1 d, ht0 d) else (ht0 d, ht1 d));
                        m0 = DICTHT_SIZE_MASK (ht_size_exp t0); m1 = DICTHT_SIZE_MASK (ht_size_exp t1) in
                    do { b \<leftarrow> bucket_at (ht_table t0) (and v m0);
                         (v, es) \<leftarrow> scan_loop (ht_table t1) m0 m1 v;
                         Some (v, b @ es) }));
              Some (dictResumeRehashing d, v, es) }))"

lemma bucket_at_slot:
  assumes "ht_ok env t" "ht_table t \<noteq> []"
  shows "bucket_at (ht_table t) (and v (DICTHT_SIZE_MASK (ht_size_exp t))) = Some (ht_table t ! slot v (ht_size_exp t))"
  using ht_ok_nonempty(6) [OF assms, of v] by (simp add: bucket_at_def slot_def)

lemma in_bucket_block:
  assumes "ht_ok env t" "ht_table t \<noteq> []" "x \<in> set (concat (ht_table t))"
    "pos (hashFunction env (fst x)) div 2 ^ (64 - nat (ht_size_exp t)) = pos v div 2 ^ (64 - nat (ht_size_exp t))"
  shows "x \<in> set (ht_table t ! slot v (ht_size_exp t))"
proof -
  obtain i where i: "i < length (ht_table t)" "x \<in> set (ht_table t ! i)"
    using assms(3) unfolding in_concat_nth by blast
  have "slot (hashFunction env (fst x)) (ht_size_exp t) = i"
    using ht_ok_nonempty(5) [OF assms(1,2) i(1)] i(2) by (auto simp: bucket_ok_def list_all_iff)
  moreover have "slot (hashFunction env (fst x)) (ht_size_exp t) = slot v (ht_size_exp t)"
    using assms(4) ht_ok_nonempty(1,2) [OF assms(1,2)] by (simp add: slot_pos)
  ultimately show ?thesis using i by simp
qed

text \<open>The do-while loop stops at the first cursor aligned to a block of the smaller table.\<close>

lemma and_mask_diff:
  assumes "e0 \<le> e1" "e1 \<le> 63" "2 ^ (64 - e1) dvd pos v"
  shows "and v (xor (mask e0) (mask e1)) = 0 \<longleftrightarrow> 2 ^ (64 - e0) dvd pos v"
proof -
  have "take_bit (64 - e1) (unat (rev v)) = 0" using assms(3) by (simp add: pos_def take_bit_eq_0_iff)
  then have "take_bit (64 - e1) (rev v) = 0"
    by (simp add: word_unat_eq_iff unsigned_take_bit_eq)
  then have low: "\<not> bit (rev v) j" if "j < 64 - e1" for j
    using that by (metis bit_0_eq bit_take_bit_iff bot_apply bot_bool_def)
  have "and v (xor (mask e0) (mask e1)) = 0 \<longleftrightarrow> (\<forall>j. e0 \<le> j \<and> j < e1 \<longrightarrow> \<not> bit v j)"
  proof
    assume a: "and v (xor (mask e0) (mask e1)) = 0"
    show "\<forall>j. e0 \<le> j \<and> j < e1 \<longrightarrow> \<not> bit v j"
    proof (intro allI impI)
      fix j assume "e0 \<le> j \<and> j < e1"
      with arg_cong [OF a, of "\<lambda>w. bit w j"] assms(2) show "\<not> bit v j" by (simp add: bit_simps)
    qed
  next
    assume a: "\<forall>j. e0 \<le> j \<and> j < e1 \<longrightarrow> \<not> bit v j"
    show "and v (xor (mask e0) (mask e1)) = 0"
    proof (rule bit_eqI)
      fix j show "bit (and v (xor (mask e0) (mask e1))) j = bit 0 j"
        using a assms(1) by (cases "e0 \<le> j \<and> j < e1") (auto simp: bit_simps)
    qed
  qed
  also have "\<dots> \<longleftrightarrow> (\<forall>j. 64 - e1 \<le> j \<and> j < 64 - e0 \<longrightarrow> \<not> bit (rev v) j)"
  proof (rule iffI; intro allI impI)
    fix j assume a: "\<forall>j. e0 \<le> j \<and> j < e1 \<longrightarrow> \<not> bit v j" "64 - e1 \<le> j \<and> j < 64 - e0"
    have "e0 \<le> 63 - j \<and> 63 - j < e1" using a(2) assms(2) by linarith
    then have "\<not> bit v (63 - j)" using a(1) by blast
    moreover have "j < 64" using a(2) by linarith
    ultimately show "\<not> bit (rev v) j" by (simp add: bit_rev)
  next
    fix j assume a: "\<forall>j. 64 - e1 \<le> j \<and> j < 64 - e0 \<longrightarrow> \<not> bit (rev v) j" "e0 \<le> j \<and> j < e1"
    have "64 - e1 \<le> 63 - j \<and> 63 - j < 64 - e0" using a(2) assms(2) by linarith
    then have "\<not> bit (rev v) (63 - j)" using a(1) by blast
    then show "\<not> bit v j" using a(2) assms(2) by (simp add: bit_rev)
  qed
  also have "\<dots> \<longleftrightarrow> (\<forall>j. j < 64 - e0 \<longrightarrow> \<not> bit (rev v) j)" using low by (meson not_le)
  also have "\<dots> \<longleftrightarrow> take_bit (64 - e0) (rev v) = 0" by (auto simp: bit_eq_iff bit_simps)
  also have "\<dots> \<longleftrightarrow> 2 ^ (64 - e0) dvd pos v"
    by (simp add: word_unat_eq_iff unsigned_take_bit_eq pos_def take_bit_eq_0_iff)
  finally show ?thesis .
qed

lemma scan_loop_correct:
  assumes ok: "ht_ok env t" "ht_table t \<noteq> []" and e: "0 \<le> e0" "e0 \<le> ht_size_exp t"
  shows "\<exists>v' es. scan_loop (ht_table t) (DICTHT_SIZE_MASK e0) (DICTHT_SIZE_MASK (ht_size_exp t)) v = Some (v', es)
    \<and> pos v' = (pos v div 2 ^ (64 - nat e0) + 1) * 2 ^ (64 - nat e0) mod 2 ^ 64
    \<and> set es \<subseteq> set (concat (ht_table t))
    \<and> (\<forall>x \<in> set (concat (ht_table t)). pos v \<le> pos (hashFunction env (fst x))
         \<and> (pos v' = 0 \<or> pos (hashFunction env (fst x)) < pos v') \<longrightarrow> x \<in> set es)"
proof (induction "2 ^ 64 - pos v" arbitrary: v rule: less_induct)
  case less
  let ?e1 = "ht_size_exp t" and ?tab = "ht_table t" and ?m0 = "DICTHT_SIZE_MASK e0"
  let ?m1 = "DICTHT_SIZE_MASK ?e1" and ?H = "\<lambda>x. pos (hashFunction env (fst x))"
  let ?k0 = "64 - nat e0" and ?k1 = "64 - nat ?e1"
  have e1: "0 \<le> ?e1" "?e1 \<le> 63" using ht_ok_nonempty(1,2) [OF ok] by auto
  have ms: "?m0 = mask (nat e0)" "?m1 = mask (nat ?e1)" using e e1 by (simp_all add: mask_exp)
  have k: "?k1 \<le> ?k0" using e by auto
  let ?b = "?tab ! slot v ?e1" and ?v1 = "next_cursor ?m1 v"
  define N where "N = (pos v div 2 ^ ?k1 + 1) * 2 ^ ?k1"
  define N0 where "N0 = (pos v div 2 ^ ?k0 + 1) * 2 ^ ?k0"
  note co = coarse [OF k, of "pos v", folded N_def N0_def]
  have p1: "pos ?v1 = N mod 2 ^ 64" unfolding N_def by (rule pos_next_cursor [OF e1])
  have bk: "bucket_at ?tab (and v ?m1) = Some ?b" by (rule bucket_at_slot [OF ok])
  have sub: "set ?b \<subseteq> set (concat ?tab)"
    using ht_ok_nonempty(6) [OF ok, of v] by (auto intro: nth_mem)
  have inb: "x \<in> set ?b" if "x \<in> set (concat ?tab)" "pos v \<le> ?H x" "pos ?v1 = 0 \<or> ?H x < pos ?v1" for x
    by (rule in_bucket_block [OF ok that(1)], rule next_block(3) [OF _ pos_less p1 [unfolded N_def] that(2) pos_less that(3)]) simp
  have stop: "and ?v1 (xor ?m0 ?m1) = 0 \<longleftrightarrow> 2 ^ ?k0 dvd N"
  proof -
    have "and ?v1 (xor ?m0 ?m1) = 0 \<longleftrightarrow> 2 ^ ?k0 dvd pos ?v1"
      unfolding ms using e e1 next_block(4) [OF _ pos_less p1 [unfolded N_def]]
      by (intro and_mask_diff) (auto simp: ms)
    also have "\<dots> \<longleftrightarrow> 2 ^ ?k0 dvd N"
      unfolding p1 by (rule dvd_mod_iff) (intro le_imp_power_dvd, simp)
    finally show ?thesis .
  qed
  show ?case
  proof (cases "2 ^ ?k0 dvd N")
    case True
    then have "scan_loop ?tab ?m0 ?m1 v = Some (?v1, ?b)"
      using bk stop by (subst scan_loop.simps) (simp add: Let_def)
    moreover have "pos ?v1 = N0 mod 2 ^ 64" using p1 co(1) [OF True] by simp
    ultimately show ?thesis using sub inb unfolding N0_def [symmetric] by blast
  next
    case False
    note c = co(2) [OF False]
    have "N0 \<le> 2 ^ 64"
    proof -
      have "pos v div 2 ^ ?k0 < 2 ^ (64 - ?k0)"
        using pos_less [of v] by (simp add: less_mult_imp_div_less power_add [symmetric])
      then have "N0 \<le> 2 ^ (64 - ?k0) * 2 ^ ?k0" unfolding N0_def by (intro mult_le_mono1) simp
      then show ?thesis by (simp add: power_add [symmetric])
    qed
    then have N: "N < 2 ^ 64" using c by linarith
    then have v1: "pos ?v1 = N" using p1 by simp
    have Npos: "0 < N" unfolding N_def by simp
    have "pos ?v1 = 0 \<or> pos v < pos ?v1" by (rule next_block(1) [OF _ pos_less p1 [unfolded N_def]]) simp
    then have "pos v < N" using v1 Npos by simp
    then have "2 ^ 64 - pos ?v1 < 2 ^ 64 - pos v" using v1 N by linarith
    from less [OF this] obtain w es where
      w: "scan_loop ?tab ?m0 ?m1 ?v1 = Some (w, es)" "pos w = (N div 2 ^ ?k0 + 1) * 2 ^ ?k0 mod 2 ^ 64"
        "set es \<subseteq> set (concat ?tab)"
        "\<forall>x \<in> set (concat ?tab). N \<le> ?H x \<and> (pos w = 0 \<or> ?H x < pos w) \<longrightarrow> x \<in> set es"
      unfolding v1 by blast
    have "scan_loop ?tab ?m0 ?m1 v = Some (w, ?b @ es)"
      using bk stop False w(1) by (subst scan_loop.simps) (simp add: Let_def)
    moreover have "pos w = N0 mod 2 ^ 64" using w(2) c by (simp add: N0_def)
    moreover have "x \<in> set (?b @ es)" if "x \<in> set (concat ?tab)" "pos v \<le> ?H x" "pos w = 0 \<or> ?H x < pos w" for x
      using that inb [OF that(1,2)] w(4) v1 by (cases "?H x < N") auto
    moreover have "set (?b @ es) \<subseteq> set (concat ?tab)" unfolding set_append using sub w(3) by (rule Un_least)
    ultimately show ?thesis unfolding N0_def [symmetric] by (intro exI [of _ w] exI [of _ "?b @ es"]) blast
  qed
qed

definition exps_le :: "nat \<Rightarrow> ('k, 'v) dict \<Rightarrow> bool" where
  "exps_le E d \<longleftrightarrow> ht_size_exp (ht0 d) \<le> int E \<and> ht_size_exp (ht1 d) \<le> int E"

lemma resume_pause [simp]: "dictResumeRehashing (dictPauseRehashing d) = d"
  by (simp add: dictResumeRehashing_def dictPauseRehashing_def)

lemma pause_fields [simp]:
  "ht0 (dictPauseRehashing d) = ht0 d" "ht1 (dictPauseRehashing d) = ht1 d"
  "dictIsRehashing (dictPauseRehashing d) = dictIsRehashing d"
  by (simp_all add: dictPauseRehashing_def dictIsRehashing_def)

lemma block_dvd: "0 \<le> e \<Longrightarrow> e \<le> int E \<Longrightarrow> 2 ^ (64 - nat e) dvd n \<Longrightarrow> 2 ^ (64 - E) dvd (n :: nat)"
  by (erule dvd_trans [rotated]) (intro le_imp_power_dvd, simp)

text \<open>
  One call at cursor \<open>v\<close> emits every entry whose position lies from that of the cursor up to that of
  the cursor it returns.
\<close>

lemma dictScan_correct:
  assumes wf: "dict_wf env d"
  shows "\<exists>v' es. dictScan d v = Some (d, v', es) \<and> set es \<subseteq> set (entries d)
    \<and> (v' = 0 \<or> pos v < pos v')
    \<and> (\<forall>x \<in> set (entries d). pos v \<le> pos (hashFunction env (fst x))
         \<and> (v' = 0 \<or> pos (hashFunction env (fst x)) < pos v') \<longrightarrow> x \<in> set es)
    \<and> (exps_le E d \<longrightarrow> 2 ^ (64 - E) dvd pos v')"
proof (cases "dictSize d = 0")
  case True
  then have "entries d = []" using dictSize_entries [OF wf] by simp
  with True show ?thesis by (simp add: dictScan_def)
next
  case ne: False
  note tab0 = dict_wf_table [OF wf ne]
  have ok0: "ht_ok env (ht0 d)" using wf by (simp add: dict_wf_def)
  show ?thesis
  proof (cases "dictIsRehashing d")
    case False
    let ?e = "ht_size_exp (ht0 d)" and ?H = "\<lambda>x. pos (hashFunction env (fst x))"
    let ?v' = "next_cursor (DICTHT_SIZE_MASK ?e) v" and ?es = "ht_table (ht0 d) ! slot v ?e"
    have e: "0 \<le> ?e" "?e \<le> 63" using ht_ok_nonempty(1,2) [OF ok0 tab0] by auto
    have en: "entries d = concat (ht_table (ht0 d))"
      using dict_wf_not_rehashing(2) [OF wf False] by (simp add: entries_def)
    have sc: "dictScan d v = Some (d, ?v', ?es)"
      using ne False bucket_at_slot [OF ok0 tab0, of v] by (simp add: dictScan_def Let_def)
    note p = pos_next_cursor [OF e, of v]
    note nb = next_block [OF _ pos_less p]
    have "x \<in> set ?es" if "x \<in> set (entries d)" "pos v \<le> ?H x" "?v' = 0 \<or> ?H x < pos ?v'" for x
      by (rule in_bucket_block [OF ok0 tab0], use that en in simp, rule nb(3)) (use that pos_less in auto)
    moreover have "set ?es \<subseteq> set (entries d)"
      using ht_ok_nonempty(6) [OF ok0 tab0, of v] unfolding en by (auto intro: nth_mem)
    moreover have "?v' = 0 \<or> pos v < pos ?v'" using nb(1) by simp
    moreover have "exps_le E d \<longrightarrow> 2 ^ (64 - E) dvd pos ?v'"
      using block_dvd [OF e(1) _ nb(4)] by (simp add: exps_le_def)
    ultimately show ?thesis using sc by blast
  next
    case True
    note r = dict_wf_rehashing [OF wf True]
    let ?H = "\<lambda>x. pos (hashFunction env (fst x))"
    define t0 t1 where "t0 = (if DICTHT_SIZE (ht_size_exp (ht0 d)) > DICTHT_SIZE (ht_size_exp (ht1 d)) then ht1 d else ht0 d)"
      and "t1 = (if DICTHT_SIZE (ht_size_exp (ht0 d)) > DICTHT_SIZE (ht_size_exp (ht1 d)) then ht0 d else ht1 d)"
    have ok: "ht_ok env t0" "ht_table t0 \<noteq> []" "ht_ok env t1" "ht_table t1 \<noteq> []"
      using r by (simp_all add: t0_def t1_def)
    have e: "0 \<le> ht_size_exp t0" "ht_size_exp t0 \<le> 63" "0 \<le> ht_size_exp t1"
      using ht_ok_nonempty(1,2) [OF ok(1,2)] ht_ok_nonempty(1) [OF ok(3,4)] by auto
    have le: "ht_size_exp t0 \<le> ht_size_exp t1"
    proof (rule ccontr)
      assume "\<not> ?thesis"
      then have "DICTHT_SIZE (ht_size_exp t1) < DICTHT_SIZE (ht_size_exp t0)"
        using e by (simp add: DICTHT_SIZE_def)
      then show False by (simp add: t0_def t1_def split: if_splits)
    qed
    have en: "set (entries d) = set (concat (ht_table t0)) \<union> set (concat (ht_table t1))"
      by (auto simp: entries_def t0_def t1_def)
    from scan_loop_correct [OF ok(3,4) e(1) le, of v] obtain v' es where
      sl: "scan_loop (ht_table t1) (DICTHT_SIZE_MASK (ht_size_exp t0)) (DICTHT_SIZE_MASK (ht_size_exp t1)) v = Some (v', es)"
        "pos v' = (pos v div 2 ^ (64 - nat (ht_size_exp t0)) + 1) * 2 ^ (64 - nat (ht_size_exp t0)) mod 2 ^ 64"
        "set es \<subseteq> set (concat (ht_table t1))"
        "\<forall>x \<in> set (concat (ht_table t1)). pos v \<le> ?H x \<and> (pos v' = 0 \<or> ?H x < pos v') \<longrightarrow> x \<in> set es" by blast
    let ?b = "ht_table t0 ! slot v (ht_size_exp t0)"
    have sc: "dictScan d v = Some (d, v', ?b @ es)"
      using ne True bucket_at_slot [OF ok(1,2), of v] sl(1)
      by (cases "DICTHT_SIZE (ht_size_exp (ht0 d)) > DICTHT_SIZE (ht_size_exp (ht1 d))")
         (simp_all add: dictScan_def Let_def t0_def t1_def)
    note nb = next_block [OF _ pos_less sl(2)]
    have "x \<in> set (?b @ es)" if "x \<in> set (entries d)" "pos v \<le> ?H x" "v' = 0 \<or> ?H x < pos v'" for x
    proof (cases "x \<in> set (concat (ht_table t1))")
      case True
      with sl(4) that show ?thesis by auto
    next
      case False
      with that(1) en have "x \<in> set (concat (ht_table t0))" by blast
      moreover have "?H x div 2 ^ (64 - nat (ht_size_exp t0)) = pos v div 2 ^ (64 - nat (ht_size_exp t0))"
        by (rule nb(3)) (use that pos_less in auto)
      ultimately have "x \<in> set ?b" by (rule in_bucket_block [OF ok(1,2)])
      then show ?thesis by simp
    qed
    moreover have "set (?b @ es) \<subseteq> set (entries d)"
      using ht_ok_nonempty(6) [OF ok(1,2), of v] sl(3) unfolding en by (auto intro: nth_mem)
    moreover have "v' = 0 \<or> pos v < pos v'" using nb(1) by simp
    moreover have "exps_le E d \<longrightarrow> 2 ^ (64 - E) dvd pos v'"
      using block_dvd [OF e(1) _ nb(4)] by (auto simp: exps_le_def t0_def split: if_splits)
    ultimately show ?thesis using sc by blast
  qed
qed

subsection \<open>A whole iteration\<close>

text \<open>The calls of one SCAN iteration.\<close>

definition scan_calls :: "('k, 'v) dict list \<Rightarrow> 64 word \<Rightarrow> (64 word \<times> ('k, 'v) bucket) option" where
  "scan_calls ds v = cursor_calls (\<lambda>d v. map_option snd (dictScan d v)) 0 ds v"

text \<open>
  With tables of at most \<open>2 ^ E\<close> buckets every cursor but the last is the start of a block of size
  \<open>2 ^ (64 - E)\<close>, so that \<open>2 ^ E\<close> calls come back to 0.
\<close>

lemma dvd_step:
  assumes "b dvd m" "b dvd n" "m < (n :: nat)"
  shows "m + b \<le> n"
proof -
  obtain x y where xy: "m = b * x" "n = b * y" using assms(1,2) by (auto simp: dvd_def)
  with assms(3) have "x < y" by auto
  then have "b * (x + 1) \<le> b * y" by (intro mult_le_mono2) simp
  then show ?thesis by (simp add: xy algebra_simps)
qed

lemma blocks_le: "(2::nat) ^ 64 \<le> 2 ^ E * 2 ^ (64 - E)"
  by (simp only: power_add [symmetric]) (rule power_increasing, simp_all)

lemma map_dom_entries: "dom (dict_map d) = fst ` set (entries d)"
  by (simp add: dict_map_def dom_map_of_conv_image_fst)

interpretation dict_scan: cursor_scan "\<lambda>d v. map_option snd (dictScan d v)" 0 "\<lambda>d. dict_wf env d \<and> exps_le E d"
  "\<lambda>d. set (entries d)" fst "\<lambda>k. pos (hashFunction env k)" pos "\<lambda>v. 2 ^ (64 - E) dvd pos v" "2 ^ (64 - E)" "2 ^ E"
  for env E
proof (unfold_locales, goal_cases)
  case (3 v)
  show ?case using pos_less [of v] blocks_le [of E] by linarith
next
  case (4 d v)
  from dictScan_correct [of env d v E] 4 obtain v' es where
    s: "dictScan d v = Some (d, v', es)" "set es \<subseteq> set (entries d)" "v' = 0 \<or> pos v < pos v'"
      "\<forall>x \<in> set (entries d). pos v \<le> pos (hashFunction env (fst x))
         \<and> (v' = 0 \<or> pos (hashFunction env (fst x)) < pos v') \<longrightarrow> x \<in> set es"
      "2 ^ (64 - E) dvd pos v'" by blast
  with dvd_step [OF 4(2) s(5)] show ?case by auto
qed simp_all

subsection \<open>Main results\<close>

text \<open>
  \<open>rev\<close> reverses the 64 bits of its argument.
\<close>

theorem rev_reverses:
  assumes "j < 64"
  shows "bit (rev v) j \<longleftrightarrow> bit v (63 - j)"
  by (rule bit_rev [OF assms])

theorem rev_reverses_witness:
  "bit (rev 5) 61 \<longleftrightarrow> bit (5 :: 64 word) (63 - 61)"
  by (rule rev_reverses) simp

text \<open>
  C12. The guarantee of SCAN.  Let the calls of an iteration be made on any well-formed dictionaries
  \<open>ds\<close>, one after the other: the table may have been expanded, shrunk, rehashed in part or changed
  otherwise between the calls.  With tables of at most \<open>2 ^ E\<close> buckets, the cursor is back at 0 after
  at most \<open>2 ^ E\<close> calls, every entry emitted was in the dictionary at one of the calls, and a key
  that is present at every call has been emitted.
\<close>

theorem scan_guarantee:
  assumes "\<forall>d \<in> set ds. dict_wf env d \<and> exps_le E d" "2 ^ E \<le> length ds"
  shows "\<exists>es. scan_calls ds 0 = Some (0, es) \<and> set es \<subseteq> (\<Union>d \<in> set ds. set (entries d))
    \<and> (\<forall>k. (\<forall>d \<in> set ds. k \<in> dom (dict_map d)) \<longrightarrow> k \<in> fst ` set es)"
  using dict_scan.iteration [OF assms] by (simp add: scan_calls_def map_dom_entries)

theorem scan_guarantee_witness:
  "\<exists>es. scan_calls (replicate 8 dict_ex) 0 = Some (0, es) \<and> 7 \<in> fst ` set es"
proof -
  have "\<forall>d \<in> set (replicate 8 dict_ex). dict_wf env_ex d \<and> exps_le 3 d"
    by (simp add: dict_ex_wf exps_le_def) (simp add: dict_ex_def)
  from scan_guarantee [OF this] show ?thesis by (auto simp: dict_ex_map)
qed

end
