(* ===== verification/Kvstore.thy ===== *)
theory Kvstore
  imports Kvstore_Index Dict_Scan Adlist
begin

section \<open>Key-value stores of several dictionaries (kvstore.c): the model\<close>

text \<open>
  A store is an array of dictionaries, allocated on demand and freed when empty if the flags say so,
  with counters over all of them: the number of keys, of dictionaries and of buckets, the tree of
  cumulative sizes (\<open>dict_size_index\<close>, \<open>[]\<close> for NULL), and the list of the dictionaries that are being
  rehashed.  That list is an \<^verbatim>\<open>adlist\<close> in the memory \<open>kv_mem\<close>, a dictionary in it being named by
  its index; \<open>dict_meta\<close> holds the \<open>rehashing_node\<close> of every dictionary, which the source keeps in the
  metadata of the dictionary itself.

  A dictionary reports the start and the end of a rehashing through callbacks.  The dictionaries of
  the model log these calls (\<open>type_calls\<close>); \<open>put_dict\<close> stores a dictionary after an operation, having
  run the callbacks of the log in order.  They touch neither the tables nor the log, so that it makes
  no difference that they run after the operation instead of in the middle of it.

  \<open>env\<close> is the type of the dictionaries, \<open>al\<close> the allocator.  A failed assertion, an index outside
  of an array and an access to memory not in use are \<open>None\<close>.
\<close>

record ('k, 'v) kvstore =
  flags :: "32 word"
  dicts :: "('k, 'v) dict option list"
  dict_meta :: "ptr list"
  num_dicts :: nat
  num_dicts_bits :: nat
  kv_mem :: "nat mem"
  rehashing :: "nat adlist"
  resize_cursor :: nat
  allocated_dicts :: int
  non_empty_dicts :: int
  key_count :: "64 word"
  bucket_count :: "64 word"
  dict_size_index :: "64 word list"
  overhead_hashtable_lut :: "64 word"
  overhead_hashtable_rehashing :: "64 word"

definition KVSTORE_ALLOCATE_DICTS_ON_DEMAND :: "32 word" where "KVSTORE_ALLOCATE_DICTS_ON_DEMAND = 1"
definition KVSTORE_FREE_EMPTY_DICTS :: "32 word" where "KVSTORE_FREE_EMPTY_DICTS = 2"

definition dictBuckets :: "('k, 'v) dict \<Rightarrow> nat" where
  "dictBuckets d = DICTHT_SIZE (ht_size_exp (ht0 d)) + DICTHT_SIZE (ht_size_exp (ht1 d))"

definition dictIsRehashingPaused :: "('k, 'v) dict \<Rightarrow> bool" where
  "dictIsRehashingPaused d \<longleftrightarrow> pauserehash d > 0"

fun for_each :: "('i \<Rightarrow> 's \<Rightarrow> 's option) \<Rightarrow> 'i list \<Rightarrow> 's \<Rightarrow> 's option" where
  "for_each body [] s = Some s"
| "for_each body (i # is) s = do { s \<leftarrow> body i s; for_each body is s }"

subsection \<open>Callbacks of the dictionaries\<close>

text \<open>\<open>from'\<close> and \<open>to\<close> are what \<open>dictRehashingInfo\<close> reports.\<close>

definition kvstoreDictRehashingStarted ::
  "nat al_env \<Rightarrow> nat \<Rightarrow> nat \<Rightarrow> nat \<Rightarrow> ('k, 'v) kvstore \<Rightarrow> ('k, 'v) kvstore option" where
  "kvstoreDictRehashingStarted al didx from' to kvs =
     do { (m, l, ok) \<leftarrow> listAddNodeTail al (kv_mem kvs) (rehashing kvs) didx;
          Some (kvs\<lparr>kv_mem := m, rehashing := l, dict_meta := (dict_meta kvs)[didx := tail l],
                    bucket_count := bucket_count kvs + of_nat to,
                    overhead_hashtable_lut := overhead_hashtable_lut kvs + of_nat to,
                    overhead_hashtable_rehashing := overhead_hashtable_rehashing kvs + of_nat from'\<rparr>) }"

definition kvstoreDictRehashingCompleted ::
  "nat \<Rightarrow> nat \<Rightarrow> nat \<Rightarrow> ('k, 'v) kvstore \<Rightarrow> ('k, 'v) kvstore option" where
  "kvstoreDictRehashingCompleted didx from' to kvs =
     do { kvs \<leftarrow> (if dict_meta kvs ! didx \<noteq> 0
             then do { (m, l) \<leftarrow> listDelNode (kv_mem kvs) (rehashing kvs) (dict_meta kvs ! didx);
                       Some (kvs\<lparr>kv_mem := m, rehashing := l, dict_meta := (dict_meta kvs)[didx := 0]\<rparr>) }
             else Some kvs);
          Some (kvs\<lparr>bucket_count := bucket_count kvs - of_nat from',
                    overhead_hashtable_lut := overhead_hashtable_lut kvs - of_nat from',
                    overhead_hashtable_rehashing := overhead_hashtable_rehashing kvs - of_nat from'\<rparr>) }"

fun dict_callback ::
  "nat al_env \<Rightarrow> nat \<Rightarrow> dict_call \<Rightarrow> ('k, 'v) kvstore \<Rightarrow> ('k, 'v) kvstore option" where
  "dict_callback al didx (RehashingStarted f t) kvs = kvstoreDictRehashingStarted al didx f t kvs"
| "dict_callback al didx (RehashingCompleted f t) kvs = kvstoreDictRehashingCompleted didx f t kvs"

definition put_dict ::
  "nat al_env \<Rightarrow> ('k, 'v) kvstore \<Rightarrow> nat \<Rightarrow> ('k, 'v) dict \<Rightarrow> ('k, 'v) kvstore option" where
  "put_dict al kvs didx d =
     do { kvs \<leftarrow> for_each (dict_callback al didx) (type_calls d) kvs;
          Some (kvs\<lparr>dicts := (dicts kvs)[didx := Some (d\<lparr>type_calls := []\<rparr>)]\<rparr>) }"

subsection \<open>Helpers\<close>

definition kvstoreGetDict :: "('k, 'v) kvstore \<Rightarrow> nat \<Rightarrow> ('k, 'v) dict option option" where
  "kvstoreGetDict kvs didx = (if didx < length (dicts kvs) then Some (dicts kvs ! didx) else None)"

definition kvstoreDictSize :: "('k, 'v) kvstore \<Rightarrow> nat \<Rightarrow> nat option" where
  "kvstoreDictSize kvs didx =
     do { d \<leftarrow> kvstoreGetDict kvs didx; Some (case d of None \<Rightarrow> 0 | Some d \<Rightarrow> dictSize d) }"

definition kvstoreDictIsRehashingPaused :: "('k, 'v) kvstore \<Rightarrow> nat \<Rightarrow> bool option" where
  "kvstoreDictIsRehashingPaused kvs didx =
     do { d \<leftarrow> kvstoreGetDict kvs didx; Some (case d of None \<Rightarrow> False | Some d \<Rightarrow> dictIsRehashingPaused d) }"

definition kvstoreSize :: "('k, 'v) kvstore \<Rightarrow> 64 word option" where
  "kvstoreSize kvs =
     (if num_dicts kvs \<noteq> 1 then Some (key_count kvs)
      else do { d \<leftarrow> kvstoreGetDict kvs 0; Some (case d of None \<Rightarrow> 0 | Some d \<Rightarrow> of_nat (dictSize d)) })"

definition kvstoreBuckets :: "('k, 'v) kvstore \<Rightarrow> 64 word option" where
  "kvstoreBuckets kvs =
     (if num_dicts kvs \<noteq> 1 then Some (bucket_count kvs)
      else do { d \<leftarrow> kvstoreGetDict kvs 0; Some (case d of None \<Rightarrow> 0 | Some d \<Rightarrow> of_nat (dictBuckets d)) })"

definition cumulativeKeyCountRead :: "('k, 'v) kvstore \<Rightarrow> nat \<Rightarrow> 64 word option" where
  "cumulativeKeyCountRead kvs didx =
     (if num_dicts kvs = 1 then (if didx = 0 then kvstoreSize kvs else None)
      else cumulativeRead_loop (dict_size_index kvs) (didx + 1) 0)"

definition addDictIndexToCursor :: "('k, 'v) kvstore \<Rightarrow> int \<Rightarrow> 64 word \<Rightarrow> 64 word" where
  "addDictIndexToCursor kvs didx cursor =
     (if num_dicts kvs = 1 then cursor
      else if didx < 0 then cursor
      else push_bit (num_dicts_bits kvs) cursor OR of_int didx)"

definition getAndClearDictIndexFromCursor :: "('k, 'v) kvstore \<Rightarrow> 64 word \<Rightarrow> nat \<times> 64 word" where
  "getAndClearDictIndexFromCursor kvs cursor =
     (if num_dicts kvs = 1 then (0, cursor)
      else (unat (cursor AND (of_nat (num_dicts kvs) - 1)), drop_bit (num_dicts_bits kvs) cursor))"

definition cumulativeKeyCountAdd :: "('k, 'v) kvstore \<Rightarrow> nat \<Rightarrow> int \<Rightarrow> ('k, 'v) kvstore option" where
  "cumulativeKeyCountAdd kvs didx delta =
     do { let kvs = kvs\<lparr>key_count := key_count kvs + of_int delta\<rparr>;
          dopt \<leftarrow> kvstoreGetDict kvs didx;
          d \<leftarrow> dopt;
          let dsize = dictSize d;
          let non_empty_dicts_delta = (if dsize = 1 \<and> delta > 0 then 1 else if dsize = 0 then -1 else 0);
          let kvs = kvs\<lparr>non_empty_dicts := non_empty_dicts kvs + non_empty_dicts_delta\<rparr>;
          if num_dicts kvs = 1 then Some kvs
          else do { t \<leftarrow> cumulativeAdd_loop (num_dicts kvs) delta (dict_size_index kvs) (didx + 1);
                    Some (kvs\<lparr>dict_size_index := t\<rparr>) } }"

definition createDictIfNeeded :: "nat \<Rightarrow> ('k, 'v) kvstore \<Rightarrow> ('k, 'v) kvstore option" where
  "createDictIfNeeded didx kvs =
     do { dopt \<leftarrow> kvstoreGetDict kvs didx;
          case dopt of Some d \<Rightarrow> Some kvs
          | None \<Rightarrow> Some (kvs\<lparr>dicts := (dicts kvs)[didx := Some dictCreate],
                             dict_meta := (dict_meta kvs)[didx := 0],
                             allocated_dicts := allocated_dicts kvs + 1\<rparr>) }"

definition freeDictIfNeeded :: "nat al_env \<Rightarrow> ('k, 'v) kvstore \<Rightarrow> nat \<Rightarrow> ('k, 'v) kvstore option" where
  "freeDictIfNeeded al kvs didx =
     (if flags kvs AND KVSTORE_FREE_EMPTY_DICTS = 0 then Some kvs
      else do {
        dopt \<leftarrow> kvstoreGetDict kvs didx;
        case dopt of None \<Rightarrow> Some kvs
        | Some d \<Rightarrow>
            if dictSize d \<noteq> 0 \<or> dictIsRehashingPaused d then Some kvs
            else do {
              kvs \<leftarrow> for_each (dict_callback al didx) (fst (dictRelease d)) kvs;
              Some (kvs\<lparr>dicts := (dicts kvs)[didx := None], allocated_dicts := allocated_dicts kvs - 1\<rparr>) } })"

subsection \<open>The whole store\<close>

definition kvstoreCreate :: "nat al_env \<Rightarrow> nat mem \<Rightarrow> nat \<Rightarrow> 32 word \<Rightarrow> ('k, 'v) kvstore option" where
  "kvstoreCreate al m bits flgs =
     (if \<not> bits \<le> 16 then None
      else do {
        l \<leftarrow> listCreate al m;
        let n = 2 ^ bits;
        let kvs = \<lparr>flags = flgs, dicts = replicate n None, dict_meta = replicate n 0,
                   num_dicts = n, num_dicts_bits = bits, kv_mem = m, rehashing = l, resize_cursor = 0,
                   allocated_dicts = 0, non_empty_dicts = 0, key_count = 0, bucket_count = 0,
                   dict_size_index = (if n > 1 then replicate (n + 1) 0 else []),
                   overhead_hashtable_lut = 0, overhead_hashtable_rehashing = 0\<rparr>;
        if flgs AND KVSTORE_ALLOCATE_DICTS_ON_DEMAND = 0
        then for_each createDictIfNeeded [0..<n] kvs else Some kvs })"

definition kvstoreEmpty :: "nat al_env \<Rightarrow> ('k, 'v) kvstore \<Rightarrow> ('k, 'v) kvstore option" where
  "kvstoreEmpty al kvs =
     do { kvs \<leftarrow> for_each (\<lambda>didx kvs.
                 do { dopt \<leftarrow> kvstoreGetDict kvs didx;
                      case dopt of None \<Rightarrow> Some kvs
                      | Some d \<Rightarrow>
                          do { let kvs = kvs\<lparr>dict_meta := (dict_meta kvs)[didx := 0]\<rparr>;
                               kvs \<leftarrow> put_dict al kvs didx (fst (dictEmpty d));
                               freeDictIfNeeded al kvs didx } })
                 [0..<num_dicts kvs] kvs;
          (m, l) \<leftarrow> listEmpty (kv_mem kvs) (rehashing kvs);
          Some (kvs\<lparr>kv_mem := m, rehashing := l, key_count := 0, non_empty_dicts := 0, resize_cursor := 0,
                    bucket_count := 0,
                    dict_size_index := (if dict_size_index kvs \<noteq> [] then replicate (num_dicts kvs + 1) 0
                                        else dict_size_index kvs),
                    overhead_hashtable_lut := 0, overhead_hashtable_rehashing := 0\<rparr>) }"

text \<open>Afterwards the store is gone; what remains is the memory of its list.\<close>

definition kvstoreRelease :: "nat al_env \<Rightarrow> ('k, 'v) kvstore \<Rightarrow> nat mem option" where
  "kvstoreRelease al kvs =
     do { kvs \<leftarrow> for_each (\<lambda>didx kvs.
                 do { dopt \<leftarrow> kvstoreGetDict kvs didx;
                      case dopt of None \<Rightarrow> Some kvs
                      | Some d \<Rightarrow>
                          for_each (dict_callback al didx) (fst (dictRelease d))
                            (kvs\<lparr>dict_meta := (dict_meta kvs)[didx := 0]\<rparr>) })
                 [0..<num_dicts kvs] kvs;
          listRelease (kv_mem kvs) (Some (rehashing kvs)) }"

definition kvstoreFindDictIndexByKeyIndex :: "('k, 'v) kvstore \<Rightarrow> 64 word \<Rightarrow> nat option" where
  "kvstoreFindDictIndexByKeyIndex kvs target =
     do { sz \<leftarrow> kvstoreSize kvs;
          if num_dicts kvs = 1 \<or> sz = 0 then Some 0
          else if \<not> target \<le> sz then None
          else findIndex_loop (dict_size_index kvs) (2 ^ num_dicts_bits kvs) 0 target }"

definition kvstoreGetFirstNonEmptyDictIndex :: "('k, 'v) kvstore \<Rightarrow> nat option" where
  "kvstoreGetFirstNonEmptyDictIndex kvs = kvstoreFindDictIndexByKeyIndex kvs 1"

definition kvstoreGetNextNonEmptyDictIndex :: "('k, 'v) kvstore \<Rightarrow> nat \<Rightarrow> int option" where
  "kvstoreGetNextNonEmptyDictIndex kvs didx =
     (if num_dicts kvs = 1 then (if didx = 0 then Some (-1) else None)
      else do {
        c \<leftarrow> cumulativeKeyCountRead kvs didx;
        let next_key = c + 1;
        sz \<leftarrow> kvstoreSize kvs;
        if next_key \<le> sz then map_option int (kvstoreFindDictIndexByKeyIndex kvs next_key) else Some (-1) })"

text \<open>\<open>rnd\<close> is the value of \<open>randomULong\<close>.\<close>

definition kvstoreGetFairRandomDictIndex :: "64 word \<Rightarrow> ('k, 'v) kvstore \<Rightarrow> nat option" where
  "kvstoreGetFairRandomDictIndex rnd kvs =
     do { sz \<leftarrow> kvstoreSize kvs;
          kvstoreFindDictIndexByKeyIndex kvs (if sz \<noteq> 0 then rnd mod sz + 1 else 0) }"

definition kvstoreNumNonEmptyDicts :: "('k, 'v) kvstore \<Rightarrow> int" where
  "kvstoreNumNonEmptyDicts kvs = non_empty_dicts kvs"

definition kvstoreNumAllocatedDicts :: "('k, 'v) kvstore \<Rightarrow> int" where
  "kvstoreNumAllocatedDicts kvs = allocated_dicts kvs"

definition kvstoreNumDicts :: "('k, 'v) kvstore \<Rightarrow> nat" where
  "kvstoreNumDicts kvs = num_dicts kvs"

definition kvstoreDictRehashingCount :: "('k, 'v) kvstore \<Rightarrow> 64 word" where
  "kvstoreDictRehashingCount kvs = len (rehashing kvs)"

definition kvstoreOverheadHashtableLut :: "('k, 'v) kvstore \<Rightarrow> 64 word" where
  "kvstoreOverheadHashtableLut kvs = overhead_hashtable_lut kvs * 8"

definition kvstoreOverheadHashtableRehashing :: "('k, 'v) kvstore \<Rightarrow> 64 word" where
  "kvstoreOverheadHashtableRehashing kvs = overhead_hashtable_rehashing kvs * 8"

subsection \<open>Iteration with a cursor\<close>

text \<open>
  The scan function only reads: the entries it is given are returned.  \<open>skip_cb\<close> is \<open>None\<close> for NULL.
\<close>

definition kvstoreScan ::
  "nat al_env \<Rightarrow> ('k, 'v) kvstore \<Rightarrow> 64 word \<Rightarrow> int \<Rightarrow> (('k, 'v) dict \<Rightarrow> bool) option
    \<Rightarrow> (('k, 'v) kvstore \<times> 64 word \<times> ('k, 'v) bucket) option" where
  "kvstoreScan al kvs cursor onlydidx skip_cb =
     (let (didx, cursor) = getAndClearDictIndexFromCursor kvs cursor in
      if onlydidx \<ge> 0 \<and> int didx > onlydidx then Some (kvs, 0, [])
      else do {
        (didx, cursor) \<leftarrow>
          (if onlydidx \<ge> 0 \<and> int didx < onlydidx
           then (if onlydidx < int (num_dicts kvs) then Some (nat onlydidx, 0) else None)
           else Some (didx, cursor));
        dopt \<leftarrow> kvstoreGetDict kvs didx;
        (kvs, cursor', es, skip) \<leftarrow>
          (case dopt of None \<Rightarrow> Some (kvs, 0, [], True)
           | Some d \<Rightarrow>
               if (case skip_cb of None \<Rightarrow> False | Some f \<Rightarrow> f d) then Some (kvs, 0, [], True)
               else do {
                 (d, c, es) \<leftarrow> dictScan d cursor;
                 kvs \<leftarrow> put_dict al kvs didx d;
                 kvs \<leftarrow> freeDictIfNeeded al kvs didx;
                 Some (kvs, c, es, False) });
        if cursor' = 0 \<or> skip then
          (if onlydidx \<ge> 0 then Some (kvs, 0, es)
           else do {
             next' \<leftarrow> kvstoreGetNextNonEmptyDictIndex kvs didx;
             if next' = -1 then Some (kvs, 0, es) else Some (kvs, addDictIndexToCursor kvs next' cursor', es) })
        else Some (kvs, addDictIndexToCursor kvs (int didx) cursor', es) })"

subsection \<open>Maintenance\<close>

text \<open>
  \<open>alloc_ok\<close> of the source's \<open>dictTryExpand\<close> is given for every dictionary.  The flag of the result is
  the return value.
\<close>

fun kvstoreExpand_loop ::
  "nat al_env \<Rightarrow> (nat \<Rightarrow> bool) \<Rightarrow> nat \<Rightarrow> bool \<Rightarrow> (nat \<Rightarrow> bool) option \<Rightarrow> nat list \<Rightarrow> ('k, 'v) kvstore
    \<Rightarrow> (('k, 'v) kvstore \<times> bool) option" where
  "kvstoreExpand_loop al oks newsize try_expand skip_cb [] kvs = Some (kvs, True)"
| "kvstoreExpand_loop al oks newsize try_expand skip_cb (i # is) kvs =
     do { dopt \<leftarrow> kvstoreGetDict kvs i;
          case dopt of None \<Rightarrow> kvstoreExpand_loop al oks newsize try_expand skip_cb is kvs
          | Some d \<Rightarrow>
              if (case skip_cb of None \<Rightarrow> False | Some f \<Rightarrow> f i)
              then kvstoreExpand_loop al oks newsize try_expand skip_cb is kvs
              else do {
                (d, result) \<leftarrow> (if try_expand then dictTryExpand (oks i) d newsize else dictExpand d newsize);
                kvs \<leftarrow> put_dict al kvs i d;
                if try_expand \<and> \<not> result then Some (kvs, False)
                else kvstoreExpand_loop al oks newsize try_expand skip_cb is kvs } }"

definition kvstoreExpand ::
  "nat al_env \<Rightarrow> (nat \<Rightarrow> bool) \<Rightarrow> ('k, 'v) kvstore \<Rightarrow> nat \<Rightarrow> bool \<Rightarrow> (nat \<Rightarrow> bool) option
    \<Rightarrow> (('k, 'v) kvstore \<times> bool) option" where
  "kvstoreExpand al oks kvs newsize try_expand skip_cb =
     kvstoreExpand_loop al oks newsize try_expand skip_cb [0..<num_dicts kvs] kvs"

definition kvstoreTryResizeDicts ::
  "'k dict_env \<Rightarrow> nat al_env \<Rightarrow> ('k, 'v) kvstore \<Rightarrow> int \<Rightarrow> ('k, 'v) kvstore option" where
  "kvstoreTryResizeDicts env al kvs limit =
     (let limit = (if limit > int (num_dicts kvs) then int (num_dicts kvs) else limit) in
      for_each (\<lambda>i kvs.
        do { let didx = resize_cursor kvs;
             dopt \<leftarrow> kvstoreGetDict kvs didx;
             kvs \<leftarrow> (case dopt of None \<Rightarrow> Some kvs
               | Some d \<Rightarrow>
                   do { (d, ok) \<leftarrow> dictShrinkIfNeeded env d;
                        d \<leftarrow> (if \<not> ok then map_option fst (dictExpandIfNeeded env d) else Some d);
                        put_dict al kvs didx d });
             Some (kvs\<lparr>resize_cursor := (didx + 1) mod num_dicts kvs\<rparr>) })
        [0..<nat limit] kvs)"

text \<open>
  The clock decides: an element of the schedule is how many rounds after the first
  \<open>dictRehashMicroseconds\<close> makes for the dictionary at the head of the list, and whether the time is
  over afterwards.
\<close>

fun kvstoreIncrementallyRehash ::
  "'k dict_env \<Rightarrow> nat al_env \<Rightarrow> (nat \<times> bool) list \<Rightarrow> ('k, 'v) kvstore \<Rightarrow> ('k, 'v) kvstore option" where
  "kvstoreIncrementallyRehash env al [] kvs = Some kvs"
| "kvstoreIncrementallyRehash env al ((rounds, over) # clock) kvs =
     (if head (rehashing kvs) = 0 then Some kvs
      else do {
        n \<leftarrow> node (kv_mem kvs) (head (rehashing kvs));
        let didx = node_value n;
        dopt \<leftarrow> kvstoreGetDict kvs didx;
        d \<leftarrow> dopt;
        (d, steps) \<leftarrow> dictRehashMicroseconds env d rounds;
        kvs \<leftarrow> put_dict al kvs didx d;
        if over then Some kvs else kvstoreIncrementallyRehash env al clock kvs })"

subsection \<open>Operations on one dictionary\<close>

definition kvstoreDictExpand ::
  "nat al_env \<Rightarrow> ('k, 'v) kvstore \<Rightarrow> nat \<Rightarrow> nat \<Rightarrow> (('k, 'v) kvstore \<times> bool) option" where
  "kvstoreDictExpand al kvs didx sz =
     do { dopt \<leftarrow> kvstoreGetDict kvs didx;
          case dopt of None \<Rightarrow> Some (kvs, False)
          | Some d \<Rightarrow> do { (d, ok) \<leftarrow> dictExpand d sz; kvs \<leftarrow> put_dict al kvs didx d; Some (kvs, ok) } }"

definition kvstoreGetHash :: "'k dict_env \<Rightarrow> 'k \<Rightarrow> 64 word" where
  "kvstoreGetHash env key = hashFunction env key"

definition kvstoreDictFetchValue ::
  "'k dict_env \<Rightarrow> nat al_env \<Rightarrow> ('k, 'v) kvstore \<Rightarrow> nat \<Rightarrow> 'k \<Rightarrow> (('k, 'v) kvstore \<times> 'v option) option" where
  "kvstoreDictFetchValue env al kvs didx key =
     do { dopt \<leftarrow> kvstoreGetDict kvs didx;
          case dopt of None \<Rightarrow> Some (kvs, None)
          | Some d \<Rightarrow> do { (d, v) \<leftarrow> dictFetchValue env d key; kvs \<leftarrow> put_dict al kvs didx d; Some (kvs, v) } }"

definition kvstoreDictFind ::
  "'k dict_env \<Rightarrow> nat al_env \<Rightarrow> ('k, 'v) kvstore \<Rightarrow> nat \<Rightarrow> 'k \<Rightarrow> (('k, 'v) kvstore \<times> entry_ref option) option" where
  "kvstoreDictFind env al kvs didx key =
     do { dopt \<leftarrow> kvstoreGetDict kvs didx;
          case dopt of None \<Rightarrow> Some (kvs, None)
          | Some d \<Rightarrow> do { (d, r) \<leftarrow> dictFind env d key; kvs \<leftarrow> put_dict al kvs didx d; Some (kvs, r) } }"

definition kvstoreDictFindEntryByPtrAndHash ::
  "('k, 'v) kvstore \<Rightarrow> nat \<Rightarrow> 'k \<Rightarrow> 64 word \<Rightarrow> entry_ref option option" where
  "kvstoreDictFindEntryByPtrAndHash kvs didx oldptr hash =
     do { dopt \<leftarrow> kvstoreGetDict kvs didx;
          case dopt of None \<Rightarrow> Some None | Some d \<Rightarrow> dictFindEntryByPtrAndHash d oldptr hash }"

definition kvstoreDictAddRaw ::
  "'k dict_env \<Rightarrow> nat al_env \<Rightarrow> ('k, 'v) kvstore \<Rightarrow> nat \<Rightarrow> 'k \<Rightarrow> (('k, 'v) kvstore \<times> (entry_ref + entry_ref)) option" where
  "kvstoreDictAddRaw env al kvs didx key =
     do { kvs \<leftarrow> createDictIfNeeded didx kvs;
          dopt \<leftarrow> kvstoreGetDict kvs didx;
          d \<leftarrow> dopt;
          (d, ret) \<leftarrow> dictAddRaw env d key;
          kvs \<leftarrow> put_dict al kvs didx d;
          case ret of Inl existing \<Rightarrow> Some (kvs, Inl existing)
          | Inr entry \<Rightarrow> do { kvs \<leftarrow> cumulativeKeyCountAdd kvs didx 1; Some (kvs, Inr entry) } }"

definition kvstoreDictSetVal ::
  "'k dict_env \<Rightarrow> nat al_env \<Rightarrow> ('k, 'v) kvstore \<Rightarrow> nat \<Rightarrow> entry_ref \<Rightarrow> 'v \<Rightarrow> ('k, 'v) kvstore option" where
  "kvstoreDictSetVal env al kvs didx de val =
     do { dopt \<leftarrow> kvstoreGetDict kvs didx; d \<leftarrow> dopt; d \<leftarrow> dictSetVal env d de val; put_dict al kvs didx d }"

definition kvstoreDictTwoPhaseUnlinkFind ::
  "'k dict_env \<Rightarrow> nat al_env \<Rightarrow> ('k, 'v) kvstore \<Rightarrow> nat \<Rightarrow> 'k \<Rightarrow> (('k, 'v) kvstore \<times> entry_ref option) option" where
  "kvstoreDictTwoPhaseUnlinkFind env al kvs didx key =
     do { dopt \<leftarrow> kvstoreGetDict kvs didx;
          case dopt of None \<Rightarrow> Some (kvs, None)
          | Some d \<Rightarrow>
              do { (d, he) \<leftarrow> dictTwoPhaseUnlinkFind env d key; kvs \<leftarrow> put_dict al kvs didx d; Some (kvs, he) } }"

definition kvstoreDictTwoPhaseUnlinkFree ::
  "'k dict_env \<Rightarrow> nat al_env \<Rightarrow> ('k, 'v) kvstore \<Rightarrow> nat \<Rightarrow> entry_ref option \<Rightarrow> ('k, 'v) kvstore option" where
  "kvstoreDictTwoPhaseUnlinkFree env al kvs didx he =
     do { dopt \<leftarrow> kvstoreGetDict kvs didx;
          d \<leftarrow> dopt;
          d \<leftarrow> dictTwoPhaseUnlinkFree env d he;
          kvs \<leftarrow> put_dict al kvs didx d;
          kvs \<leftarrow> cumulativeKeyCountAdd kvs didx (-1);
          freeDictIfNeeded al kvs didx }"

definition kvstoreDictDelete ::
  "'k dict_env \<Rightarrow> nat al_env \<Rightarrow> ('k, 'v) kvstore \<Rightarrow> nat \<Rightarrow> 'k \<Rightarrow> (('k, 'v) kvstore \<times> bool) option" where
  "kvstoreDictDelete env al kvs didx key =
     do { dopt \<leftarrow> kvstoreGetDict kvs didx;
          case dopt of None \<Rightarrow> Some (kvs, False)
          | Some d \<Rightarrow>
              do { (d, ret) \<leftarrow> dictDelete env d key;
                   kvs \<leftarrow> put_dict al kvs didx d;
                   if ret then do { kvs \<leftarrow> cumulativeKeyCountAdd kvs didx (-1);
                                    kvs \<leftarrow> freeDictIfNeeded al kvs didx;
                                    Some (kvs, True) }
                   else Some (kvs, False) } }"

end
