(* ===== verification/Kvstore_Ops.thy ===== *)
theory Kvstore_Ops
  imports Kvstore Adlist_Ops
begin

section \<open>Key-value stores: the invariant and its preservation\<close>

text \<open>
  The counters of a store against its dictionaries.  What the callbacks maintain (the list of the
  dictionaries being rehashed, the number of buckets, the overhead) depends on a dictionary only
  through its table sizes, \<open>tabs\<close>, so that it can be followed through the log of an operation:
  \<open>track kvs tb\<close> says that this part of the store is right for the table sizes \<open>tb\<close>.
\<close>

subsection \<open>Generic facts\<close>

lemma sum_fun_upd:
  fixes f :: "'i \<Rightarrow> nat"
  assumes "finite A" "i \<in> A"
  shows "sum (f(i := v)) A + f i = sum f A + v"
proof -
  have "sum (f(i := v)) A = v + sum (f(i := v)) (A - {i})" using assms by (simp add: sum.remove)
  moreover have "sum (f(i := v)) (A - {i}) = sum f (A - {i})" by (rule sum.cong) auto
  moreover have "sum f A = f i + sum f (A - {i})" using assms by (simp add: sum.remove)
  ultimately show ?thesis by simp
qed

lemma sum_clear:
  fixes g h :: "nat \<Rightarrow> nat"
  assumes "i < n" "g i = h i + c" "\<And>j. j \<noteq> i \<Longrightarrow> g j = h j"
  shows "sum g {..<n} = sum h {..<n} + c"
proof -
  have "sum g ({..<n} - {i}) = sum h ({..<n} - {i})" using assms(3) by (intro sum.cong) auto
  with assms(1,2) show ?thesis by (simp add: sum.remove [of "{..<n}" i])
qed

subsection \<open>The part the callbacks maintain\<close>

definition second :: "nat \<times> nat option \<Rightarrow> nat" where
  "second s = (case snd s of None \<Rightarrow> 0 | Some t \<Rightarrow> t)"

definition busy :: "nat \<times> nat option \<Rightarrow> nat" where
  "busy s = (case snd s of None \<Rightarrow> 0 | Some t \<Rightarrow> fst s)"

definition alloc_upto :: "nat \<Rightarrow> nat al_env \<Rightarrow> bool" where
  "alloc_upto N al \<longleftrightarrow> alloc_ok al \<and> zmalloc_list al = (\<lambda>m. True)
     \<and> (\<forall>m. finite (dom (cells m)) \<and> card (dom (cells m)) < N \<longrightarrow> zmalloc al m \<noteq> 0)"

definition rehash_list :: "('k, 'v) kvstore \<Rightarrow> (nat \<Rightarrow> nat \<times> nat option) \<Rightarrow> (ptr \<times> nat) list \<Rightarrow> bool" where
  "rehash_list kvs tb ns \<longleftrightarrow> list_rep (kv_mem kvs) (rehashing kvs) ns \<and> dom (cells (kv_mem kvs)) = addrs ns
     \<and> distinct (map snd ns) \<and> snd ` set ns = {i. i < num_dicts kvs \<and> snd (tb i) \<noteq> None}
     \<and> (\<forall>x \<in> set ns. dict_meta kvs ! snd x = fst x)
     \<and> (\<forall>i < num_dicts kvs. snd (tb i) = None \<longrightarrow> dict_meta kvs ! i = 0)
     \<and> length (dict_meta kvs) = num_dicts kvs"

definition tab_counts :: "('k, 'v) kvstore \<Rightarrow> (nat \<Rightarrow> nat \<times> nat option) \<Rightarrow> nat \<Rightarrow> bool" where
  "tab_counts kvs tb leak \<longleftrightarrow>
     bucket_count kvs = of_nat ((\<Sum>i < num_dicts kvs. fst (tb i) + second (tb i)) + leak)
     \<and> overhead_hashtable_lut kvs = bucket_count kvs
     \<and> overhead_hashtable_rehashing kvs = of_nat (\<Sum>i < num_dicts kvs. busy (tb i))"

text \<open>The fields that the callbacks leave alone.\<close>

definition same_rest :: "('k, 'v) kvstore \<Rightarrow> ('k, 'v) kvstore \<Rightarrow> bool" where
  "same_rest kvs kvs' \<longleftrightarrow> flags kvs' = flags kvs \<and> dicts kvs' = dicts kvs \<and> num_dicts kvs' = num_dicts kvs
     \<and> num_dicts_bits kvs' = num_dicts_bits kvs \<and> resize_cursor kvs' = resize_cursor kvs
     \<and> allocated_dicts kvs' = allocated_dicts kvs \<and> non_empty_dicts kvs' = non_empty_dicts kvs
     \<and> key_count kvs' = key_count kvs \<and> dict_size_index kvs' = dict_size_index kvs"

lemma same_rest_refl [simp]: "same_rest kvs kvs"
  by (simp add: same_rest_def)

lemma same_rest_trans: "same_rest kvs kvs' \<Longrightarrow> same_rest kvs' kvs'' \<Longrightarrow> same_rest kvs kvs''"
  by (simp add: same_rest_def)

lemma dom_cells_update:
  assumes "dom (cells m) = addrs ns" "same_outside (insert p (addrs ns)) m m'" "list_rep m' l' ns'"
    "addrs ns' \<subseteq> insert p (addrs ns)" "\<And>a. a \<in> insert p (addrs ns) \<Longrightarrow> a \<notin> addrs ns' \<Longrightarrow> cells m' a = None"
  shows "dom (cells m') = addrs ns'"
proof
  show "dom (cells m') \<subseteq> addrs ns'"
    using assms(1,2,5) by (force simp: same_outside_def)
  show "addrs ns' \<subseteq> dom (cells m')"
    using dlseg_live [of "cells m'" 0 ns' 0] assms(3) by (auto simp: list_rep_def)
qed

lemma rehash_list_started:
  assumes rl: "rehash_list kvs tb ns" and al: "alloc_upto N al" "num_dicts kvs \<le> N"
    and i: "i < num_dicts kvs" "snd (tb i) = None"
  shows "\<exists>kvs' p. kvstoreDictRehashingStarted al i f t kvs = Some kvs' \<and> same_rest kvs kvs'
    \<and> rehash_list kvs' (tb(i := (f, Some t))) (ns @ [(p, i)])
    \<and> bucket_count kvs' = bucket_count kvs + of_nat t
    \<and> overhead_hashtable_lut kvs' = overhead_hashtable_lut kvs + of_nat t
    \<and> overhead_hashtable_rehashing kvs' = overhead_hashtable_rehashing kvs + of_nat f"
proof -
  let ?m = "kv_mem kvs" and ?l = "rehashing kvs"
  have rep: "list_rep ?m ?l ns" "dom (cells ?m) = addrs ns" using rl by (simp_all add: rehash_list_def)
  have "card (addrs ns) = length ns"
    using rep(1) by (metis addrs_def distinct_card length_map list.set_map list_rep_def)
  also have "\<dots> = card (snd ` set ns)" using rl by (metis distinct_card length_map list.set_map rehash_list_def)
  also have "\<dots> < card {..<num_dicts kvs}"
  proof (rule psubset_card_mono)
    have "snd ` set ns = {j. j < num_dicts kvs \<and> snd (tb j) \<noteq> None}" using rl by (simp add: rehash_list_def)
    with i show "snd ` set ns \<subset> {..<num_dicts kvs}" by blast
  qed simp
  finally have "zmalloc al ?m \<noteq> 0" using al rep(2) by (auto simp: alloc_upto_def addrs_def)
  then have "listAddNodeTail al ?m ?l i \<noteq> Some (?m, ?l, False)"
    by (auto simp: listAddNodeTail_def new_node_def Let_def bind_eq_Some_conv)
  with listAddNodeTail_rep [OF rep(1), of al i] al obtain m' l' p where
    p: "listAddNodeTail al ?m ?l i = Some (m', l', True)" "cells ?m p = None" "list_rep m' l' (ns @ [(p, i)])"
      "same_outside (insert p (addrs ns)) ?m m'"
    unfolding added_def alloc_upto_def by blast
  have t: "tail l' = p" using p(3) by (simp add: list_rep_def)
  have dom: "dom (cells m') = addrs (ns @ [(p, i)])"
    by (rule dom_cells_update [OF rep(2) p(4,3)]) auto
  have ni: "i \<notin> snd ` set ns" using rl i by (simp add: rehash_list_def)
  have ln: "i < length (dict_meta kvs)" using rl i by (simp add: rehash_list_def)
  have "snd ` set (ns @ [(p, i)]) = {j. j < num_dicts kvs \<and> snd ((tb(i := (f, Some t))) j) \<noteq> None}"
    using rl i(1) by (auto simp: rehash_list_def)
  moreover have "\<forall>x \<in> set (ns @ [(p, i)]). (dict_meta kvs)[i := p] ! snd x = fst x"
  proof
    fix x assume "x \<in> set (ns @ [(p, i)])"
    then consider "x = (p, i)" | "x \<in> set ns" by auto
    then show "(dict_meta kvs)[i := p] ! snd x = fst x"
    proof cases
      case 2
      with ni have "snd x \<noteq> i" by auto
      with 2 rl show ?thesis by (simp add: rehash_list_def)
    qed (simp add: ln)
  qed
  moreover have "\<forall>j < num_dicts kvs. snd ((tb(i := (f, Some t))) j) = None \<longrightarrow> (dict_meta kvs)[i := p] ! j = 0"
    using rl by (auto simp: rehash_list_def)
  moreover have "distinct (map snd (ns @ [(p, i)]))" "length (dict_meta kvs) = num_dicts kvs"
    using rl ni by (simp_all add: rehash_list_def)
  ultimately have "rehash_list (kvs\<lparr>kv_mem := m', rehashing := l', dict_meta := (dict_meta kvs)[i := p],
      bucket_count := b, overhead_hashtable_lut := c, overhead_hashtable_rehashing := d\<rparr>)
      (tb(i := (f, Some t))) (ns @ [(p, i)])" for b c d
    using p(3) dom unfolding rehash_list_def by simp
  then show ?thesis using p(1) t
    by (auto simp: kvstoreDictRehashingStarted_def same_rest_def)
qed

lemma rehash_list_completed:
  assumes rl: "rehash_list kvs tb ns" and i: "i < num_dicts kvs" "snd (tb i) = Some t'"
  shows "\<exists>kvs' ns'. kvstoreDictRehashingCompleted i f t kvs = Some kvs' \<and> same_rest kvs kvs'
    \<and> rehash_list kvs' (tb(i := (t, None))) ns'
    \<and> bucket_count kvs' = bucket_count kvs - of_nat f
    \<and> overhead_hashtable_lut kvs' = overhead_hashtable_lut kvs - of_nat f
    \<and> overhead_hashtable_rehashing kvs' = overhead_hashtable_rehashing kvs - of_nat f"
proof -
  let ?m = "kv_mem kvs" and ?l = "rehashing kvs"
  have "i \<in> snd ` set ns" using rl i by (auto simp: rehash_list_def)
  then obtain p where "(p, i) \<in> set ns" by auto
  then obtain xs ys where ns: "ns = xs @ (p, i) # ys" by (metis split_list)
  have meta: "dict_meta kvs ! i = p" using rl by (simp add: rehash_list_def ns)
  have rep: "list_rep ?m ?l (xs @ (p, i) # ys)" "dom (cells ?m) = addrs ns"
    using rl by (simp_all add: rehash_list_def ns)
  from listDelNode_rep [OF rep(1)] obtain m' l' where
    d: "listDelNode ?m ?l p = Some (m', l')" "list_rep m' l' (xs @ ys)" "cells m' p = None"
      "same_outside (addrs ns) ?m m'" by (auto simp only: ns)
  have p: "p \<noteq> 0" "p \<notin> addrs (xs @ ys)" using rep(1) by (auto simp: list_rep_def set_map_fst_addrs)
  have dom: "dom (cells m') = addrs (xs @ ys)"
    by (rule dom_cells_update [OF rep(2) _ d(2), of p]) (use d(3,4) in \<open>auto simp: ns same_outside_def\<close>)
  have "i \<notin> snd ` set (xs @ ys)" "snd ` set (xs @ ys) = {j. j < num_dicts kvs \<and> snd (tb j) \<noteq> None} - {i}"
    "distinct (map snd (xs @ ys))"
    using rl by (auto simp: rehash_list_def ns)
  then have "rehash_list (kvs\<lparr>kv_mem := m', rehashing := l', dict_meta := (dict_meta kvs)[i := 0],
      bucket_count := b, overhead_hashtable_lut := c, overhead_hashtable_rehashing := e\<rparr>)
      (tb(i := (t, None))) (xs @ ys)" for b c e
    using rl d(2) dom i by (auto simp: rehash_list_def nth_list_update ns)
  then show ?thesis using d(1) meta p(1)
    by (auto simp: kvstoreDictRehashingCompleted_def same_rest_def intro!: exI [of _ "xs @ ys"])
qed

lemma tab_counts_update:
  assumes tc: "tab_counts kvs tb leak" and i: "i < num_dicts kvs" and n: "num_dicts kvs' = num_dicts kvs"
    and b: "bucket_count kvs' + of_nat (fst (tb i) + second (tb i)) = bucket_count kvs + of_nat (fst s + second s)"
    and l: "overhead_hashtable_lut kvs' = bucket_count kvs'"
    and o: "overhead_hashtable_rehashing kvs' + of_nat (busy (tb i)) = overhead_hashtable_rehashing kvs + of_nat (busy s)"
  shows "tab_counts kvs' (tb(i := s)) leak"
proof -
  let ?g = "\<lambda>j. fst (tb j) + second (tb j)" and ?h = "\<lambda>j. busy (tb j)"
  let ?A = "{..<num_dicts kvs}"
  have g: "(\<lambda>j. fst ((tb(i := s)) j) + second ((tb(i := s)) j)) = ?g(i := fst s + second s)"
    "(\<lambda>j. busy ((tb(i := s)) j)) = ?h(i := busy s)" by auto
  let ?w = "of_nat :: nat \<Rightarrow> 64 word"
  have "sum (?g(i := fst s + second s)) ?A + leak + ?g i = (sum ?g ?A + leak) + (fst s + second s)"
    using sum_fun_upd [of ?A i ?g "fst s + second s"] i by simp
  from arg_cong [OF this, of ?w]
  have "?w (sum (?g(i := fst s + second s)) ?A + leak) + ?w (?g i) = ?w (sum ?g ?A + leak) + ?w (fst s + second s)"
    by (simp only: of_nat_add)
  also have "\<dots> = bucket_count kvs' + ?w (?g i)" using tc b by (simp only: tab_counts_def)
  finally have B: "bucket_count kvs' = ?w (sum (?g(i := fst s + second s)) ?A + leak)"
    by (simp only: add_right_cancel)
  have "sum (?h(i := busy s)) ?A + ?h i = sum ?h ?A + busy s"
    using sum_fun_upd [of ?A i ?h "busy s"] i by simp
  from arg_cong [OF this, of ?w]
  have "?w (sum (?h(i := busy s)) ?A) + ?w (?h i) = ?w (sum ?h ?A) + ?w (busy s)" by (simp only: of_nat_add)
  also have "\<dots> = overhead_hashtable_rehashing kvs' + ?w (?h i)" using tc o by (simp only: tab_counts_def)
  finally have O: "overhead_hashtable_rehashing kvs' = ?w (sum (?h(i := busy s)) ?A)"
    by (simp only: add_right_cancel)
  show ?thesis using l B O unfolding tab_counts_def g n by simp
qed

lemma dict_callback_track:
  assumes rl: "rehash_list kvs tb ns" and tc: "tab_counts kvs tb leak"
    and al: "alloc_upto N al" "num_dicts kvs \<le> N" and i: "i < num_dicts kvs" and re: "replay [c] (tb i) = Some s"
  shows "\<exists>kvs' ns'. dict_callback al i c kvs = Some kvs' \<and> same_rest kvs kvs'
    \<and> rehash_list kvs' (tb(i := s)) ns' \<and> tab_counts kvs' (tb(i := s)) leak"
proof (cases c)
  case (RehashingStarted f t)
  with re have s: "tb i = (f, None)" "s = (f, Some t)" by (auto split: if_splits)
  from rehash_list_started [OF rl al i, of f t] s(1) obtain kvs' p where
    k: "kvstoreDictRehashingStarted al i f t kvs = Some kvs'" "same_rest kvs kvs'"
      "rehash_list kvs' (tb(i := (f, Some t))) (ns @ [(p, i)])" "bucket_count kvs' = bucket_count kvs + of_nat t"
      "overhead_hashtable_lut kvs' = overhead_hashtable_lut kvs + of_nat t"
      "overhead_hashtable_rehashing kvs' = overhead_hashtable_rehashing kvs + of_nat f" by auto
  have "tab_counts kvs' (tb(i := s)) leak"
    by (rule tab_counts_update [OF tc i])
       (use k(2,4,5,6) tc s in \<open>simp_all add: same_rest_def tab_counts_def second_def busy_def\<close>)
  with k RehashingStarted s(2) show ?thesis by auto
next
  case (RehashingCompleted f t)
  with re have s: "tb i = (f, Some t)" "s = (t, None)" by (auto split: if_splits)
  from rehash_list_completed [OF rl i, of t f t] s(1) obtain kvs' ns' where
    k: "kvstoreDictRehashingCompleted i f t kvs = Some kvs'" "same_rest kvs kvs'"
      "rehash_list kvs' (tb(i := (t, None))) ns'" "bucket_count kvs' = bucket_count kvs - of_nat f"
      "overhead_hashtable_lut kvs' = overhead_hashtable_lut kvs - of_nat f"
      "overhead_hashtable_rehashing kvs' = overhead_hashtable_rehashing kvs - of_nat f" by auto
  have "tab_counts kvs' (tb(i := s)) leak"
    by (rule tab_counts_update [OF tc i])
       (use k(2,4,5,6) tc s in \<open>simp_all add: same_rest_def tab_counts_def second_def busy_def\<close>)
  with k RehashingCompleted s(2) show ?thesis by auto
qed

lemma replay_Cons: "replay (c # cs) s = Option.bind (replay [c] s) (replay cs)"
  using replay_append [of "[c]" cs s] by simp

lemma dict_callbacks_track:
  assumes al: "alloc_upto N al" "num_dicts kvs \<le> N"
  shows "rehash_list kvs tb ns \<Longrightarrow> tab_counts kvs tb leak \<Longrightarrow> i < num_dicts kvs \<Longrightarrow> replay cs (tb i) = Some s
    \<Longrightarrow> \<exists>kvs' ns'. for_each (dict_callback al i) cs kvs = Some kvs' \<and> same_rest kvs kvs'
      \<and> rehash_list kvs' (tb(i := s)) ns' \<and> tab_counts kvs' (tb(i := s)) leak"
  using al(2)
proof (induction cs arbitrary: kvs tb ns)
  case Nil
  then have "tb(i := s) = tb" by (intro ext) simp
  then show ?case unfolding for_each.simps using Nil.prems(1,2) same_rest_refl by metis
next
  case (Cons c cs)
  from Cons.prems(4) obtain s1 where s1: "replay [c] (tb i) = Some s1" "replay cs s1 = Some s"
    unfolding replay_Cons [of c cs] by (auto simp: bind_eq_Some_conv)
  from dict_callback_track [OF Cons.prems(1,2) al(1) Cons.prems(5,3) s1(1)] obtain k1 ns1 where
    k1: "dict_callback al i c kvs = Some k1" "same_rest kvs k1" "rehash_list k1 (tb(i := s1)) ns1"
      "tab_counts k1 (tb(i := s1)) leak" by blast
  have n: "num_dicts k1 = num_dicts kvs" using k1(2) by (simp add: same_rest_def)
  have "replay cs ((tb(i := s1)) i) = Some s" using s1(2) by simp
  from Cons.IH [OF k1(3,4) _ this] Cons.prems(3,5) n obtain k2 ns2 where
    k2: "for_each (dict_callback al i) cs k1 = Some k2" "same_rest k1 k2"
      "rehash_list k2 (tb(i := s)) ns2" "tab_counts k2 (tb(i := s)) leak" unfolding fun_upd_upd by metis
  have "for_each (dict_callback al i) (c # cs) kvs = Some k2" using k1(1) k2(1) by simp
  with k2(3,4) same_rest_trans [OF k1(2) k2(2)] show ?case by blast
qed

subsection \<open>The invariant of a store\<close>

definition dtabs :: "('k, 'v) kvstore \<Rightarrow> nat \<Rightarrow> nat \<times> nat option" where
  "dtabs kvs i = (case dicts kvs ! i of None \<Rightarrow> (0, None) | Some d \<Rightarrow> tabs d)"

definition dsize :: "('k, 'v) kvstore \<Rightarrow> nat \<Rightarrow> nat" where
  "dsize kvs i = (case dicts kvs ! i of None \<Rightarrow> 0 | Some d \<Rightarrow> dictSize d)"

definition kv_total :: "('k, 'v) kvstore \<Rightarrow> nat" where
  "kv_total kvs = sum (dsize kvs) {..<num_dicts kvs}"

definition kv_dict_ok :: "'k dict_env \<Rightarrow> ('k, 'v) dict \<Rightarrow> bool" where
  "kv_dict_ok env d \<longleftrightarrow> dict_wf env d \<and> type_calls d = [] \<and> pauseAutoResize d \<le> 0"

definition kv_shape :: "'k dict_env \<Rightarrow> ('k, 'v) kvstore \<Rightarrow> bool" where
  "kv_shape env kvs \<longleftrightarrow> num_dicts_bits kvs \<le> 16 \<and> num_dicts kvs = 2 ^ num_dicts_bits kvs
     \<and> length (dicts kvs) = num_dicts kvs \<and> resize_cursor kvs < num_dicts kvs
     \<and> (\<forall>d. Some d \<in> set (dicts kvs) \<longrightarrow> kv_dict_ok env d)
     \<and> allocated_dicts kvs = int (card {i. i < num_dicts kvs \<and> dicts kvs ! i \<noteq> None})"

text \<open>The counters of keys, for the sizes \<open>f\<close> of the dictionaries.\<close>

definition key_counts :: "('k, 'v) kvstore \<Rightarrow> (nat \<Rightarrow> nat) \<Rightarrow> bool" where
  "key_counts kvs f \<longleftrightarrow> key_count kvs = of_nat (sum f {..<num_dicts kvs}) \<and> sum f {..<num_dicts kvs} < 2 ^ 64
     \<and> non_empty_dicts kvs = int (card {i. i < num_dicts kvs \<and> f i \<noteq> 0})
     \<and> (if num_dicts kvs = 1 then dict_size_index kvs = [] else fenwick (num_dicts kvs) f (dict_size_index kvs))"

definition kv_base :: "'k dict_env \<Rightarrow> ('k, 'v) kvstore \<Rightarrow> bool" where
  "kv_base env kvs \<longleftrightarrow> kv_shape env kvs \<and> (\<exists>ns. rehash_list kvs (dtabs kvs) ns)
     \<and> (\<exists>leak. tab_counts kvs (dtabs kvs) leak \<and> (flags kvs AND KVSTORE_FREE_EMPTY_DICTS = 0 \<longrightarrow> leak = 0))"

definition kv_inv :: "'k dict_env \<Rightarrow> ('k, 'v) kvstore \<Rightarrow> bool" where
  "kv_inv env kvs \<longleftrightarrow> kv_base env kvs \<and> key_counts kvs (dsize kvs)"

text \<open>What the store holds: a key of a dictionary and its value, \<open>None\<close> until it is set.\<close>

definition kv_map :: "('k, 'v) kvstore \<Rightarrow> nat \<Rightarrow> 'k \<rightharpoonup> 'v option" where
  "kv_map kvs i = (if i < length (dicts kvs)
     then (case dicts kvs ! i of None \<Rightarrow> Map.empty | Some d \<Rightarrow> dict_map d) else Map.empty)"

lemma kv_shape_dict: "kv_shape env kvs \<Longrightarrow> i < num_dicts kvs \<Longrightarrow> dicts kvs ! i = Some d \<Longrightarrow> kv_dict_ok env d"
  unfolding kv_shape_def by (metis nth_mem)

lemma dictSize_calls [simp]: "dictSize (d\<lparr>type_calls := cs\<rparr>) = dictSize d"
  by (simp add: dictSize_def)

lemma dict_wf_calls [simp]: "dict_wf env (d\<lparr>type_calls := cs\<rparr>) = dict_wf env d"
  by (simp add: dict_wf_def entries_def rehash_ok_def)

lemma tabs_calls [simp]: "tabs (d\<lparr>type_calls := cs\<rparr>) = tabs d"
  by (simp add: tabs_def dictIsRehashing_def)

lemma dict_map_calls [simp]: "dict_map (d\<lparr>type_calls := cs\<rparr>) = dict_map d"
  by (simp add: dict_map_def entries_def)

lemma dictGetEntry_calls [simp]: "dictGetEntry (d\<lparr>type_calls := cs\<rparr>) r = dictGetEntry d r"
  by (cases r) (simp add: dictGetEntry_def get_ht_def)

lemma dtabs_put: "length (dicts kvs) = num_dicts kvs \<Longrightarrow> i < num_dicts kvs \<Longrightarrow>
    dtabs (kvs\<lparr>dicts := (dicts kvs)[i := Some d]\<rparr>) = (dtabs kvs)(i := tabs d)"
  by (auto simp: dtabs_def fun_eq_iff nth_list_update)

lemma dsize_put: "length (dicts kvs) = num_dicts kvs \<Longrightarrow> i < num_dicts kvs \<Longrightarrow>
    dsize (kvs\<lparr>dicts := (dicts kvs)[i := Some d]\<rparr>) = (dsize kvs)(i := dictSize d)"
  by (auto simp: dsize_def fun_eq_iff nth_list_update)

definition same_keys :: "('k, 'v) kvstore \<Rightarrow> ('k, 'v) kvstore \<Rightarrow> bool" where
  "same_keys kvs kvs' \<longleftrightarrow> flags kvs' = flags kvs \<and> num_dicts kvs' = num_dicts kvs
     \<and> num_dicts_bits kvs' = num_dicts_bits kvs \<and> resize_cursor kvs' = resize_cursor kvs
     \<and> non_empty_dicts kvs' = non_empty_dicts kvs \<and> key_count kvs' = key_count kvs
     \<and> dict_size_index kvs' = dict_size_index kvs"

lemma same_keys_counts: "same_keys kvs kvs' \<Longrightarrow> key_counts kvs' f = key_counts kvs f"
  by (simp add: same_keys_def key_counts_def)

lemma kv_base_len: "kv_base env kvs \<Longrightarrow> length (dicts kvs) = num_dicts kvs"
  by (simp add: kv_base_def kv_shape_def)

lemma kv_base_dict: "kv_base env kvs \<Longrightarrow> i < num_dicts kvs \<Longrightarrow> dicts kvs ! i = Some d \<Longrightarrow> kv_dict_ok env d"
  using kv_shape_dict by (auto simp: kv_base_def)

lemma kv_shape_put:
  assumes "kv_shape env kvs" "kv_dict_ok env d" "dicts kvs ! i \<noteq> None" "i < num_dicts kvs"
    "dicts kvs' = (dicts kvs)[i := Some d]" "num_dicts kvs' = num_dicts kvs" "num_dicts_bits kvs' = num_dicts_bits kvs"
    "resize_cursor kvs' = resize_cursor kvs" "allocated_dicts kvs' = allocated_dicts kvs"
  shows "kv_shape env kvs'"
proof -
  have "i < length (dicts kvs)" using assms(1,4) by (simp add: kv_shape_def)
  then have "(dicts kvs)[i := Some d] ! j \<noteq> None \<longleftrightarrow> dicts kvs ! j \<noteq> None" for j
    using assms(3) by (cases "j = i") simp_all
  then have "{j. j < num_dicts kvs \<and> (dicts kvs)[i := Some d] ! j \<noteq> None} = {j. j < num_dicts kvs \<and> dicts kvs ! j \<noteq> None}"
    by blast
  then show ?thesis
    using assms by (auto simp: kv_shape_def dest!: set_update_subset_insert [THEN subsetD])
qed

lemma put_dict_base:
  assumes kv: "kv_base env kvs" and al: "alloc_upto N al" "num_dicts kvs \<le> N"
    and i: "i < num_dicts kvs" "dicts kvs ! i = Some d"
    and d': "calls_step d d'" "dict_wf env d'" "pauseAutoResize d' \<le> 0"
  shows "\<exists>kvs'. put_dict al kvs i d' = Some kvs' \<and> kv_base env kvs' \<and> same_keys kvs kvs'
    \<and> dicts kvs' = (dicts kvs)[i := Some (d'\<lparr>type_calls := []\<rparr>)]"
proof -
  from kv obtain ns leak where base: "kv_shape env kvs" "rehash_list kvs (dtabs kvs) ns" "tab_counts kvs (dtabs kvs) leak"
    "flags kvs AND KVSTORE_FREE_EMPTY_DICTS = 0 \<longrightarrow> leak = 0" unfolding kv_base_def by blast
  have "type_calls d = []" using kv_shape_dict [OF base(1) i] by (simp add: kv_dict_ok_def)
  then have re: "replay (type_calls d') (dtabs kvs i) = Some (tabs d')"
    using d'(1) i(2) by (auto simp: calls_step_def dtabs_def)
  from dict_callbacks_track [OF al base(2,3) i(1) re] obtain k1 ns1 where
    k1: "for_each (dict_callback al i) (type_calls d') kvs = Some k1" "same_rest kvs k1"
      "rehash_list k1 ((dtabs kvs)(i := tabs d')) ns1" "tab_counts k1 ((dtabs kvs)(i := tabs d')) leak" by blast
  let ?d = "d'\<lparr>type_calls := []\<rparr>"
  let ?k = "k1\<lparr>dicts := (dicts k1)[i := Some ?d]\<rparr>"
  have f: "dicts k1 = dicts kvs" "num_dicts k1 = num_dicts kvs" "length (dicts kvs) = num_dicts kvs"
    using k1(2) kv_base_len [OF kv] by (simp_all add: same_rest_def)
  have t: "dtabs ?k = (dtabs kvs)(i := tabs d')"
    using dtabs_put [of k1 i ?d] f i(1) by (simp add: dtabs_def [abs_def])
  have "kv_shape env ?k"
    by (rule kv_shape_put [OF base(1), of ?d i])
       (use d' i k1(2) in \<open>simp_all add: kv_dict_ok_def same_rest_def\<close>)
  moreover have "rehash_list ?k (dtabs ?k) ns1" "tab_counts ?k (dtabs ?k) leak"
    using k1(3,4) unfolding t by (simp_all add: rehash_list_def tab_counts_def)
  ultimately have "kv_base env ?k" using base(4) k1(2) by (auto simp: kv_base_def same_rest_def)
  moreover have "same_keys kvs ?k" using k1(2) by (simp add: same_rest_def same_keys_def)
  ultimately show ?thesis using k1(1) f by (simp add: put_dict_def)
qed

lemma kv_map_put: "length (dicts kvs) = num_dicts kvs \<Longrightarrow> i < num_dicts kvs \<Longrightarrow>
    dicts kvs' = (dicts kvs)[i := Some (d\<lparr>type_calls := cs\<rparr>)] \<Longrightarrow> kv_map kvs' = (kv_map kvs)(i := dict_map d)"
  by (auto simp: kv_map_def fun_eq_iff nth_list_update)

lemma dsize_put': "length (dicts kvs) = num_dicts kvs \<Longrightarrow> i < num_dicts kvs \<Longrightarrow>
    dicts kvs' = (dicts kvs)[i := Some (d\<lparr>type_calls := cs\<rparr>)] \<Longrightarrow> dsize kvs' = (dsize kvs)(i := dictSize d)"
  by (auto simp: dsize_def fun_eq_iff nth_list_update)

text \<open>An operation that keeps the number of keys of the dictionary keeps the invariant.\<close>

lemma put_dict_inv:
  assumes kv: "kv_inv env kvs" and al: "alloc_upto N al" "num_dicts kvs \<le> N"
    and i: "i < num_dicts kvs" "dicts kvs ! i = Some d"
    and d': "calls_step d d'" "dict_wf env d'" "pauseAutoResize d' \<le> 0" "dictSize d' = dictSize d"
  shows "\<exists>kvs'. put_dict al kvs i d' = Some kvs' \<and> kv_inv env kvs' \<and> same_keys kvs kvs'
    \<and> dicts kvs' = (dicts kvs)[i := Some (d'\<lparr>type_calls := []\<rparr>)] \<and> dsize kvs' = dsize kvs"
proof -
  have b: "kv_base env kvs" using kv by (simp add: kv_inv_def)
  from put_dict_base [OF b al i d'(1-3)] obtain kvs' where
    k: "put_dict al kvs i d' = Some kvs'" "kv_base env kvs'" "same_keys kvs kvs'"
      "dicts kvs' = (dicts kvs)[i := Some (d'\<lparr>type_calls := []\<rparr>)]" by blast
  have "dsize kvs' = (dsize kvs)(i := dictSize d)" using dsize_put' [OF kv_base_len [OF b] i(1) k(4)] d'(4) by simp
  also have "\<dots> = dsize kvs" using i(2) by (intro ext) (simp add: dsize_def)
  finally show ?thesis using k kv by (simp add: kv_inv_def same_keys_counts)
qed

subsection \<open>Counting keys\<close>

lemma card_upd:
  assumes "i < (n :: nat)"
  shows "int (card {j. j < n \<and> (f(i := v)) j \<noteq> (0 :: nat)})
    = int (card {j. j < n \<and> f j \<noteq> 0}) + (if v \<noteq> 0 then 1 else 0) - (if f i \<noteq> 0 then 1 else 0)"
proof -
  let ?A = "{j. j < n \<and> j \<noteq> i \<and> f j \<noteq> 0}"
  have "{j. j < n \<and> (f(i := v)) j \<noteq> 0} = (if v \<noteq> 0 then insert i ?A else ?A)"
    "{j. j < n \<and> f j \<noteq> 0} = (if f i \<noteq> 0 then insert i ?A else ?A)" using assms by auto
  moreover have "finite ?A" "i \<notin> ?A" by auto
  ultimately show ?thesis by simp
qed

lemma cumulativeKeyCountAdd_inv:
  assumes kv: "kv_base env kvs" and kc: "key_counts kvs f" and i: "i < num_dicts kvs" "dicts kvs ! i = Some d"
    and f: "dsize kvs = f(i := dictSize d)" and delta: "int (dictSize d) = int (f i) + delta" "delta = 1 \<or> delta = -1"
    and room: "delta = 1 \<Longrightarrow> sum f {..<num_dicts kvs} < 2 ^ 64 - 1"
  shows "\<exists>kvs'. cumulativeKeyCountAdd kvs i delta = Some kvs' \<and> kv_inv env kvs' \<and> dicts kvs' = dicts kvs
    \<and> num_dicts kvs' = num_dicts kvs \<and> flags kvs' = flags kvs"
proof -
  let ?n = "num_dicts kvs" and ?v = "dictSize d"
  let ?ne = "if ?v = 1 \<and> delta > 0 then 1 else if ?v = 0 then -1 else (0 :: int)"
  have sum: "int (sum (f(i := ?v)) {..<?n}) = int (sum f {..<?n}) + delta"
  proof -
    have "sum (f(i := ?v)) {..<?n} + f i = sum f {..<?n} + ?v" using i(1) by (intro sum_fun_upd) auto
    then have "int (sum (f(i := ?v)) {..<?n}) + int (f i) = int (sum f {..<?n}) + int ?v" by (metis of_nat_add)
    with delta(1) show ?thesis by linarith
  qed
  have kc': "key_count kvs + of_int delta = of_nat (sum (f(i := ?v)) {..<?n})"
  proof -
    have "(of_int (int (sum (f(i := ?v)) {..<?n})) :: 64 word) = of_int (int (sum f {..<?n}) + delta)"
      by (simp only: sum)
    then show ?thesis using kc by (simp only: key_counts_def of_int_of_nat_eq of_int_add)
  qed
  have "sum f {..<?n} < 2 ^ 64" using kc by (simp add: key_counts_def)
  with sum room delta(2) have lt: "sum (f(i := ?v)) {..<?n} < 2 ^ 64" by linarith
  have ne: "non_empty_dicts kvs + ?ne = int (card {j. j < ?n \<and> (f(i := ?v)) j \<noteq> 0})"
    using card_upd [OF i(1), of f ?v] kc delta by (auto simp: key_counts_def)
  have get: "kvstoreGetDict (kvs\<lparr>key_count := c\<rparr>) i = Some (Some d)" for c
    using i kv_base_len [OF kv] by (simp add: kvstoreGetDict_def)
  have st: "kv_base env (kvs\<lparr>key_count := a, non_empty_dicts := b, dict_size_index := c\<rparr>)"
    "dsize (kvs\<lparr>key_count := a, non_empty_dicts := b, dict_size_index := c\<rparr>) = f(i := ?v)" for a b c
  proof -
    have t: "dtabs (kvs\<lparr>key_count := a, non_empty_dicts := b, dict_size_index := c\<rparr>) = dtabs kvs"
      by (simp add: dtabs_def fun_eq_iff)
    from kv obtain ns leak where k: "kv_shape env kvs" "rehash_list kvs (dtabs kvs) ns" "tab_counts kvs (dtabs kvs) leak"
      "flags kvs AND KVSTORE_FREE_EMPTY_DICTS = 0 \<longrightarrow> leak = 0" unfolding kv_base_def by blast
    show "kv_base env (kvs\<lparr>key_count := a, non_empty_dicts := b, dict_size_index := c\<rparr>)"
      unfolding kv_base_def t
    proof (intro conjI exI)
      show "kv_shape env (kvs\<lparr>key_count := a, non_empty_dicts := b, dict_size_index := c\<rparr>)"
        using k(1) by (simp add: kv_shape_def)
      show "rehash_list (kvs\<lparr>key_count := a, non_empty_dicts := b, dict_size_index := c\<rparr>) (dtabs kvs) ns"
        using k(2) by (simp add: rehash_list_def)
      show "tab_counts (kvs\<lparr>key_count := a, non_empty_dicts := b, dict_size_index := c\<rparr>) (dtabs kvs) leak"
        using k(3) by (simp add: tab_counts_def)
    qed (use k(4) in simp)
    show "dsize (kvs\<lparr>key_count := a, non_empty_dicts := b, dict_size_index := c\<rparr>) = f(i := ?v)"
      using f by (simp add: dsize_def fun_eq_iff)
  qed
  show ?thesis
  proof (cases "?n = 1")
    case True
    let ?k = "kvs\<lparr>key_count := key_count kvs + of_int delta, non_empty_dicts := non_empty_dicts kvs + ?ne,
      dict_size_index := dict_size_index kvs\<rparr>"
    have "cumulativeKeyCountAdd kvs i delta = Some ?k"
      using get True by (auto simp: cumulativeKeyCountAdd_def Let_def)
    moreover have "kv_inv env ?k"
      unfolding kv_inv_def st(2) using st(1) kc True ne kc' lt by (simp add: key_counts_def)
    ultimately show ?thesis by simp
  next
    case False
    have "fenwick ?n f (dict_size_index kvs)" "sum f {..<?n} < 2 ^ 64" using kc False by (simp_all add: key_counts_def)
    from cumulativeAdd_correct [OF this(1) i(1) delta(1) this(2)] obtain t where
      t: "cumulativeAdd_loop ?n delta (dict_size_index kvs) (Suc i) = Some t" "fenwick ?n (f(i := ?v)) t" by blast
    let ?k = "kvs\<lparr>key_count := key_count kvs + of_int delta, non_empty_dicts := non_empty_dicts kvs + ?ne,
      dict_size_index := t\<rparr>"
    have "cumulativeKeyCountAdd kvs i delta = Some ?k"
      using get False t(1) by (auto simp: cumulativeKeyCountAdd_def Let_def)
    moreover have "kv_inv env ?k"
      unfolding kv_inv_def st(2) using st(1) False ne kc' lt t(2) by (simp add: key_counts_def)
    ultimately show ?thesis by simp
  qed
qed

subsection \<open>Creating and freeing dictionaries\<close>

lemma card_alloc_upd:
  assumes "i < n" "length ds = n"
  shows "int (card {j. j < n \<and> ds[i := x] ! j \<noteq> None})
    = int (card {j. j < n \<and> ds ! j \<noteq> None}) + (if x \<noteq> None then 1 else 0) - (if ds ! i \<noteq> None then 1 else 0)"
proof -
  let ?A = "{j. j < n \<and> j \<noteq> i \<and> ds ! j \<noteq> None}"
  have "{j. j < n \<and> ds[i := x] ! j \<noteq> None} = (if x \<noteq> None then insert i ?A else ?A)"
    "{j. j < n \<and> ds ! j \<noteq> None} = (if ds ! i \<noteq> None then insert i ?A else ?A)"
    using assms by (auto simp: nth_list_update)
  moreover have "finite ?A" "i \<notin> ?A" by auto
  ultimately show ?thesis by simp
qed

lemma kv_shape_set:
  assumes "kv_shape env kvs" "i < num_dicts kvs" "\<And>d. x = Some d \<Longrightarrow> kv_dict_ok env d"
    "dicts kvs' = (dicts kvs)[i := x]" "num_dicts kvs' = num_dicts kvs" "num_dicts_bits kvs' = num_dicts_bits kvs"
    "resize_cursor kvs' = resize_cursor kvs"
    "allocated_dicts kvs' = allocated_dicts kvs + (if x \<noteq> None then 1 else 0) - (if dicts kvs ! i \<noteq> None then 1 else 0)"
  shows "kv_shape env kvs'"
  using assms card_alloc_upd [of i "num_dicts kvs" "dicts kvs" x]
  by (auto simp: kv_shape_def dest!: set_update_subset_insert [THEN subsetD])

lemma kv_dict_ok_create: "kv_dict_ok env dictCreate"
  using dictCreate_wf(1) by (simp add: kv_dict_ok_def) (simp add: dictCreate_def)

lemma tabs_create: "tabs dictCreate = (0, None)" "dictSize dictCreate = 0"
  by (simp_all add: tabs_def dictCreate_def dictIsRehashing_def dictSize_def DICTHT_SIZE_def)

lemma createDictIfNeeded_inv:
  assumes kv: "kv_inv env kvs" and i: "i < num_dicts kvs"
  shows "\<exists>kvs' d. createDictIfNeeded i kvs = Some kvs' \<and> kv_inv env kvs' \<and> dicts kvs' ! i = Some d
    \<and> same_keys kvs kvs' \<and> dsize kvs' = dsize kvs \<and> kv_map kvs' = kv_map kvs"
proof -
  have b: "kv_base env kvs" "length (dicts kvs) = num_dicts kvs" "key_counts kvs (dsize kvs)"
    using kv kv_base_len by (auto simp: kv_inv_def)
  show ?thesis
  proof (cases "dicts kvs ! i")
    case (Some d)
    with kv i b show ?thesis by (auto simp: createDictIfNeeded_def kvstoreGetDict_def same_keys_def)
  next
    case None
    let ?k = "kvs\<lparr>dicts := (dicts kvs)[i := Some dictCreate], dict_meta := (dict_meta kvs)[i := 0],
      allocated_dicts := allocated_dicts kvs + 1\<rparr>"
    have eq: "dtabs ?k = dtabs kvs" "dsize ?k = dsize kvs" "kv_map ?k = kv_map kvs"
      using None i b(2) dictCreate_wf(2)
      by (auto simp: dtabs_def dsize_def kv_map_def fun_eq_iff nth_list_update tabs_create)
    from b(1) obtain ns leak where base: "kv_shape env kvs" "rehash_list kvs (dtabs kvs) ns"
      "tab_counts kvs (dtabs kvs) leak" "flags kvs AND KVSTORE_FREE_EMPTY_DICTS = 0 \<longrightarrow> leak = 0"
      unfolding kv_base_def by blast
    have "dict_meta kvs ! i = 0" using base(2) i None by (simp add: rehash_list_def dtabs_def)
    then have "(dict_meta kvs)[i := 0] = dict_meta kvs" by (metis list_update_id)
    then have "rehash_list ?k (dtabs kvs) ns" "tab_counts ?k (dtabs kvs) leak"
      using base(2,3) by (simp_all add: rehash_list_def tab_counts_def)
    moreover have "kv_shape env ?k"
      by (rule kv_shape_set [OF base(1) i, of "Some dictCreate"]) (simp_all add: None kv_dict_ok_create)
    ultimately have "kv_base env ?k" using base(4) unfolding kv_base_def eq by auto
    moreover have "same_keys kvs ?k" by (simp add: same_keys_def)
    ultimately show ?thesis using None i b eq
      by (auto simp: createDictIfNeeded_def kvstoreGetDict_def kv_inv_def same_keys_counts)
  qed
qed

lemma freeDictIfNeeded_inv:
  assumes kv: "kv_inv env kvs" and al: "alloc_upto N al" "num_dicts kvs \<le> N" and i: "i < num_dicts kvs"
  shows "\<exists>kvs'. freeDictIfNeeded al kvs i = Some kvs' \<and> kv_inv env kvs' \<and> same_keys kvs kvs'
    \<and> dsize kvs' = dsize kvs \<and> kv_map kvs' = kv_map kvs"
proof -
  have b: "kv_base env kvs" "length (dicts kvs) = num_dicts kvs" "key_counts kvs (dsize kvs)"
    using kv kv_base_len by (auto simp: kv_inv_def)
  from b(1) obtain ns leak where base: "kv_shape env kvs" "rehash_list kvs (dtabs kvs) ns"
    "tab_counts kvs (dtabs kvs) leak" unfolding kv_base_def by blast
  show ?thesis
  proof (cases "flags kvs AND KVSTORE_FREE_EMPTY_DICTS = 0 \<or> dicts kvs ! i = None
      \<or> (\<exists>d. dicts kvs ! i = Some d \<and> (dictSize d \<noteq> 0 \<or> dictIsRehashingPaused d))")
    case True
    then have "freeDictIfNeeded al kvs i = Some kvs"
      using i b(2) by (auto simp: freeDictIfNeeded_def kvstoreGetDict_def)
    with kv show ?thesis by (simp add: same_keys_def)
  next
    case False
    then obtain d where d: "dicts kvs ! i = Some d" "dictSize d = 0" "\<not> dictIsRehashingPaused d"
      "flags kvs AND KVSTORE_FREE_EMPTY_DICTS \<noteq> 0" by auto
    note ok = kv_shape_dict [OF base(1) i d(1)]
    have calls: "fst (dictRelease d) = (if dictIsRehashing d then [RehashingCompleted (fst (tabs d)) (second (tabs d))] else [])"
      using ok by (auto simp: dictRelease_def Let_def rehashingCompleted_def dictClear'_def set_ht_def
        kv_dict_ok_def tabs_def second_def)
    define s where "s = (if dictIsRehashing d then (second (tabs d), None) else tabs d)"
    have "replay (fst (dictRelease d)) (dtabs kvs i) = Some s"
      unfolding calls dtabs_def d(1) s_def by (auto simp: tabs_def second_def)
    from dict_callbacks_track [OF al base(2,3) i this] obtain k1 ns1 where
      k1: "for_each (dict_callback al i) (fst (dictRelease d)) kvs = Some k1" "same_rest kvs k1"
        "rehash_list k1 ((dtabs kvs)(i := s)) ns1" "tab_counts k1 ((dtabs kvs)(i := s)) leak" by blast
    let ?k = "k1\<lparr>dicts := (dicts k1)[i := None], allocated_dicts := allocated_dicts k1 - 1\<rparr>"
    have f: "dicts k1 = dicts kvs" "num_dicts k1 = num_dicts kvs" using k1(2) by (simp_all add: same_rest_def)
    have sn: "snd s = None" by (simp add: s_def tabs_def)
    have t: "dtabs ?k = (dtabs kvs)(i := (0, None))"
      using f i b(2) by (auto simp: dtabs_def fun_eq_iff nth_list_update)
    have "dict_map d = Map.empty"
      using dictSize_0_map [of env d] ok d(2) by (auto simp: kv_dict_ok_def)
    then have eq: "dsize ?k = dsize kvs" "kv_map ?k = kv_map kvs"
      using f i b(2) d(1,2) by (auto simp: dsize_def kv_map_def fun_eq_iff nth_list_update)
    have "rehash_list ?k (dtabs ?k) ns1"
      using k1(3) sn unfolding t by (auto simp: rehash_list_def split: if_splits)
    moreover have "tab_counts ?k (dtabs ?k) (leak + fst s)"
    proof -
      have "(\<Sum>j < num_dicts kvs. fst (((dtabs kvs)(i := s)) j) + second (((dtabs kvs)(i := s)) j))
          = (\<Sum>j < num_dicts kvs. fst (((dtabs kvs)(i := (0, None))) j) + second (((dtabs kvs)(i := (0, None))) j)) + fst s"
        by (rule sum_clear [OF i]) (use sn in \<open>simp_all add: second_def\<close>)
      moreover have "(\<Sum>j < num_dicts kvs. busy (((dtabs kvs)(i := s)) j))
          = (\<Sum>j < num_dicts kvs. busy (((dtabs kvs)(i := (0, None))) j))"
        by (rule sum.cong) (use sn in \<open>simp_all add: busy_def\<close>)
      moreover have "num_dicts ?k = num_dicts kvs" "bucket_count ?k = bucket_count k1"
        "overhead_hashtable_lut ?k = overhead_hashtable_lut k1"
        "overhead_hashtable_rehashing ?k = overhead_hashtable_rehashing k1" using f(2) by simp_all
      ultimately show ?thesis using k1(4) unfolding tab_counts_def t f(2) by (simp only: add_ac)
    qed
    moreover have "kv_shape env ?k"
      by (rule kv_shape_set [OF base(1) i, of None]) (use f k1(2) d(1) in \<open>simp_all add: same_rest_def\<close>)
    ultimately have "kv_base env ?k" using d(4) k1(2) unfolding kv_base_def by (auto simp: same_rest_def)
    moreover have "same_keys kvs ?k" using k1(2) by (simp add: same_rest_def same_keys_def)
    moreover have "freeDictIfNeeded al kvs i = Some ?k"
      using d i b(2) k1(1) by (simp add: freeDictIfNeeded_def kvstoreGetDict_def)
    ultimately show ?thesis using b(3) eq by (auto simp: kv_inv_def same_keys_counts)
  qed
qed

end
