(* ===== verification/Kvstore_Map.thy ===== *)
theory Kvstore_Map
  imports Kvstore_Ops
begin

section \<open>Key-value stores: operations\<close>

text \<open>
  What every operation of \<^verbatim>\<open>kvstore.c\<close> does to the contents of a store, and that it keeps the
  invariant.  The only assumption on the environment is an allocator that hands out a node of the
  list of rehashing dictionaries as long as fewer than 65536 nodes are in use, the largest number of
  dictionaries a store can have.
\<close>

definition kv_alloc :: "nat al_env \<Rightarrow> bool" where
  "kv_alloc al \<longleftrightarrow> alloc_upto 65536 al"

definition same_conf :: "('k, 'v) kvstore \<Rightarrow> ('k, 'v) kvstore \<Rightarrow> bool" where
  "same_conf kvs kvs' \<longleftrightarrow> flags kvs' = flags kvs \<and> num_dicts kvs' = num_dicts kvs \<and> num_dicts_bits kvs' = num_dicts_bits kvs"

lemma same_conf_refl [simp]: "same_conf kvs kvs"
  by (simp add: same_conf_def)

lemma same_conf_trans: "same_conf kvs kvs' \<Longrightarrow> same_conf kvs' kvs'' \<Longrightarrow> same_conf kvs kvs''"
  by (simp add: same_conf_def)

lemma same_keys_conf: "same_keys kvs kvs' \<Longrightarrow> same_conf kvs kvs'"
  by (simp add: same_keys_def same_conf_def)

text \<open>A step that changes the layout and not the contents.\<close>

definition kv_step :: "'k dict_env \<Rightarrow> ('k, 'v) kvstore \<Rightarrow> ('k, 'v) kvstore \<Rightarrow> bool" where
  "kv_step env kvs kvs' \<longleftrightarrow> kv_inv env kvs' \<and> same_conf kvs kvs' \<and> kv_map kvs' = kv_map kvs"

lemma kv_step_refl: "kv_inv env kvs \<Longrightarrow> kv_step env kvs kvs"
  by (simp add: kv_step_def)

lemma kv_step_trans: "kv_step env kvs kvs' \<Longrightarrow> kv_step env kvs' kvs'' \<Longrightarrow> kv_step env kvs kvs''"
  using same_conf_trans by (auto simp: kv_step_def)

lemma kv_inv_base: "kv_inv env kvs \<Longrightarrow> kv_base env kvs"
  by (simp add: kv_inv_def)

lemma kv_inv_len: "kv_inv env kvs \<Longrightarrow> length (dicts kvs) = num_dicts kvs"
  by (rule kv_base_len [OF kv_inv_base])

lemma kv_inv_dict: "kv_inv env kvs \<Longrightarrow> i < num_dicts kvs \<Longrightarrow> dicts kvs ! i = Some d \<Longrightarrow> kv_dict_ok env d"
  by (rule kv_base_dict [OF kv_inv_base])

lemma kv_inv_max: assumes "kv_inv env kvs" shows "num_dicts kvs \<le> 65536"
proof -
  have "num_dicts_bits kvs \<le> 16" "num_dicts kvs = 2 ^ num_dicts_bits kvs"
    using assms by (simp_all add: kv_inv_def kv_base_def kv_shape_def)
  moreover from this(1) have "(2::nat) ^ num_dicts_bits kvs \<le> 2 ^ 16" by (rule power_increasing) simp
  ultimately show ?thesis by simp
qed

lemma kv_inv_get: "kv_inv env kvs \<Longrightarrow> i < num_dicts kvs \<Longrightarrow> kvstoreGetDict kvs i = Some (dicts kvs ! i)"
  by (simp add: kvstoreGetDict_def kv_inv_len)

lemma kv_map_dict: "kv_inv env kvs \<Longrightarrow> i < num_dicts kvs \<Longrightarrow>
    kv_map kvs i = (case dicts kvs ! i of None \<Rightarrow> Map.empty | Some d \<Rightarrow> dict_map d)"
  by (simp add: kv_map_def kv_inv_len)

lemma dsize_card: "kv_inv env kvs \<Longrightarrow> i < num_dicts kvs \<Longrightarrow> dsize kvs i = card (dom (kv_map kvs i))"
  using kv_inv_dict [of env kvs i] dictSize_card
  by (auto simp: dsize_def kv_map_dict kv_dict_ok_def split: option.splits)

lemma kv_total_map: "kv_inv env kvs \<Longrightarrow> kv_total kvs = (\<Sum>i < num_dicts kvs. card (dom (kv_map kvs i)))"
  by (simp add: kv_total_def dsize_card)

lemma kv_step_total: "kv_inv env kvs \<Longrightarrow> kv_step env kvs kvs' \<Longrightarrow> kv_total kvs' = kv_total kvs"
  using kv_total_map [of env kvs] kv_total_map [of env kvs'] by (simp add: kv_step_def same_conf_def)

subsection \<open>Operations that keep the contents\<close>

lemma put_dict_step:
  assumes kv: "kv_inv env kvs" and al: "kv_alloc al" and i: "i < num_dicts kvs" "dicts kvs ! i = Some d"
    and d': "dict_step env d d'"
  shows "\<exists>kvs'. put_dict al kvs i d' = Some kvs' \<and> kv_step env kvs kvs' \<and> same_keys kvs kvs'
    \<and> dicts kvs' ! i = Some (d'\<lparr>type_calls := []\<rparr>)"
proof -
  have ok: "kv_dict_ok env d" by (rule kv_inv_dict [OF kv i])
  then have "dict_wf env d" by (simp add: kv_dict_ok_def)
  note sz = dict_step_size [OF this d'] and mp = dict_step_map [OF this d']
  have "calls_step d d'" "dict_wf env d'" "pauseAutoResize d' \<le> 0"
    using d' ok by (simp_all add: dict_step_def kv_dict_ok_def)
  from put_dict_inv [OF kv al [unfolded kv_alloc_def] kv_inv_max [OF kv] i this sz] obtain kvs' where
    k: "put_dict al kvs i d' = Some kvs'" "kv_inv env kvs'" "same_keys kvs kvs'"
      "dicts kvs' = (dicts kvs)[i := Some (d'\<lparr>type_calls := []\<rparr>)]" by blast
  have "kv_map kvs' = (kv_map kvs)(i := dict_map d')" by (rule kv_map_put [OF kv_inv_len [OF kv] i(1) k(4)])
  also have "\<dots> = kv_map kvs" using i(2) mp kv_map_dict [OF kv i(1)] by auto
  finally show ?thesis using k i(1) kv_inv_len [OF kv] same_keys_conf by (auto simp: kv_step_def)
qed

lemma createDictIfNeeded_step:
  assumes "kv_inv env kvs" "i < num_dicts kvs"
  shows "\<exists>kvs' d. createDictIfNeeded i kvs = Some kvs' \<and> kv_step env kvs kvs' \<and> dicts kvs' ! i = Some d"
  using createDictIfNeeded_inv [OF assms] same_keys_conf by (force simp: kv_step_def)

lemma freeDictIfNeeded_step:
  assumes "kv_inv env kvs" "kv_alloc al" "i < num_dicts kvs"
  shows "\<exists>kvs'. freeDictIfNeeded al kvs i = Some kvs' \<and> kv_step env kvs kvs'"
  using freeDictIfNeeded_inv [OF assms(1) _ kv_inv_max [OF assms(1)] assms(3)] assms(2) same_keys_conf
  by (fastforce simp: kv_step_def kv_alloc_def)

text \<open>The entry at a reference of a dictionary of the store.\<close>

definition kv_entry :: "('k, 'v) kvstore \<Rightarrow> nat \<Rightarrow> entry_ref \<Rightarrow> ('k \<times> 'v option) option" where
  "kv_entry kvs i ref = Option.bind (dicts kvs ! i) (\<lambda>d. dictGetEntry d ref)"

lemma kvstoreDictFind_correct:
  assumes kv: "kv_inv env kvs" and al: "kv_alloc al" and i: "i < num_dicts kvs"
  shows "\<exists>kvs' r. kvstoreDictFind env al kvs i key = Some (kvs', r) \<and> kv_step env kvs kvs'
    \<and> (case r of None \<Rightarrow> kv_map kvs i key = None
       | Some ref \<Rightarrow> \<exists>v. kv_entry kvs' i ref = Some (key, v) \<and> kv_map kvs i key = Some v)"
proof (cases "dicts kvs ! i")
  case None
  then show ?thesis using kv_step_refl [OF kv] kv_inv_get [OF kv i]
    by (intro exI [of _ kvs] exI [of _ None]) (simp add: kvstoreDictFind_def kv_map_def)
next
  case (Some d)
  have "dict_wf env d" using kv_inv_dict [OF kv i Some] by (simp add: kv_dict_ok_def)
  from dictFind_correct [OF this, of key] obtain d' r where
    d': "dictFind env d key = Some (d', r)" "dict_step env d d'"
      "case r of None \<Rightarrow> dict_map d key = None
       | Some ref \<Rightarrow> \<exists>v. dictGetEntry d' ref = Some (key, v) \<and> dict_map d key = Some v" by blast
  from put_dict_step [OF kv al i Some d'(2)] obtain kvs' where
    k: "put_dict al kvs i d' = Some kvs'" "kv_step env kvs kvs'" "dicts kvs' ! i = Some (d'\<lparr>type_calls := []\<rparr>)" by blast
  have "kvstoreDictFind env al kvs i key = Some (kvs', r)"
    using kv_inv_get [OF kv i] Some d'(1) k(1) by (simp add: kvstoreDictFind_def)
  with k d'(3) Some show ?thesis
    by (intro exI [of _ kvs'] exI [of _ r]) (auto simp: kv_map_dict [OF kv i] kv_entry_def split: option.splits)
qed

lemma kvstoreDictFetchValue_correct:
  assumes kv: "kv_inv env kvs" and al: "kv_alloc al" and i: "i < num_dicts kvs"
  shows "\<exists>kvs'. kvstoreDictFetchValue env al kvs i key = Some (kvs', Option.bind (kv_map kvs i key) id)
    \<and> kv_step env kvs kvs'"
proof (cases "dicts kvs ! i")
  case None
  then show ?thesis using kv_step_refl [OF kv] kv_inv_get [OF kv i]
    by (simp add: kvstoreDictFetchValue_def kv_map_def)
next
  case (Some d)
  have "dict_wf env d" using kv_inv_dict [OF kv i Some] by (simp add: kv_dict_ok_def)
  from dictFetchValue_correct [OF this, of key] obtain d' where
    d': "dictFetchValue env d key = Some (d', Option.bind (dict_map d key) id)" "dict_step env d d'" by blast
  from put_dict_step [OF kv al i Some d'(2)] d'(1) Some kv_inv_get [OF kv i] show ?thesis
    by (auto simp: kvstoreDictFetchValue_def kv_map_dict [OF kv i])
qed

subsection \<open>Operations that change the contents\<close>

lemma put_dict_count:
  assumes kv: "kv_inv env kvs" and al: "kv_alloc al" and i: "i < num_dicts kvs" "dicts kvs ! i = Some d"
    and d': "calls_step d d'" "dict_wf env d'" "pauseAutoResize d' \<le> 0"
    and delta: "int (dictSize d') = int (dictSize d) + delta" "delta = 1 \<or> delta = -1"
    and room: "delta = 1 \<Longrightarrow> kv_total kvs < 2 ^ 64 - 1"
  shows "\<exists>kvs1 kvs2. put_dict al kvs i d' = Some kvs1 \<and> cumulativeKeyCountAdd kvs1 i delta = Some kvs2
    \<and> kv_inv env kvs2 \<and> same_conf kvs kvs2 \<and> kv_map kvs2 = (kv_map kvs)(i := dict_map d')
    \<and> dicts kvs2 ! i = Some (d'\<lparr>type_calls := []\<rparr>)"
proof -
  note len = kv_inv_len [OF kv]
  from put_dict_base [OF kv_inv_base [OF kv] al [unfolded kv_alloc_def] kv_inv_max [OF kv] i d'] obtain k1 where
    k1: "put_dict al kvs i d' = Some k1" "kv_base env k1" "same_keys kvs k1"
      "dicts k1 = (dicts kvs)[i := Some (d'\<lparr>type_calls := []\<rparr>)]" by blast
  have n: "num_dicts k1 = num_dicts kvs" using k1(3) by (simp add: same_keys_def)
  have kc: "key_counts k1 (dsize kvs)" using kv k1(3) by (simp add: kv_inv_def same_keys_counts)
  have "dsize kvs i = dictSize d" using i(2) by (simp add: dsize_def)
  then have "\<exists>k2. cumulativeKeyCountAdd k1 i delta = Some k2 \<and> kv_inv env k2 \<and> dicts k2 = dicts k1
    \<and> num_dicts k2 = num_dicts k1 \<and> flags k2 = flags k1"
    using dsize_put' [OF len i(1) k1(4)] delta room i(1) len n
    by (intro cumulativeKeyCountAdd_inv [OF k1(2) kc, where d = "d'\<lparr>type_calls := []\<rparr>"])
       (simp_all add: k1(4) kv_total_def)
  then obtain k2 where k2: "cumulativeKeyCountAdd k1 i delta = Some k2" "kv_inv env k2" "dicts k2 = dicts k1"
    "num_dicts k2 = num_dicts k1" "flags k2 = flags k1" by blast
  have "num_dicts_bits k2 = num_dicts_bits k1"
    using k2(2,4) k1(2) by (simp add: kv_inv_def kv_base_def kv_shape_def)
  then have "same_conf kvs k2" using k2(4,5) k1(3) by (simp add: same_conf_def same_keys_def)
  moreover have "kv_map k2 = (kv_map kvs)(i := dict_map d')"
    by (rule kv_map_put [OF len i(1)]) (simp add: k2(3) k1(4))
  ultimately show ?thesis using k1(1,4) k2(1,2,3) i(1) len by (intro exI [of _ k1] exI [of _ k2]) simp
qed

lemma dictSize_fresh:
  assumes "dict_wf env d" "dict_wf env d'" "dict_map d key = None" "dict_map d' = (dict_map d)(key \<mapsto> v)"
  shows "dictSize d' = Suc (dictSize d)"
proof -
  have "key \<notin> dom (dict_map d)" "finite (dom (dict_map d))" using assms(3) by (auto simp: dict_map_def finite_dom_map_of)
  then show ?thesis using assms(4) by (simp add: dictSize_card [OF assms(1)] dictSize_card [OF assms(2)])
qed

lemma dictSize_removed:
  assumes "dict_wf env d" "dict_wf env d'" "dict_map d key \<noteq> None" "dict_map d' = (dict_map d)(key := None)"
  shows "dictSize d = Suc (dictSize d')"
proof -
  have "key \<in> dom (dict_map d)" "finite (dom (dict_map d))" using assms(3) by (auto simp: dict_map_def finite_dom_map_of)
  from card.remove [OF this(2,1)] have "card (dom (dict_map d)) = Suc (card (dom (dict_map d) - {key}))" .
  then show ?thesis using assms(4) by (simp add: dictSize_card [OF assms(1)] dictSize_card [OF assms(2)])
qed

lemma kvstoreDictAddRaw_correct:
  assumes kv: "kv_inv env kvs" and al: "kv_alloc al" and i: "i < num_dicts kvs" and room: "kv_total kvs < 2 ^ 64 - 1"
  shows "\<exists>kvs' r. kvstoreDictAddRaw env al kvs i key = Some (kvs', r) \<and> kv_inv env kvs' \<and> same_conf kvs kvs'
    \<and> (case r of Inl ref \<Rightarrow> \<exists>v. kv_entry kvs' i ref = Some (key, v) \<and> kv_map kvs i key = Some v \<and> kv_map kvs' = kv_map kvs
       | Inr ref \<Rightarrow> kv_entry kvs' i ref = Some (key, None) \<and> kv_map kvs i key = None
           \<and> kv_map kvs' = (kv_map kvs)(i := (kv_map kvs i)(key \<mapsto> None)))"
proof -
  from createDictIfNeeded_step [OF kv i] obtain k0 d where
    k0: "createDictIfNeeded i kvs = Some k0" "kv_step env kvs k0" "dicts k0 ! i = Some d" by blast
  have kv0: "kv_inv env k0" "same_conf kvs k0" "kv_map k0 = kv_map kvs" "i < num_dicts k0"
    using k0(2) i by (simp_all add: kv_step_def same_conf_def)
  have ok: "dict_wf env d" "pauseAutoResize d \<le> 0"
    using kv_inv_dict [OF kv0(1,4) k0(3)] by (simp_all add: kv_dict_ok_def)
  have m: "kv_map kvs i = dict_map d" using k0(3) kv0(3) kv_map_dict [OF kv0(1,4)] by simp
  from dictAddRaw_correct [OF ok(1), of key] ok(2) obtain d' r where
    d': "dictAddRaw env d key = Some (d', r)" "dict_wf env d'" "pauseAutoResize d' = pauseAutoResize d" "calls_step d d'"
      "case r of Inl ref \<Rightarrow> \<exists>v. dictGetEntry d' ref = Some (key, v) \<and> dict_map d key = Some v \<and> dict_map d' = dict_map d
       | Inr ref \<Rightarrow> dict_map d key = None \<and> dictGetEntry d' ref = Some (key, None)
           \<and> dict_map d' = (dict_map d)(key \<mapsto> None)" by blast
  have g: "kvstoreGetDict k0 i = Some (Some d)" using kv_inv_get [OF kv0(1,4)] k0(3) by simp
  show ?thesis
  proof (cases r)
    case (Inl ref)
    with d' ok(1) have sz: "dictSize d' = dictSize d" by (auto simp: dictSize_card)
    have p: "pauseAutoResize d' \<le> 0" using d'(3) ok(2) by simp
    from put_dict_inv [OF kv0(1) al [unfolded kv_alloc_def] kv_inv_max [OF kv0(1)] kv0(4) k0(3) d'(4,2) p sz]
    obtain k1 where k1: "put_dict al k0 i d' = Some k1" "kv_inv env k1" "same_keys k0 k1"
      "dicts k1 = (dicts k0)[i := Some (d'\<lparr>type_calls := []\<rparr>)]" by blast
    have "kv_map k1 = (kv_map k0)(i := dict_map d')" by (rule kv_map_put [OF kv_inv_len [OF kv0(1)] kv0(4) k1(4)])
    then have "kv_map k1 = kv_map kvs" using Inl d'(5) m kv0(3) by auto
    moreover have "kvstoreDictAddRaw env al kvs i key = Some (k1, r)"
      using k0(1) g d'(1) k1(1) Inl by (simp add: kvstoreDictAddRaw_def)
    moreover have "same_conf kvs k1" using kv0(2) same_keys_conf [OF k1(3)] by (rule same_conf_trans)
    ultimately show ?thesis using k1(2,4) Inl d'(5) m kv0(4) kv_inv_len [OF kv0(1)]
      by (intro exI [of _ k1] exI [of _ r]) (auto simp: kv_entry_def)
  next
    case (Inr ref)
    with d'(5) have new: "dict_map d key = None" "dictGetEntry d' ref = Some (key, None)"
      "dict_map d' = (dict_map d)(key \<mapsto> None)" by simp_all
    have "int (dictSize d') = int (dictSize d) + 1" using dictSize_fresh [OF ok(1) d'(2) new(1,3)] by simp
    from put_dict_count [OF kv0(1) al kv0(4) k0(3) d'(4,2) _ this] d'(3) ok(2) room kv_step_total [OF kv k0(2)]
    obtain k1 k2 where k: "put_dict al k0 i d' = Some k1" "cumulativeKeyCountAdd k1 i 1 = Some k2" "kv_inv env k2"
      "same_conf k0 k2" "kv_map k2 = (kv_map k0)(i := dict_map d')" "dicts k2 ! i = Some (d'\<lparr>type_calls := []\<rparr>)" by auto
    have "kvstoreDictAddRaw env al kvs i key = Some (k2, r)"
      using k0(1) g d'(1) k(1,2) Inr by (simp add: kvstoreDictAddRaw_def)
    then show ?thesis using k(3,5,6) Inr new m kv0(3) same_conf_trans [OF kv0(2) k(4)]
      by (intro exI [of _ k2] exI [of _ r]) (simp add: kv_entry_def)
  qed
qed

lemma kvstoreDictSetVal_correct:
  assumes kv: "kv_inv env kvs" and al: "kv_alloc al" and i: "i < num_dicts kvs"
    and e: "kv_entry kvs i ref = Some (key, old)" and nv: "\<not> no_value env"
  shows "\<exists>kvs'. kvstoreDictSetVal env al kvs i ref val = Some kvs' \<and> kv_inv env kvs' \<and> same_conf kvs kvs'
    \<and> kv_map kvs' = (kv_map kvs)(i := (kv_map kvs i)(key \<mapsto> Some val))"
proof -
  from e obtain d where d: "dicts kvs ! i = Some d" "dictGetEntry d ref = Some (key, old)"
    by (auto simp: kv_entry_def bind_eq_Some_conv)
  have ok: "dict_wf env d" "pauseAutoResize d \<le> 0"
    using kv_inv_dict [OF kv i d(1)] by (simp_all add: kv_dict_ok_def)
  from dictSetVal_correct [OF ok(1) d(2) nv, of val] obtain d' where
    d': "dictSetVal env d ref val = Some d'" "dict_wf env d'" "dict_map d' = (dict_map d)(key \<mapsto> Some val)"
      "pauseAutoResize d' = pauseAutoResize d" "calls_step d d'" by blast
  have "key \<in> dom (dict_map d)" using dictGetEntry_map [OF ok(1) d(2)] by auto
  then have "dictSize d' = dictSize d"
    using d'(3) by (simp add: dictSize_card [OF ok(1)] dictSize_card [OF d'(2)] insert_absorb)
  from put_dict_inv [OF kv al [unfolded kv_alloc_def] kv_inv_max [OF kv] i d(1) d'(5,2) _ this] d'(4) ok(2)
  obtain k1 where k1: "put_dict al kvs i d' = Some k1" "kv_inv env k1" "same_keys kvs k1"
    "dicts k1 = (dicts kvs)[i := Some (d'\<lparr>type_calls := []\<rparr>)]" by auto
  have "kv_map k1 = (kv_map kvs)(i := dict_map d')" by (rule kv_map_put [OF kv_inv_len [OF kv] i k1(4)])
  moreover have "kvstoreDictSetVal env al kvs i ref val = Some k1"
    using kv_inv_get [OF kv i] d(1) d'(1) k1(1) by (simp add: kvstoreDictSetVal_def)
  ultimately show ?thesis using k1(2,3) d'(3) d(1) same_keys_conf by (auto simp: kv_map_dict [OF kv i])
qed

lemma kvstoreDictDelete_correct:
  assumes kv: "kv_inv env kvs" and al: "kv_alloc al" and i: "i < num_dicts kvs"
  shows "\<exists>kvs'. kvstoreDictDelete env al kvs i key = Some (kvs', kv_map kvs i key \<noteq> None)
    \<and> kv_inv env kvs' \<and> same_conf kvs kvs' \<and> kv_map kvs' = (kv_map kvs)(i := (kv_map kvs i)(key := None))"
proof (cases "dicts kvs ! i")
  case None
  then have "kv_map kvs = (kv_map kvs)(i := (kv_map kvs i)(key := None))" by (intro ext) (simp add: kv_map_def)
  with None show ?thesis using kv kv_inv_get [OF kv i]
    by (intro exI [of _ kvs]) (auto simp: kvstoreDictDelete_def kv_map_def)
next
  case (Some d)
  have ok: "dict_wf env d" "pauseAutoResize d \<le> 0"
    using kv_inv_dict [OF kv i Some] by (simp_all add: kv_dict_ok_def)
  have m: "kv_map kvs i = dict_map d" using Some by (simp add: kv_map_dict [OF kv i])
  note g = kv_inv_get [OF kv i, unfolded Some]
  from dictGenericDelete_correct [OF ok(1), of key] obtain d' where
    d': "dictGenericDelete env d key = Some (d', map_option (Pair key) (dict_map d key))" "dict_wf env d'"
      "pauseAutoResize d' = pauseAutoResize d" "calls_step d d'" "dict_map d' = (dict_map d)(key := None)" by blast
  have del: "dictDelete env d key = Some (d', dict_map d key \<noteq> None)" using d'(1) by (auto simp: dictDelete_def)
  have p: "pauseAutoResize d' \<le> 0" using d'(3) ok(2) by simp
  show ?thesis
  proof (cases "dict_map d key")
    case None
    then have eq: "dict_map d' = dict_map d" using d'(5) by auto
    then have "dictSize d' = dictSize d" by (simp add: dictSize_card [OF ok(1)] dictSize_card [OF d'(2)])
    from put_dict_inv [OF kv al [unfolded kv_alloc_def] kv_inv_max [OF kv] i Some d'(4,2) p this]
    obtain k1 where k1: "put_dict al kvs i d' = Some k1" "kv_inv env k1" "same_keys kvs k1"
      "dicts k1 = (dicts kvs)[i := Some (d'\<lparr>type_calls := []\<rparr>)]" by blast
    have "kv_map k1 = (kv_map kvs)(i := dict_map d')" by (rule kv_map_put [OF kv_inv_len [OF kv] i k1(4)])
    moreover have "kvstoreDictDelete env al kvs i key = Some (k1, False)"
      using g del k1(1) None by (simp add: kvstoreDictDelete_def)
    ultimately show ?thesis using k1(2,3) d'(5) m None same_keys_conf by auto
  next
    case v: (Some v)
    have "int (dictSize d') = int (dictSize d) + (-1)" using dictSize_removed [OF ok(1) d'(2) _ d'(5)] v by simp
    from put_dict_count [OF kv al i Some d'(4,2) p this]
    obtain k1 k2 where k: "put_dict al kvs i d' = Some k1" "cumulativeKeyCountAdd k1 i (-1) = Some k2" "kv_inv env k2"
      "same_conf kvs k2" "kv_map k2 = (kv_map kvs)(i := dict_map d')" by auto
    have "i < num_dicts k2" using k(4) i by (simp add: same_conf_def)
    from freeDictIfNeeded_step [OF k(3) al this] obtain k3 where
      k3: "freeDictIfNeeded al k2 i = Some k3" "kv_step env k2 k3" by blast
    have "kvstoreDictDelete env al kvs i key = Some (k3, True)"
      using g del k(1,2) k3(1) v by (simp add: kvstoreDictDelete_def)
    moreover have "same_conf kvs k3" using k(4) k3(2) same_conf_trans by (auto simp: kv_step_def)
    ultimately show ?thesis using k(5) k3(2) d'(5) m v by (simp add: kv_step_def)
  qed
qed

lemma kvstoreDictTwoPhaseUnlinkFind_correct:
  assumes kv: "kv_inv env kvs" and al: "kv_alloc al" and i: "i < num_dicts kvs"
  shows "\<exists>kvs' he. kvstoreDictTwoPhaseUnlinkFind env al kvs i key = Some (kvs', he) \<and> kv_step env kvs kvs'
    \<and> (case he of None \<Rightarrow> kv_map kvs i key = None
       | Some ref \<Rightarrow> \<exists>v. kv_entry kvs' i ref = Some (key, v) \<and> kv_map kvs i key = Some v)"
proof (cases "dicts kvs ! i")
  case None
  then show ?thesis using kv_step_refl [OF kv] kv_inv_get [OF kv i] kv_map_dict [OF kv i]
    by (intro exI [of _ kvs] exI [of _ None]) (simp add: kvstoreDictTwoPhaseUnlinkFind_def)
next
  case (Some d)
  have ok: "dict_wf env d" "pauseAutoResize d \<le> 0"
    using kv_inv_dict [OF kv i Some] by (simp_all add: kv_dict_ok_def)
  from dictTwoPhaseUnlinkFind_correct [OF ok(1), of key] obtain d' he where
    d': "dictTwoPhaseUnlinkFind env d key = Some (d', he)" "dict_wf env d'" "dict_map d' = dict_map d"
      "calls_step d d'" "pauseAutoResize d' = pauseAutoResize d"
      "case he of None \<Rightarrow> dict_map d key = None
       | Some ref \<Rightarrow> \<exists>v. dictGetEntry d' ref = Some (key, v) \<and> dict_map d key = Some v" by blast
  have "dictSize d' = dictSize d" by (simp add: dictSize_card [OF ok(1)] dictSize_card [OF d'(2)] d'(3))
  from put_dict_inv [OF kv al [unfolded kv_alloc_def] kv_inv_max [OF kv] i Some d'(4,2) _ this] d'(5) ok(2)
  obtain k1 where k1: "put_dict al kvs i d' = Some k1" "kv_inv env k1" "same_keys kvs k1"
    "dicts k1 = (dicts kvs)[i := Some (d'\<lparr>type_calls := []\<rparr>)]" by auto
  have "kv_map k1 = (kv_map kvs)(i := dict_map d')" by (rule kv_map_put [OF kv_inv_len [OF kv] i k1(4)])
  also have "\<dots> = kv_map kvs" using Some d'(3) kv_map_dict [OF kv i] by auto
  finally have "kv_step env kvs k1" using k1(2,3) same_keys_conf by (auto simp: kv_step_def)
  moreover have "kvstoreDictTwoPhaseUnlinkFind env al kvs i key = Some (k1, he)"
    using kv_inv_get [OF kv i] Some d'(1) k1(1) by (simp add: kvstoreDictTwoPhaseUnlinkFind_def)
  ultimately show ?thesis using d'(6) Some i kv_inv_len [OF kv]
    by (intro exI [of _ k1] exI [of _ he])
       (auto simp: kv_map_dict [OF kv i] kv_entry_def k1(4) split: option.splits)
qed

lemma kvstoreDictTwoPhaseUnlinkFree_correct:
  assumes kv: "kv_inv env kvs" and al: "kv_alloc al" and i: "i < num_dicts kvs"
    and e: "kv_entry kvs i ref = Some (key, v)"
  shows "\<exists>kvs'. kvstoreDictTwoPhaseUnlinkFree env al kvs i (Some ref) = Some kvs' \<and> kv_inv env kvs'
    \<and> same_conf kvs kvs' \<and> kv_map kvs' = (kv_map kvs)(i := (kv_map kvs i)(key := None))"
proof -
  from e obtain d where d: "dicts kvs ! i = Some d" "dictGetEntry d ref = Some (key, v)"
    by (auto simp: kv_entry_def bind_eq_Some_conv)
  have ok: "dict_wf env d" "pauseAutoResize d \<le> 0"
    using kv_inv_dict [OF kv i d(1)] by (simp_all add: kv_dict_ok_def)
  from dictTwoPhaseUnlinkFree_correct [OF ok(1) d(2)] obtain d' where
    d': "dictTwoPhaseUnlinkFree env d (Some ref) = Some d'" "dict_wf env d'" "dict_map d' = (dict_map d)(key := None)"
      "calls_step d d'" "pauseAutoResize d' = pauseAutoResize d" by blast
  have "dict_map d key \<noteq> None" using dictGetEntry_map [OF ok(1) d(2)] by simp
  then have "int (dictSize d') = int (dictSize d) + (-1)" using dictSize_removed [OF ok(1) d'(2) _ d'(3)] by simp
  from put_dict_count [OF kv al i d(1) d'(4,2) _ this] d'(5) ok(2)
  obtain k1 k2 where k: "put_dict al kvs i d' = Some k1" "cumulativeKeyCountAdd k1 i (-1) = Some k2" "kv_inv env k2"
    "same_conf kvs k2" "kv_map k2 = (kv_map kvs)(i := dict_map d')" by auto
  have "i < num_dicts k2" using k(4) i by (simp add: same_conf_def)
  from freeDictIfNeeded_step [OF k(3) al this] obtain k3 where
    k3: "freeDictIfNeeded al k2 i = Some k3" "kv_step env k2 k3" by blast
  have "kvstoreDictTwoPhaseUnlinkFree env al kvs i (Some ref) = Some k3"
    using kv_inv_get [OF kv i] d(1) d'(1) k(1,2) k3(1) by (simp add: kvstoreDictTwoPhaseUnlinkFree_def)
  moreover have "same_conf kvs k3" using k(4) k3(2) same_conf_trans by (auto simp: kv_step_def)
  ultimately show ?thesis using k(5) k3(2) d'(3) d(1) by (simp add: kv_step_def kv_map_dict [OF kv i])
qed

subsection \<open>Maintenance\<close>

lemma for_each_inv:
  assumes "\<And>i s. i \<in> set is \<Longrightarrow> P s \<Longrightarrow> \<exists>s'. body i s = Some s' \<and> P s'" "P s"
  shows "\<exists>s'. for_each body is s = Some s' \<and> P s'"
  using assms
proof (induction "is" arbitrary: s)
  case (Cons i "is")
  from Cons.prems(1) [of i s] Cons.prems(2) obtain s1 where "body i s = Some s1" "P s1" by auto
  moreover from Cons.IH [OF _ this(2)] Cons.prems(1) obtain s' where "for_each body is s1 = Some s'" "P s'" by auto
  ultimately show ?case by auto
qed simp

lemma resize_cursor_inv:
  assumes "kv_step env kvs kvs'" "c < num_dicts kvs"
  shows "kv_step env kvs (kvs'\<lparr>resize_cursor := c\<rparr>)"
proof -
  let ?k = "kvs'\<lparr>resize_cursor := c\<rparr>"
  have t: "dtabs ?k = dtabs kvs'" "dsize ?k = dsize kvs'" "kv_map ?k = kv_map kvs'"
    by (simp_all add: dtabs_def dsize_def kv_map_def fun_eq_iff)
  from assms(1) obtain ns leak where k: "kv_shape env kvs'" "rehash_list kvs' (dtabs kvs') ns"
    "tab_counts kvs' (dtabs kvs') leak" "flags kvs' AND KVSTORE_FREE_EMPTY_DICTS = 0 \<longrightarrow> leak = 0"
    "key_counts kvs' (dsize kvs')" unfolding kv_step_def kv_inv_def kv_base_def by blast
  have "num_dicts kvs' = num_dicts kvs" using assms(1) by (simp add: kv_step_def same_conf_def)
  then have "kv_shape env ?k" using k(1) assms(2) by (simp add: kv_shape_def)
  moreover have "rehash_list ?k (dtabs kvs') ns" using k(2) by (simp add: rehash_list_def)
  moreover have "tab_counts ?k (dtabs kvs') leak" using k(3) by (simp add: tab_counts_def)
  moreover have "key_counts ?k (dsize kvs')" using k(5) by (simp add: key_counts_def)
  ultimately have "kv_inv env ?k" using k(4) unfolding kv_inv_def kv_base_def t by auto
  with assms(1) t(3) show ?thesis by (simp add: kv_step_def same_conf_def)
qed

lemma kvstoreTryResizeDicts_correct:
  assumes kv: "kv_inv env kvs" and al: "kv_alloc al"
  shows "\<exists>kvs'. kvstoreTryResizeDicts env al kvs limit = Some kvs' \<and> kv_step env kvs kvs'"
  unfolding kvstoreTryResizeDicts_def Let_def
proof (rule for_each_inv, goal_cases)
  case (1 i s)
  let ?c = "resize_cursor s"
  have s: "kv_inv env s" "num_dicts s = num_dicts kvs" using 1 by (simp_all add: kv_step_def same_conf_def)
  then have c: "?c < num_dicts s" by (simp add: kv_inv_def kv_base_def kv_shape_def)
  then have c': "(?c + 1) mod num_dicts s < num_dicts kvs" using s(2) by simp
  note g = kv_inv_get [OF s(1) c]
  show ?case
  proof (cases "dicts s ! ?c")
    case None
    with g resize_cursor_inv [OF 1(2) c'] show ?thesis by (simp add: Let_def)
  next
    case (Some d)
    have wf: "dict_wf env d" using kv_inv_dict [OF s(1) c Some] by (simp add: kv_dict_ok_def)
    from dictShrinkIfNeeded_correct [OF wf] obtain d1 ok where
      d1: "dictShrinkIfNeeded env d = Some (d1, ok)" "dict_step env d d1" by blast
    have "\<exists>d2. (if \<not> ok then map_option fst (dictExpandIfNeeded env d1) else Some d1) = Some d2 \<and> dict_step env d d2"
      using dictExpandIfNeeded_correct [OF dict_step_wf [OF d1(2)]] d1(2) dict_step_trans [OF d1(2)] by (cases ok) auto
    then obtain d2 where
      d2: "(if \<not> ok then map_option fst (dictExpandIfNeeded env d1) else Some d1) = Some d2" "dict_step env d d2" by blast
    from put_dict_step [OF s(1) al c Some d2(2)] obtain k where
      k: "put_dict al s ?c d2 = Some k" "kv_step env s k" "same_keys s k" by blast
    have n: "num_dicts k = num_dicts s" using k(3) by (simp add: same_keys_def)
    from resize_cursor_inv [OF kv_step_trans [OF 1(2) k(2)] c'] Some g d1(1) d2(1) k(1) n show ?thesis
      by (simp add: Let_def)
  qed
qed (rule kv_step_refl [OF kv])

lemma kvstoreExpand_correct:
  assumes kv: "kv_inv env kvs" and al: "kv_alloc al"
  shows "\<exists>kvs' ok. kvstoreExpand al oks kvs newsize try_expand skip_cb = Some (kvs', ok) \<and> kv_step env kvs kvs'"
proof -
  have "\<exists>kvs' ok. kvstoreExpand_loop al oks newsize try_expand skip_cb is k = Some (kvs', ok) \<and> kv_step env kvs kvs'"
    if "kv_step env kvs k" "\<forall>i \<in> set is. i < num_dicts kvs" for "is" k
    using that
  proof (induction "is" arbitrary: k)
    case (Cons i "is")
    have s: "kv_inv env k" "i < num_dicts k" using Cons.prems by (simp_all add: kv_step_def same_conf_def)
    note g = kv_inv_get [OF s]
    show ?case
    proof (cases "dicts k ! i = None \<or> (case skip_cb of None \<Rightarrow> False | Some f \<Rightarrow> f i)")
      case True
      with Cons.IH [OF Cons.prems(1)] Cons.prems(2) g show ?thesis by (cases "dicts k ! i") simp_all
    next
      case False
      then obtain d where d: "dicts k ! i = Some d" by auto
      have wf: "dict_wf env d" using kv_inv_dict [OF s d] by (simp add: kv_dict_ok_def)
      obtain d' ok where
        d': "(if try_expand then dictTryExpand (oks i) d newsize else dictExpand d newsize) = Some (d', ok)"
          "dict_step env d d'"
        using dictExpand_correct [OF wf, of newsize "Some (oks i)"] dictExpand_correct [OF wf, of newsize None]
        by (cases try_expand) (fastforce simp: dictTryExpand_def dictExpand_def)+
      from put_dict_step [OF s(1) al s(2) d d'(2)] obtain k1 where
        k1: "put_dict al k i d' = Some k1" "kv_step env k k1" by blast
      from kv_step_trans [OF Cons.prems(1) k1(2)] have st: "kv_step env kvs k1" .
      from Cons.IH [OF this] Cons.prems(2) False g d d'(1) k1(1) st show ?thesis
        by (cases "try_expand \<and> \<not> ok") auto
    qed
  qed auto
  from this [OF kv_step_refl [OF kv]] show ?thesis by (simp add: kvstoreExpand_def)
qed

lemma kvstoreDictExpand_correct:
  assumes kv: "kv_inv env kvs" and al: "kv_alloc al" and i: "i < num_dicts kvs"
  shows "\<exists>kvs' ok. kvstoreDictExpand al kvs i sz = Some (kvs', ok) \<and> kv_step env kvs kvs'"
proof (cases "dicts kvs ! i")
  case None
  then show ?thesis using kv_step_refl [OF kv] kv_inv_get [OF kv i]
    by (intro exI [of _ kvs] exI [of _ False]) (simp add: kvstoreDictExpand_def)
next
  case (Some d)
  have wf: "dict_wf env d" using kv_inv_dict [OF kv i Some] by (simp add: kv_dict_ok_def)
  from dictExpand_correct [OF wf, of sz None] obtain d' ok mf where
    d': "dictExpand' d sz None = Some (d', ok, mf)" "dict_step env d d'" by blast
  from put_dict_step [OF kv al i Some d'(2)] d'(1) Some kv_inv_get [OF kv i] show ?thesis
    by (auto simp: kvstoreDictExpand_def dictExpand_def)
qed

lemma kvstoreIncrementallyRehash_correct:
  assumes al: "kv_alloc al"
  shows "kv_inv env kvs \<Longrightarrow> \<exists>kvs'. kvstoreIncrementallyRehash env al clock kvs = Some kvs' \<and> kv_step env kvs kvs'"
proof (induction clock arbitrary: kvs)
  case Nil
  then show ?case by (simp add: kv_step_refl)
next
  case (Cons c clock)
  obtain rounds over where c: "c = (rounds, over)" by (cases c)
  from Cons.prems obtain ns where rl: "rehash_list kvs (dtabs kvs) ns" unfolding kv_inv_def kv_base_def by blast
  show ?case
  proof (cases ns)
    case Nil
    with rl have "head (rehashing kvs) = 0" by (simp add: rehash_list_def list_rep_def)
    with Cons.prems c show ?thesis by (simp add: kv_step_refl)
  next
    case ns: (Cons x xs)
    obtain p i where x: "x = (p, i)" by (cases x)
    have rep: "list_rep (kv_mem kvs) (rehashing kvs) (x # xs)" using rl ns by (simp add: rehash_list_def)
    then have h: "head (rehashing kvs) = p" "p \<noteq> 0" "\<exists>n. node (kv_mem kvs) p = Some n \<and> node_value n = i"
      by (auto simp: list_rep_def x node_def)
    have "i \<in> snd ` set ns" using ns x by simp
    then have i: "i < num_dicts kvs" "snd (dtabs kvs i) \<noteq> None" using rl by (auto simp: rehash_list_def)
    then obtain d where d: "dicts kvs ! i = Some d" by (cases "dicts kvs ! i") (auto simp: dtabs_def)
    have wf: "dict_wf env d" using kv_inv_dict [OF Cons.prems i(1) d] by (simp add: kv_dict_ok_def)
    have "\<exists>d' n. dictRehashMicroseconds env d rounds = Some (d', n) \<and> dict_step env d d'"
      using dictRehashRounds_correct [OF wf, of "Suc rounds"] dict_step_refl [OF wf]
      by (cases "pauserehash d > 0") (auto simp: dictRehashMicroseconds_def simp del: dictRehashRounds.simps)
    then obtain d' n where d': "dictRehashMicroseconds env d rounds = Some (d', n)" "dict_step env d d'" by blast
    from put_dict_step [OF Cons.prems al i(1) d d'(2)] obtain k1 where
      k1: "put_dict al kvs i d' = Some k1" "kv_step env kvs k1" by blast
    then have "kv_inv env k1" by (simp add: kv_step_def)
    from Cons.IH [OF this] obtain k2 where
      k2: "kvstoreIncrementallyRehash env al clock k1 = Some k2" "kv_step env k1 k2" by blast
    have "kvstoreIncrementallyRehash env al (c # clock) kvs = Some (if over then k1 else k2)"
      using h kv_inv_get [OF Cons.prems i(1)] d d'(1) k1(1) k2(1) c by auto
    then show ?thesis using k1(2) kv_step_trans [OF k1(2) k2(2)] by simp
  qed
qed

end
