(* ===== verification/Kvstore_Main.thy ===== *)
theory Kvstore_Main
  imports Kvstore_Map
begin

section \<open>Key-value stores: creation, emptying, positions\<close>

declare of_nat_sum [simp del]

lemma for_each_append: "for_each body (xs @ ys) s = Option.bind (for_each body xs s) (for_each body ys)"
  by (induction xs arbitrary: s) (auto split: Option.bind_split)

lemma for_each_upt:
  assumes "\<And>i s. i < n \<Longrightarrow> P i s \<Longrightarrow> \<exists>s'. body i s = Some s' \<and> P (Suc i) s'" "P 0 s"
  shows "\<exists>s'. for_each body [0..<n] s = Some s' \<and> P n s'"
  using assms
proof (induction n)
  case (Suc n)
  then obtain s1 where s1: "for_each body [0..<n] s = Some s1" "P n s1" by auto
  with Suc.prems(1) [of n s1] show ?case by (auto simp: for_each_append)
qed simp

subsection \<open>Creation\<close>

text \<open>A store whose dictionaries have no tables and whose counters are 0.\<close>

lemma kv_inv_blank:
  assumes shape: "kv_shape env kvs" and rep: "list_rep (kv_mem kvs) (rehashing kvs) []" "cells (kv_mem kvs) = Map.empty"
    and meta: "dict_meta kvs = replicate (num_dicts kvs) 0"
    and blank: "\<And>i. i < num_dicts kvs \<Longrightarrow> dicts kvs ! i = None \<or> dicts kvs ! i = Some dictCreate"
    and counts: "key_count kvs = 0" "non_empty_dicts kvs = 0" "bucket_count kvs = 0"
      "overhead_hashtable_lut kvs = 0" "overhead_hashtable_rehashing kvs = 0"
      "dict_size_index kvs = (if num_dicts kvs = 1 then [] else replicate (Suc (num_dicts kvs)) 0)"
  shows "kv_inv env kvs" "kv_map kvs = (\<lambda>i. Map.empty)"
proof -
  let ?n = "num_dicts kvs"
  have t: "dtabs kvs i = (0, None)" "dsize kvs i = 0" if "i < ?n" for i
    using blank [OF that] by (auto simp: dtabs_def dsize_def tabs_create)
  have "rehash_list kvs (dtabs kvs) []" using rep meta t by (simp add: rehash_list_def)
  moreover have "tab_counts kvs (dtabs kvs) 0"
  proof -
    have "(\<Sum>i < ?n. fst (dtabs kvs i) + second (dtabs kvs i)) = 0" "(\<Sum>i < ?n. busy (dtabs kvs i)) = 0"
      by (simp_all add: t second_def busy_def)
    then show ?thesis unfolding tab_counts_def by (simp add: counts)
  qed
  moreover have "key_counts kvs (dsize kvs)"
  proof -
    have "sum (dsize kvs) {..<?n} = 0" "{i. i < ?n \<and> dsize kvs i \<noteq> 0} = {}" by (auto simp: t)
    moreover have "fenwick ?n (dsize kvs) (replicate (Suc ?n) 0)"
      using fenwick_0 [of ?n] t(2) unfolding fenwick_def by (auto simp: sum.neutral)
    ultimately show ?thesis unfolding key_counts_def counts by (simp del: replicate_Suc)
  qed
  ultimately show "kv_inv env kvs" using shape by (auto simp: kv_inv_def kv_base_def)
  have "length (dicts kvs) = ?n" using shape by (simp add: kv_shape_def)
  then show "kv_map kvs = (\<lambda>i. Map.empty)"
    using blank dictCreate_wf(2) by (fastforce simp: kv_map_def fun_eq_iff split: option.splits)
qed

lemma kvstoreCreate_correct:
  assumes al: "kv_alloc al" and m: "cells m = Map.empty" and bits: "bits \<le> 16"
  shows "\<exists>kvs. kvstoreCreate al m bits flgs = Some kvs \<and> kv_inv env kvs \<and> num_dicts kvs = 2 ^ bits
    \<and> flags kvs = flgs \<and> kv_map kvs = (\<lambda>i. Map.empty)"
proof -
  let ?n = "2 ^ bits :: nat"
  from al obtain l where l: "listCreate al m = Some l" "list_rep m l []"
    by (auto simp: kv_alloc_def alloc_upto_def listCreate_def list_rep_def)
  define k0 :: "('a, 'b) kvstore" where "k0 = \<lparr>flags = flgs, dicts = replicate ?n None, dict_meta = replicate ?n 0,
     num_dicts = ?n, num_dicts_bits = bits, kv_mem = m, rehashing = l, resize_cursor = 0,
     allocated_dicts = 0, non_empty_dicts = 0, key_count = 0, bucket_count = 0,
     dict_size_index = (if ?n > 1 then replicate (?n + 1) 0 else []),
     overhead_hashtable_lut = 0, overhead_hashtable_rehashing = 0\<rparr>"
  have ix: "dict_size_index k0 = (if num_dicts k0 = 1 then [] else replicate (Suc (num_dicts k0)) 0)"
    using one_less_power [of "2 :: nat" bits] by (cases bits) (simp_all add: k0_def)
  have "kv_shape env k0" using bits by (simp add: kv_shape_def k0_def)
  from kv_inv_blank [OF this _ _ _ _ _ _ _ _ _ ix] l m have inv: "kv_inv env k0" and map: "kv_map k0 = (\<lambda>i. Map.empty)"
    by (simp_all add: k0_def)
  have n: "num_dicts k0 = ?n" "flags k0 = flgs" by (simp_all add: k0_def)
  have "\<exists>k. for_each createDictIfNeeded [0..<?n] k0 = Some k \<and> kv_step env k0 k"
  proof (rule for_each_inv)
    fix i s assume "i \<in> set [0..<?n]" "kv_step env k0 s"
    then have "kv_inv env s" "i < num_dicts s" by (simp_all add: kv_step_def same_conf_def n)
    from createDictIfNeeded_step [OF this] \<open>kv_step env k0 s\<close>
    show "\<exists>s'. createDictIfNeeded i s = Some s' \<and> kv_step env k0 s'" using kv_step_trans by blast
  qed (rule kv_step_refl [OF inv])
  then obtain k where k: "for_each createDictIfNeeded [0..<?n] k0 = Some k" "kv_step env k0 k" by blast
  have "kvstoreCreate al m bits flgs
      = (if flgs AND KVSTORE_ALLOCATE_DICTS_ON_DEMAND = 0 then for_each createDictIfNeeded [0..<?n] k0 else Some k0)"
    using bits l(1) by (simp add: kvstoreCreate_def k0_def Let_def)
  with k inv map n show ?thesis by (auto simp: kv_step_def same_conf_def)
qed

subsection \<open>Emptying\<close>

lemma dictRelease_create: "fst (dictRelease dictCreate) = []"
  by (simp add: dictRelease_def Let_def dictCreate_def dictIsRehashing_def dictClear'_def set_ht_def)

lemma dictIsRehashingPaused_create: "\<not> dictIsRehashingPaused dictCreate"
  by (simp add: dictIsRehashingPaused_def dictCreate_def)

text \<open>The callbacks of a dictionary that is no longer in the list only touch the counters.\<close>

definition same_but_counts :: "('k, 'v) kvstore \<Rightarrow> ('k, 'v) kvstore \<Rightarrow> bool" where
  "same_but_counts kvs kvs' \<longleftrightarrow> same_rest kvs kvs' \<and> dict_meta kvs' = dict_meta kvs \<and> kv_mem kvs' = kv_mem kvs
     \<and> rehashing kvs' = rehashing kvs"

lemma empty_dict:
  assumes i: "i < length (dicts kvs)" "i < length (dict_meta kvs)" "dicts kvs ! i = Some d" and d: "kv_dict_ok env d"
  shows "\<exists>k x. Option.bind (put_dict al (kvs\<lparr>dict_meta := (dict_meta kvs)[i := 0]\<rparr>) i (fst (dictEmpty d)))
      (\<lambda>kvs. freeDictIfNeeded al kvs i) = Some k
    \<and> (x = None \<or> x = Some dictCreate) \<and> dicts k = (dicts kvs)[i := x] \<and> dict_meta k = (dict_meta kvs)[i := 0]
    \<and> allocated_dicts k = allocated_dicts kvs + (if x \<noteq> None then 0 else -1) \<and> same_conf kvs k
    \<and> kv_mem k = kv_mem kvs \<and> rehashing k = rehashing kvs \<and> dict_size_index k = dict_size_index kvs"
proof -
  let ?k0 = "kvs\<lparr>dict_meta := (dict_meta kvs)[i := 0]\<rparr>"
  have tc: "type_calls (fst (dictEmpty d)) = (if dictIsRehashing d then type_calls (rehashingCompleted d) else [])"
    using d by (simp add: dictEmpty_dict kv_dict_ok_def)
  have "type_calls d = []" using d by (simp add: kv_dict_ok_def)
  then have "\<exists>k1. for_each (dict_callback al i) (type_calls (fst (dictEmpty d))) ?k0 = Some k1 \<and> same_but_counts ?k0 k1"
    using i(2) unfolding tc
    by (simp add: rehashingCompleted_def kvstoreDictRehashingCompleted_def same_but_counts_def same_rest_def)
  then obtain k1 where k1: "for_each (dict_callback al i) (type_calls (fst (dictEmpty d))) ?k0 = Some k1"
    "same_but_counts ?k0 k1" by blast
  have "(fst (dictEmpty d))\<lparr>type_calls := []\<rparr> = dictCreate"
    unfolding dictEmpty_dict by (simp add: dictCreate_def)
  then have put: "put_dict al ?k0 i (fst (dictEmpty d)) = Some (k1\<lparr>dicts := (dicts kvs)[i := Some dictCreate]\<rparr>)"
    using k1 by (simp add: put_dict_def same_but_counts_def same_rest_def)
  let ?k2 = "k1\<lparr>dicts := (dicts kvs)[i := Some dictCreate]\<rparr>"
  let ?free = "flags kvs AND KVSTORE_FREE_EMPTY_DICTS \<noteq> 0"
  have "freeDictIfNeeded al ?k2 i = Some (if ?free
      then ?k2\<lparr>dicts := (dicts kvs)[i := None], allocated_dicts := allocated_dicts k1 - 1\<rparr> else ?k2)"
    using i(1) k1(2)
    by (simp add: freeDictIfNeeded_def kvstoreGetDict_def same_but_counts_def same_rest_def
      dictRelease_create dictIsRehashingPaused_create tabs_create(2))
  with put show ?thesis using k1(2)
    by (intro exI [of _ "if ?free then ?k2\<lparr>dicts := (dicts kvs)[i := None], allocated_dicts := allocated_dicts k1 - 1\<rparr> else ?k2"]
          exI [of _ "if ?free then None else Some dictCreate"])
       (simp add: same_but_counts_def same_rest_def same_conf_def)
qed

lemma card_alloc_cases:
  assumes "i < n" "length ds = n" "ds ! i \<noteq> None"
  shows "int (card {j. j < n \<and> ds[i := x] ! j \<noteq> None}) = int (card {j. j < n \<and> ds ! j \<noteq> None}) + (if x \<noteq> None then 0 else -1)"
  using card_alloc_upd [OF assms(1,2), of x] assms(3) by simp

lemma kvstoreEmpty_correct:
  assumes kv: "kv_inv env kvs"
  shows "\<exists>kvs'. kvstoreEmpty al kvs = Some kvs' \<and> kv_inv env kvs' \<and> same_conf kvs kvs' \<and> kv_map kvs' = (\<lambda>i. Map.empty)
    \<and> bucket_count kvs' = 0"
proof -
  from kv obtain ns where shape: "kv_shape env kvs" and rl: "rehash_list kvs (dtabs kvs) ns"
    unfolding kv_inv_def kv_base_def by blast
  have len: "length (dicts kvs) = num_dicts kvs" "length (dict_meta kvs) = num_dicts kvs"
    using shape rl by (simp_all add: kv_shape_def rehash_list_def)
  let ?n = "num_dicts kvs"
  let ?blank = "\<lambda>x. x = None \<or> x = Some dictCreate"
  define Q where "Q i k \<longleftrightarrow> kv_mem k = kv_mem kvs \<and> rehashing k = rehashing kvs \<and> same_conf kvs k
    \<and> dict_size_index k = dict_size_index kvs \<and> length (dicts k) = ?n \<and> length (dict_meta k) = ?n
    \<and> (\<forall>j < i. ?blank (dicts k ! j) \<and> dict_meta k ! j = 0)
    \<and> (\<forall>j. i \<le> j \<and> j < ?n \<longrightarrow> dicts k ! j = dicts kvs ! j \<and> dict_meta k ! j = dict_meta kvs ! j)
    \<and> allocated_dicts k = int (card {j. j < ?n \<and> dicts k ! j \<noteq> None})" for i and k :: "('a, 'b) kvstore"
  let ?body = "\<lambda>didx kvs. do { dopt \<leftarrow> kvstoreGetDict kvs didx;
    case dopt of None \<Rightarrow> Some kvs
    | Some d \<Rightarrow> do { let kvs = kvs\<lparr>dict_meta := (dict_meta kvs)[didx := 0]\<rparr>;
                    kvs \<leftarrow> put_dict al kvs didx (fst (dictEmpty d)); freeDictIfNeeded al kvs didx } }"
  have "\<exists>k. for_each ?body [0..<?n] kvs = Some k \<and> Q ?n k"
  proof (rule for_each_upt)
    show "Q 0 kvs" using shape len by (simp add: Q_def kv_shape_def)
    fix i k assume i: "i < ?n" and q: "Q i k"
    have g: "kvstoreGetDict k i = Some (dicts kvs ! i)" using q i by (simp add: Q_def kvstoreGetDict_def)
    show "\<exists>k'. ?body i k = Some k' \<and> Q (Suc i) k'"
    proof (cases "dicts kvs ! i")
      case None
      then have "dict_meta kvs ! i = 0" using rl i by (simp add: rehash_list_def dtabs_def)
      with q i None have "Q (Suc i) k" by (auto simp: Q_def less_Suc_eq)
      with None g show ?thesis by simp
    next
      case (Some d)
      have dk: "i < length (dicts k)" "i < length (dict_meta k)" "dicts k ! i = Some d"
        using q i Some by (simp_all add: Q_def)
      from empty_dict [OF this kv_shape_dict [OF shape i Some], of al] obtain k' x where
        k': "Option.bind (put_dict al (k\<lparr>dict_meta := (dict_meta k)[i := 0]\<rparr>) i (fst (dictEmpty d)))
          (\<lambda>kvs. freeDictIfNeeded al kvs i) = Some k'"
          "?blank x" "dicts k' = (dicts k)[i := x]" "dict_meta k' = (dict_meta k)[i := 0]"
          "allocated_dicts k' = allocated_dicts k + (if x \<noteq> None then 0 else -1)" "same_conf k k'"
          "kv_mem k' = kv_mem k" "rehashing k' = rehashing k" "dict_size_index k' = dict_size_index k" by blast
      have "allocated_dicts k' = int (card {j. j < ?n \<and> dicts k' ! j \<noteq> None})"
        using card_alloc_cases [OF i, of "dicts k" x] q dk(3) k'(3,5) by (simp add: Q_def)
      then have "Q (Suc i) k'"
        using q i k' same_conf_trans [of kvs k k'] by (auto simp: Q_def nth_list_update less_Suc_eq)
      with k'(1) g Some show ?thesis by (simp add: Let_def)
    qed
  qed
  then obtain k where k: "for_each ?body [0..<?n] kvs = Some k" "Q ?n k" by blast
  have rep: "list_rep (kv_mem k) (rehashing k) ns" "dom (cells (kv_mem k)) = addrs ns"
    using rl k(2) by (simp_all add: rehash_list_def Q_def)
  from listEmpty_rep [OF rep(1)] obtain m l where
    ml: "listEmpty (kv_mem k) (rehashing k) = Some (m, l)" "list_rep m l []" "\<forall>a \<in> addrs ns. cells m a = None"
      "same_outside (addrs ns) (kv_mem k) m" by blast
  have dom: "cells m = Map.empty"
  proof
    show "cells m p = None" for p using ml(3,4) rep(2) by (cases "p \<in> addrs ns") (auto simp: same_outside_def)
  qed
  define k' where "k' = k\<lparr>kv_mem := m, rehashing := l, key_count := 0, non_empty_dicts := 0, resize_cursor := 0,
    bucket_count := 0, dict_size_index := (if dict_size_index k \<noteq> [] then replicate (num_dicts k + 1) 0
      else dict_size_index k), overhead_hashtable_lut := 0, overhead_hashtable_rehashing := 0\<rparr>"
  have "kvstoreEmpty al kvs = Some k'"
    unfolding kvstoreEmpty_def k(1) bind.bind_lunit using ml(1) by (simp add: k'_def)
  moreover have "kv_inv env k'" "kv_map k' = (\<lambda>i. Map.empty)"
  proof -
    have n: "num_dicts k' = ?n" "dicts k' = dicts k" "dict_meta k' = dict_meta k"
      using k(2) by (simp_all add: k'_def Q_def same_conf_def)
    have blank: "dicts k' ! i = None \<or> dicts k' ! i = Some dictCreate" if "i < num_dicts k'" for i
      using k(2) that n by (simp add: Q_def)
    have "kv_dict_ok env d" if "Some d \<in> set (dicts k')" for d
    proof -
      from that obtain i where "i < num_dicts k'" "dicts k' ! i = Some d"
        using k(2) n by (auto simp: Q_def in_set_conv_nth)
      with blank [of i] kv_dict_ok_create show ?thesis by auto
    qed
    then have shape': "kv_shape env k'"
      using shape k(2) unfolding kv_shape_def n by (simp add: Q_def same_conf_def k'_def)
    have ix: "dict_size_index k' = (if num_dicts k' = 1 then [] else replicate (Suc (num_dicts k')) 0)"
    proof (cases "?n = 1")
      case True
      with kv k(2) n(1) show ?thesis by (simp add: k'_def Q_def kv_inv_def key_counts_def)
    next
      case False
      then have "length (dict_size_index kvs) = Suc ?n" using kv by (simp add: kv_inv_def key_counts_def fenwick_def)
      then have "dict_size_index kvs \<noteq> []" by auto
      with False k(2) n(1) show ?thesis by (simp add: k'_def Q_def same_conf_def)
    qed
    have meta: "dict_meta k' = replicate (num_dicts k') 0"
      using k(2) n by (intro nth_equalityI) (simp_all add: Q_def)
    from kv_inv_blank [OF shape' _ _ meta blank _ _ _ _ _ ix] ml(2) dom
    show "kv_inv env k'" "kv_map k' = (\<lambda>i. Map.empty)" by (simp_all add: k'_def)
  qed
  moreover have "same_conf kvs k'" using k(2) by (simp add: k'_def Q_def same_conf_def)
  ultimately show ?thesis by (auto simp: k'_def)
qed

lemma release_dict:
  assumes i: "i < length (dict_meta kvs)" and d: "kv_dict_ok env d"
  shows "\<exists>k. for_each (dict_callback al i) (fst (dictRelease d)) (kvs\<lparr>dict_meta := (dict_meta kvs)[i := 0]\<rparr>) = Some k
    \<and> same_but_counts (kvs\<lparr>dict_meta := (dict_meta kvs)[i := 0]\<rparr>) k"
proof -
  have "fst (dictRelease d) = (if dictIsRehashing d then type_calls (rehashingCompleted d) else [])"
    using d by (simp add: dictRelease_def Let_def dictClear'_def set_ht_def kv_dict_ok_def)
  with i d show ?thesis
    by (simp add: rehashingCompleted_def kvstoreDictRehashingCompleted_def same_but_counts_def same_rest_def kv_dict_ok_def)
qed

lemma kvstoreRelease_correct:
  assumes kv: "kv_inv env kvs"
  shows "\<exists>m. kvstoreRelease al kvs = Some m \<and> cells m = Map.empty"
proof -
  from kv obtain ns where shape: "kv_shape env kvs" and rl: "rehash_list kvs (dtabs kvs) ns"
    unfolding kv_inv_def kv_base_def by blast
  have len: "length (dicts kvs) = num_dicts kvs" "length (dict_meta kvs) = num_dicts kvs"
    using shape rl by (simp_all add: kv_shape_def rehash_list_def)
  let ?n = "num_dicts kvs"
  define Q where "Q i k \<longleftrightarrow> kv_mem k = kv_mem kvs \<and> rehashing k = rehashing kvs \<and> dicts k = dicts kvs
    \<and> length (dict_meta k) = ?n" for i :: nat and k :: "('a, 'b) kvstore"
  let ?body = "\<lambda>didx kvs. do { dopt \<leftarrow> kvstoreGetDict kvs didx;
    case dopt of None \<Rightarrow> Some kvs
    | Some d \<Rightarrow> for_each (dict_callback al didx) (fst (dictRelease d)) (kvs\<lparr>dict_meta := (dict_meta kvs)[didx := 0]\<rparr>) }"
  have "\<exists>k. for_each ?body [0..<?n] kvs = Some k \<and> Q ?n k"
  proof (rule for_each_upt)
    show "Q 0 kvs" using len by (simp add: Q_def)
    fix i k assume i: "i < ?n" and q: "Q i k"
    have g: "kvstoreGetDict k i = Some (dicts kvs ! i)" using q i len by (simp add: Q_def kvstoreGetDict_def)
    show "\<exists>k'. ?body i k = Some k' \<and> Q (Suc i) k'"
    proof (cases "dicts kvs ! i")
      case None
      with q g show ?thesis by (simp add: Q_def)
    next
      case (Some d)
      from release_dict [of i k, OF _ kv_shape_dict [OF shape i Some], of al] q i obtain k' where
        "for_each (dict_callback al i) (fst (dictRelease d)) (k\<lparr>dict_meta := (dict_meta k)[i := 0]\<rparr>) = Some k'"
        "same_but_counts (k\<lparr>dict_meta := (dict_meta k)[i := 0]\<rparr>) k'" by (auto simp: Q_def)
      with q g Some show ?thesis by (simp add: Q_def same_but_counts_def same_rest_def)
    qed
  qed
  then obtain k where k: "for_each ?body [0..<?n] kvs = Some k" "Q ?n k" by blast
  have rep: "list_rep (kv_mem k) (rehashing k) ns" "dom (cells (kv_mem k)) = addrs ns"
    using rl k(2) by (simp_all add: rehash_list_def Q_def)
  from listRelease_rep [OF rep(1)] obtain m where
    m: "listRelease (kv_mem k) (Some (rehashing k)) = Some m"
      "\<forall>a. cells m a = (if a \<in> addrs ns then None else cells (kv_mem k) a)" by blast
  have "cells m p = None" for p using m(2) rep(2) by (cases "p \<in> addrs ns") auto
  then have "cells m = Map.empty" by auto
  moreover have "kvstoreRelease al kvs = Some m"
    unfolding kvstoreRelease_def k(1) bind.bind_lunit by (rule m(1))
  ultimately show ?thesis by blast
qed

subsection \<open>Positions of keys\<close>

lemma kv_inv_total: "kv_inv env kvs \<Longrightarrow> kv_total kvs < 2 ^ 64"
  by (simp add: kv_inv_def key_counts_def kv_total_def)

lemma kvstoreSize_correct: assumes "kv_inv env kvs" shows "kvstoreSize kvs = Some (of_nat (kv_total kvs))"
proof (cases "num_dicts kvs = 1")
  case True
  then have "kv_total kvs = dsize kvs 0" by (simp add: kv_total_def)
  with True kv_inv_get [OF assms, of 0] show ?thesis
    by (simp add: kvstoreSize_def dsize_def split: option.splits)
next
  case False
  with assms show ?thesis by (simp add: kvstoreSize_def kv_inv_def key_counts_def kv_total_def)
qed

lemma cumulativeKeyCountRead_correct:
  assumes kv: "kv_inv env kvs" and i: "i < num_dicts kvs"
  shows "cumulativeKeyCountRead kvs i = Some (of_nat (sum (dsize kvs) {..i}))"
proof (cases "num_dicts kvs = 1")
  case True
  with i kvstoreSize_correct [OF kv] show ?thesis by (simp add: cumulativeKeyCountRead_def kv_total_def)
next
  case False
  with kv have "fenwick (num_dicts kvs) (dsize kvs) (dict_size_index kvs)" by (simp add: kv_inv_def key_counts_def)
  from cumulativeRead_loop_sum [OF this, of "Suc i" 0] i False show ?thesis
    by (simp add: cumulativeKeyCountRead_def lessThan_Suc_atMost)
qed

lemma kvstoreFindDictIndexByKeyIndex_correct:
  assumes kv: "kv_inv env kvs" and t: "0 < target" "unat target \<le> kv_total kvs"
  shows "\<exists>res < num_dicts kvs. kvstoreFindDictIndexByKeyIndex kvs target = Some res
    \<and> sum (dsize kvs) {..<res} < unat target \<and> unat target \<le> sum (dsize kvs) {..res}"
proof (cases "num_dicts kvs = 1")
  case True
  with t show ?thesis
    by (auto simp: kvstoreFindDictIndexByKeyIndex_def kvstoreSize_correct [OF kv] kv_total_def unat_gt_0 word_gt_0)
next
  case False
  let ?b = "num_dicts_bits kvs"
  have n: "num_dicts kvs = 2 ^ ?b" using kv by (simp add: kv_inv_def kv_base_def kv_shape_def)
  have f: "fenwick (2 ^ ?b) (dsize kvs) (dict_size_index kvs)" "sum (dsize kvs) {..<2 ^ ?b} < 2 ^ 64"
    "unat target \<le> sum (dsize kvs) {..<2 ^ ?b}"
    using kv False t(2) by (simp_all add: kv_inv_def key_counts_def kv_total_def flip: n)
  have u: "unat (of_nat (kv_total kvs) :: 64 word) = kv_total kvs" by (rule unat_of_nat64 [OF kv_inv_total [OF kv]])
  have "(of_nat (kv_total kvs) :: 64 word) \<noteq> 0" "target \<le> of_nat (kv_total kvs)"
    using t u unat_gt_0 [of target] by (auto simp: word_le_nat_alt word_gt_0)
  then have "kvstoreFindDictIndexByKeyIndex kvs target = findIndex_loop (dict_size_index kvs) (2 ^ ?b) 0 target"
    using False by (simp add: kvstoreFindDictIndexByKeyIndex_def kvstoreSize_correct [OF kv])
  with findIndex_correct [OF f(1,2) t(1) f(3)] n show ?thesis by (simp add: lessThan_Suc_atMost)
qed

lemma kvstoreGetFirstNonEmptyDictIndex_correct:
  assumes kv: "kv_inv env kvs"
  shows "\<exists>r. kvstoreGetFirstNonEmptyDictIndex kvs = Some r"
proof (cases "kv_total kvs = 0")
  case True
  then show ?thesis
    by (simp add: kvstoreGetFirstNonEmptyDictIndex_def kvstoreFindDictIndexByKeyIndex_def kvstoreSize_correct [OF kv])
next
  case False
  with kvstoreFindDictIndexByKeyIndex_correct [OF kv, of 1] show ?thesis
    by (auto simp: kvstoreGetFirstNonEmptyDictIndex_def)
qed

lemma kvstoreGetFairRandomDictIndex_correct:
  assumes kv: "kv_inv env kvs"
  shows "\<exists>r. kvstoreGetFairRandomDictIndex rnd kvs = Some r"
proof (cases "kv_total kvs = 0")
  case True
  then show ?thesis
    by (simp add: kvstoreGetFairRandomDictIndex_def kvstoreFindDictIndexByKeyIndex_def kvstoreSize_correct [OF kv])
next
  case False
  let ?n = "of_nat (kv_total kvs) :: 64 word"
  have u: "unat ?n = kv_total kvs" by (rule unat_of_nat64 [OF kv_inv_total [OF kv]])
  have lt: "unat (rnd mod ?n) < kv_total kvs" using False u by (simp add: unat_mod_distrib)
  then have k: "unat (rnd mod ?n + 1) = Suc (unat (rnd mod ?n))"
    using kv_inv_total [OF kv] unat_of_nat64 [of "Suc (unat (rnd mod ?n))"] by (simp add: add.commute)
  then have "0 < rnd mod ?n + 1" by (metis unat_0 word_neq_0_conv nat.distinct(1))
  with kvstoreFindDictIndexByKeyIndex_correct [OF kv this] lt k False u show ?thesis
    by (auto simp: kvstoreGetFairRandomDictIndex_def kvstoreSize_correct [OF kv])
qed

lemma kvstoreDictFindEntryByPtrAndHash_correct:
  assumes kv: "kv_inv env kvs" and i: "i < num_dicts kvs"
  shows "\<exists>r. kvstoreDictFindEntryByPtrAndHash kvs i key (kvstoreGetHash env key) = Some r"
proof (cases "dicts kvs ! i")
  case None
  with kv_inv_get [OF kv i] show ?thesis by (simp add: kvstoreDictFindEntryByPtrAndHash_def)
next
  case (Some d)
  have wf: "dict_wf env d" using kv_inv_dict [OF kv i Some] by (simp add: kv_dict_ok_def)
  show ?thesis
  proof (cases "dictSize d = 0")
    case True
    with Some kv_inv_get [OF kv i] show ?thesis
      by (simp add: kvstoreDictFindEntryByPtrAndHash_def dictFindEntryByPtrAndHash_def)
  next
    case False
    have "ht_table (ht0 d) \<noteq> []" using dict_wf_table [OF wf] False by simp
    moreover have "skip_ok h d (slot h (ht_size_exp (ht0 d)))" for h by (simp add: skip_ok_def)
    ultimately show ?thesis using search_tables_correct [OF wf _ refl, of key] Some kv_inv_get [OF kv i] False
      by (fastforce simp: kvstoreDictFindEntryByPtrAndHash_def dictFindEntryByPtrAndHash_def kvstoreGetHash_def)
  qed
qed

lemma kvstoreGetNextNonEmptyDictIndex_correct:
  assumes kv: "kv_inv env kvs" and i: "i < num_dicts kvs" and room: "kv_total kvs < 2 ^ 64 - 1"
  shows "\<exists>r. kvstoreGetNextNonEmptyDictIndex kvs i = Some r
    \<and> (r = -1 \<and> (\<forall>j. i < j \<and> j < num_dicts kvs \<longrightarrow> dsize kvs j = 0)
       \<or> (\<exists>j. r = int j \<and> i < j \<and> j < num_dicts kvs \<and> dsize kvs j \<noteq> 0 \<and> (\<forall>j'. i < j' \<and> j' < j \<longrightarrow> dsize kvs j' = 0)))"
proof (cases "num_dicts kvs = 1")
  case True
  with i show ?thesis by (simp add: kvstoreGetNextNonEmptyDictIndex_def)
next
  case False
  let ?n = "num_dicts kvs" and ?s = "sum (dsize kvs) {..i}"
  have split: "kv_total kvs = ?s + sum (dsize kvs) {Suc i..<?n}"
    using sum_split [of 0 "Suc i" ?n "dsize kvs"] i by (simp add: kv_total_def atLeast0LessThan lessThan_Suc_atMost)
  let ?k = "of_nat ?s + 1 :: 64 word"
  have k: "unat ?k = Suc ?s"
  proof -
    have "Suc ?s < 2 ^ 64" using split room by linarith
    from unat_of_nat64 [OF this] show ?thesis by (simp add: add.commute)
  qed
  have le: "?k \<le> of_nat (kv_total kvs) \<longleftrightarrow> Suc ?s \<le> kv_total kvs"
    using unat_of_nat64 [OF kv_inv_total [OF kv]] by (simp add: word_le_nat_alt k)
  have eq: "kvstoreGetNextNonEmptyDictIndex kvs i
      = (if Suc ?s \<le> kv_total kvs then map_option int (kvstoreFindDictIndexByKeyIndex kvs ?k) else Some (-1))"
    using False by (simp add: kvstoreGetNextNonEmptyDictIndex_def cumulativeKeyCountRead_correct [OF kv i]
      kvstoreSize_correct [OF kv] Let_def le)
  show ?thesis
  proof (cases "Suc ?s \<le> kv_total kvs")
    case False
    then have "sum (dsize kvs) {Suc i..<?n} = 0" using split by linarith
    with eq False show ?thesis by (intro exI [of _ "-1"]) auto
  next
    case True
    have "0 < ?k" using k by (metis unat_0 word_neq_0_conv nat.distinct(1))
    from kvstoreFindDictIndexByKeyIndex_correct [OF kv this] True k obtain r where
      r: "r < ?n" "kvstoreFindDictIndexByKeyIndex kvs ?k = Some r" "sum (dsize kvs) {..<r} < Suc ?s"
        "Suc ?s \<le> sum (dsize kvs) {..r}" by auto
    have ir: "i < r"
    proof (rule ccontr)
      assume "\<not> i < r"
      then have "sum (dsize kvs) {..r} \<le> ?s" by (intro sum_mono2) auto
      with r(4) show False by simp
    qed
    have "sum (dsize kvs) {..<r} = ?s + sum (dsize kvs) {Suc i..<r}"
      using sum_split [of 0 "Suc i" r "dsize kvs"] ir by (simp add: atLeast0LessThan lessThan_Suc_atMost)
    with r(3) have z: "sum (dsize kvs) {Suc i..<r} = 0" by linarith
    have "sum (dsize kvs) {..r} = sum (dsize kvs) {..<r} + dsize kvs r" by (metis lessThan_Suc_atMost sum.lessThan_Suc)
    with r(3,4) have "dsize kvs r \<noteq> 0" by linarith
    with ir r(1,2) z eq True show ?thesis by (intro exI [of _ "int r"]) auto
  qed
qed

end
