(* ===== verification/Kvstore_Scan.thy ===== *)
theory Kvstore_Scan
  imports Kvstore_Main
begin

section \<open>Key-value stores: iteration with a cursor\<close>

text \<open>
  The cursor of \<open>kvstoreScan\<close> holds the index of a dictionary in its low bits and the cursor of that
  dictionary above them.  Its place on the line is the index first, then the place of the
  dictionary's cursor.
\<close>

lemma pos_dvd_less:
  assumes "2 ^ (64 - E) dvd pos v" "E \<le> 64"
  shows "unat v < 2 ^ E"
proof -
  have z: "\<not> bit v j" if "E \<le> j" for j
  proof (cases "j < 64")
    case True
    then have "bit v j \<longleftrightarrow> bit (rev v) (63 - j)" using bit_rev [of "63 - j" v] by simp
    also have "\<dots> \<longleftrightarrow> bit (pos v) (63 - j)" by (simp add: pos_def bit_unsigned_iff)
    also have "\<not> \<dots>"
    proof -
      have "take_bit (64 - E) (pos v) = 0" using assms(1) by (simp add: take_bit_eq_mod)
      moreover have "63 - j < 64 - E" using that True by simp
      ultimately show ?thesis by (metis bit_0_eq bit_take_bit_iff bot_fun_def bot_bool_def)
    qed
    finally show ?thesis .
  qed (use bit_imp_le_length [of v j] in auto)
  have "take_bit E v = v" using z not_le by (intro bit_eqI) (auto simp: bit_take_bit_iff)
  then have "unat v = take_bit E (unat v)" by (metis unsigned_take_bit_eq)
  then show ?thesis by (metis take_bit_nat_less_exp)
qed

definition cursor_dict :: "nat \<Rightarrow> 64 word \<Rightarrow> nat" where
  "cursor_dict b c = unat c mod 2 ^ b"

definition cursor_place :: "nat \<Rightarrow> 64 word \<Rightarrow> nat" where
  "cursor_place b c = cursor_dict b c * 2 ^ 64 + pos (drop_bit b c)"

lemma getAndClear_correct:
  assumes "num_dicts kvs = 2 ^ b" "num_dicts_bits kvs = b" "b \<le> 16"
  shows "getAndClearDictIndexFromCursor kvs c = (cursor_dict b c, drop_bit b c)"
proof (cases "b = 0")
  case True
  with assms show ?thesis by (simp add: getAndClearDictIndexFromCursor_def cursor_dict_def)
next
  case False
  have "(of_nat (2 ^ b) :: 64 word) - 1 = mask b" by (simp add: mask_eq_exp_minus_1)
  then have "unat (c AND (of_nat (2 ^ b) - 1)) = unat c mod 2 ^ b"
    by (metis take_bit_eq_mask take_bit_eq_mod unsigned_take_bit_eq)
  then show ?thesis using False assms by (simp add: getAndClearDictIndexFromCursor_def cursor_dict_def)
qed

lemma addDictIndex_correct:
  assumes n: "num_dicts kvs = 2 ^ b" "num_dicts_bits kvs = b" "b \<le> 16" and j: "j < 2 ^ b"
    and v: "unat v < 2 ^ E" "E + b \<le> 64"
  shows "cursor_dict b (addDictIndexToCursor kvs (int j) v) = j" "drop_bit b (addDictIndexToCursor kvs (int j) v) = v"
    "addDictIndexToCursor kvs (int j) v = 0 \<longleftrightarrow> j = 0 \<and> v = 0"
proof -
  let ?c = "addDictIndexToCursor kvs (int j) v"
  have "(2 :: nat) ^ b \<le> 2 ^ 64" using n(3) by (intro power_increasing) simp_all
  with j have j64: "j < 2 ^ 64" by (rule less_le_trans)
  have c: "?c = push_bit b v OR of_nat j"
    using j by (cases "b = 0") (simp_all add: addDictIndexToCursor_def n)
  have bj: "bit (of_nat j :: 64 word) i \<longleftrightarrow> i < b \<and> bit j i" for i
  proof -
    have "take_bit b j = j" using j by (simp add: take_bit_nat_eq_self)
    then have "bit j i \<Longrightarrow> i < b" by (metis bit_take_bit_iff)
    with n(3) show ?thesis by (auto simp: bit_of_nat_iff)
  qed
  have bv: "bit v i \<Longrightarrow> b + i < 64" for i
  proof -
    assume "bit v i"
    then have "bit (unat v) i" by (simp add: bit_unsigned_iff)
    moreover have "take_bit E (unat v) = unat v" using v(1) by (simp add: take_bit_nat_eq_self)
    ultimately have "i < E" by (metis bit_take_bit_iff)
    with v(2) show ?thesis by simp
  qed
  show d: "drop_bit b ?c = v"
  proof (rule bit_eqI)
    fix i
    show "bit (drop_bit b ?c) i = bit v i"
      unfolding c using bj [of "b + i"] bv [of i] by (auto simp: bit_drop_bit_eq bit_or_iff bit_push_bit_iff)
  qed
  have "take_bit b ?c = of_nat j"
  proof (rule bit_eqI)
    fix i
    show "bit (take_bit b ?c) i = bit (of_nat j :: 64 word) i"
      unfolding c using bj [of i] by (auto simp: bit_take_bit_iff bit_or_iff bit_push_bit_iff)
  qed
  then have "unat (take_bit b ?c) = j" using unat_of_nat64 [OF j64] by simp
  then show m: "cursor_dict b ?c = j" unfolding cursor_dict_def by (metis take_bit_eq_mod unsigned_take_bit_eq)
  show "?c = 0 \<longleftrightarrow> j = 0 \<and> v = 0" using d m c by (auto simp: cursor_dict_def)
qed


subsection \<open>One call\<close>

definition kv_exps :: "nat \<Rightarrow> ('k, 'v) kvstore \<Rightarrow> bool" where
  "kv_exps E kvs \<longleftrightarrow> (\<forall>d. Some d \<in> set (dicts kvs) \<longrightarrow> exps_le E d)"

text \<open>The entries of a store, each with the index of its dictionary.\<close>

definition kv_entries :: "('k, 'v) kvstore \<Rightarrow> (nat \<times> 'k \<times> 'v option) set" where
  "kv_entries kvs = {(i, e). i < num_dicts kvs \<and> (\<exists>d. dicts kvs ! i = Some d \<and> e \<in> set (entries d))}"

definition kv_home :: "'k dict_env \<Rightarrow> nat \<times> 'k \<Rightarrow> nat" where
  "kv_home env ik = fst ik * 2 ^ 64 + pos (hashFunction env (snd ik))"

definition kv_key :: "nat \<times> 'k \<times> 'v option \<Rightarrow> nat \<times> 'k" where
  "kv_key x = (fst x, fst (snd x))"

lemma kv_keys: assumes "kv_inv env kvs" shows "kv_key ` kv_entries kvs = {(i, k). k \<in> dom (kv_map kvs i)}"
proof (rule set_eqI)
  fix ik :: "nat \<times> 'a"
  obtain i k where ik: "ik = (i, k)" by (cases ik)
  show "ik \<in> kv_key ` kv_entries kvs \<longleftrightarrow> ik \<in> {(i, k). k \<in> dom (kv_map kvs i)}"
  proof (cases "i < num_dicts kvs")
    case True
    have "(i, k) \<in> kv_key ` kv_entries kvs \<longleftrightarrow> (\<exists>d. dicts kvs ! i = Some d \<and> k \<in> fst ` set (entries d))"
      using True by (force simp: kv_key_def kv_entries_def)
    also have "\<dots> \<longleftrightarrow> k \<in> dom (kv_map kvs i)"
      by (auto simp: kv_map_dict [OF assms True] map_dom_entries [symmetric] split: option.splits)
    finally show ?thesis by (simp add: ik)
  next
    case False
    then have "kv_map kvs i = Map.empty" using kv_inv_len [OF assms] by (simp add: kv_map_def)
    moreover have "(i, k) \<notin> kv_key ` kv_entries kvs" using False by (auto simp: kv_key_def kv_entries_def)
    ultimately show ?thesis by (simp add: ik)
  qed
qed

text \<open>
  The end of a call: with \<open>v = 0\<close> the iteration goes on at the next dictionary that is not empty.
\<close>

lemma scan_next:
  fixes kvs :: "('k, 'v) kvstore" and es :: "('k, 'v) bucket"
  assumes kv: "kv_inv env kvs" "kv_total kvs < 2 ^ 64 - 1" and n: "num_dicts_bits kvs = b" "E + b \<le> 64"
    and j: "j < num_dicts kvs"
  shows "\<exists>c'. do { next' \<leftarrow> kvstoreGetNextNonEmptyDictIndex kvs j;
      if next' = -1 then Some (kvs, 0, es) else Some (kvs, addDictIndexToCursor kvs next' 0, es) } = Some (kvs, c', es)
    \<and> (c' = 0 \<or> (j < cursor_dict b c' \<and> drop_bit b c' = 0))
    \<and> (\<forall>i. j < i \<and> (c' = 0 \<or> i < cursor_dict b c') \<longrightarrow> kv_map kvs i = Map.empty)"
proof -
  have sh: "num_dicts kvs = 2 ^ b" "b \<le> 16" using kv(1) n(1) by (auto simp: kv_inv_def kv_base_def kv_shape_def)
  have empty: "kv_map kvs i = Map.empty" if "i < num_dicts kvs \<Longrightarrow> dsize kvs i = 0" for i
  proof (cases "i < num_dicts kvs")
    case True
    then have "card (dom (kv_map kvs i)) = 0" using that dsize_card [OF kv(1)] by simp
    moreover have "finite (dom (kv_map kvs i))"
      using kv_map_dict [OF kv(1) True] by (auto simp: dict_map_def finite_dom_map_of split: option.splits)
    ultimately show ?thesis by simp
  qed (use kv_inv_len [OF kv(1)] in \<open>simp add: kv_map_def\<close>)
  from kvstoreGetNextNonEmptyDictIndex_correct [OF kv(1) j kv(2)] obtain r where
    r: "kvstoreGetNextNonEmptyDictIndex kvs j = Some r"
      "r = -1 \<and> (\<forall>i. j < i \<and> i < num_dicts kvs \<longrightarrow> dsize kvs i = 0)
       \<or> (\<exists>i. r = int i \<and> j < i \<and> i < num_dicts kvs \<and> dsize kvs i \<noteq> 0 \<and> (\<forall>i'. j < i' \<and> i' < i \<longrightarrow> dsize kvs i' = 0))"
    by blast
  show ?thesis
  proof (cases "r = -1")
    case True
    with r empty show ?thesis by (intro exI [of _ 0]) auto
  next
    case False
    with r(2) obtain i where i: "r = int i" "j < i" "i < 2 ^ b" "\<forall>i'. j < i' \<and> i' < i \<longrightarrow> dsize kvs i' = 0"
      using sh(1) by auto
    note c = addDictIndex_correct [OF sh(1) n(1) sh(2) i(3), of 0 E]
    have "cursor_dict b (addDictIndexToCursor kvs r 0) = i" "drop_bit b (addDictIndexToCursor kvs r 0) = 0"
      "addDictIndexToCursor kvs r 0 \<noteq> 0" using c n(2) i(1,2) by simp_all
    with r(1) False i(2,4) empty show ?thesis by (intro exI [of _ "addDictIndexToCursor kvs r 0"]) auto
  qed
qed

definition kv_scan_call ::
  "nat al_env \<Rightarrow> ('k, 'v) kvstore \<Rightarrow> 64 word \<Rightarrow> (64 word \<times> (nat \<times> 'k \<times> 'v option) list) option" where
  "kv_scan_call al kvs c = map_option (\<lambda>(kvs', c', es).
     (c', map (Pair (fst (getAndClearDictIndexFromCursor kvs c))) es)) (kvstoreScan al kvs c (-1) None)"

definition kv_scan_ok :: "nat al_env \<Rightarrow> 'k dict_env \<Rightarrow> nat \<Rightarrow> nat \<Rightarrow> ('k, 'v) kvstore \<Rightarrow> bool" where
  "kv_scan_ok al env b E kvs \<longleftrightarrow> kv_alloc al \<and> E + b \<le> 64 \<and> kv_inv env kvs \<and> num_dicts_bits kvs = b
     \<and> kv_total kvs < 2 ^ 64 - 1 \<and> kv_exps E kvs"

lemma lex_le: "a * M + x \<le> i * M + y \<Longrightarrow> y < M \<Longrightarrow> a < i \<or> a = i \<and> x \<le> (y :: nat)"
proof (cases a i rule: linorder_cases)
  case greater
  assume le: "a * M + x \<le> i * M + y" "y < M"
  have "Suc i * M \<le> a * M" using greater by (intro mult_le_mono1) simp
  with le show ?thesis by simp
qed auto

lemma lex_less: "i * M + y < a * M + x \<Longrightarrow> x < M \<Longrightarrow> i < a \<or> i = a \<and> y < (x :: nat)"
proof (cases a i rule: linorder_cases)
  case less
  assume le: "i * M + y < a * M + x" "x < M"
  have "Suc a * M \<le> i * M" using less by (intro mult_le_mono1) simp
  with le show ?thesis by simp
qed auto

lemma kvstoreScan_cases:
  fixes kvs :: "('k, 'v) kvstore"
  assumes ok: "kv_scan_ok al env b E kvs" and c: "2 ^ (64 - E) dvd pos (drop_bit b c)"
  shows "\<exists>kvs' c' es. kvstoreScan al kvs c (-1) None = Some (kvs', c', es) \<and> kv_step env kvs kvs'
    \<and> (\<forall>e \<in> set es. (cursor_dict b c, e) \<in> kv_entries kvs)
    \<and> ((c' = 0 \<or> cursor_dict b c < cursor_dict b c' \<and> drop_bit b c' = 0)
         \<and> (\<forall>e. (cursor_dict b c, e) \<in> kv_entries kvs \<and> pos (drop_bit b c) \<le> pos (hashFunction env (fst e)) \<longrightarrow> e \<in> set es)
         \<and> (\<forall>i. cursor_dict b c < i \<and> (c' = 0 \<or> i < cursor_dict b c') \<longrightarrow> kv_map kvs i = Map.empty)
       \<or> c' \<noteq> 0 \<and> cursor_dict b c' = cursor_dict b c \<and> pos (drop_bit b c) < pos (drop_bit b c')
         \<and> 2 ^ (64 - E) dvd pos (drop_bit b c')
         \<and> (\<forall>e. (cursor_dict b c, e) \<in> kv_entries kvs \<and> pos (drop_bit b c) \<le> pos (hashFunction env (fst e))
              \<and> pos (hashFunction env (fst e)) < pos (drop_bit b c') \<longrightarrow> e \<in> set es))"
proof -
  let ?j = "cursor_dict b c" and ?v = "drop_bit b c"
  have kv: "kv_inv env kvs" "kv_alloc al" "E + b \<le> 64" "num_dicts_bits kvs = b" "kv_total kvs < 2 ^ 64 - 1"
    "kv_exps E kvs" using ok by (simp_all add: kv_scan_ok_def)
  have sh: "num_dicts kvs = 2 ^ b" "b \<le> 16" using kv(1,4) by (auto simp: kv_inv_def kv_base_def kv_shape_def)
  have j: "?j < num_dicts kvs" by (simp add: cursor_dict_def sh)
  note gc = getAndClear_correct [OF sh(1) kv(4) sh(2)] and g = kv_inv_get [OF kv(1) j]
  show ?thesis
  proof (cases "dicts kvs ! ?j")
    case None
    then have ne: "(?j, e) \<notin> kv_entries kvs" for e by (simp add: kv_entries_def)
    from scan_next [OF kv(1,5,4,3) j, of "[]"] obtain c' where
      c': "do { next' \<leftarrow> kvstoreGetNextNonEmptyDictIndex kvs ?j;
        if next' = -1 then Some (kvs, 0, [] :: ('k, 'v) bucket) else Some (kvs, addDictIndexToCursor kvs next' 0, []) }
        = Some (kvs, c', [])"
        "c' = 0 \<or> (?j < cursor_dict b c' \<and> drop_bit b c' = 0)"
        "\<forall>i. ?j < i \<and> (c' = 0 \<or> i < cursor_dict b c') \<longrightarrow> kv_map kvs i = Map.empty" by blast
    have "kvstoreScan al kvs c (-1) None = Some (kvs, c', [])"
      using c'(1) None g by (simp add: kvstoreScan_def gc)
    with c'(2,3) ne kv_step_refl [OF kv(1)] show ?thesis
      by (intro exI [of _ kvs] exI [of _ c'] exI [of _ "[]"]) simp
  next
    case (Some d)
    have d: "dict_wf env d" using kv_inv_dict [OF kv(1) j Some] by (simp add: kv_dict_ok_def)
    have "exps_le E d" using kv(6) Some j kv_inv_len [OF kv(1)] by (metis kv_exps_def nth_mem)
    with dictScan_correct [OF d, of ?v E] obtain v' es where
      s: "dictScan d ?v = Some (d, v', es)" "set es \<subseteq> set (entries d)" "v' = 0 \<or> pos ?v < pos v'"
        "\<forall>x \<in> set (entries d). pos ?v \<le> pos (hashFunction env (fst x))
         \<and> (v' = 0 \<or> pos (hashFunction env (fst x)) < pos v') \<longrightarrow> x \<in> set es" "2 ^ (64 - E) dvd pos v'" by blast
    have en: "(?j, e) \<in> kv_entries kvs \<longleftrightarrow> e \<in> set (entries d)" for e using j Some by (simp add: kv_entries_def)
    from put_dict_step [OF kv(1,2) j Some dict_step_refl [OF d]] obtain k1 where
      k1: "put_dict al kvs ?j d = Some k1" "kv_step env kvs k1" by blast
    have i1: "kv_inv env k1" "?j < num_dicts k1" using k1(2) j by (simp_all add: kv_step_def same_conf_def)
    from freeDictIfNeeded_step [OF i1(1) kv(2) i1(2)] obtain k2 where
      k2: "freeDictIfNeeded al k1 ?j = Some k2" "kv_step env k1 k2" by blast
    have st: "kv_step env kvs k2" by (rule kv_step_trans [OF k1(2) k2(2)])
    then have i2: "kv_inv env k2" "kv_total k2 < 2 ^ 64 - 1" "num_dicts_bits k2 = b" "?j < num_dicts k2"
      "num_dicts k2 = 2 ^ b" "kv_map k2 = kv_map kvs"
      using kv_step_total [OF kv(1) st] kv(4,5) j sh(1) by (simp_all add: kv_step_def same_conf_def)
    have sound: "\<forall>e \<in> set es. (?j, e) \<in> kv_entries kvs" using s(2) en by auto
    show ?thesis
    proof (cases "v' = 0")
      case True
      from scan_next [OF i2(1,2,3) kv(3) i2(4), of es] obtain c' where
        c': "do { next' \<leftarrow> kvstoreGetNextNonEmptyDictIndex k2 ?j;
          if next' = -1 then Some (k2, 0, es) else Some (k2, addDictIndexToCursor k2 next' 0, es) } = Some (k2, c', es)"
          "c' = 0 \<or> (?j < cursor_dict b c' \<and> drop_bit b c' = 0)"
          "\<forall>i. ?j < i \<and> (c' = 0 \<or> i < cursor_dict b c') \<longrightarrow> kv_map kvs i = Map.empty" unfolding i2(6) by blast
      have "kvstoreScan al kvs c (-1) None = Some (k2, c', es)"
        using c'(1) Some g s(1) k1(1) k2(1) True by (simp add: kvstoreScan_def gc)
      with c'(2,3) st sound s(4) en True show ?thesis
        by (intro exI [of _ k2] exI [of _ c'] exI [of _ es]) simp
    next
      case False
      have "unat v' < 2 ^ E" by (rule pos_dvd_less [OF s(5)]) (use kv(3) in simp)
      note a = addDictIndex_correct [OF i2(5,3) sh(2) _ this kv(3), of ?j]
      let ?c' = "addDictIndexToCursor k2 (int ?j) v'"
      have c': "cursor_dict b ?c' = ?j" "drop_bit b ?c' = v'" "?c' \<noteq> 0" using a False i2(4,5) by simp_all
      have "kvstoreScan al kvs c (-1) None = Some (k2, ?c', es)"
        using False Some g s(1) k1(1) k2(1) by (simp add: kvstoreScan_def gc)
      with c' st sound s(3,4,5) en False show ?thesis
        by (intro exI [of _ k2] exI [of _ ?c'] exI [of _ es]) simp
    qed
  qed
qed

lemma kv_entries_nonempty: "kv_inv env kvs \<Longrightarrow> (i, e) \<in> kv_entries kvs \<Longrightarrow> kv_map kvs i \<noteq> Map.empty"
proof
  assume kv: "kv_inv env kvs" and e: "(i, e) \<in> kv_entries kvs" and em: "kv_map kvs i = Map.empty"
  have "(i, fst e) \<in> kv_key ` kv_entries kvs" using e by (force simp: kv_key_def)
  with em show False unfolding kv_keys [OF kv] by simp
qed

interpretation kv_scan: cursor_scan "kv_scan_call al" 0 "kv_scan_ok al env b E" kv_entries kv_key "kv_home env"
  "cursor_place b" "\<lambda>c. 2 ^ (64 - E) dvd pos (drop_bit b c)" "2 ^ (64 - E)" "2 ^ b * 2 ^ E"
  for al env b E
proof (unfold_locales, goal_cases)
  case (3 c)
  have "cursor_dict b c + 1 \<le> 2 ^ b" by (simp add: cursor_dict_def Suc_leI)
  then have "(cursor_dict b c + 1) * 2 ^ 64 \<le> 2 ^ b * (2 ^ E * 2 ^ (64 - E))" using blocks_le by (rule mult_le_mono)
  with pos_less [of "drop_bit b c"] show ?case by (simp add: cursor_place_def mult.assoc)
next
  case (4 kvs c)
  let ?j = "cursor_dict b c" and ?v = "drop_bit b c"
  have kv: "kv_inv env kvs" "num_dicts kvs = 2 ^ b" "num_dicts_bits kvs = b" "b \<le> 16" "E \<le> 64"
    using 4(1) by (auto simp: kv_scan_ok_def kv_inv_def kv_base_def kv_shape_def)
  from kvstoreScan_cases [OF 4] obtain kvs' c' es where
    s: "kvstoreScan al kvs c (-1) None = Some (kvs', c', es)" "\<forall>e \<in> set es. (?j, e) \<in> kv_entries kvs"
     "((c' = 0 \<or> ?j < cursor_dict b c' \<and> drop_bit b c' = 0)
         \<and> (\<forall>e. (?j, e) \<in> kv_entries kvs \<and> pos ?v \<le> pos (hashFunction env (fst e)) \<longrightarrow> e \<in> set es)
         \<and> (\<forall>i. ?j < i \<and> (c' = 0 \<or> i < cursor_dict b c') \<longrightarrow> kv_map kvs i = Map.empty)
       \<or> c' \<noteq> 0 \<and> cursor_dict b c' = ?j \<and> pos ?v < pos (drop_bit b c')
         \<and> 2 ^ (64 - E) dvd pos (drop_bit b c')
         \<and> (\<forall>e. (?j, e) \<in> kv_entries kvs \<and> pos ?v \<le> pos (hashFunction env (fst e))
              \<and> pos (hashFunction env (fst e)) < pos (drop_bit b c') \<longrightarrow> e \<in> set es))" (is "?next \<or> ?stay") by blast
  have call: "kv_scan_call al kvs c = Some (c', map (Pair ?j) es)"
    using s(1) getAndClear_correct [OF kv(2,3,4)] by (simp add: kv_scan_call_def)
  have good: "2 ^ (64 - E) dvd pos (drop_bit b c')" using s(3) by auto
  have forward: "c' = 0 \<or> cursor_place b c + 2 ^ (64 - E) \<le> cursor_place b c'"
    using s(3)
  proof
    assume n: ?next
    have "pos ?v + 2 ^ (64 - E) \<le> 2 ^ 64"
      by (rule dvd_step [OF 4(2) _ pos_less]) (rule le_imp_power_dvd, simp)
    moreover have "Suc ?j * 2 ^ 64 \<le> cursor_dict b c' * 2 ^ 64" if "c' \<noteq> 0" using n that by (intro mult_le_mono1) auto
    ultimately show ?thesis by (cases "c' = 0") (auto simp: cursor_place_def)
  next
    assume ?stay
    then show ?thesis using dvd_step [OF 4(2) good] by (simp add: cursor_place_def)
  qed
  have "x \<in> set (map (Pair ?j) es)"
    if x: "x \<in> kv_entries kvs" "cursor_place b c \<le> kv_home env (kv_key x)" "c' = 0 \<or> kv_home env (kv_key x) < cursor_place b c'" for x
  proof -
    obtain i e where ie: "x = (i, e)" by (cases x)
    let ?h = "pos (hashFunction env (fst e))"
    have le: "?j < i \<or> ?j = i \<and> pos ?v \<le> ?h"
      using x(2) by (intro lex_le [OF _ pos_less]) (simp add: ie cursor_place_def kv_home_def kv_key_def)
    have lt: "c' = 0 \<or> i < cursor_dict b c' \<or> i = cursor_dict b c' \<and> ?h < pos (drop_bit b c')"
    proof (cases "c' = 0")
      case False
      with x(3) have "i * 2 ^ 64 + ?h < cursor_dict b c' * 2 ^ 64 + pos (drop_bit b c')"
        by (simp add: ie cursor_place_def kv_home_def kv_key_def)
      from lex_less [OF this pos_less] show ?thesis by blast
    qed simp
    have ne: "kv_map kvs i \<noteq> Map.empty" using kv_entries_nonempty [OF kv(1)] x(1) ie by simp
    have "?j = i \<and> e \<in> set es" using s(3)
    proof
      assume n: ?next
      then have "c' = 0 \<or> i < cursor_dict b c'" using lt by auto
      with n ne have "\<not> ?j < i" by blast
      with le n x(1) show ?thesis unfolding ie by blast
    next
      assume st: ?stay
      with lt le have "?j = i" "?h < pos (drop_bit b c')" "pos ?v \<le> ?h" by auto
      with st x(1) show ?thesis unfolding ie by blast
    qed
    then show ?thesis by (simp add: ie)
  qed
  with call good forward s(2) show ?case by (intro exI [of _ c'] exI [of _ "map (Pair ?j) es"]) auto
qed (simp_all add: cursor_place_def cursor_dict_def)

end
