(* ===== verification/Kvstore_Results.thy ===== *)
theory Kvstore_Results
  imports Kvstore_Scan
begin

section \<open>Key-value stores: main results\<close>

text \<open>
  The stores that can be reached from a new one by the operations of \<^verbatim>\<open>kvstore.c\<close>, and what
  holds of all of them; the positions of keys; the guarantee of an iteration with a cursor; and the
  buckets that the counters still include after a dictionary has been freed.
\<close>

declare of_nat_sum [simp del]

lemma kvstoreScan_step:
  fixes kvs :: "('k, 'v) kvstore"
  assumes kv: "kv_inv env kvs" "kv_total kvs < 2 ^ 64 - 1" and al: "kv_alloc al" and o: "onlydidx < int (num_dicts kvs)"
  shows "\<exists>kvs' c' es. kvstoreScan al kvs c onlydidx skip_cb = Some (kvs', c', es) \<and> kv_step env kvs kvs'"
proof -
  define b where "b = num_dicts_bits kvs"
  have sh: "num_dicts kvs = 2 ^ b" "num_dicts_bits kvs = b" "b \<le> 16"
    using kv(1) by (auto simp: b_def kv_inv_def kv_base_def kv_shape_def)
  note gc = getAndClear_correct [OF sh]
  show ?thesis
  proof (cases "onlydidx \<ge> 0 \<and> int (cursor_dict b c) > onlydidx")
    case True
    then show ?thesis using kv_step_refl [OF kv(1)] by (simp add: kvstoreScan_def gc)
  next
    case False
    obtain j v where jv: "(if onlydidx \<ge> 0 \<and> int (cursor_dict b c) < onlydidx
        then (if onlydidx < int (num_dicts kvs) then Some (nat onlydidx, 0) else None)
        else Some (cursor_dict b c, drop_bit b c)) = Some (j, v :: 64 word)" "j < num_dicts kvs"
      using o by (cases "onlydidx \<ge> 0 \<and> int (cursor_dict b c) < onlydidx") (auto simp: cursor_dict_def sh(1))
    have fin: "\<exists>kvs' c'. (if w = 0 \<or> skip then
          (if onlydidx \<ge> 0 then Some (k, 0, es)
           else do { next' \<leftarrow> kvstoreGetNextNonEmptyDictIndex k j;
                     if next' = -1 then Some (k, 0, es) else Some (k, addDictIndexToCursor k next' w, es) })
          else Some (k, addDictIndexToCursor k (int j) w, es)) = Some (kvs', c', es) \<and> kv_step env kvs kvs'"
      if st: "kv_step env kvs k" for k w skip and es :: "('k, 'v) bucket"
    proof -
      have "kv_inv env k" "j < num_dicts k" "kv_total k < 2 ^ 64 - 1"
        using st jv(2) kv_step_total [OF kv(1) st] kv(2) by (simp_all add: kv_step_def same_conf_def)
      from kvstoreGetNextNonEmptyDictIndex_correct [OF this] obtain r where
        "kvstoreGetNextNonEmptyDictIndex k j = Some r" by blast
      with st show ?thesis by auto
    qed
    note g = kv_inv_get [OF kv(1) jv(2)]
    show ?thesis
    proof (cases "dicts kvs ! j")
      case None
      with fin [OF kv_step_refl [OF kv(1)], of 0 True "[]"] False jv(1) g show ?thesis
        unfolding kvstoreScan_def gc by auto
    next
      case (Some d)
      have d: "dict_wf env d" using kv_inv_dict [OF kv(1) jv(2) Some] by (simp add: kv_dict_ok_def)
      show ?thesis
      proof (cases "case skip_cb of None \<Rightarrow> False | Some f \<Rightarrow> f d")
        case True
        with fin [OF kv_step_refl [OF kv(1)], of 0 True "[]"] False jv(1) g Some show ?thesis
          unfolding kvstoreScan_def gc by auto
      next
        case ns: False
        from dictScan_correct [OF d, of v] obtain w es where s: "dictScan d v = Some (d, w, es)" by blast
        from put_dict_step [OF kv(1) al jv(2) Some dict_step_refl [OF d]] obtain k1 where
          k1: "put_dict al kvs j d = Some k1" "kv_step env kvs k1" by blast
        then have "kv_inv env k1" "j < num_dicts k1" using jv(2) by (simp_all add: kv_step_def same_conf_def)
        from freeDictIfNeeded_step [OF this(1) al this(2)] obtain k2 where
          k2: "freeDictIfNeeded al k1 j = Some k2" "kv_step env k1 k2" by blast
        from fin [OF kv_step_trans [OF k1(2) k2(2)], of w False es] kv_step_trans [OF k1(2) k2(2)]
          False jv(1) g Some ns s k1(1) k2(1) show ?thesis
          unfolding kvstoreScan_def gc by auto
      qed
    qed
  qed
qed

subsection \<open>Reachable stores\<close>

inductive kv_next :: "'k dict_env \<Rightarrow> nat al_env \<Rightarrow> ('k, 'v) kvstore \<Rightarrow> ('k, 'v) kvstore \<Rightarrow> bool"
  for env al where
  add_raw: "\<lbrakk>i < num_dicts k; kv_total k < 2 ^ 64 - 1; kvstoreDictAddRaw env al k i key = Some (k', r)\<rbrakk> \<Longrightarrow> kv_next env al k k'"
| set_val: "\<lbrakk>i < num_dicts k; \<not> no_value env; kv_entry k i ref = Some (key, old);
    kvstoreDictSetVal env al k i ref val = Some k'\<rbrakk> \<Longrightarrow> kv_next env al k k'"
| delete: "\<lbrakk>i < num_dicts k; kvstoreDictDelete env al k i key = Some (k', found)\<rbrakk> \<Longrightarrow> kv_next env al k k'"
| unlink_find: "\<lbrakk>i < num_dicts k; kvstoreDictTwoPhaseUnlinkFind env al k i key = Some (k', he)\<rbrakk> \<Longrightarrow> kv_next env al k k'"
| unlink_free: "\<lbrakk>i < num_dicts k; kv_entry k i ref = Some (key, old);
    kvstoreDictTwoPhaseUnlinkFree env al k i (Some ref) = Some k'\<rbrakk> \<Longrightarrow> kv_next env al k k'"
| find: "\<lbrakk>i < num_dicts k; kvstoreDictFind env al k i key = Some (k', de)\<rbrakk> \<Longrightarrow> kv_next env al k k'"
| fetch: "\<lbrakk>i < num_dicts k; kvstoreDictFetchValue env al k i key = Some (k', v)\<rbrakk> \<Longrightarrow> kv_next env al k k'"
| dict_expand: "\<lbrakk>i < num_dicts k; kvstoreDictExpand al k i sz = Some (k', ok)\<rbrakk> \<Longrightarrow> kv_next env al k k'"
| expand: "kvstoreExpand al oks k sz try_expand skip_cb' = Some (k', ok) \<Longrightarrow> kv_next env al k k'"
| try_resize: "kvstoreTryResizeDicts env al k limit = Some k' \<Longrightarrow> kv_next env al k k'"
| rehash: "kvstoreIncrementallyRehash env al clock k = Some k' \<Longrightarrow> kv_next env al k k'"
| scan: "\<lbrakk>onlydidx < int (num_dicts k); kv_total k < 2 ^ 64 - 1;
    kvstoreScan al k c onlydidx skip_cb = Some (k', c', es)\<rbrakk> \<Longrightarrow> kv_next env al k k'"
| empty: "kvstoreEmpty al k = Some k' \<Longrightarrow> kv_next env al k k'"

lemma kv_next_inv:
  assumes "kv_next env al k k'" "kv_inv env k" "kv_alloc al"
  shows "kv_inv env k' \<and> same_conf k k'"
  using assms(1)
proof cases
  case (add_raw i key r)
  with kvstoreDictAddRaw_correct [OF assms(2,3) add_raw(1,2), of key] show ?thesis by auto
next
  case (set_val i ref key old val)
  with kvstoreDictSetVal_correct [OF assms(2,3) set_val(1,3,2), of val] show ?thesis by auto
next
  case (delete i key found)
  with kvstoreDictDelete_correct [OF assms(2,3) delete(1), of key] show ?thesis by auto
next
  case (unlink_find i key he)
  with kvstoreDictTwoPhaseUnlinkFind_correct [OF assms(2,3) unlink_find(1), of key] show ?thesis by (auto simp: kv_step_def)
next
  case (unlink_free i ref key old)
  with kvstoreDictTwoPhaseUnlinkFree_correct [OF assms(2,3) unlink_free(1,2)] show ?thesis by auto
next
  case (find i key de)
  with kvstoreDictFind_correct [OF assms(2,3) find(1), of key] show ?thesis by (auto simp: kv_step_def)
next
  case (fetch i key v)
  with kvstoreDictFetchValue_correct [OF assms(2,3) fetch(1), of key] show ?thesis by (auto simp: kv_step_def)
next
  case (dict_expand i sz ok)
  with kvstoreDictExpand_correct [OF assms(2,3) dict_expand(1), of sz] show ?thesis by (auto simp: kv_step_def)
next
  case (expand oks sz try_expand skip_cb' ok)
  with kvstoreExpand_correct [OF assms(2,3), of oks sz try_expand skip_cb'] show ?thesis by (auto simp: kv_step_def)
next
  case (try_resize limit)
  with kvstoreTryResizeDicts_correct [OF assms(2,3), of limit] show ?thesis by (auto simp: kv_step_def)
next
  case (rehash clock)
  with kvstoreIncrementallyRehash_correct [OF assms(3,2), of clock] show ?thesis by (auto simp: kv_step_def)
next
  case (scan onlydidx c skip_cb c' es)
  with kvstoreScan_step [OF assms(2) scan(2) assms(3) scan(1), of c skip_cb] show ?thesis by (auto simp: kv_step_def)
next
  case empty
  with kvstoreEmpty_correct [OF assms(2), of al] show ?thesis by auto
qed

lemma kv_reach_inv:
  assumes "(kv_next env al)\<^sup>*\<^sup>* k k'" "kv_inv env k" "kv_alloc al"
  shows "kv_inv env k' \<and> same_conf k k'"
  using assms(1)
proof (induction rule: rtranclp_induct)
  case (step y z)
  with kv_next_inv [OF step(2)] assms(3) same_conf_trans show ?case by blast
qed (simp add: assms(2))

lemma dictBuckets_tabs: "kv_dict_ok env d \<Longrightarrow> dictBuckets d = fst (tabs d) + second (tabs d)"
  using dict_wf_not_rehashing(2) [of env d]
  by (auto simp: dictBuckets_def tabs_def second_def kv_dict_ok_def DICTHT_SIZE_def)

lemma kv_rehashing_count:
  assumes "kv_inv env k"
  shows "unat (kvstoreDictRehashingCount k) = card {i. i < num_dicts k \<and> (\<exists>d. dicts k ! i = Some d \<and> dictIsRehashing d)}"
proof -
  from assms obtain ns where rl: "rehash_list k (dtabs k) ns" unfolding kv_inv_def kv_base_def by blast
  have eq: "snd ` set ns = {i. i < num_dicts k \<and> (\<exists>d. dicts k ! i = Some d \<and> dictIsRehashing d)}"
    using rl by (auto simp: rehash_list_def dtabs_def tabs_def split: option.splits if_splits)
  have "card (snd ` set ns) = length ns" using rl by (metis distinct_card length_map list.set_map rehash_list_def)
  moreover have "card (snd ` set ns) \<le> card {..<num_dicts k}" unfolding eq by (rule card_mono) auto
  ultimately have len: "length ns = card (snd ` set ns)" "length ns < 2 ^ 64" using kv_inv_max [OF assms] by simp_all
  have "len (rehashing k) = of_nat (length ns)" using rl by (simp add: rehash_list_def list_rep_def)
  with unat_of_nat64 [OF len(2)] len(1) eq show ?thesis by (simp add: kvstoreDictRehashingCount_def)
qed

lemma kv_map_finite: "finite (dom (kv_map k i))"
  by (auto simp: kv_map_def dict_map_def finite_dom_map_of split: option.splits)

lemma kv_nonempty_count:
  assumes "kv_inv env k"
  shows "kvstoreNumNonEmptyDicts k = int (card {i. kv_map k i \<noteq> Map.empty})"
proof -
  have "{i. i < num_dicts k \<and> dsize k i \<noteq> 0} = {i. kv_map k i \<noteq> Map.empty}"
  proof (rule set_eqI)
    fix i
    have "kv_map k i = Map.empty" if "\<not> i < num_dicts k" using that kv_inv_len [OF assms] by (simp add: kv_map_def)
    moreover have "dsize k i = 0 \<longleftrightarrow> kv_map k i = Map.empty" if "i < num_dicts k"
      using dsize_card [OF assms that] kv_map_finite [of k i] by simp
    ultimately show "i \<in> {i. i < num_dicts k \<and> dsize k i \<noteq> 0} \<longleftrightarrow> i \<in> {i. kv_map k i \<noteq> Map.empty}" by auto
  qed
  with assms show ?thesis by (simp add: kvstoreNumNonEmptyDicts_def kv_inv_def key_counts_def)
qed

lemma kv_buckets:
  assumes "kv_inv env k" "flags k AND KVSTORE_FREE_EMPTY_DICTS = 0"
  shows "kvstoreBuckets k = Some (of_nat (\<Sum>i < num_dicts k. case dicts k ! i of None \<Rightarrow> 0 | Some d \<Rightarrow> dictBuckets d))"
proof -
  have eq: "(case dicts k ! i of None \<Rightarrow> 0 | Some d \<Rightarrow> dictBuckets d) = fst (dtabs k i) + second (dtabs k i)"
    if "i < num_dicts k" for i
    using dictBuckets_tabs [of env] kv_inv_dict [OF assms(1) that]
    by (cases "dicts k ! i") (simp_all add: dtabs_def second_def)
  show ?thesis
  proof (cases "num_dicts k = 1")
    case True
    with kv_inv_get [OF assms(1), of 0] show ?thesis by (simp add: kvstoreBuckets_def split: option.splits)
  next
    case False
    from assms have "tab_counts k (dtabs k) 0" unfolding kv_inv_def kv_base_def by auto
    with False show ?thesis by (simp add: kvstoreBuckets_def tab_counts_def eq)
  qed
qed

subsection \<open>An allocator\<close>

text \<open>It hands out the first address not in use.\<close>

fun first_free :: "nat \<Rightarrow> ptr \<Rightarrow> 'v mem \<Rightarrow> ptr" where
  "first_free n p m = (if n = 0 then 0 else if cells m p = None then p else first_free (n - 1) (p + 1) m)"

declare first_free.simps [simp del]

definition al_first :: "nat al_env" where
  "al_first = \<lparr>zmalloc = first_free 65536 1, junk = 0, zmalloc_list = (\<lambda>m. True), zmalloc_iter = (\<lambda>m. True)\<rparr>"

lemma first_free_ok: "first_free n p m = 0 \<or> cells m (first_free n p m) = None"
proof (induction n p m rule: first_free.induct)
  case (1 n p m)
  then show ?case by (subst (1 2) first_free.simps) auto
qed

lemma first_free_full:
  "first_free n p m = 0 \<Longrightarrow> 0 < unat p \<Longrightarrow> unat p + n \<le> 2 ^ 64 \<Longrightarrow> i < n \<Longrightarrow> cells m (p + of_nat i) \<noteq> None"
proof (induction n p m arbitrary: i rule: first_free.induct)
  case (1 n p m)
  have p: "p \<noteq> 0" using "1.prems"(2) by auto
  have n: "n \<noteq> 0" "cells m p \<noteq> None" "first_free (n - 1) (p + 1) m = 0"
    using "1.prems"(1,4) p by (subst (asm) first_free.simps; simp split: if_splits)+
  show ?case
  proof (cases i)
    case (Suc j)
    have "unat p + 1 < 2 ^ 64" using "1.prems"(3,4) Suc by simp
    then have "unat (p + 1) = unat p + 1" by (simp add: unat_plus_simple [THEN iffD1] word_le_nat_alt unat_word_ariths)
    then show ?thesis using "1.IH" [OF n(1,2) n(3), of j] "1.prems"(3,4) Suc by (simp add: add.assoc)
  qed (use n(2) in simp)
qed

lemma al_first_ok: "kv_alloc al_first"
proof -
  have "zmalloc al_first m \<noteq> 0" if m: "finite (dom (cells m))" "card (dom (cells m)) < 65536" for m
  proof
    assume "zmalloc al_first m = 0"
    then have "cells m (1 + of_nat i) \<noteq> None" if "i < 65536" for i
      using first_free_full [of 65536 1 m i] that by (simp add: al_first_def)
    then have sub: "(\<lambda>i. 1 + of_nat i :: 64 word) ` {..<65536} \<subseteq> dom (cells m)" by (auto simp: domIff)
    have "inj_on (\<lambda>i. 1 + of_nat i :: 64 word) {..<65536}"
    proof (rule inj_onI)
      fix i j :: nat assume ij: "i \<in> {..<65536}" "j \<in> {..<65536}" "1 + of_nat i = (1 + of_nat j :: 64 word)"
      then have "unat (of_nat i :: 64 word) = unat (of_nat j :: 64 word)" by simp
      moreover have "unat (of_nat i :: 64 word) = i" "unat (of_nat j :: 64 word) = j"
        by (rule unat_of_nat64, use ij(1,2) in simp)+
      ultimately show "i = j" by simp
    qed
    then have "card ((\<lambda>i. 1 + of_nat i :: 64 word) ` {..<65536}) = 65536" by (simp add: card_image)
    with card_mono [OF m(1) sub] m(2) show False by simp
  qed
  moreover have "zmalloc al_first m = 0 \<or> cells m (zmalloc al_first m) = None" for m
    using first_free_ok [of 65536 1 m] by (simp add: al_first_def)
  ultimately show ?thesis unfolding kv_alloc_def alloc_upto_def alloc_ok_def by (simp add: al_first_def)
qed

subsection \<open>Example\<close>

definition kv_mem_ex :: "nat mem" where
  "kv_mem_ex = \<lparr>cells = Map.empty, freed = []\<rparr>"

text \<open>A store of two dictionaries, with the key 7 in the second.\<close>

lemma kv_ex:
  obtains k0 k1 r where "kvstoreCreate al_first kv_mem_ex 1 1 = Some k0" "kvstoreDictAddRaw env_ex al_first k0 1 7 = Some (k1, r)"
    "kv_inv env_ex k0" "kv_inv env_ex k1" "num_dicts k1 = 2" "kv_map k1 = (\<lambda>i. Map.empty)(1 := [7 \<mapsto> None])"
    "kv_next env_ex al_first k0 k1" "num_dicts_bits k1 = 1" "kv_total k1 = 1"
    "\<exists>ref. kv_entry k1 1 ref = Some (7, None)"
proof -
  have "cells kv_mem_ex = Map.empty" by (simp add: kv_mem_ex_def)
  from kvstoreCreate_correct [OF al_first_ok this, of 1 1 env_ex] obtain k0 where
    k0: "kvstoreCreate al_first kv_mem_ex 1 1 = Some k0" "kv_inv env_ex k0" "num_dicts k0 = 2"
      "kv_map k0 = (\<lambda>i. Map.empty :: nat \<rightharpoonup> 'a option)" by auto
  have t: "kv_total k0 = 0" by (simp add: kv_total_map [OF k0(2)] k0(4))
  then have room: "kv_total k0 < 2 ^ 64 - 1" "1 < num_dicts k0" by (simp_all add: k0(3))
  from kvstoreDictAddRaw_correct [OF k0(2) al_first_ok room(2,1), of 7] obtain k1 r where
    k1: "kvstoreDictAddRaw env_ex al_first k0 1 7 = Some (k1, r)" "kv_inv env_ex k1" "same_conf k0 k1"
      "case r of Inl ref \<Rightarrow> \<exists>v. kv_entry k1 1 ref = Some (7, v) \<and> kv_map k0 1 7 = Some v \<and> kv_map k1 = kv_map k0
       | Inr ref \<Rightarrow> kv_entry k1 1 ref = Some (7, None) \<and> kv_map k0 1 7 = None
           \<and> kv_map k1 = (kv_map k0)(1 := (kv_map k0 1)(7 \<mapsto> None))" by blast
  have m: "kv_map k1 = (\<lambda>i. Map.empty)(1 := [7 \<mapsto> None])" using k1(4) k0(4) by (cases r) auto
  have n: "num_dicts k1 = 2" using k1(3) k0(3) by (simp add: same_conf_def)
  have b: "num_dicts_bits k1 = 1"
    using k1(2) n power_inject_exp [of "2 :: nat" "num_dicts_bits k1" 1] by (simp add: kv_inv_def kv_base_def kv_shape_def)
  have "kv_total k1 = 1" by (simp add: kv_total_map [OF k1(2)] m n numeral_2_eq_2)
  moreover have "\<exists>ref. kv_entry k1 1 ref = Some (7, None)" using k1(4) k0(4) by (cases r) auto
  ultimately show ?thesis
    using that [OF k0(1) k1(1) k0(2) k1(2) n m kv_next.add_raw [OF room(2,1) k1(1)] b] by blast
qed

text \<open>A store in full, of two dictionaries.\<close>

definition kv_dict_ex :: "(nat, nat) dict" where
  "kv_dict_ex = \<lparr>ht0 = \<lparr>ht_table = [[], [], [], [(7, Some 30)]], ht_used = 1, ht_size_exp = 2\<rparr>,
     ht1 = dictReset', rehashidx = -1, pauserehash = 0, pauseAutoResize = 0, type_calls = []\<rparr>"

definition kv_store_ex :: "(nat, nat) kvstore" where
  "kv_store_ex = \<lparr>flags = 1, dicts = [None, Some kv_dict_ex], dict_meta = [0, 0], num_dicts = 2, num_dicts_bits = 1,
     kv_mem = kv_mem_ex, rehashing = \<lparr>head = 0, tail = 0, dup = None, free = False, match = None, len = 0\<rparr>,
     resize_cursor = 0, allocated_dicts = 1, non_empty_dicts = 1, key_count = 1, bucket_count = 4,
     dict_size_index = [0, 0, 1], overhead_hashtable_lut = 4, overhead_hashtable_rehashing = 0\<rparr>"

lemma kv_dict_ex_ok: "kv_dict_ok env_ex kv_dict_ex" "dict_map kv_dict_ex = [7 \<mapsto> Some 30]" "dictSize kv_dict_ex = 1"
  "tabs kv_dict_ex = (4, None)" "exps_le 2 kv_dict_ex" "entries kv_dict_ex = [(7, Some 30)]"
  by (simp_all add: kv_dict_ex_def kv_dict_ok_def env_ex_def dict_wf_def ht_ok_def rehash_ok_def entries_def bucket_ok_def
      slot_mod All_less_Suc dict_map_def dictSize_def tabs_def dictIsRehashing_def DICTHT_SIZE_def exps_le_def)

lemma less_2: "{..<2 :: nat} = {0, 1}" "i < 2 \<longleftrightarrow> i = 0 \<or> i = (1 :: nat)"
  by auto

lemma kv_store_ex_inv: "kv_inv env_ex kv_store_ex" "kv_map kv_store_ex = (\<lambda>i. Map.empty)(1 := [7 \<mapsto> Some 30])"
  "kv_total kv_store_ex = 1"
proof -
  have d: "dtabs kv_store_ex 0 = (0, None)" "dtabs kv_store_ex 1 = (4, None)" "dsize kv_store_ex 0 = 0"
    "dsize kv_store_ex 1 = 1" by (simp_all add: kv_store_ex_def dtabs_def dsize_def kv_dict_ex_ok)
  have f: "num_dicts kv_store_ex = 2" "dict_meta kv_store_ex = [0, 0]" "kv_mem kv_store_ex = kv_mem_ex"
    "list_rep kv_mem_ex (rehashing kv_store_ex) []" "bucket_count kv_store_ex = 4" "overhead_hashtable_lut kv_store_ex = 4"
    "overhead_hashtable_rehashing kv_store_ex = 0" "key_count kv_store_ex = 1" "non_empty_dicts kv_store_ex = 1"
    by (simp_all add: kv_store_ex_def list_rep_def)
  have "{i. i < 2 \<and> [None, Some kv_dict_ex] ! i \<noteq> None} = {1}" by (auto simp: less_2)
  then have "kv_shape env_ex kv_store_ex"
    using kv_dict_ex_ok(1) unfolding kv_shape_def by (simp add: kv_store_ex_def)
  moreover have "rehash_list kv_store_ex (dtabs kv_store_ex) []"
  proof -
    have "snd (dtabs kv_store_ex i) = None" "[0, 0] ! i = (0 :: ptr)" if "i < 2" for i
      using that d by (auto simp: less_2(2))
    then show ?thesis unfolding rehash_list_def f by (auto simp: f(4) kv_mem_ex_def [THEN arg_cong, of cells])
  qed
  moreover have "tab_counts kv_store_ex (dtabs kv_store_ex) 0"
    unfolding tab_counts_def f less_2 using d by (simp add: second_def busy_def)
  moreover have "key_counts kv_store_ex (dsize kv_store_ex)"
  proof -
    have "{i. i < 2 \<and> dsize kv_store_ex i \<noteq> 0} = {1}" using d by (auto simp: less_2)
    moreover have "fenwick 2 (dsize kv_store_ex) (dict_size_index kv_store_ex)"
      unfolding fenwick_def
    proof (intro conjI allI impI)
      fix i :: nat assume "0 < i \<and> i \<le> 2"
      then have "i = 1 \<or> i = 2" by auto
      moreover have "lowbit 1 = 1" "lowbit 2 = 2" using lowbit_pow [of 0 0] lowbit_pow [of 1 0] by simp_all
      ultimately show "dict_size_index kv_store_ex ! i = of_nat (sum (dsize kv_store_ex) {i - lowbit i..<i})"
        using d by (auto simp: kv_store_ex_def numeral_2_eq_2)
    qed (simp add: kv_store_ex_def)
    ultimately show ?thesis unfolding key_counts_def f using d by (simp add: less_2(1))
  qed
  ultimately show inv: "kv_inv env_ex kv_store_ex" unfolding kv_inv_def kv_base_def by auto
  show "kv_map kv_store_ex = (\<lambda>i. Map.empty)(1 := [7 \<mapsto> Some 30])"
    by (auto simp: kv_map_def kv_store_ex_def fun_eq_iff kv_dict_ex_ok(2) less_2 numeral_2_eq_2 less_Suc_eq)
  show "kv_total kv_store_ex = 1" unfolding kv_total_def f less_2(1) using d by simp
qed

subsection \<open>Main results\<close>

text \<open>
  C31. Whatever sequence of operations has been applied to a new store, its counters are right:
  \<open>kvstoreSize\<close> is the number of keys, and it has not wrapped around; \<open>non_empty_dicts\<close> and
  \<open>allocated_dicts\<close> count the dictionaries with a key and the dictionaries in use; the list of
  rehashing dictionaries has one node for each dictionary that is being rehashed; and unless empty
  dictionaries are freed, \<open>kvstoreBuckets\<close> is the number of buckets of all tables.
\<close>

theorem kvstore_counters:
  fixes k0 k :: "('k, 'v) kvstore"
  assumes "kv_alloc al" "cells m = Map.empty" "kvstoreCreate al m bits flgs = Some k0" "(kv_next env al)\<^sup>*\<^sup>* k0 k"
  shows "kvstoreSize k = Some (of_nat (\<Sum>i < num_dicts k. card (dom (kv_map k i))))
    \<and> (\<Sum>i < num_dicts k. card (dom (kv_map k i))) < 2 ^ 64
    \<and> kvstoreNumNonEmptyDicts k = int (card {i. kv_map k i \<noteq> Map.empty})
    \<and> kvstoreNumAllocatedDicts k = int (card {i. i < num_dicts k \<and> dicts k ! i \<noteq> None})
    \<and> unat (kvstoreDictRehashingCount k)
        = card {i. i < num_dicts k \<and> (\<exists>d. dicts k ! i = Some d \<and> dictIsRehashing d)}
    \<and> (flgs AND KVSTORE_FREE_EMPTY_DICTS = 0 \<longrightarrow> kvstoreBuckets k
        = Some (of_nat (\<Sum>i < num_dicts k. case dicts k ! i of None \<Rightarrow> 0 | Some d \<Rightarrow> dictBuckets d)))"
proof -
  have "bits \<le> 16" using assms(3) by (auto simp: kvstoreCreate_def split: if_splits)
  from kvstoreCreate_correct [OF assms(1,2) this, of flgs env] obtain k' :: "('k, 'v) kvstore" where
    "kvstoreCreate al m bits flgs = Some k'" "kv_inv env k'" "flags k' = flgs" by blast
  with assms(3) have k0: "kv_inv env k0" "flags k0 = flgs" by simp_all
  from kv_reach_inv [OF assms(4) k0(1) assms(1)] k0(2) have k: "kv_inv env k" "flags k = flgs"
    by (simp_all add: same_conf_def)
  then have "kvstoreNumAllocatedDicts k = int (card {i. i < num_dicts k \<and> dicts k ! i \<noteq> None})"
    by (simp add: kvstoreNumAllocatedDicts_def kv_inv_def kv_base_def kv_shape_def)
  with kvstoreSize_correct [OF k(1)] kv_inv_total [OF k(1)] kv_nonempty_count [OF k(1)] kv_rehashing_count [OF k(1)]
    kv_buckets [OF k(1)] k(2) show ?thesis
    by (simp add: kv_total_map [OF k(1)])
qed

theorem kvstore_counters_witness:
  "\<exists>k0 k r. kvstoreCreate al_first kv_mem_ex 1 1 = Some k0 \<and> kvstoreDictAddRaw env_ex al_first k0 1 7 = Some (k, r)
    \<and> kvstoreSize k = Some 1 \<and> kvstoreNumNonEmptyDicts (k :: (nat, nat) kvstore) = 1"
proof -
  obtain k0 k1 r where ex: "kvstoreCreate al_first kv_mem_ex 1 1 = Some k0"
    "kvstoreDictAddRaw env_ex al_first k0 1 7 = Some (k1 :: (nat, nat) kvstore, r)"
    "num_dicts k1 = 2" "kv_map k1 = (\<lambda>i. Map.empty)(1 := [7 \<mapsto> None])" "kv_next env_ex al_first k0 k1"
    by (rule kv_ex)
  have "{i. kv_map k1 i \<noteq> Map.empty} = {1}" by (auto simp: ex(4))
  with kvstore_counters [OF al_first_ok _ ex(1) r_into_rtranclp, OF _ ex(5)] ex show ?thesis
    by (simp add: kv_mem_ex_def numeral_2_eq_2)
qed

text \<open>
  C32. No operation of the model that can fail does so on a reachable store of fewer than \<open>2 ^ 64 - 1\<close>
  keys, called with the index of one of its dictionaries and, for \<open>kvstoreDictSetVal\<close> and
  \<open>kvstoreDictTwoPhaseUnlinkFree\<close>, with an entry that is there, and for
  \<open>kvstoreFindDictIndexByKeyIndex\<close> with the number of a key: no assertion of \<^verbatim>\<open>kvstore.c\<close>, \<^verbatim>\<open>dict.c\<close> or
  \<^verbatim>\<open>adlist.c\<close> is violated, no array is accessed outside of its bounds, the sums of the tree never
  underflow, and the list of rehashing dictionaries never touches memory that is not in use.  Releasing
  the store frees every node of that list.
\<close>

theorem kvstore_never_fails:
  fixes k0 k :: "('k, 'v) kvstore"
  assumes "kv_alloc al" "cells m = Map.empty" "kvstoreCreate al m bits flgs = Some k0" "(kv_next env al)\<^sup>*\<^sup>* k0 k"
    "i < num_dicts k" "kv_total k < 2 ^ 64 - 1"
  shows "kvstoreDictAddRaw env al k i key \<noteq> None \<and> kvstoreDictDelete env al k i key \<noteq> None
    \<and> kvstoreDictFind env al k i key \<noteq> None \<and> kvstoreDictFetchValue env al k i key \<noteq> None
    \<and> kvstoreDictTwoPhaseUnlinkFind env al k i key \<noteq> None \<and> kvstoreTryResizeDicts env al k limit \<noteq> None
    \<and> kvstoreIncrementallyRehash env al clock k \<noteq> None \<and> kvstoreExpand al oks k sz try_expand skip_cb' \<noteq> None
    \<and> kvstoreScan al k c (int i) skip_cb \<noteq> None \<and> kvstoreScan al k c (-1) skip_cb \<noteq> None
    \<and> kvstoreGetNextNonEmptyDictIndex k i \<noteq> None \<and> kvstoreEmpty al k \<noteq> None
    \<and> kvstoreDictExpand al k i n \<noteq> None \<and> kvstoreSize k \<noteq> None \<and> kvstoreBuckets k \<noteq> None
    \<and> kvstoreDictSize k i \<noteq> None \<and> kvstoreDictIsRehashingPaused k i \<noteq> None
    \<and> kvstoreDictFindEntryByPtrAndHash k i key (kvstoreGetHash env key) \<noteq> None
    \<and> kvstoreGetFirstNonEmptyDictIndex k \<noteq> None \<and> kvstoreGetFairRandomDictIndex rnd k \<noteq> None
    \<and> (kv_entry k i ref = Some e \<longrightarrow> kvstoreDictTwoPhaseUnlinkFree env al k i (Some ref) \<noteq> None
         \<and> (\<not> no_value env \<longrightarrow> kvstoreDictSetVal env al k i ref val \<noteq> None))
    \<and> (0 < target \<and> unat target \<le> kv_total k \<longrightarrow> kvstoreFindDictIndexByKeyIndex k target \<noteq> None)
    \<and> (\<exists>m'. kvstoreRelease al k = Some m' \<and> cells m' = Map.empty)"
proof -
  have "bits \<le> 16" using assms(3) by (auto simp: kvstoreCreate_def split: if_splits)
  from kvstoreCreate_correct [OF assms(1,2) this, of flgs env] obtain k' :: "('k, 'v) kvstore" where
    "kvstoreCreate al m bits flgs = Some k'" "kv_inv env k'" by blast
  with assms(3) have "kv_inv env k0" by simp
  with kv_reach_inv [OF assms(4) _ assms(1)] have k: "kv_inv env k" by blast
  note o = k assms(1)
  have "kvstoreDictTwoPhaseUnlinkFree env al k i (Some ref) \<noteq> None
         \<and> (\<not> no_value env \<longrightarrow> kvstoreDictSetVal env al k i ref val \<noteq> None)" if "kv_entry k i ref = Some e"
    using that kvstoreDictTwoPhaseUnlinkFree_correct [OF o assms(5), of ref "fst e" "snd e"]
      kvstoreDictSetVal_correct [OF o assms(5), of ref "fst e" "snd e" val] by auto
  moreover have "kvstoreSize k \<noteq> None" "kvstoreBuckets k \<noteq> None" "kvstoreDictSize k i \<noteq> None"
    "kvstoreDictIsRehashingPaused k i \<noteq> None"
    using kv_inv_get [OF k, of 0] kv_inv_get [OF k assms(5)] kvstoreSize_correct [OF k]
    by (simp_all add: kvstoreBuckets_def kvstoreDictSize_def kvstoreDictIsRehashingPaused_def)
  moreover have "0 < target \<and> unat target \<le> kv_total k \<longrightarrow> kvstoreFindDictIndexByKeyIndex k target \<noteq> None"
    using kvstoreFindDictIndexByKeyIndex_correct [OF k, of target] by auto
  ultimately show ?thesis
    using kvstoreDictAddRaw_correct [OF o assms(5,6), of key] kvstoreDictDelete_correct [OF o assms(5), of key]
      kvstoreDictFind_correct [OF o assms(5), of key] kvstoreDictFetchValue_correct [OF o assms(5), of key]
      kvstoreDictTwoPhaseUnlinkFind_correct [OF o assms(5), of key] kvstoreTryResizeDicts_correct [OF o, of limit]
      kvstoreIncrementallyRehash_correct [OF assms(1) k, of clock] kvstoreExpand_correct [OF o, of oks sz try_expand skip_cb']
      kvstoreScan_step [OF k assms(6,1), of "int i" c skip_cb] kvstoreScan_step [OF k assms(6,1), of "-1" c skip_cb]
      kvstoreGetNextNonEmptyDictIndex_correct [OF k assms(5,6)] kvstoreEmpty_correct [OF k, of al] assms(5)
      kvstoreDictExpand_correct [OF o assms(5), of n] kvstoreDictFindEntryByPtrAndHash_correct [OF k assms(5), of key]
      kvstoreGetFirstNonEmptyDictIndex_correct [OF k] kvstoreGetFairRandomDictIndex_correct [OF k, of rnd]
      kvstoreRelease_correct [OF k, of al]
    by (intro conjI) auto
qed

theorem kvstore_never_fails_witness:
  "\<exists>k0 k r. kvstoreCreate al_first kv_mem_ex 1 1 = Some k0 \<and> kvstoreDictAddRaw env_ex al_first k0 1 7 = Some (k, r)
    \<and> kvstoreDictDelete env_ex al_first (k :: (nat, nat) kvstore) 1 7 \<noteq> None \<and> kvstoreScan al_first k 0 (-1) None \<noteq> None
    \<and> (\<exists>ref. kv_entry k 1 ref = Some (7, None) \<and> kvstoreDictSetVal env_ex al_first k 1 ref 5 \<noteq> None
         \<and> kvstoreDictTwoPhaseUnlinkFree env_ex al_first k 1 (Some ref) \<noteq> None)
    \<and> (\<exists>m'. kvstoreRelease al_first k = Some m' \<and> cells m' = Map.empty)"
proof -
  obtain k0 k1 r where ex: "kvstoreCreate al_first kv_mem_ex 1 1 = Some k0"
    "kvstoreDictAddRaw env_ex al_first k0 1 7 = Some (k1 :: (nat, nat) kvstore, r)"
    "num_dicts k1 = 2" "kv_next env_ex al_first k0 k1" "kv_total k1 = 1" "\<exists>ref. kv_entry k1 1 ref = Some (7, None)"
    by (rule kv_ex)
  then obtain ref where ref: "kv_entry k1 1 ref = Some (7, None)" by blast
  have "cells kv_mem_ex = Map.empty" "1 < num_dicts k1" "kv_total k1 < 2 ^ 64 - 1" "\<not> no_value env_ex"
    by (simp_all add: kv_mem_ex_def ex(3,5) env_ex_def)
  note nf = kvstore_never_fails [OF al_first_ok this(1) ex(1) r_into_rtranclp [of "kv_next env_ex al_first", OF ex(4)] this(2,3)]
  from nf [of 7 _ _ _ _ _ _ 0 None _ _ ref "(7, None)" 5] ex(1,2) ref \<open>\<not> no_value env_ex\<close> show ?thesis by blast
qed

text \<open>
  C33. The tree of cumulative sizes finds keys by their number.  The dictionary that
  \<open>kvstoreFindDictIndexByKeyIndex\<close> gives for \<open>target\<close> is the one that holds the key with this number
  when the keys of all dictionaries are counted from 1 in the order of the dictionaries, and
  \<open>kvstoreGetNextNonEmptyDictIndex\<close> is the next dictionary with a key, or -1.
\<close>

theorem kvstore_index_spec:
  assumes "kv_inv env k"
  shows "(0 < target \<and> unat target \<le> kv_total k \<longrightarrow> (\<exists>res < num_dicts k. kvstoreFindDictIndexByKeyIndex k target = Some res
        \<and> (\<Sum>i < res. card (dom (kv_map k i))) < unat target \<and> unat target \<le> (\<Sum>i \<le> res. card (dom (kv_map k i)))))
    \<and> (i < num_dicts k \<and> kv_total k < 2 ^ 64 - 1 \<longrightarrow> (\<exists>r. kvstoreGetNextNonEmptyDictIndex k i = Some r
        \<and> (if \<exists>j > i. kv_map k j \<noteq> Map.empty then 0 \<le> r \<and> i < nat r \<and> kv_map k (nat r) \<noteq> Map.empty
             \<and> (\<forall>j. i < j \<and> j < nat r \<longrightarrow> kv_map k j = Map.empty) else r = -1)))"
proof (intro conjI impI)
  assume "0 < target \<and> unat target \<le> kv_total k"
  with kvstoreFindDictIndexByKeyIndex_correct [OF assms] obtain res where
    "res < num_dicts k" "kvstoreFindDictIndexByKeyIndex k target = Some res" "sum (dsize k) {..<res} < unat target"
    "unat target \<le> sum (dsize k) {..res}" by blast
  moreover from this(1) have "sum (dsize k) {..<res} = (\<Sum>i < res. card (dom (kv_map k i)))"
    "sum (dsize k) {..res} = (\<Sum>i \<le> res. card (dom (kv_map k i)))" by (simp_all add: dsize_card [OF assms])
  ultimately show "\<exists>res < num_dicts k. kvstoreFindDictIndexByKeyIndex k target = Some res
        \<and> (\<Sum>i < res. card (dom (kv_map k i))) < unat target \<and> unat target \<le> (\<Sum>i \<le> res. card (dom (kv_map k i)))" by auto
next
  assume i: "i < num_dicts k \<and> kv_total k < 2 ^ 64 - 1"
  have z: "kv_map k j = Map.empty \<longleftrightarrow> (j < num_dicts k \<longrightarrow> dsize k j = 0)" for j
    using dsize_card [OF assms, of j] kv_map_finite [of k j] kv_inv_len [OF assms]
    by (cases "j < num_dicts k") (auto simp: kv_map_def)
  from kvstoreGetNextNonEmptyDictIndex_correct [OF assms] i obtain r where
    r: "kvstoreGetNextNonEmptyDictIndex k i = Some r"
      "r = -1 \<and> (\<forall>j. i < j \<and> j < num_dicts k \<longrightarrow> dsize k j = 0)
       \<or> (\<exists>j. r = int j \<and> i < j \<and> j < num_dicts k \<and> dsize k j \<noteq> 0 \<and> (\<forall>j'. i < j' \<and> j' < j \<longrightarrow> dsize k j' = 0))" by blast
  show "\<exists>r. kvstoreGetNextNonEmptyDictIndex k i = Some r
        \<and> (if \<exists>j > i. kv_map k j \<noteq> Map.empty then 0 \<le> r \<and> i < nat r \<and> kv_map k (nat r) \<noteq> Map.empty
             \<and> (\<forall>j. i < j \<and> j < nat r \<longrightarrow> kv_map k j = Map.empty) else r = -1)"
    using r by (intro exI [of _ r]) (auto simp: z)
qed

theorem kvstore_index_spec_witness:
  "kv_inv env_ex kv_store_ex \<and> (\<exists>res < 2. kvstoreFindDictIndexByKeyIndex kv_store_ex 1 = Some res
    \<and> (\<Sum>i < res. card (dom (kv_map kv_store_ex i))) < 1)"
proof -
  have "num_dicts kv_store_ex = 2" by (simp add: kv_store_ex_def)
  moreover have "0 < (1 :: 64 word) \<and> unat (1 :: 64 word) \<le> kv_total kv_store_ex" by (simp add: kv_store_ex_inv(3))
  ultimately show ?thesis
    using kvstore_index_spec [OF kv_store_ex_inv(1), of 1 0] kv_store_ex_inv(1) by (metis unat_1)
qed

text \<open>
  C34. The guarantee of a SCAN over a whole store, composed of the tree of sizes and the cursors of the
  dictionaries.  The calls of an iteration are made on any well-formed stores of \<open>2 ^ b\<close> dictionaries,
  one after the other, whatever has been done to the store between the calls.  With tables of at most
  \<open>2 ^ E\<close> buckets, and \<open>E + b \<le> 64\<close> so that both parts of a cursor fit, the cursor is back at 0 after at
  most \<open>2 ^ b * 2 ^ E\<close> calls; every entry emitted was in the store at one of the calls, and every key of
  a dictionary that is there at every call has been emitted.
\<close>

theorem kvstore_scan_guarantee:
  assumes "\<forall>k \<in> set ks. kv_scan_ok al env b E k" "2 ^ b * 2 ^ E \<le> length ks"
  shows "\<exists>es. cursor_calls (kv_scan_call al) 0 ks 0 = Some (0, es) \<and> set es \<subseteq> (\<Union>k \<in> set ks. kv_entries k)
    \<and> (\<forall>i key. (\<forall>k \<in> set ks. key \<in> dom (kv_map k i)) \<longrightarrow> (i, key) \<in> kv_key ` set es)"
proof -
  from kv_scan.iteration [OF assms] obtain es where
    es: "cursor_calls (kv_scan_call al) 0 ks 0 = Some (0, es)" "set es \<subseteq> (\<Union>k \<in> set ks. kv_entries k)"
      "\<forall>ik. (\<forall>k \<in> set ks. ik \<in> kv_key ` kv_entries k) \<longrightarrow> ik \<in> kv_key ` set es" by blast
  have "kv_key ` kv_entries k = {(i, key). key \<in> dom (kv_map k i)}" if "k \<in> set ks" for k
    using kv_keys [of env k] assms(1) that by (auto simp: kv_scan_ok_def)
  with es(3) have "\<forall>i key. (\<forall>k \<in> set ks. key \<in> dom (kv_map k i)) \<longrightarrow> (i, key) \<in> kv_key ` set es" by auto
  with es(1,2) show ?thesis by blast
qed

theorem kvstore_scan_guarantee_witness:
  "\<exists>es. cursor_calls (kv_scan_call al_first) 0 (replicate 8 kv_store_ex) 0 = Some (0, es) \<and> (1, 7) \<in> kv_key ` set es"
proof -
  have "kv_scan_ok al_first env_ex 1 2 kv_store_ex"
    using al_first_ok kv_store_ex_inv kv_dict_ex_ok(5) by (simp add: kv_scan_ok_def) (simp add: kv_store_ex_def kv_exps_def)
  then have "\<forall>k \<in> set (replicate 8 kv_store_ex). kv_scan_ok al_first env_ex 1 2 k" by simp
  from kvstore_scan_guarantee [OF this] kv_store_ex_inv(2) show ?thesis by auto
qed

text \<open>
  C35. Freeing an empty dictionary does not take its buckets out of the counters.  If \<open>bucket_count\<close> is
  the number of all buckets before \<open>freeDictIfNeeded\<close> frees dictionary \<open>i\<close>, it is too large by the
  buckets of this dictionary afterwards.
\<close>

theorem freeDictIfNeeded_keeps_buckets:
  assumes "flags k AND KVSTORE_FREE_EMPTY_DICTS \<noteq> 0" "i < length (dicts k)" "dicts k ! i = Some d" "dictSize d = 0"
    "\<not> dictIsRehashing d" "\<not> dictIsRehashingPaused d" "type_calls d = []"
    "bucket_count k = of_nat (\<Sum>d \<leftarrow> dicts k. case d of None \<Rightarrow> 0 | Some d \<Rightarrow> dictBuckets d)"
  shows "\<exists>k'. freeDictIfNeeded al k i = Some k' \<and> dicts k' = (dicts k)[i := None]
    \<and> bucket_count k' = of_nat ((\<Sum>d \<leftarrow> dicts k'. case d of None \<Rightarrow> 0 | Some d \<Rightarrow> dictBuckets d) + dictBuckets d)"
proof -
  let ?f = "\<lambda>d. case d of None \<Rightarrow> 0 | Some d \<Rightarrow> dictBuckets d"
  have "fst (dictRelease d) = []" using assms(5,7) by (simp add: dictRelease_def Let_def dictClear'_def set_ht_def)
  then have eq: "freeDictIfNeeded al k i = Some (k\<lparr>dicts := (dicts k)[i := None], allocated_dicts := allocated_dicts k - 1\<rparr>)"
    using assms(1-4,6) by (simp add: freeDictIfNeeded_def kvstoreGetDict_def)
  define xs where "xs = map ?f (dicts k)"
  have xs: "i < length xs" "xs ! i = dictBuckets d" "map ?f ((dicts k)[i := None]) = xs[i := 0]"
    using assms(2,3) by (simp_all add: xs_def map_update)
  have "sum_list xs = sum_list (xs[i := 0]) + dictBuckets d"
    using sum_list_update [OF xs(1), of 0] elem_le_sum_list [OF xs(1)] xs(2) by simp
  then have "sum_list (map ?f (dicts k)) = sum_list (map ?f ((dicts k)[i := None])) + dictBuckets d"
    unfolding xs(3) xs_def [symmetric] .
  with eq assms(8) show ?thesis by simp
qed

theorem freeDictIfNeeded_keeps_buckets_witness:
  "\<exists>k'. freeDictIfNeeded al_first (kv_store_ex\<lparr>flags := 3, dicts := [None, Some (kv_dict_ex\<lparr>ht0 :=
       \<lparr>ht_table = [[], [], [], []], ht_used = 0, ht_size_exp = 2\<rparr>\<rparr>)]\<rparr>) 1 = Some k'
     \<and> dicts k' = [None, None] \<and> bucket_count k' = 4"
proof -
  let ?d = "kv_dict_ex\<lparr>ht0 := \<lparr>ht_table = [[], [], [], []], ht_used = 0, ht_size_exp = 2\<rparr>\<rparr>"
  let ?k = "kv_store_ex\<lparr>flags := 3, dicts := [None, Some ?d]\<rparr>"
  have d: "dictSize ?d = 0" "\<not> dictIsRehashing ?d" "\<not> dictIsRehashingPaused ?d" "type_calls ?d = []" "dictBuckets ?d = 4"
    by (simp_all add: kv_dict_ex_def dictSize_def dictIsRehashing_def dictIsRehashingPaused_def dictBuckets_def DICTHT_SIZE_def)
  have "bucket_count ?k = of_nat (\<Sum>d \<leftarrow> dicts ?k. case d of None \<Rightarrow> 0 | Some d \<Rightarrow> dictBuckets d)"
    unfolding kv_store_ex_def by (simp add: d(5))
  from freeDictIfNeeded_keeps_buckets [OF _ _ _ d(1-4) this, of 1 al_first] d(5) show ?thesis
    by (auto simp: KVSTORE_FREE_EMPTY_DICTS_def)
qed

end
