(* ===== verification/Crc16.thy ===== *)
theory Crc16
  imports Prelude
begin

section \<open>Hash slots of keys (crc16.c, cluster.h)\<close>

text \<open>
  The CRC of the source reads one entry of a table for every byte.  It is compared with the
  definition of the code bit by bit: the remainder of the division by the polynomial
  \<open>x\<^sup>1\<^sup>6 + x\<^sup>1\<^sup>2 + x\<^sup>5 + 1\<close>.  \<open>keyHashSlot\<close> hashes the part of a key between braces, if there is one.

  A key is a list of bytes; the two loops of \<open>keyHashSlot\<close> that look for a brace are \<open>find_byte\<close>,
  which gives the length of the list when there is none.  A \<open>char\<close> is signed and extended to the
  type of the CRC, and the mask removes the extension.
\<close>

unbundle bit_operations_syntax

definition crc16tab :: "16 word list" where
  "crc16tab =
    [
     0x0000, 0x1021, 0x2042, 0x3063, 0x4084, 0x50a5, 0x60c6, 0x70e7,
     0x8108, 0x9129, 0xa14a, 0xb16b, 0xc18c, 0xd1ad, 0xe1ce, 0xf1ef,
     0x1231, 0x0210, 0x3273, 0x2252, 0x52b5, 0x4294, 0x72f7, 0x62d6,
     0x9339, 0x8318, 0xb37b, 0xa35a, 0xd3bd, 0xc39c, 0xf3ff, 0xe3de,
     0x2462, 0x3443, 0x0420, 0x1401, 0x64e6, 0x74c7, 0x44a4, 0x5485,
     0xa56a, 0xb54b, 0x8528, 0x9509, 0xe5ee, 0xf5cf, 0xc5ac, 0xd58d,
     0x3653, 0x2672, 0x1611, 0x0630, 0x76d7, 0x66f6, 0x5695, 0x46b4,
     0xb75b, 0xa77a, 0x9719, 0x8738, 0xf7df, 0xe7fe, 0xd79d, 0xc7bc,
     0x48c4, 0x58e5, 0x6886, 0x78a7, 0x0840, 0x1861, 0x2802, 0x3823,
     0xc9cc, 0xd9ed, 0xe98e, 0xf9af, 0x8948, 0x9969, 0xa90a, 0xb92b,
     0x5af5, 0x4ad4, 0x7ab7, 0x6a96, 0x1a71, 0x0a50, 0x3a33, 0x2a12,
     0xdbfd, 0xcbdc, 0xfbbf, 0xeb9e, 0x9b79, 0x8b58, 0xbb3b, 0xab1a,
     0x6ca6, 0x7c87, 0x4ce4, 0x5cc5, 0x2c22, 0x3c03, 0x0c60, 0x1c41,
     0xedae, 0xfd8f, 0xcdec, 0xddcd, 0xad2a, 0xbd0b, 0x8d68, 0x9d49,
     0x7e97, 0x6eb6, 0x5ed5, 0x4ef4, 0x3e13, 0x2e32, 0x1e51, 0x0e70,
     0xff9f, 0xefbe, 0xdfdd, 0xcffc, 0xbf1b, 0xaf3a, 0x9f59, 0x8f78,
     0x9188, 0x81a9, 0xb1ca, 0xa1eb, 0xd10c, 0xc12d, 0xf14e, 0xe16f,
     0x1080, 0x00a1, 0x30c2, 0x20e3, 0x5004, 0x4025, 0x7046, 0x6067,
     0x83b9, 0x9398, 0xa3fb, 0xb3da, 0xc33d, 0xd31c, 0xe37f, 0xf35e,
     0x02b1, 0x1290, 0x22f3, 0x32d2, 0x4235, 0x5214, 0x6277, 0x7256,
     0xb5ea, 0xa5cb, 0x95a8, 0x8589, 0xf56e, 0xe54f, 0xd52c, 0xc50d,
     0x34e2, 0x24c3, 0x14a0, 0x0481, 0x7466, 0x6447, 0x5424, 0x4405,
     0xa7db, 0xb7fa, 0x8799, 0x97b8, 0xe75f, 0xf77e, 0xc71d, 0xd73c,
     0x26d3, 0x36f2, 0x0691, 0x16b0, 0x6657, 0x7676, 0x4615, 0x5634,
     0xd94c, 0xc96d, 0xf90e, 0xe92f, 0x99c8, 0x89e9, 0xb98a, 0xa9ab,
     0x5844, 0x4865, 0x7806, 0x6827, 0x18c0, 0x08e1, 0x3882, 0x28a3,
     0xcb7d, 0xdb5c, 0xeb3f, 0xfb1e, 0x8bf9, 0x9bd8, 0xabbb, 0xbb9a,
     0x4a75, 0x5a54, 0x6a37, 0x7a16, 0x0af1, 0x1ad0, 0x2ab3, 0x3a92,
     0xfd2e, 0xed0f, 0xdd6c, 0xcd4d, 0xbdaa, 0xad8b, 0x9de8, 0x8dc9,
     0x7c26, 0x6c07, 0x5c64, 0x4c45, 0x3ca2, 0x2c83, 0x1ce0, 0x0cc1,
     0xef1f, 0xff3e, 0xcf5d, 0xdf7c, 0xaf9b, 0xbfba, 0x8fd9, 0x9ff8,
     0x6e17, 0x7e36, 0x4e55, 0x5e74, 0x2e93, 0x3eb2, 0x0ed1, 0x1ef0]"

fun crc16_loop :: "8 word list \<Rightarrow> 16 word \<Rightarrow> 16 word" where
  "crc16_loop [] crc = crc"
| "crc16_loop (b # buf) crc =
     crc16_loop buf (push_bit 8 crc XOR crc16tab ! unat ((drop_bit 8 crc XOR scast b) AND 0x00FF))"

definition crc16 :: "8 word list \<Rightarrow> 16 word" where
  "crc16 buf = crc16_loop buf 0"

fun find_byte :: "8 word \<Rightarrow> 8 word list \<Rightarrow> nat" where
  "find_byte c [] = 0"
| "find_byte c (b # bs) = (if b = c then 0 else Suc (find_byte c bs))"

definition brace_open :: "8 word" where "brace_open = 123"
definition brace_close :: "8 word" where "brace_close = 125"

definition keyHashSlot :: "8 word list \<Rightarrow> nat" where
  "keyHashSlot key =
     (let keylen = length key; s = find_byte brace_open key in
      if s = keylen then unat (crc16 key AND 0x3FFF)
      else
        (let e = s + 1 + find_byte brace_close (drop (s + 1) key) in
         if e = keylen \<or> e = s + 1 then unat (crc16 key AND 0x3FFF)
         else unat (crc16 (take (e - s - 1) (drop (s + 1) key)) AND 0x3FFF)))"

definition CLUSTER_SLOT_MASK_BITS :: nat where "CLUSTER_SLOT_MASK_BITS = 14"

subsection \<open>The code bit by bit\<close>

text \<open>One bit of the division: the polynomial is subtracted when the bit that leaves the register is set.\<close>

definition crc_bit :: "16 word \<Rightarrow> 16 word" where
  "crc_bit c = (if bit c 15 then push_bit 1 c XOR 0x1021 else push_bit 1 c)"

definition crc_bits :: "16 word \<Rightarrow> 16 word" where
  "crc_bits c = (crc_bit ^^ 8) c"

fun crc_xmodem :: "8 word list \<Rightarrow> 16 word \<Rightarrow> 16 word" where
  "crc_xmodem [] c = c"
| "crc_xmodem (b # bs) c = crc_xmodem bs (crc_bits (c XOR push_bit 8 (ucast b)))"

lemma crc_bit_xor: "crc_bit (a XOR b) = crc_bit a XOR crc_bit b"
  by (auto simp: crc_bit_def push_bit_xor bit_xor_iff ac_simps)

lemma crc_bits_xor: "crc_bits (a XOR b) = crc_bits a XOR crc_bits b"
proof -
  have "(crc_bit ^^ n) (a XOR b) = (crc_bit ^^ n) a XOR (crc_bit ^^ n) b" for n
    by (induction n) (simp_all add: crc_bit_xor)
  then show ?thesis by (simp add: crc_bits_def)
qed

text \<open>A byte in the low half of the register is only moved to the upper half.\<close>

lemma crc_bits_low:
  assumes "unat c < 256"
  shows "crc_bits c = push_bit 8 c"
proof -
  have z: "\<not> bit c j" if "8 \<le> j" for j
  proof -
    have "take_bit 8 (unat c) = unat c" using assms by (simp add: take_bit_nat_eq_self)
    then have "take_bit 8 c = c" by (metis unsigned_take_bit_eq word_unat_eq_iff)
    with that show ?thesis by (metis bit_take_bit_iff not_le)
  qed
  have "(crc_bit ^^ n) c = push_bit n c" if "n \<le> 8" for n
    using that
  proof (induction n)
    case (Suc n)
    then have "(crc_bit ^^ n) c = push_bit n c" by simp
    moreover have "\<not> bit (push_bit n c) 15" using z [of "15 - n"] Suc.prems by (auto simp: bit_push_bit_iff)
    moreover from this have "crc_bit (push_bit n c) = push_bit (Suc n) c" by (simp add: crc_bit_def)
    ultimately show ?case by simp
  qed simp
  then show ?thesis by (simp add: crc_bits_def)
qed

text \<open>
  The table holds what eight bits of the division do to a byte in the upper half.  By linearity it is
  determined by eight of its entries: every one of them doubles the part of the table before it.
\<close>

fun crc_table :: "nat \<Rightarrow> 16 word list" where
  "crc_table 0 = [0]"
| "crc_table (Suc k) = crc_table k @ map (\<lambda>x. crc_bits (push_bit (8 + k) 1) XOR x) (crc_table k)"

lemma crc_bits_0: "crc_bits 0 = 0"
  using crc_bits_xor [of 0 0] by simp

lemma pow_xor: "i < 2 ^ k \<Longrightarrow> 2 ^ k + i = (2 ^ k XOR i :: nat)"
proof (rule disjunctive_add_eq_xor)
  assume i: "i < 2 ^ k"
  then have "take_bit k i = i" by (simp add: take_bit_nat_eq_self)
  then have "bit i k \<Longrightarrow> False" by (metis bit_take_bit_iff less_irrefl)
  then show "2 ^ k AND i = 0" by (intro bit_eqI) (auto simp: bit_and_iff bit_exp_iff)
qed

lemma crc_table_nth: "length (crc_table k) = 2 ^ k \<and> (\<forall>i < 2 ^ k. crc_table k ! i = crc_bits (push_bit 8 (of_nat i)))"
proof (induction k)
  case 0
  then show ?case by (simp add: crc_bits_0)
next
  case (Suc k)
  have "crc_table (Suc k) ! i = crc_bits (push_bit 8 (of_nat i))" if i: "i < 2 ^ Suc k" for i
  proof (cases "i < 2 ^ k")
    case True
    with Suc show ?thesis by (simp add: nth_append)
  next
    case False
    define j where "j = i - 2 ^ k"
    have j: "i = 2 ^ k + j" "j < 2 ^ k" using False i by (simp_all add: j_def)
    have "(of_nat i :: 16 word) = of_nat (2 ^ k) XOR of_nat j"
      unfolding j(1) by (simp only: pow_xor [OF j(2)] of_nat_xor_eq)
    also have "(of_nat (2 ^ k) :: 16 word) = push_bit k 1" by (simp add: push_bit_eq_mult)
    finally have "push_bit 8 (of_nat i :: 16 word) = push_bit (8 + k) 1 XOR push_bit 8 (of_nat j)"
      by (simp only: push_bit_xor push_bit_push_bit)
    then have "crc_bits (push_bit 8 (of_nat i)) = crc_bits (push_bit (8 + k) 1) XOR crc_bits (push_bit 8 (of_nat j))"
      by (simp only: crc_bits_xor)
    moreover have "crc_table (Suc k) ! i = crc_bits (push_bit (8 + k) 1) XOR crc_table k ! j"
      using Suc j by (simp add: nth_append)
    ultimately show ?thesis using Suc j(2) by simp
  qed
  with Suc show ?case by simp
qed

lemma crc_bits_unfold:
  "crc_bits c = crc_bit (crc_bit (crc_bit (crc_bit (crc_bit (crc_bit (crc_bit (crc_bit c)))))))"
  by (simp add: crc_bits_def eval_nat_numeral)

lemma crc_base: "crc_bits 0x0100 = 0x1021" "crc_bits 0x0200 = 0x2042" "crc_bits 0x0400 = 0x4084"
  "crc_bits 0x0800 = 0x8108" "crc_bits 0x1000 = 0x1231" "crc_bits 0x2000 = 0x2462"
  "crc_bits 0x4000 = 0x48c4" "crc_bits 0x8000 = 0x9188"
  by (simp_all add: crc_bits_unfold crc_bit_def)

lemma crc16tab_table: "crc16tab = crc_table 8"
proof -
  have "(8 :: nat) = Suc (Suc (Suc (Suc (Suc (Suc (Suc (Suc 0)))))))" by simp
  then have "crc_table 8 = crc_table (Suc (Suc (Suc (Suc (Suc (Suc (Suc (Suc 0))))))))" by (rule arg_cong)
  then show ?thesis by (simp add: crc16tab_def crc_base)
qed

lemma crc16tab_nth: "i < 256 \<Longrightarrow> crc16tab ! i = crc_bits (push_bit 8 (of_nat i))"
  using crc_table_nth [of 8] by (simp only: crc16tab_table) simp

lemma crc16_step:
  "push_bit 8 c XOR crc16tab ! unat ((drop_bit 8 c XOR scast b) AND 0x00FF) = crc_bits (c XOR push_bit 8 (ucast (b :: 8 word)))"
proof -
  let ?i = "(drop_bit 8 c XOR scast b) AND 0x00FF :: 16 word"
  have m: "(0x00FF :: 16 word) = mask 8" by (simp add: mask_eq_exp_minus_1)
  have i: "?i = drop_bit 8 c XOR ucast b"
  proof (rule bit_eqI)
    fix n
    have "\<not> bit b n" "\<not> bit c (8 + n)" if "8 \<le> n"
      using that bit_imp_le_length [of b n] bit_imp_le_length [of c "8 + n"] by auto
    moreover have "min 7 n = n" if "n < 8" using that by simp
    ultimately show "bit ?i n = bit (drop_bit 8 c XOR ucast b) n"
      unfolding m by (cases "n < 8") (auto simp: bit_simps)
  qed
  have lt: "unat ?i < 256"
  proof -
    have "?i \<le> 0x00FF" by (rule word_and_le1)
    then have "unat ?i \<le> unat (0x00FF :: 16 word)" by (simp only: word_le_nat_alt)
    then show ?thesis by simp
  qed
  have c: "c = take_bit 8 c XOR push_bit 8 (drop_bit 8 c)"
    by (rule bit_eqI) (auto simp: bit_simps)
  have "c XOR push_bit 8 (ucast b) = take_bit 8 c XOR push_bit 8 ?i"
    unfolding i push_bit_xor xor.assoc [symmetric] c [symmetric] ..
  then have "crc_bits (c XOR push_bit 8 (ucast b)) = crc_bits (take_bit 8 c) XOR crc_bits (push_bit 8 ?i)"
    by (simp only: crc_bits_xor)
  moreover have "crc_bits (take_bit 8 c) = push_bit 8 c"
  proof -
    have "unat (take_bit 8 c) < 256" by (simp add: unsigned_take_bit_eq take_bit_nat_def)
    then have "crc_bits (take_bit 8 c) = push_bit 8 (take_bit 8 c)" by (rule crc_bits_low)
    also have "\<dots> = push_bit 8 c" by (rule bit_eqI) (auto simp: bit_simps)
    finally show ?thesis .
  qed
  moreover have "crc16tab ! unat ?i = crc_bits (push_bit 8 ?i)" using crc16tab_nth [OF lt] by simp
  ultimately show ?thesis by (simp add: ac_simps)
qed

lemma crc16_loop_bits: "crc16_loop bs c = crc_xmodem bs c"
  by (induction bs c rule: crc_xmodem.induct) (simp_all only: crc16_loop.simps crc_xmodem.simps crc16_step)

subsection \<open>Slots\<close>

lemma keyHashSlot_less: "keyHashSlot key < 2 ^ CLUSTER_SLOT_MASK_BITS"
proof -
  have "unat (w AND 0x3FFF) < 2 ^ 14" for w :: "16 word"
  proof -
    have "w AND 0x3FFF \<le> 0x3FFF" by (rule word_and_le1)
    then have "unat (w AND 0x3FFF) \<le> unat (0x3FFF :: 16 word)" by (simp only: word_le_nat_alt)
    then show ?thesis by simp
  qed
  then show ?thesis by (simp add: keyHashSlot_def Let_def CLUSTER_SLOT_MASK_BITS_def)
qed

lemma find_byte_append: "c \<notin> set xs \<Longrightarrow> find_byte c (xs @ c # ys) = length xs"
  by (induction xs) auto

lemma find_byte_none: "c \<notin> set xs \<Longrightarrow> find_byte c xs = length xs"
  by (induction xs) auto

lemma find_byte_split:
  "find_byte c xs < length xs \<Longrightarrow>
     xs = take (find_byte c xs) xs @ c # drop (Suc (find_byte c xs)) xs \<and> c \<notin> set (take (find_byte c xs) xs)"
  by (induction xs) auto

lemma find_byte_le: "find_byte c xs \<le> length xs"
  by (induction xs) auto

lemma and_slot_mask: "unat ((w :: 16 word) AND 0x3FFF) = unat w mod 16384"
proof -
  have "(0x3FFF :: 16 word) = mask 14" by (simp add: mask_eq_exp_minus_1)
  then have "unat (w AND 0x3FFF) = take_bit 14 (unat w)" by (metis take_bit_eq_mask unsigned_take_bit_eq)
  then show ?thesis by (simp add: take_bit_eq_mod)
qed

lemma keyHashSlot_whole:
  assumes "\<nexists>pre tag post. key = pre @ brace_open # tag @ brace_close # post \<and> brace_open \<notin> set pre
    \<and> brace_close \<notin> set tag \<and> tag \<noteq> []"
  shows "keyHashSlot key = unat (crc16 key AND 0x3FFF)"
proof (cases "find_byte brace_open key = length key")
  case True
  then show ?thesis by (simp add: keyHashSlot_def)
next
  case False
  let ?s = "find_byte brace_open key"
  let ?r = "drop (?s + 1) key"
  let ?l = "find_byte brace_close ?r"
  have s: "key = take ?s key @ brace_open # ?r" "brace_open \<notin> set (take ?s key)"
    using find_byte_split [of brace_open key] find_byte_le [of brace_open key] False by auto
  show ?thesis
  proof (cases "?l = length ?r \<or> ?l = 0")
    case True
    with False find_byte_le [of brace_open key] show ?thesis by (auto simp: keyHashSlot_def Let_def)
  next
    case no: False
    then have l: "?r = take ?l ?r @ brace_close # drop (Suc ?l) ?r" "brace_close \<notin> set (take ?l ?r)"
      using find_byte_split [of brace_close ?r] find_byte_le [of brace_close ?r] by auto
    have "take ?l ?r \<noteq> []" using no find_byte_le [of brace_close ?r] by auto
    with assms s l show ?thesis by metis
  qed
qed

lemma keyHashSlot_tag:
  assumes "brace_open \<notin> set pre" "brace_close \<notin> set tag" "tag \<noteq> []"
  shows "keyHashSlot (pre @ brace_open # tag @ brace_close # post) = unat (crc16 tag AND 0x3FFF)"
proof -
  let ?key = "pre @ brace_open # tag @ brace_close # post"
  have s: "find_byte brace_open ?key = length pre" by (rule find_byte_append [OF assms(1)])
  have "find_byte brace_close (drop (length pre + 1) ?key) = length tag" using find_byte_append [OF assms(2)] by simp
  then show ?thesis using assms(3) by (simp add: keyHashSlot_def Let_def s)
qed

subsection \<open>Main results\<close>

text \<open>
  C36. The CRC computed with the table is the one defined bit by bit: CRC-16/XMODEM.
\<close>

theorem crc16_is_xmodem: "crc16 buf = crc_xmodem buf 0"
  by (simp add: crc16_def crc16_loop_bits)

text \<open>
  C37. The slot of a key is one of the 16384 slots.  Keys with the same part between their first brace
  and the next closing one, the hash tag, have the same slot, whatever is around it, and so has a key
  without braces that equals the tag; in all other cases the whole key is hashed.
\<close>

theorem keyHashSlot_spec:
  "keyHashSlot key < 16384
   \<and> (brace_open \<notin> set pre \<and> brace_close \<notin> set tag \<and> tag \<noteq> []
        \<longrightarrow> keyHashSlot (pre @ brace_open # tag @ brace_close # post) = unat (crc_xmodem tag 0) mod 16384)
   \<and> ((\<nexists>pre tag post. key = pre @ brace_open # tag @ brace_close # post \<and> brace_open \<notin> set pre
         \<and> brace_close \<notin> set tag \<and> tag \<noteq> [])
        \<longrightarrow> keyHashSlot key = unat (crc_xmodem key 0) mod 16384)"
proof (intro conjI impI)
  show "keyHashSlot key < 16384" using keyHashSlot_less [of key] by (simp add: CLUSTER_SLOT_MASK_BITS_def)
next
  assume "brace_open \<notin> set pre \<and> brace_close \<notin> set tag \<and> tag \<noteq> []"
  then show "keyHashSlot (pre @ brace_open # tag @ brace_close # post) = unat (crc_xmodem tag 0) mod 16384"
    by (simp add: keyHashSlot_tag and_slot_mask crc16_def crc16_loop_bits)
next
  assume "\<nexists>pre tag post. key = pre @ brace_open # tag @ brace_close # post \<and> brace_open \<notin> set pre
    \<and> brace_close \<notin> set tag \<and> tag \<noteq> []"
  from keyHashSlot_whole [OF this] show "keyHashSlot key = unat (crc_xmodem key 0) mod 16384"
    by (simp add: and_slot_mask crc16_def crc16_loop_bits)
qed

theorem keyHashSlot_spec_witness:
  "keyHashSlot ([1] @ brace_open # [2, 3] @ brace_close # [4]) = unat (crc_xmodem [2, 3] 0) mod 16384"
proof -
  have "brace_open \<notin> set [1] \<and> brace_close \<notin> set [2, 3] \<and> [2, 3] \<noteq> ([] :: 8 word list)"
    by (simp add: brace_open_def brace_close_def)
  then show ?thesis using keyHashSlot_spec [of "[]" "[1]" "[2, 3]" "[4]"] by blast
qed

end
