(* ===== verification/Db.thy ===== *)
theory Db
  imports Kvstore_Results Crc16
begin

section \<open>Databases: keys and their time to live (db.c): the model\<close>

text \<open>
  A database has two stores with the same slots: \<open>keys\<close> maps a key to its object, \<open>expires\<close> maps the keys
  with a time to live to the time they expire at, in milliseconds.  A key is a list of bytes.  An
  object is a value (\<open>robj\<close>) with its type, its access time \<open>lru\<close> and its contents; the reference counts
  and the sharing of objects are not modelled.  A value in \<open>keys\<close> is an object or \<open>None\<close> for NULL.

  What the functions tell other parts of the server (modules, blocked and watching clients, keyspace
  notifications, replicas, the expiry of hash fields, the thread that frees objects) is recorded in the
  order of the calls in \<open>calls\<close>.  The counters of the server they update are part of the record too.

  \<open>db_conf\<close> has the types of the two kinds of dictionaries and the allocator.  \<open>server\<close> has what the
  functions read of the state of the server, which changes from one command to the next: its role,
  its configuration, the clock, and what the clock gives for the access time of an object.  A failed
  assertion and the use of a NULL pointer are \<open>None\<close>.
\<close>

unbundle bit_operations_syntax

type_synonym key = "byte list"

datatype obj_type = OBJ_STRING | OBJ_LIST | OBJ_SET | OBJ_ZSET | OBJ_HASH | OBJ_MODULE | OBJ_STREAM

record 'o robj =
  otype :: obj_type
  lru :: "24 word"
  contents :: 'o

datatype db_call =
    ModuleNotifyKeyUnlink key nat
  | SignalDeletedKeyAsReady key obj_type
  | SignalKeyAsReady key obj_type
  | NotifyKeyspaceEvent string key
  | SignalModifiedKey key
  | PropagateDeletion key bool
  | RememberSlaveKeyWithExpire key
  | HashTypeRemoveFromExpires key
  | HashTypeAddToExpires key nat
  | EbDestroy
  | FreeObj key bool
  | FreeDatabase
  | TouchAllWatchedKeysInDb
  | ScanDatabaseForDeletedKeys
  | ScanDatabaseForReadyKeys

record 'o redisDb =
  keys :: "(key, 'o robj option) kvstore"
  expires :: "(key, int) kvstore"
  avg_ttl :: int
  expires_cursor :: nat
  calls :: "db_call list"
  stat_keyspace_hits :: int
  stat_keyspace_misses :: int
  stat_expiredkeys :: int
  dirty :: int

record db_conf =
  dbDictType :: "key dict_env"
  dbExpiresDictType :: "key dict_env"
  alloc :: "nat al_env"

record 'o server =
  cluster_enabled :: bool
  client_slot :: "nat option"
  loading :: bool
  lazy_expire_disabled :: bool
  masterhost :: bool
  repl_slave_ro :: bool
  client_is_master :: bool
  client_no_touch :: bool
  has_client :: bool
  active_child :: bool
  expire_paused :: bool
  lazyfree_lazy_expire :: bool
  lazyfree_lazy_server_del :: bool
  lazyfree_lazy_user_del :: bool
  time_snapshot :: int
  init_lru :: "'o robj \<Rightarrow> 24 word"
  touch_lru :: "'o robj \<Rightarrow> 24 word"
  hash_min_expire :: "'o robj \<Rightarrow> nat option"

definition LOOKUP_NONE :: "32 word" where "LOOKUP_NONE = 0"
definition LOOKUP_NOTOUCH :: "32 word" where "LOOKUP_NOTOUCH = 1"
definition LOOKUP_NONOTIFY :: "32 word" where "LOOKUP_NONOTIFY = 2"
definition LOOKUP_NOSTATS :: "32 word" where "LOOKUP_NOSTATS = 4"
definition LOOKUP_WRITE :: "32 word" where "LOOKUP_WRITE = 8"
definition LOOKUP_NOEXPIRE :: "32 word" where "LOOKUP_NOEXPIRE = 16"

definition SETKEY_KEEPTTL :: "32 word" where "SETKEY_KEEPTTL = 1"
definition SETKEY_NO_SIGNAL :: "32 word" where "SETKEY_NO_SIGNAL = 2"
definition SETKEY_ALREADY_EXIST :: "32 word" where "SETKEY_ALREADY_EXIST = 4"
definition SETKEY_DOESNT_EXIST :: "32 word" where "SETKEY_DOESNT_EXIST = 8"
definition SETKEY_ADD_OR_UPDATE :: "32 word" where "SETKEY_ADD_OR_UPDATE = 16"

definition EXPIRE_FORCE_DELETE_EXPIRED :: "32 word" where "EXPIRE_FORCE_DELETE_EXPIRED = 1"
definition EXPIRE_AVOID_DELETE_EXPIRED :: "32 word" where "EXPIRE_AVOID_DELETE_EXPIRED = 2"

definition DB_FLAG_KEY_DELETED :: nat where "DB_FLAG_KEY_DELETED = 1"
definition DB_FLAG_KEY_EXPIRED :: nat where "DB_FLAG_KEY_EXPIRED = 2"
definition DB_FLAG_KEY_OVERWRITE :: nat where "DB_FLAG_KEY_OVERWRITE = 8"

datatype keyStatus = KEY_VALID | KEY_EXPIRED | KEY_DELETED

definition log :: "db_call \<Rightarrow> 'o redisDb \<Rightarrow> 'o redisDb" where
  "log c db = db\<lparr>calls := calls db @ [c]\<rparr>"

subsection \<open>Slots and entries\<close>

definition calculateKeySlot :: "'o server \<Rightarrow> key \<Rightarrow> nat" where
  "calculateKeySlot sv key = (if cluster_enabled sv then keyHashSlot key else 0)"

definition getKeySlot :: "'o server \<Rightarrow> key \<Rightarrow> nat" where
  "getKeySlot sv key = (case client_slot sv of Some s \<Rightarrow> s | None \<Rightarrow> calculateKeySlot sv key)"

text \<open>The value at an entry; an entry whose value has not been set has none.\<close>

definition dictGetVal :: "('k, 'v) kvstore \<Rightarrow> nat \<Rightarrow> entry_ref \<Rightarrow> 'v option" where
  "dictGetVal kvs didx de =
     do { dopt \<leftarrow> kvstoreGetDict kvs didx; d \<leftarrow> dopt; (k, v) \<leftarrow> dictGetEntry d de; v }"

definition dbFindGeneric ::
  "key dict_env \<Rightarrow> nat al_env \<Rightarrow> 'o server \<Rightarrow> (key, 'v) kvstore \<Rightarrow> key
    \<Rightarrow> ((key, 'v) kvstore \<times> entry_ref option) option" where
  "dbFindGeneric env al sv kvs key = kvstoreDictFind env al kvs (getKeySlot sv key) key"

definition dbFind :: "db_conf \<Rightarrow> 'o server \<Rightarrow> 'o redisDb \<Rightarrow> key \<Rightarrow> ('o redisDb \<times> entry_ref option) option" where
  "dbFind cf sv db key =
     do { (k, de) \<leftarrow> dbFindGeneric (dbDictType cf) (alloc cf) sv (keys db) key; Some (db\<lparr>keys := k\<rparr>, de) }"

definition dbFindExpires :: "db_conf \<Rightarrow> 'o server \<Rightarrow> 'o redisDb \<Rightarrow> key \<Rightarrow> ('o redisDb \<times> entry_ref option) option" where
  "dbFindExpires cf sv db key =
     do { (x, de) \<leftarrow> dbFindGeneric (dbExpiresDictType cf) (alloc cf) sv (expires db) key; Some (db\<lparr>expires := x\<rparr>, de) }"

definition dbSize :: "'o redisDb \<Rightarrow> 64 word option" where
  "dbSize db = kvstoreSize (keys db)"

definition dbScan :: "db_conf \<Rightarrow> 'o redisDb \<Rightarrow> 64 word \<Rightarrow> ('o redisDb \<times> 64 word \<times> (key, 'o robj option) bucket) option" where
  "dbScan cf db cursor =
     do { (k, c, es) \<leftarrow> kvstoreScan (alloc cf) (keys db) cursor (-1) None; Some (db\<lparr>keys := k\<rparr>, c, es) }"

subsection \<open>Adding and changing keys\<close>

definition dbSetValue ::
  "db_conf \<Rightarrow> 'o server \<Rightarrow> 'o redisDb \<Rightarrow> key \<Rightarrow> 'o robj \<Rightarrow> bool \<Rightarrow> entry_ref option \<Rightarrow> 'o redisDb option" where
  "dbSetValue cf sv db key val overwrite de =
     (let slot = getKeySlot sv key in
      do { (db, de) \<leftarrow>
             (case de of Some e \<Rightarrow> Some (db, Some e)
              | None \<Rightarrow> do { (k, de) \<leftarrow> kvstoreDictFind (dbDictType cf) (alloc cf) (keys db) slot key;
                            Some (db\<lparr>keys := k\<rparr>, de) });
           e \<leftarrow> de;
           ptr \<leftarrow> dictGetVal (keys db) slot e;
           old \<leftarrow> ptr;
           let val = val\<lparr>lru := lru old\<rparr>;
           let db = (if overwrite
                     then log (SignalDeletedKeyAsReady key (otype old))
                            (log (ModuleNotifyKeyUnlink key DB_FLAG_KEY_OVERWRITE) db)
                     else db);
           k \<leftarrow> kvstoreDictSetVal (dbDictType cf) (alloc cf) (keys db) slot e (Some val);
           let db = db\<lparr>keys := k\<rparr>;
           let db = (if otype old = OBJ_HASH then log (HashTypeRemoveFromExpires key) db else db);
           Some (log (FreeObj key (lazyfree_lazy_server_del sv)) db) })"

definition dbReplaceValue :: "db_conf \<Rightarrow> 'o server \<Rightarrow> 'o redisDb \<Rightarrow> key \<Rightarrow> 'o robj \<Rightarrow> 'o redisDb option" where
  "dbReplaceValue cf sv db key val = dbSetValue cf sv db key val False None"

definition dbAddInternal ::
  "db_conf \<Rightarrow> 'o server \<Rightarrow> 'o redisDb \<Rightarrow> key \<Rightarrow> 'o robj \<Rightarrow> bool \<Rightarrow> ('o redisDb \<times> entry_ref) option" where
  "dbAddInternal cf sv db key val update_if_existing =
     (let slot = getKeySlot sv key in
      do { (k, ret) \<leftarrow> kvstoreDictAddRaw (dbDictType cf) (alloc cf) (keys db) slot key;
           let db = db\<lparr>keys := k\<rparr>;
           case ret of
             Inl existing \<Rightarrow>
               if update_if_existing
               then do { db \<leftarrow> dbSetValue cf sv db key val True (Some existing); Some (db, existing) }
               else None
           | Inr de \<Rightarrow>
               do { let val = val\<lparr>lru := init_lru sv val\<rparr>;
                    k \<leftarrow> kvstoreDictSetVal (dbDictType cf) (alloc cf) (keys db) slot de (Some val);
                    let db = db\<lparr>keys := k\<rparr>;
                    let db = log (SignalKeyAsReady key (otype val)) db;
                    Some (log (NotifyKeyspaceEvent ''new'' key) db, de) } })"

definition dbAdd :: "db_conf \<Rightarrow> 'o server \<Rightarrow> 'o redisDb \<Rightarrow> key \<Rightarrow> 'o robj \<Rightarrow> ('o redisDb \<times> entry_ref) option" where
  "dbAdd cf sv db key val = dbAddInternal cf sv db key val False"

definition dbAddRDBLoad :: "db_conf \<Rightarrow> 'o server \<Rightarrow> 'o redisDb \<Rightarrow> key \<Rightarrow> 'o robj \<Rightarrow> ('o redisDb \<times> bool) option" where
  "dbAddRDBLoad cf sv db key val =
     (let slot = getKeySlot sv key in
      do { (k, ret) \<leftarrow> kvstoreDictAddRaw (dbDictType cf) (alloc cf) (keys db) slot key;
           let db = db\<lparr>keys := k\<rparr>;
           case ret of Inl existing \<Rightarrow> Some (db, False)
           | Inr de \<Rightarrow>
               do { let val = val\<lparr>lru := init_lru sv val\<rparr>;
                    k \<leftarrow> kvstoreDictSetVal (dbDictType cf) (alloc cf) (keys db) slot de (Some val);
                    Some (db\<lparr>keys := k\<rparr>, True) } })"

subsection \<open>Deletion\<close>

definition dbGenericDelete ::
  "db_conf \<Rightarrow> 'o server \<Rightarrow> 'o redisDb \<Rightarrow> key \<Rightarrow> bool \<Rightarrow> nat \<Rightarrow> ('o redisDb \<times> bool) option" where
  "dbGenericDelete cf sv db key async flgs =
     (let slot = getKeySlot sv key in
      do { (k, de) \<leftarrow> kvstoreDictTwoPhaseUnlinkFind (dbDictType cf) (alloc cf) (keys db) slot key;
           let db = db\<lparr>keys := k\<rparr>;
           case de of None \<Rightarrow> Some (db, False)
           | Some e \<Rightarrow>
               do { ptr \<leftarrow> dictGetVal (keys db) slot e;
                    val \<leftarrow> ptr;
                    let db = (if otype val = OBJ_HASH then log (HashTypeRemoveFromExpires key) db else db);
                    let db = log (ModuleNotifyKeyUnlink key flgs) db;
                    let db = log (SignalDeletedKeyAsReady key (otype val)) db;
                    db \<leftarrow> (if async
                          then do { let db = log (FreeObj key True) db;
                                    k \<leftarrow> kvstoreDictSetVal (dbDictType cf) (alloc cf) (keys db) slot e None;
                                    Some (db\<lparr>keys := k\<rparr>) }
                          else Some db);
                    (x, found) \<leftarrow> kvstoreDictDelete (dbExpiresDictType cf) (alloc cf) (expires db) slot key;
                    let db = db\<lparr>expires := x\<rparr>;
                    k \<leftarrow> kvstoreDictTwoPhaseUnlinkFree (dbDictType cf) (alloc cf) (keys db) slot (Some e);
                    Some (db\<lparr>keys := k\<rparr>, True) } })"

definition dbSyncDelete :: "db_conf \<Rightarrow> 'o server \<Rightarrow> 'o redisDb \<Rightarrow> key \<Rightarrow> ('o redisDb \<times> bool) option" where
  "dbSyncDelete cf sv db key = dbGenericDelete cf sv db key False DB_FLAG_KEY_DELETED"

definition dbAsyncDelete :: "db_conf \<Rightarrow> 'o server \<Rightarrow> 'o redisDb \<Rightarrow> key \<Rightarrow> ('o redisDb \<times> bool) option" where
  "dbAsyncDelete cf sv db key = dbGenericDelete cf sv db key True DB_FLAG_KEY_DELETED"

definition dbDelete :: "db_conf \<Rightarrow> 'o server \<Rightarrow> 'o redisDb \<Rightarrow> key \<Rightarrow> ('o redisDb \<times> bool) option" where
  "dbDelete cf sv db key = dbGenericDelete cf sv db key (lazyfree_lazy_server_del sv) DB_FLAG_KEY_DELETED"

subsection \<open>Time to live\<close>

definition removeExpire :: "db_conf \<Rightarrow> 'o server \<Rightarrow> 'o redisDb \<Rightarrow> key \<Rightarrow> ('o redisDb \<times> bool) option" where
  "removeExpire cf sv db key =
     do { (x, found) \<leftarrow> kvstoreDictDelete (dbExpiresDictType cf) (alloc cf) (expires db) (getKeySlot sv key) key;
          Some (db\<lparr>expires := x\<rparr>, found) }"

definition setExpire :: "db_conf \<Rightarrow> 'o server \<Rightarrow> 'o redisDb \<Rightarrow> key \<Rightarrow> int \<Rightarrow> 'o redisDb option" where
  "setExpire cf sv db key when' =
     (let slot = getKeySlot sv key in
      do { (k, kde) \<leftarrow> kvstoreDictFind (dbDictType cf) (alloc cf) (keys db) slot key;
           let db = db\<lparr>keys := k\<rparr>;
           kde \<leftarrow> kde;
           (x, ret) \<leftarrow> kvstoreDictAddRaw (dbExpiresDictType cf) (alloc cf) (expires db) slot key;
           x \<leftarrow> (case ret of
                  Inl existing \<Rightarrow> kvstoreDictSetVal (dbExpiresDictType cf) (alloc cf) x slot existing when'
                | Inr de \<Rightarrow> kvstoreDictSetVal (dbExpiresDictType cf) (alloc cf) x slot de when');
           let db = db\<lparr>expires := x\<rparr>;
           let writable_slave = masterhost sv \<and> \<not> repl_slave_ro sv;
           Some (if has_client sv \<and> writable_slave \<and> \<not> client_is_master sv
                 then log (RememberSlaveKeyWithExpire key) db else db) })"

definition getExpire :: "db_conf \<Rightarrow> 'o server \<Rightarrow> 'o redisDb \<Rightarrow> key \<Rightarrow> ('o redisDb \<times> int) option" where
  "getExpire cf sv db key =
     do { (db, de) \<leftarrow> dbFindExpires cf sv db key;
          case de of None \<Rightarrow> Some (db, -1)
          | Some e \<Rightarrow> do { v \<leftarrow> dictGetVal (expires db) (getKeySlot sv key) e; Some (db, v) } }"

definition keyIsExpired :: "db_conf \<Rightarrow> 'o server \<Rightarrow> 'o redisDb \<Rightarrow> key \<Rightarrow> ('o redisDb \<times> bool) option" where
  "keyIsExpired cf sv db key =
     (if loading sv then Some (db, False)
      else do { (db, when') \<leftarrow> getExpire cf sv db key;
                if when' < 0 then Some (db, False) else Some (db, time_snapshot sv > when') })"

definition deleteExpiredKeyAndPropagate :: "db_conf \<Rightarrow> 'o server \<Rightarrow> 'o redisDb \<Rightarrow> key \<Rightarrow> 'o redisDb option" where
  "deleteExpiredKeyAndPropagate cf sv db key =
     do { (db, deleted) \<leftarrow> dbGenericDelete cf sv db key (lazyfree_lazy_expire sv) DB_FLAG_KEY_EXPIRED;
          let db = log (NotifyKeyspaceEvent ''expired'' key) db;
          let db = log (SignalModifiedKey key) db;
          let db = log (PropagateDeletion key (lazyfree_lazy_expire sv)) db;
          Some (db\<lparr>stat_expiredkeys := stat_expiredkeys db + 1\<rparr>) }"

definition expireIfNeeded ::
  "db_conf \<Rightarrow> 'o server \<Rightarrow> 'o redisDb \<Rightarrow> key \<Rightarrow> 32 word \<Rightarrow> ('o redisDb \<times> keyStatus) option" where
  "expireIfNeeded cf sv db key flgs =
     (if lazy_expire_disabled sv then Some (db, KEY_VALID)
      else do {
        (db, expired) \<leftarrow> keyIsExpired cf sv db key;
        if \<not> expired then Some (db, KEY_VALID)
        else if masterhost sv \<and> client_is_master sv then Some (db, KEY_VALID)
        else if masterhost sv \<and> flgs AND EXPIRE_FORCE_DELETE_EXPIRED = 0 then Some (db, KEY_EXPIRED)
        else if flgs AND EXPIRE_AVOID_DELETE_EXPIRED \<noteq> 0 then Some (db, KEY_EXPIRED)
        else if expire_paused sv then Some (db, KEY_EXPIRED)
        else do { db \<leftarrow> deleteExpiredKeyAndPropagate cf sv db key; Some (db, KEY_DELETED) } })"

subsection \<open>Lookup\<close>

text \<open>What \<open>lookupKey\<close> does when it has found an object, at the entry \<open>e\<close>, and when it has not.\<close>

definition lookup_hit ::
  "db_conf \<Rightarrow> 'o server \<Rightarrow> 'o redisDb \<Rightarrow> key \<Rightarrow> 32 word \<Rightarrow> entry_ref \<Rightarrow> 'o robj \<Rightarrow> ('o redisDb \<times> 'o robj) option" where
  "lookup_hit cf sv db key flgs e val =
     do { let flgs = (if client_no_touch sv then flgs OR LOOKUP_NOTOUCH else flgs);
          (db, val) \<leftarrow>
            (if \<not> active_child sv \<and> flgs AND LOOKUP_NOTOUCH = 0
             then do { let val = val\<lparr>lru := touch_lru sv val\<rparr>;
                       k \<leftarrow> kvstoreDictSetVal (dbDictType cf) (alloc cf) (keys db) (getKeySlot sv key) e (Some val);
                       Some (db\<lparr>keys := k\<rparr>, val) }
             else Some (db, val));
          Some (if flgs AND (LOOKUP_NOSTATS OR LOOKUP_WRITE) = 0
                then db\<lparr>stat_keyspace_hits := stat_keyspace_hits db + 1\<rparr> else db, val) }"

definition lookup_miss :: "'o redisDb \<Rightarrow> key \<Rightarrow> 32 word \<Rightarrow> 'o redisDb" where
  "lookup_miss db key flgs =
     (let db = (if flgs AND (LOOKUP_NONOTIFY OR LOOKUP_WRITE) = 0
                then log (NotifyKeyspaceEvent ''keymiss'' key) db else db)
      in if flgs AND (LOOKUP_NOSTATS OR LOOKUP_WRITE) = 0
         then db\<lparr>stat_keyspace_misses := stat_keyspace_misses db + 1\<rparr> else db)"

definition lookupKey ::
  "db_conf \<Rightarrow> 'o server \<Rightarrow> 'o redisDb \<Rightarrow> key \<Rightarrow> 32 word \<Rightarrow> ('o redisDb \<times> 'o robj option) option" where
  "lookupKey cf sv db key flgs =
     do { (db, de) \<leftarrow> dbFind cf sv db key;
          (db, val) \<leftarrow>
            (case de of None \<Rightarrow> Some (db, None)
             | Some e \<Rightarrow>
                 do { ptr \<leftarrow> dictGetVal (keys db) (getKeySlot sv key) e;
                      let is_ro_replica = (masterhost sv \<and> repl_slave_ro sv);
                      let expire_flags = (if flgs AND LOOKUP_WRITE \<noteq> 0 \<and> \<not> is_ro_replica
                                          then EXPIRE_FORCE_DELETE_EXPIRED else 0);
                      let expire_flags = (if flgs AND LOOKUP_NOEXPIRE \<noteq> 0
                                          then expire_flags OR EXPIRE_AVOID_DELETE_EXPIRED else expire_flags);
                      (db, status) \<leftarrow> expireIfNeeded cf sv db key expire_flags;
                      Some (db, if status \<noteq> KEY_VALID then None else map_option (Pair e) ptr) });
          case val of
            Some (e, val) \<Rightarrow> do { (db, val) \<leftarrow> lookup_hit cf sv db key flgs e val; Some (db, Some val) }
          | None \<Rightarrow> Some (lookup_miss db key flgs, None) }"

definition lookupKeyReadWithFlags ::
  "db_conf \<Rightarrow> 'o server \<Rightarrow> 'o redisDb \<Rightarrow> key \<Rightarrow> 32 word \<Rightarrow> ('o redisDb \<times> 'o robj option) option" where
  "lookupKeyReadWithFlags cf sv db key flgs =
     (if flgs AND LOOKUP_WRITE \<noteq> 0 then None else lookupKey cf sv db key flgs)"

definition lookupKeyRead :: "db_conf \<Rightarrow> 'o server \<Rightarrow> 'o redisDb \<Rightarrow> key \<Rightarrow> ('o redisDb \<times> 'o robj option) option" where
  "lookupKeyRead cf sv db key = lookupKeyReadWithFlags cf sv db key LOOKUP_NONE"

definition lookupKeyWriteWithFlags ::
  "db_conf \<Rightarrow> 'o server \<Rightarrow> 'o redisDb \<Rightarrow> key \<Rightarrow> 32 word \<Rightarrow> ('o redisDb \<times> 'o robj option) option" where
  "lookupKeyWriteWithFlags cf sv db key flgs = lookupKey cf sv db key (flgs OR LOOKUP_WRITE)"

definition lookupKeyWrite :: "db_conf \<Rightarrow> 'o server \<Rightarrow> 'o redisDb \<Rightarrow> key \<Rightarrow> ('o redisDb \<times> 'o robj option) option" where
  "lookupKeyWrite cf sv db key = lookupKeyWriteWithFlags cf sv db key LOOKUP_NONE"

definition setKey ::
  "db_conf \<Rightarrow> 'o server \<Rightarrow> 'o redisDb \<Rightarrow> key \<Rightarrow> 'o robj \<Rightarrow> 32 word \<Rightarrow> 'o redisDb option" where
  "setKey cf sv db key val flgs =
     do { (db, keyfound) \<leftarrow>
            (if flgs AND SETKEY_ALREADY_EXIST \<noteq> 0 then Some (db, 1)
             else if flgs AND SETKEY_ADD_OR_UPDATE \<noteq> 0 then Some (db, -1)
             else if flgs AND SETKEY_DOESNT_EXIST = 0
             then do { (db, o') \<leftarrow> lookupKeyWrite cf sv db key; Some (db, if o' \<noteq> None then 1 else 0 :: int) }
             else Some (db, 0));
          db \<leftarrow> (if keyfound = 0 then map_option fst (dbAdd cf sv db key val)
                else if keyfound < 0 then map_option fst (dbAddInternal cf sv db key val True)
                else dbSetValue cf sv db key val True None);
          db \<leftarrow> (if flgs AND SETKEY_KEEPTTL = 0 then map_option fst (removeExpire cf sv db key) else Some db);
          Some (if flgs AND SETKEY_NO_SIGNAL = 0 then log (SignalModifiedKey key) db else db) }"

subsection \<open>Commands\<close>

fun delGenericCommand ::
  "db_conf \<Rightarrow> 'o server \<Rightarrow> bool \<Rightarrow> key list \<Rightarrow> 'o redisDb \<Rightarrow> nat \<Rightarrow> ('o redisDb \<times> nat) option" where
  "delGenericCommand cf sv lazy [] db numdel = Some (db, numdel)"
| "delGenericCommand cf sv lazy (key # argv) db numdel =
     do { (db, status) \<leftarrow> expireIfNeeded cf sv db key 0;
          if status = KEY_DELETED then delGenericCommand cf sv lazy argv db numdel
          else do {
            (db, deleted) \<leftarrow> (if lazy then dbAsyncDelete cf sv db key else dbSyncDelete cf sv db key);
            if deleted
            then do { let db = log (SignalModifiedKey key) db;
                      let db = log (NotifyKeyspaceEvent ''del'' key) db;
                      delGenericCommand cf sv lazy argv (db\<lparr>dirty := dirty db + 1\<rparr>) (numdel + 1) }
            else delGenericCommand cf sv lazy argv db numdel } }"

definition delCommand :: "db_conf \<Rightarrow> 'o server \<Rightarrow> key list \<Rightarrow> 'o redisDb \<Rightarrow> ('o redisDb \<times> nat) option" where
  "delCommand cf sv argv db = delGenericCommand cf sv (lazyfree_lazy_user_del sv) argv db 0"

definition unlinkCommand :: "db_conf \<Rightarrow> 'o server \<Rightarrow> key list \<Rightarrow> 'o redisDb \<Rightarrow> ('o redisDb \<times> nat) option" where
  "unlinkCommand cf sv argv db = delGenericCommand cf sv True argv db 0"

fun existsCommand :: "db_conf \<Rightarrow> 'o server \<Rightarrow> key list \<Rightarrow> 'o redisDb \<Rightarrow> nat \<Rightarrow> ('o redisDb \<times> nat) option" where
  "existsCommand cf sv [] db n = Some (db, n)"
| "existsCommand cf sv (key # argv) db n =
     do { (db, o') \<leftarrow> lookupKeyReadWithFlags cf sv db key LOOKUP_NOTOUCH;
          existsCommand cf sv argv db (if o' \<noteq> None then n + 1 else n) }"

datatype rename_reply = NOKEYERR | CZERO | CONE | OK

definition renameGenericCommand ::
  "db_conf \<Rightarrow> 'o server \<Rightarrow> key \<Rightarrow> key \<Rightarrow> bool \<Rightarrow> 'o redisDb \<Rightarrow> ('o redisDb \<times> rename_reply) option" where
  "renameGenericCommand cf sv src dst nx db =
     (let samekey = (src = dst) in
      do { (db, o') \<leftarrow> lookupKeyWrite cf sv db src;
           case o' of None \<Rightarrow> Some (db, NOKEYERR)
           | Some obj \<Rightarrow>
               if samekey then Some (db, if nx then CZERO else OK)
               else do {
                 (db, expire) \<leftarrow> getExpire cf sv db src;
                 (db, there) \<leftarrow> lookupKeyWrite cf sv db dst;
                 if there \<noteq> None \<and> nx then Some (db, CZERO)
                 else do {
                   db \<leftarrow> (if there \<noteq> None then map_option fst (dbDelete cf sv db dst) else Some db);
                   (db, de) \<leftarrow> dbAdd cf sv db dst obj;
                   db \<leftarrow> (if expire \<noteq> -1 then setExpire cf sv db dst expire else Some db);
                   let minHashExpireTime = (if otype obj = OBJ_HASH then hash_min_expire sv obj else None);
                   let db = (if otype obj = OBJ_HASH then log (HashTypeRemoveFromExpires src) db else db);
                   (db, deleted) \<leftarrow> dbDelete cf sv db src;
                   let db = (case minHashExpireTime of None \<Rightarrow> db | Some t \<Rightarrow> log (HashTypeAddToExpires dst t) db);
                   let db = log (SignalModifiedKey src) db;
                   let db = log (SignalModifiedKey dst) db;
                   let db = log (NotifyKeyspaceEvent ''rename_from'' src) db;
                   let db = log (NotifyKeyspaceEvent ''rename_to'' dst) db;
                   Some (db\<lparr>dirty := dirty db + 1\<rparr>, if nx then CONE else OK) } } })"

definition renameCommand :: "db_conf \<Rightarrow> 'o server \<Rightarrow> key \<Rightarrow> key \<Rightarrow> 'o redisDb \<Rightarrow> ('o redisDb \<times> rename_reply) option" where
  "renameCommand cf sv src dst db = renameGenericCommand cf sv src dst False db"

definition renamenxCommand :: "db_conf \<Rightarrow> 'o server \<Rightarrow> key \<Rightarrow> key \<Rightarrow> 'o redisDb \<Rightarrow> ('o redisDb \<times> rename_reply) option" where
  "renamenxCommand cf sv src dst db = renameGenericCommand cf sv src dst True db"

subsection \<open>Whole databases\<close>

text \<open>
  A new store has a memory of its own for the list of rehashing dictionaries.  The databases of a
  server are an array, whose length is \<open>server.dbnum\<close>; an index outside of it is \<open>None\<close>.
\<close>

definition no_mem :: "nat mem" where "no_mem = \<lparr>cells = Map.empty, freed = []\<rparr>"

definition new_kvstore :: "db_conf \<Rightarrow> 'o server \<Rightarrow> ('k, 'v) kvstore option" where
  "new_kvstore cf sv =
     (let slot_count_bits = (if cluster_enabled sv then CLUSTER_SLOT_MASK_BITS else 0);
          flgs = (if cluster_enabled sv then KVSTORE_ALLOCATE_DICTS_ON_DEMAND OR KVSTORE_FREE_EMPTY_DICTS
                  else KVSTORE_ALLOCATE_DICTS_ON_DEMAND)
      in kvstoreCreate (alloc cf) no_mem slot_count_bits flgs)"

definition new_db :: "db_conf \<Rightarrow> 'o server \<Rightarrow> 'o redisDb option" where
  "new_db cf sv =
     do { k \<leftarrow> new_kvstore cf sv;
          x \<leftarrow> new_kvstore cf sv;
          Some \<lparr>keys = k, expires = x, avg_ttl = 0, expires_cursor = 0, calls = [],
                stat_keyspace_hits = 0, stat_keyspace_misses = 0, stat_expiredkeys = 0, dirty = 0\<rparr> }"

primrec initTempDb :: "db_conf \<Rightarrow> 'o server \<Rightarrow> nat \<Rightarrow> 'o redisDb list option" where
  "initTempDb cf sv 0 = Some []"
| "initTempDb cf sv (Suc dbnum) =
     do { tempDb \<leftarrow> initTempDb cf sv dbnum; db \<leftarrow> new_db cf sv; Some (tempDb @ [db]) }"

definition emptyDbAsync :: "db_conf \<Rightarrow> 'o server \<Rightarrow> 'o redisDb \<Rightarrow> 'o redisDb option" where
  "emptyDbAsync cf sv db =
     do { k \<leftarrow> new_kvstore cf sv;
          x \<leftarrow> new_kvstore cf sv;
          Some (log FreeDatabase (db\<lparr>keys := k, expires := x\<rparr>)) }"

definition empty_db :: "db_conf \<Rightarrow> 'o server \<Rightarrow> bool \<Rightarrow> 'o redisDb \<Rightarrow> ('o redisDb \<times> 64 word) option" where
  "empty_db cf sv async db =
     do { removed \<leftarrow> kvstoreSize (keys db);
          db \<leftarrow> (if async then emptyDbAsync cf sv db
                else do { let db = log EbDestroy db;
                          k \<leftarrow> kvstoreEmpty (alloc cf) (keys db);
                          x \<leftarrow> kvstoreEmpty (alloc cf) (expires db);
                          Some (db\<lparr>keys := k, expires := x\<rparr>) });
          Some (db\<lparr>avg_ttl := 0, expires_cursor := 0\<rparr>, removed) }"

fun empty_dbs ::
  "db_conf \<Rightarrow> 'o server \<Rightarrow> bool \<Rightarrow> int list \<Rightarrow> 'o redisDb list \<Rightarrow> 64 word \<Rightarrow> ('o redisDb list \<times> 64 word) option" where
  "empty_dbs cf sv async [] dbarray removed = Some (dbarray, removed)"
| "empty_dbs cf sv async (j # js) dbarray removed =
     (if 0 \<le> j \<and> nat j < length dbarray
      then do { (db, n) \<leftarrow> empty_db cf sv async (dbarray ! nat j);
                empty_dbs cf sv async js (dbarray[nat j := db]) (removed + n) }
      else None)"

definition emptyDbStructure ::
  "db_conf \<Rightarrow> 'o server \<Rightarrow> 'o redisDb list \<Rightarrow> int \<Rightarrow> bool \<Rightarrow> ('o redisDb list \<times> 64 word) option" where
  "emptyDbStructure cf sv dbarray dbnum async =
     (let (startdb, enddb) = (if dbnum = -1 then (0, int (length dbarray) - 1) else (dbnum, dbnum))
      in empty_dbs cf sv async [startdb..enddb] dbarray 0)"

end
