(* ===== verification/Db_Ops.thy ===== *)
theory Db_Ops
  imports Db
begin

section \<open>Databases: what the operations do\<close>

text \<open>
  A store is described by the map \<open>M\<close> from keys to values that its dictionaries hold together, each key
  in the dictionary of its slot.  A database is described by two such maps, its objects \<open>K\<close> and its
  times to live \<open>X\<close>; only keys that exist have a time to live.
\<close>

unbundle bit_operations_syntax

definition db_slot :: "bool \<Rightarrow> key \<Rightarrow> nat" where
  "db_slot cl key = (if cl then keyHashSlot key else 0)"

definition slotted :: "bool \<Rightarrow> ('a \<Rightarrow> 'v) \<Rightarrow> (key \<rightharpoonup> 'a) \<Rightarrow> nat \<Rightarrow> key \<rightharpoonup> 'v option" where
  "slotted cl g M = (\<lambda>i k. if i = db_slot cl k then map_option (\<lambda>v. Some (g v)) (M k) else None)"

definition kv_rep :: "key dict_env \<Rightarrow> bool \<Rightarrow> (key, 'v) kvstore \<Rightarrow> ('a \<Rightarrow> 'v) \<Rightarrow> (key \<rightharpoonup> 'a) \<Rightarrow> bool" where
  "kv_rep env cl kvs g M \<longleftrightarrow> kv_inv env kvs \<and> num_dicts kvs = 2 ^ (if cl then CLUSTER_SLOT_MASK_BITS else 0)
     \<and> kv_map kvs = slotted cl g M"

lemma kv_repD: "kv_rep env cl kvs g M \<Longrightarrow> kv_inv env kvs" "kv_rep env cl kvs g M \<Longrightarrow> kv_map kvs = slotted cl g M"
  "kv_rep env cl kvs g M \<Longrightarrow> db_slot cl k < num_dicts kvs"
  using keyHashSlot_less [of k] by (auto simp: kv_rep_def db_slot_def)

lemma slotted_upd:
  "(slotted cl g M)(db_slot cl k := (slotted cl g M (db_slot cl k))(k \<mapsto> Some (g v))) = slotted cl g (M(k \<mapsto> v))"
  "(slotted cl g M)(db_slot cl k := (slotted cl g M (db_slot cl k))(k := None)) = slotted cl g (M(k := None))"
  by (auto simp: slotted_def fun_eq_iff)

lemma slotted_at [simp]: "slotted cl g M (db_slot cl k) k = map_option (\<lambda>v. Some (g v)) (M k)"
  by (simp add: slotted_def)

lemma kv_rep_step: "kv_rep env cl kvs g M \<Longrightarrow> kv_step env kvs kvs' \<Longrightarrow> kv_rep env cl kvs' g M"
  by (simp add: kv_rep_def kv_step_def same_conf_def)

lemma kv_rep_total:
  assumes rep: "kv_rep env cl kvs g M"
  shows "kv_total kvs = card (dom M)" "finite (dom M)"
proof -
  let ?n = "num_dicts kvs" and ?D = "\<lambda>i. {k \<in> dom M. db_slot cl k = i}"
  have d: "dom (kv_map kvs i) = ?D i" for i by (auto simp: kv_repD(2) [OF rep] slotted_def split: if_splits)
  have fin: "finite (?D i)" for i using kv_map_finite [of kvs i] by (simp add: d)
  have lt: "db_slot cl k < ?n" for k by (rule kv_repD(3) [OF rep])
  have U: "(\<Union>i \<in> {..<?n}. ?D i) = dom M" using lt by blast
  have "finite (\<Union>i \<in> {..<?n}. ?D i)" using fin by blast
  then show "finite (dom M)" unfolding U .
  have "card (\<Union>i \<in> {..<?n}. ?D i) = (\<Sum>i \<in> {..<?n}. card (?D i))" by (rule card_UN_disjoint) (use fin in auto)
  then have "card (dom M) = (\<Sum>i \<in> {..<?n}. card (?D i))" unfolding U .
  then show "kv_total kvs = card (dom M)" by (simp add: kv_total_map [OF kv_repD(1) [OF rep]] d)
qed

lemma dictGetVal_entry:
  assumes "kv_inv env kvs" "i < num_dicts kvs" "kv_entry kvs i ref = Some (k, v)"
  shows "dictGetVal kvs i ref = v"
  using assms(3) by (auto simp: dictGetVal_def kv_inv_get [OF assms(1,2)] kv_entry_def bind_eq_Some_conv)

lemma dictSetVal_entry:
  assumes "dictSetVal env d ref val = Some d'" "dictGetEntry d ref = Some (k, old)"
  shows "dictGetEntry d' ref = Some (k, Some val) \<and> type_calls d' = type_calls d"
proof -
  obtain t idx p where ref: "ref = (t, idx, p)" by (cases ref)
  from assms(2) show ?thesis using assms(1) unfolding ref
    by (auto simp: dictSetVal_def Let_def dictGetEntry_def get_ht_def set_ht_def split: if_splits)
qed

lemma kvstoreDictSetVal_entry:
  assumes kv: "kv_inv env kvs" "i < num_dicts kvs" and e: "kv_entry kvs i ref = Some (k, old)"
    and s: "kvstoreDictSetVal env al kvs i ref val = Some kvs'"
  shows "kv_entry kvs' i ref = Some (k, Some val)"
proof -
  from e obtain d where d: "dicts kvs ! i = Some d" "dictGetEntry d ref = Some (k, old)"
    by (auto simp: kv_entry_def bind_eq_Some_conv)
  have "type_calls d = []" using kv_inv_dict [OF kv d(1)] by (simp add: kv_dict_ok_def)
  moreover from s obtain d' where d': "dictSetVal env d ref val = Some d'" "put_dict al kvs i d' = Some kvs'"
    using kv_inv_get [OF kv] d(1) by (auto simp: kvstoreDictSetVal_def bind_eq_Some_conv)
  ultimately show ?thesis using dictSetVal_entry [OF d'(1) d(2)] kv_inv_len [OF kv(1)] kv(2)
    by (auto simp: put_dict_def kv_entry_def)
qed

subsection \<open>Operations on a store\<close>

lemma kv_rep_find:
  assumes rep: "kv_rep env cl kvs g M" and al: "kv_alloc al"
  shows "\<exists>kvs' r. kvstoreDictFind env al kvs (db_slot cl k) k = Some (kvs', r) \<and> kv_rep env cl kvs' g M
    \<and> (case r of None \<Rightarrow> M k = None
       | Some ref \<Rightarrow> \<exists>v. M k = Some v \<and> kv_entry kvs' (db_slot cl k) ref = Some (k, Some (g v))
           \<and> dictGetVal kvs' (db_slot cl k) ref = Some (g v))"
proof -
  from kvstoreDictFind_correct [OF kv_repD(1) [OF rep] al kv_repD(3) [OF rep], of k] obtain kvs' r where
    r: "kvstoreDictFind env al kvs (db_slot cl k) k = Some (kvs', r)" "kv_step env kvs kvs'"
      "case r of None \<Rightarrow> kv_map kvs (db_slot cl k) k = None
       | Some ref \<Rightarrow> \<exists>v. kv_entry kvs' (db_slot cl k) ref = Some (k, v) \<and> kv_map kvs (db_slot cl k) k = Some v" by blast
  have rep': "kv_rep env cl kvs' g M" by (rule kv_rep_step [OF rep r(2)])
  show ?thesis using r rep' dictGetVal_entry [OF kv_repD(1,3) [OF rep']] unfolding kv_repD(2) [OF rep]
    by (intro exI [of _ kvs'] exI [of _ r]) (auto split: option.splits)
qed

lemma kv_rep_set:
  assumes rep: "kv_rep env cl kvs g M" and al: "kv_alloc al" and nv: "\<not> no_value env"
    and e: "kv_entry kvs (db_slot cl k) ref = Some (k, old)"
  shows "\<exists>kvs'. kvstoreDictSetVal env al kvs (db_slot cl k) ref (g w) = Some kvs' \<and> kv_rep env cl kvs' g (M(k \<mapsto> w))
    \<and> kv_entry kvs' (db_slot cl k) ref = Some (k, Some (g w))"
proof -
  note o = kv_repD(1) [OF rep] and i = kv_repD(3) [OF rep]
  from kvstoreDictSetVal_correct [OF o al i e nv, of "g w"] obtain kvs' where
    k: "kvstoreDictSetVal env al kvs (db_slot cl k) ref (g w) = Some kvs'" "kv_inv env kvs'" "same_conf kvs kvs'"
      "kv_map kvs' = (kv_map kvs)(db_slot cl k := (kv_map kvs (db_slot cl k))(k \<mapsto> Some (g w)))" by blast
  have "kv_rep env cl kvs' g (M(k \<mapsto> w))"
    using rep k(2-4) unfolding kv_repD(2) [OF rep] slotted_upd by (simp add: kv_rep_def same_conf_def)
  with k(1) kvstoreDictSetVal_entry [OF o i e k(1)] show ?thesis by blast
qed

lemma kv_rep_add:
  assumes rep: "kv_rep env cl kvs g M" and al: "kv_alloc al" and nv: "\<not> no_value env" and room: "card (dom M) < 2 ^ 64 - 1"
  shows "\<exists>kvs' r. kvstoreDictAddRaw env al kvs (db_slot cl k) k = Some (kvs', r)
    \<and> (case r of Inl ref \<Rightarrow> kv_rep env cl kvs' g M \<and> (\<exists>v. M k = Some v \<and> kv_entry kvs' (db_slot cl k) ref = Some (k, Some (g v))
           \<and> dictGetVal kvs' (db_slot cl k) ref = Some (g v))
       | Inr ref \<Rightarrow> M k = None \<and> (\<forall>w. \<exists>kvs''. kvstoreDictSetVal env al kvs' (db_slot cl k) ref (g w) = Some kvs''
           \<and> kv_rep env cl kvs'' g (M(k \<mapsto> w))))"
proof -
  let ?i = "db_slot cl k"
  note o = kv_repD(1) [OF rep] and i = kv_repD(3) [OF rep, of k]
  have "kv_total kvs < 2 ^ 64 - 1" using room kv_rep_total(1) [OF rep] by simp
  from kvstoreDictAddRaw_correct [OF o al i this, of k] obtain kvs' r where
    r: "kvstoreDictAddRaw env al kvs ?i k = Some (kvs', r)" "kv_inv env kvs'" "same_conf kvs kvs'"
      "case r of Inl ref \<Rightarrow> \<exists>v. kv_entry kvs' ?i ref = Some (k, v) \<and> kv_map kvs ?i k = Some v \<and> kv_map kvs' = kv_map kvs
       | Inr ref \<Rightarrow> kv_entry kvs' ?i ref = Some (k, None) \<and> kv_map kvs ?i k = None
           \<and> kv_map kvs' = (kv_map kvs)(?i := (kv_map kvs ?i)(k \<mapsto> None))" by blast
  have i': "?i < num_dicts kvs'" using i r(3) by (simp add: same_conf_def)
  show ?thesis
  proof (cases r)
    case (Inl ref)
    with r(4) have e: "\<exists>v. kv_entry kvs' ?i ref = Some (k, v) \<and> kv_map kvs ?i k = Some v" "kv_map kvs' = kv_map kvs" by auto
    then have "kv_rep env cl kvs' g M" using rep r(2,3) by (simp add: kv_rep_def same_conf_def)
    with e(1) r(1) Inl dictGetVal_entry [OF r(2) i', of ref] show ?thesis unfolding kv_repD(2) [OF rep] by auto
  next
    case (Inr ref)
    with r(4) have e: "kv_entry kvs' ?i ref = Some (k, None)" "M k = None"
      "kv_map kvs' = (kv_map kvs)(?i := (kv_map kvs ?i)(k \<mapsto> None))" by (auto simp: kv_repD(2) [OF rep])
    have "\<exists>kvs''. kvstoreDictSetVal env al kvs' ?i ref (g w) = Some kvs'' \<and> kv_rep env cl kvs'' g (M(k \<mapsto> w))" for w
    proof -
      from kvstoreDictSetVal_correct [OF r(2) al i' e(1) nv, of "g w"] obtain k2 where
        k2: "kvstoreDictSetVal env al kvs' ?i ref (g w) = Some k2" "kv_inv env k2" "same_conf kvs' k2"
          "kv_map k2 = (kv_map kvs')(?i := (kv_map kvs' ?i)(k \<mapsto> Some (g w)))" by blast
      have "kv_map k2 = (kv_map kvs)(?i := (kv_map kvs ?i)(k \<mapsto> Some (g w)))" unfolding k2(4) e(3) by simp
      then show ?thesis
        using rep r(3) k2(1-3) unfolding kv_repD(2) [OF rep] slotted_upd by (simp add: kv_rep_def same_conf_def)
    qed
    with r(1) Inr e(2) show ?thesis by auto
  qed
qed

lemma kv_rep_delete:
  assumes rep: "kv_rep env cl kvs g M" and al: "kv_alloc al"
  shows "\<exists>kvs'. kvstoreDictDelete env al kvs (db_slot cl k) k = Some (kvs', M k \<noteq> None) \<and> kv_rep env cl kvs' g (M(k := None))"
proof -
  let ?i = "db_slot cl k"
  from kvstoreDictDelete_correct [OF kv_repD(1) [OF rep] al kv_repD(3) [OF rep], of k] obtain kvs' where
    k: "kvstoreDictDelete env al kvs ?i k = Some (kvs', kv_map kvs ?i k \<noteq> None)" "kv_inv env kvs'" "same_conf kvs kvs'"
      "kv_map kvs' = (kv_map kvs)(?i := (kv_map kvs ?i)(k := None))" by blast
  have "kv_rep env cl kvs' g (M(k := None))"
    using rep k(2-4) unfolding kv_repD(2) [OF rep] slotted_upd by (simp add: kv_rep_def same_conf_def)
  with k(1) show ?thesis unfolding kv_repD(2) [OF rep] by simp
qed

text \<open>Deletion in two phases, with or without overwriting the value in between.\<close>

lemma kv_rep_unlink:
  assumes rep: "kv_rep env cl kvs g M" and al: "kv_alloc al" and nv: "\<not> no_value env"
  shows "\<exists>k1 he. kvstoreDictTwoPhaseUnlinkFind env al kvs (db_slot cl k) k = Some (k1, he) \<and> kv_rep env cl k1 g M
    \<and> (case he of None \<Rightarrow> M k = None
       | Some ref \<Rightarrow> \<exists>v. M k = Some v \<and> dictGetVal k1 (db_slot cl k) ref = Some (g v)
           \<and> (\<exists>k2. kvstoreDictTwoPhaseUnlinkFree env al k1 (db_slot cl k) (Some ref) = Some k2
                \<and> kv_rep env cl k2 g (M(k := None)))
           \<and> (\<forall>w. \<exists>k2 k3. kvstoreDictSetVal env al k1 (db_slot cl k) ref w = Some k2
                \<and> kvstoreDictTwoPhaseUnlinkFree env al k2 (db_slot cl k) (Some ref) = Some k3
                \<and> kv_rep env cl k3 g (M(k := None))))"
proof -
  let ?i = "db_slot cl k"
  from kvstoreDictTwoPhaseUnlinkFind_correct [OF kv_repD(1) [OF rep] al kv_repD(3) [OF rep], of k] obtain k1 he where
    h: "kvstoreDictTwoPhaseUnlinkFind env al kvs ?i k = Some (k1, he)" "kv_step env kvs k1"
      "case he of None \<Rightarrow> kv_map kvs ?i k = None
       | Some ref \<Rightarrow> \<exists>v. kv_entry k1 ?i ref = Some (k, v) \<and> kv_map kvs ?i k = Some v" by blast
  have rep1: "kv_rep env cl k1 g M" by (rule kv_rep_step [OF rep h(2)])
  note o = kv_repD(1) [OF rep1] and i = kv_repD(3) [OF rep1, of k]
  show ?thesis
  proof (cases he)
    case None
    with h rep1 show ?thesis unfolding kv_repD(2) [OF rep] by auto
  next
    case (Some ref)
    with h(3) obtain v where v: "M k = Some v" "kv_entry k1 ?i ref = Some (k, Some (g v))"
      unfolding kv_repD(2) [OF rep] by auto
    have free: "\<exists>k3. kvstoreDictTwoPhaseUnlinkFree env al k2 ?i (Some ref) = Some k3 \<and> kv_rep env cl k3 g (M(k := None))"
      if k2: "kv_inv env k2" "same_conf k1 k2" "kv_entry k2 ?i ref = Some (k, x)"
        "(kv_map k2)(?i := (kv_map k2 ?i)(k := None)) = slotted cl g (M(k := None))" for k2 x
    proof -
      have "?i < num_dicts k2" using i k2(2) by (simp add: same_conf_def)
      from kvstoreDictTwoPhaseUnlinkFree_correct [OF k2(1) al this k2(3)] k2(2,4) rep1 show ?thesis
        by (auto simp: kv_rep_def same_conf_def)
    qed
    have "\<exists>k2 k3. kvstoreDictSetVal env al k1 ?i ref w = Some k2
        \<and> kvstoreDictTwoPhaseUnlinkFree env al k2 ?i (Some ref) = Some k3 \<and> kv_rep env cl k3 g (M(k := None))" for w
    proof -
      from kvstoreDictSetVal_correct [OF o al i v(2) nv, of w] obtain k2 where
        k2: "kvstoreDictSetVal env al k1 ?i ref w = Some k2" "kv_inv env k2" "same_conf k1 k2"
          "kv_map k2 = (kv_map k1)(?i := (kv_map k1 ?i)(k \<mapsto> Some w))" by blast
      have "(kv_map k2)(?i := (kv_map k2 ?i)(k := None)) = slotted cl g (M(k := None))"
        unfolding k2(4) kv_repD(2) [OF rep1] slotted_upd(2) [symmetric] by simp
      from free [OF k2(2,3) kvstoreDictSetVal_entry [OF o i v(2) k2(1)] this] k2(1) show ?thesis by blast
    qed
    moreover have "\<exists>k3. kvstoreDictTwoPhaseUnlinkFree env al k1 ?i (Some ref) = Some k3 \<and> kv_rep env cl k3 g (M(k := None))"
      by (rule free [OF o same_conf_refl v(2)]) (simp add: kv_repD(2) [OF rep1] slotted_upd)
    ultimately show ?thesis using h(1) rep1 Some v dictGetVal_entry [OF o i v(2)] by auto
  qed
qed

subsection \<open>Databases\<close>

text \<open>
  What a client can see of a database: the type and the contents of the object of every key, and when
  the key expires.
\<close>

type_synonym 'o keyspace = "key \<rightharpoonup> (obj_type \<times> 'o) \<times> int option"

definition seen :: "'o robj \<Rightarrow> obj_type \<times> 'o" where
  "seen v = (otype v, contents v)"

definition keyspace_of :: "(key \<rightharpoonup> 'o robj) \<Rightarrow> (key \<rightharpoonup> int) \<Rightarrow> 'o keyspace" where
  "keyspace_of K X = (\<lambda>k. map_option (\<lambda>v. (seen v, X k)) (K k))"

definition db_rel :: "db_conf \<Rightarrow> bool \<Rightarrow> 'o redisDb \<Rightarrow> (key \<rightharpoonup> 'o robj) \<Rightarrow> (key \<rightharpoonup> int) \<Rightarrow> bool" where
  "db_rel cf cl db K X \<longleftrightarrow> kv_rep (dbDictType cf) cl (keys db) Some K \<and> kv_rep (dbExpiresDictType cf) cl (expires db) id X
     \<and> dom X \<subseteq> dom K"

definition db_rep :: "db_conf \<Rightarrow> bool \<Rightarrow> 'o redisDb \<Rightarrow> 'o keyspace \<Rightarrow> bool" where
  "db_rep cf cl db m \<longleftrightarrow> (\<exists>K X. db_rel cf cl db K X \<and> m = keyspace_of K X)"

definition conf_ok :: "db_conf \<Rightarrow> bool" where
  "conf_ok cf \<longleftrightarrow> kv_alloc (alloc cf) \<and> \<not> no_value (dbDictType cf) \<and> \<not> no_value (dbExpiresDictType cf)"

text \<open>
  If the slot of the client's command is used, it is the slot of the key: a command whose keys do not
  have the same slot is rejected before it is executed.
\<close>

definition slot_ok :: "bool \<Rightarrow> 'o server \<Rightarrow> key \<Rightarrow> bool" where
  "slot_ok cl sv key \<longleftrightarrow> cluster_enabled sv = cl \<and> (case client_slot sv of None \<Rightarrow> True | Some s \<Rightarrow> s = db_slot cl key)"

lemma getKeySlot_ok [simp]: "slot_ok cl sv key \<Longrightarrow> getKeySlot sv key = db_slot cl key"
  by (auto simp: slot_ok_def getKeySlot_def calculateKeySlot_def db_slot_def split: option.splits)

lemma log_simps [simp]: "keys (log c db) = keys db" "expires (log c db) = expires db"
  by (simp_all add: log_def)

lemma db_rel_cong: "keys db' = keys db \<Longrightarrow> expires db' = expires db \<Longrightarrow> db_rel cf cl db' K X = db_rel cf cl db K X"
  by (simp add: db_rel_def)

lemma db_rep_cong: "keys db' = keys db \<Longrightarrow> expires db' = expires db \<Longrightarrow> db_rep cf cl db' m = db_rep cf cl db m"
  by (simp add: db_rep_def db_rel_def)

lemma db_rep_log [simp]: "db_rep cf cl (log c db) m = db_rep cf cl db m"
  by (rule db_rep_cong) simp_all

lemma db_repI: "db_rel cf cl db K X \<Longrightarrow> m = keyspace_of K X \<Longrightarrow> db_rep cf cl db m"
  by (auto simp: db_rep_def)

lemma keyspace_of_upd:
  "keyspace_of (K(k \<mapsto> v)) X = (keyspace_of K X)(k \<mapsto> (seen v, X k))"
  "keyspace_of (K(k := None)) (X(k := None)) = (keyspace_of K X)(k := None)"
  "K k = Some v \<Longrightarrow> keyspace_of K (X(k := e)) = (keyspace_of K X)(k \<mapsto> (seen v, e))"
  by (auto simp: keyspace_of_def fun_eq_iff)

lemma keyspace_of_at: "keyspace_of K X k = map_option (\<lambda>v. (seen v, X k)) (K k)"
  by (simp add: keyspace_of_def)

lemma db_rel_X: "db_rel cf cl db K X \<Longrightarrow> K k = None \<Longrightarrow> X k = None"
  by (auto simp: db_rel_def)

lemma dom_keyspace: "dom (keyspace_of K X) = dom K"
  by (auto simp: keyspace_of_def)

lemma db_rel_card:
  assumes "db_rel cf cl db K X"
  shows "card (dom X) \<le> card (dom (keyspace_of K X))" "finite (dom (keyspace_of K X))"
  using assms kv_rep_total(2) [of _ cl "keys db" Some K] by (auto simp: db_rel_def dom_keyspace intro: card_mono)

subsection \<open>Finding and writing entries\<close>

definition at_key :: "bool \<Rightarrow> 'o redisDb \<Rightarrow> key \<Rightarrow> entry_ref \<Rightarrow> 'o robj \<Rightarrow> bool" where
  "at_key cl db k e v \<longleftrightarrow> kv_entry (keys db) (db_slot cl k) e = Some (k, Some (Some v))
     \<and> dictGetVal (keys db) (db_slot cl k) e = Some (Some v)"

lemma dbFind_rel:
  assumes rel: "db_rel cf cl db K X" and cf: "conf_ok cf"
  shows "\<exists>k r. kvstoreDictFind (dbDictType cf) (alloc cf) (keys db) (db_slot cl key) key = Some (k, r)
    \<and> db_rel cf cl (db\<lparr>keys := k\<rparr>) K X
    \<and> (case r of None \<Rightarrow> K key = None | Some e \<Rightarrow> \<exists>v. K key = Some v \<and> at_key cl (db\<lparr>keys := k\<rparr>) key e v)"
proof -
  have "kv_rep (dbDictType cf) cl (keys db) Some K" "kv_alloc (alloc cf)" using rel cf by (simp_all add: db_rel_def conf_ok_def)
  from kv_rep_find [OF this, of key] rel show ?thesis by (fastforce simp: db_rel_def at_key_def split: option.splits)
qed

lemma write_rel:
  assumes rel: "db_rel cf cl db K X" and cf: "conf_ok cf" and e: "at_key cl db key e old" and old: "K key = Some old"
  shows "\<exists>k. kvstoreDictSetVal (dbDictType cf) (alloc cf) (keys db) (db_slot cl key) e (Some v) = Some k
    \<and> db_rel cf cl (db\<lparr>keys := k\<rparr>) (K(key \<mapsto> v)) X"
proof -
  have "kv_rep (dbDictType cf) cl (keys db) Some K" "kv_alloc (alloc cf)" "\<not> no_value (dbDictType cf)"
    using rel cf by (simp_all add: db_rel_def conf_ok_def)
  from kv_rep_set [OF this, of key e "Some (Some old)" v] e rel show ?thesis by (auto simp: db_rel_def at_key_def)
qed

lemma dbSetValue_at:
  assumes rel: "db_rel cf cl db K X" and cf: "conf_ok cf" and sv: "slot_ok cl sv key"
    and e: "at_key cl db key e old" and old: "K key = Some old"
  shows "\<exists>db'. dbSetValue cf sv db key val overwrite (Some e) = Some db' \<and> db_rel cf cl db' (K(key \<mapsto> val\<lparr>lru := lru old\<rparr>)) X"
proof -
  let ?db = "if overwrite then log (SignalDeletedKeyAsReady key (otype old)) (log (ModuleNotifyKeyUnlink key DB_FLAG_KEY_OVERWRITE) db)
    else db"
  have s: "keys ?db = keys db" "expires ?db = expires db" by simp_all
  from write_rel [OF rel cf e old, of "val\<lparr>lru := lru old\<rparr>"] obtain k where
    k: "kvstoreDictSetVal (dbDictType cf) (alloc cf) (keys db) (db_slot cl key) e (Some (val\<lparr>lru := lru old\<rparr>)) = Some k"
      "db_rel cf cl (db\<lparr>keys := k\<rparr>) (K(key \<mapsto> val\<lparr>lru := lru old\<rparr>)) X" by blast
  have g: "dictGetVal (keys db) (db_slot cl key) e = Some (Some old)" using e by (simp add: at_key_def)
  let ?db1 = "?db\<lparr>keys := k\<rparr>"
  let ?db2 = "if otype old = OBJ_HASH then log (HashTypeRemoveFromExpires key) ?db1 else ?db1"
  have "dbSetValue cf sv db key val overwrite (Some e) = Some (log (FreeObj key (lazyfree_lazy_server_del sv)) ?db2)"
    unfolding dbSetValue_def using sv g k(1) s by (simp add: Let_def)
  moreover have "db_rel cf cl (log (FreeObj key (lazyfree_lazy_server_del sv)) ?db2) (K(key \<mapsto> val\<lparr>lru := lru old\<rparr>)) X"
    using k(2) by (subst db_rel_cong [of _ "db\<lparr>keys := k\<rparr>"]) simp_all
  ultimately show ?thesis by blast
qed

lemma dbSetValue_find:
  assumes rel: "db_rel cf cl db K X" and cf: "conf_ok cf" and sv: "slot_ok cl sv key" and old: "K key = Some old"
  shows "\<exists>db'. dbSetValue cf sv db key val overwrite None = Some db' \<and> db_rel cf cl db' (K(key \<mapsto> val\<lparr>lru := lru old\<rparr>)) X"
proof -
  from dbFind_rel [OF rel cf, of key] old obtain k e where
    k: "kvstoreDictFind (dbDictType cf) (alloc cf) (keys db) (db_slot cl key) key = Some (k, Some e)"
      "db_rel cf cl (db\<lparr>keys := k\<rparr>) K X" "at_key cl (db\<lparr>keys := k\<rparr>) key e old"
    by (auto split: option.splits)
  have "dbSetValue cf sv db key val overwrite None = dbSetValue cf sv (db\<lparr>keys := k\<rparr>) key val overwrite (Some e)"
    using sv k(1) by (simp add: dbSetValue_def Let_def)
  with dbSetValue_at [OF k(2) cf sv k(3) old] show ?thesis by simp
qed

lemma dbSetValue_rep:
  assumes rep: "db_rep cf cl db m" and cf: "conf_ok cf" and sv: "slot_ok cl sv key" and old: "m key = Some (v, e)"
  shows "\<exists>db'. dbSetValue cf sv db key val overwrite None = Some db' \<and> db_rep cf cl db' (m(key \<mapsto> (seen val, e)))"
proof -
  from rep obtain K X where rel: "db_rel cf cl db K X" and m: "m = keyspace_of K X" by (auto simp: db_rep_def)
  from old m obtain r where r: "K key = Some r" "e = X key" by (auto simp: keyspace_of_at)
  from dbSetValue_find [OF rel cf sv r(1), of val overwrite] obtain db' where
    d: "dbSetValue cf sv db key val overwrite None = Some db'" "db_rel cf cl db' (K(key \<mapsto> val\<lparr>lru := lru r\<rparr>)) X" by blast
  have "db_rep cf cl db' (m(key \<mapsto> (seen val, e)))"
    by (rule db_repI [OF d(2)]) (simp add: keyspace_of_upd m r(2) seen_def)
  with d(1) show ?thesis by blast
qed

lemma dbAddInternal_rep:
  assumes rep: "db_rep cf cl db m" and cf: "conf_ok cf" and sv: "slot_ok cl sv key" and room: "card (dom m) < 2 ^ 64 - 1"
    and ok: "m key = None \<or> update"
  shows "\<exists>db' de. dbAddInternal cf sv db key val update = Some (db', de)
    \<and> db_rep cf cl db' (m(key \<mapsto> (seen val, case m key of None \<Rightarrow> None | Some (v, e) \<Rightarrow> e)))"
proof -
  from rep obtain K X where rel: "db_rel cf cl db K X" and m: "m = keyspace_of K X" by (auto simp: db_rep_def)
  have c: "kv_rep (dbDictType cf) cl (keys db) Some K" "kv_alloc (alloc cf)" "\<not> no_value (dbDictType cf)"
    "card (dom K) < 2 ^ 64 - 1" using rel cf room by (simp_all add: db_rel_def conf_ok_def m dom_keyspace)
  from kv_rep_add [OF c, of key] obtain k r where
    k: "kvstoreDictAddRaw (dbDictType cf) (alloc cf) (keys db) (db_slot cl key) key = Some (k, r)"
      "case r of Inl e \<Rightarrow> kv_rep (dbDictType cf) cl k Some K \<and> (\<exists>v. K key = Some v
           \<and> kv_entry k (db_slot cl key) e = Some (key, Some (Some v)) \<and> dictGetVal k (db_slot cl key) e = Some (Some v))
       | Inr e \<Rightarrow> K key = None \<and> (\<forall>w. \<exists>k'. kvstoreDictSetVal (dbDictType cf) (alloc cf) k (db_slot cl key) e (Some w) = Some k'
           \<and> kv_rep (dbDictType cf) cl k' Some (K(key \<mapsto> w)))" by blast
  show ?thesis
  proof (cases r)
    case (Inl e)
    with k(2) obtain v where v: "K key = Some v" "at_key cl (db\<lparr>keys := k\<rparr>) key e v" "db_rel cf cl (db\<lparr>keys := k\<rparr>) K X"
      using rel by (auto simp: at_key_def db_rel_def)
    from dbSetValue_at [OF v(3) cf sv v(2,1), of val True] obtain db' where
      d: "dbSetValue cf sv (db\<lparr>keys := k\<rparr>) key val True (Some e) = Some db'"
        "db_rel cf cl db' (K(key \<mapsto> val\<lparr>lru := lru v\<rparr>)) X" by blast
    have "update" using ok v(1) by (auto simp: m keyspace_of_at)
    then have "dbAddInternal cf sv db key val update = Some (db', e)"
      using sv k(1) Inl d(1) by (simp add: dbAddInternal_def Let_def)
    moreover have "db_rep cf cl db' (m(key \<mapsto> (seen val, case m key of None \<Rightarrow> None | Some (v, e) \<Rightarrow> e)))"
      by (rule db_repI [OF d(2)]) (simp add: keyspace_of_upd m keyspace_of_at v(1) seen_def)
    ultimately show ?thesis by blast
  next
    case (Inr e)
    let ?v = "val\<lparr>lru := init_lru sv val\<rparr>"
    from k(2) Inr obtain k' where
      k': "K key = None" "kvstoreDictSetVal (dbDictType cf) (alloc cf) k (db_slot cl key) e (Some ?v) = Some k'"
        "kv_rep (dbDictType cf) cl k' Some (K(key \<mapsto> ?v))" by auto
    let ?db = "log (NotifyKeyspaceEvent ''new'' key) (log (SignalKeyAsReady key (otype ?v)) (db\<lparr>keys := k'\<rparr>))"
    have "dbAddInternal cf sv db key val update = Some (?db, e)"
      using sv k(1) Inr k'(2) by (simp add: dbAddInternal_def Let_def)
    moreover have "db_rel cf cl ?db (K(key \<mapsto> ?v)) X" using k'(3) rel by (auto simp: db_rel_def)
    then have "db_rep cf cl ?db (m(key \<mapsto> (seen val, case m key of None \<Rightarrow> None | Some (v, e) \<Rightarrow> e)))"
      by (rule db_repI) (simp add: db_rel_X [OF rel k'(1)] keyspace_of_upd m keyspace_of_at k'(1) seen_def)
    ultimately show ?thesis by blast
  qed
qed

lemma dbAddRDBLoad_rep:
  assumes rep: "db_rep cf cl db m" and cf: "conf_ok cf" and sv: "slot_ok cl sv key" and room: "card (dom m) < 2 ^ 64 - 1"
  shows "\<exists>db'. dbAddRDBLoad cf sv db key val = Some (db', m key = None)
    \<and> db_rep cf cl db' (if m key = None then m(key \<mapsto> (seen val, None)) else m)"
proof -
  from rep obtain K X where rel: "db_rel cf cl db K X" and m: "m = keyspace_of K X" by (auto simp: db_rep_def)
  have c: "kv_rep (dbDictType cf) cl (keys db) Some K" "kv_alloc (alloc cf)" "\<not> no_value (dbDictType cf)"
    "card (dom K) < 2 ^ 64 - 1" using rel cf room by (simp_all add: db_rel_def conf_ok_def m dom_keyspace)
  from kv_rep_add [OF c, of key] obtain k r where
    k: "kvstoreDictAddRaw (dbDictType cf) (alloc cf) (keys db) (db_slot cl key) key = Some (k, r)"
      "case r of Inl e \<Rightarrow> kv_rep (dbDictType cf) cl k Some K \<and> (\<exists>v. K key = Some v
           \<and> kv_entry k (db_slot cl key) e = Some (key, Some (Some v)) \<and> dictGetVal k (db_slot cl key) e = Some (Some v))
       | Inr e \<Rightarrow> K key = None \<and> (\<forall>w. \<exists>k'. kvstoreDictSetVal (dbDictType cf) (alloc cf) k (db_slot cl key) e (Some w) = Some k'
           \<and> kv_rep (dbDictType cf) cl k' Some (K(key \<mapsto> w)))" by blast
  show ?thesis
  proof (cases r)
    case (Inl e)
    with k(2) rel have "db_rel cf cl (db\<lparr>keys := k\<rparr>) K X" "(m key = None) = False" by (auto simp: db_rel_def m keyspace_of_at)
    with k(1) Inl sv show ?thesis by (simp only: if_False) (simp add: dbAddRDBLoad_def Let_def db_repI [OF _ m])
  next
    case (Inr e)
    let ?v = "val\<lparr>lru := init_lru sv val\<rparr>"
    from k(2) Inr obtain k' where
      k': "K key = None" "kvstoreDictSetVal (dbDictType cf) (alloc cf) k (db_slot cl key) e (Some ?v) = Some k'"
        "kv_rep (dbDictType cf) cl k' Some (K(key \<mapsto> ?v))" by auto
    have "db_rel cf cl (db\<lparr>keys := k'\<rparr>) (K(key \<mapsto> ?v)) X" using k'(3) rel by (auto simp: db_rel_def)
    then have "db_rep cf cl (db\<lparr>keys := k'\<rparr>) (m(key \<mapsto> (seen val, None)))"
      by (rule db_repI) (simp add: db_rel_X [OF rel k'(1)] keyspace_of_upd m seen_def)
    with k(1) Inr k'(1,2) sv show ?thesis by (simp add: dbAddRDBLoad_def Let_def m keyspace_of_at)
  qed
qed

subsection \<open>Deletion and time to live\<close>

lemma dbGenericDelete_rel:
  assumes rel: "db_rel cf cl db K X" and cf: "conf_ok cf" and sv: "slot_ok cl sv key"
  shows "\<exists>db'. dbGenericDelete cf sv db key async flgs = Some (db', K key \<noteq> None)
    \<and> db_rel cf cl db' (K(key := None)) (X(key := None))"
proof -
  have c: "kv_rep (dbDictType cf) cl (keys db) Some K" "kv_alloc (alloc cf)" "\<not> no_value (dbDictType cf)"
    "kv_rep (dbExpiresDictType cf) cl (expires db) id X"
    using rel cf by (simp_all add: db_rel_def conf_ok_def)
  from kv_rep_unlink [OF c(1-3), of key] obtain k1 he where
    h: "kvstoreDictTwoPhaseUnlinkFind (dbDictType cf) (alloc cf) (keys db) (db_slot cl key) key = Some (k1, he)"
      "kv_rep (dbDictType cf) cl k1 Some K"
      "case he of None \<Rightarrow> K key = None
       | Some e \<Rightarrow> \<exists>v. K key = Some v \<and> dictGetVal k1 (db_slot cl key) e = Some (Some v)
           \<and> (\<exists>k2. kvstoreDictTwoPhaseUnlinkFree (dbDictType cf) (alloc cf) k1 (db_slot cl key) (Some e) = Some k2
                \<and> kv_rep (dbDictType cf) cl k2 Some (K(key := None)))
           \<and> (\<forall>w. \<exists>k2 k3. kvstoreDictSetVal (dbDictType cf) (alloc cf) k1 (db_slot cl key) e w = Some k2
                \<and> kvstoreDictTwoPhaseUnlinkFree (dbDictType cf) (alloc cf) k2 (db_slot cl key) (Some e) = Some k3
                \<and> kv_rep (dbDictType cf) cl k3 Some (K(key := None)))" by blast
  show ?thesis
  proof (cases he)
    case None
    with h(3) have no: "K key = None" "X key = None" using db_rel_X [OF rel] by auto
    then have "K(key := None) = K" "X(key := None) = X" by auto
    moreover have "db_rel cf cl (db\<lparr>keys := k1\<rparr>) K X" using h(2) rel by (simp add: db_rel_def)
    ultimately show ?thesis using h(1) None sv no(1) by (simp add: dbGenericDelete_def Let_def)
  next
    case (Some e)
    from kv_rep_delete [OF c(4,2), of key] obtain x where
      x: "kvstoreDictDelete (dbExpiresDictType cf) (alloc cf) (expires db) (db_slot cl key) key = Some (x, X key \<noteq> None)"
        "kv_rep (dbExpiresDictType cf) cl x id (X(key := None))" by blast
    from h(3) Some obtain v k2 k3 k4 where
      v: "K key = Some v" "dictGetVal k1 (db_slot cl key) e = Some (Some v)"
        "kvstoreDictTwoPhaseUnlinkFree (dbDictType cf) (alloc cf) k1 (db_slot cl key) (Some e) = Some k2"
        "kv_rep (dbDictType cf) cl k2 Some (K(key := None))"
        "kvstoreDictSetVal (dbDictType cf) (alloc cf) k1 (db_slot cl key) e None = Some k3"
        "kvstoreDictTwoPhaseUnlinkFree (dbDictType cf) (alloc cf) k3 (db_slot cl key) (Some e) = Some k4"
        "kv_rep (dbDictType cf) cl k4 Some (K(key := None))" by (auto split: option.splits) metis
    have dom: "dom (X(key := None)) \<subseteq> dom (K(key := None))" using rel by (auto simp: db_rel_def)
    have "\<exists>db'. dbGenericDelete cf sv db key async flgs = Some (db', True) \<and> expires db' = x
        \<and> keys db' = (if async then k4 else k2)"
      using h(1) Some sv v x(1) by (cases async; cases "otype v = OBJ_HASH") (simp_all add: dbGenericDelete_def Let_def)
    then obtain db' where d: "dbGenericDelete cf sv db key async flgs = Some (db', True)" "expires db' = x"
      "keys db' = (if async then k4 else k2)" by blast
    have "db_rel cf cl db' (K(key := None)) (X(key := None))" using v(4,7) x(2) dom d(2,3) by (simp add: db_rel_def)
    with d(1) v(1) show ?thesis by simp
  qed
qed

lemma dbGenericDelete_rep:
  assumes rep: "db_rep cf cl db m" and cf: "conf_ok cf" and sv: "slot_ok cl sv key"
  shows "\<exists>db'. dbGenericDelete cf sv db key async flgs = Some (db', m key \<noteq> None) \<and> db_rep cf cl db' (m(key := None))"
proof -
  from rep obtain K X where rel: "db_rel cf cl db K X" and m: "m = keyspace_of K X" by (auto simp: db_rep_def)
  from dbGenericDelete_rel [OF rel cf sv, of async flgs] obtain db' where
    d: "dbGenericDelete cf sv db key async flgs = Some (db', K key \<noteq> None)"
      "db_rel cf cl db' (K(key := None)) (X(key := None))" by blast
  from db_repI [OF d(2) keyspace_of_upd(2) [symmetric]] d(1) show ?thesis by (simp add: m keyspace_of_at)
qed

lemma removeExpire_rep:
  assumes rep: "db_rep cf cl db m" and cf: "conf_ok cf" and sv: "slot_ok cl sv key"
  shows "\<exists>db'. removeExpire cf sv db key = Some (db', \<exists>v t. m key = Some (v, Some t))
    \<and> db_rep cf cl db' (m(key := map_option (\<lambda>(v, e). (v, None)) (m key)))"
proof -
  from rep obtain K X where rel: "db_rel cf cl db K X" and m: "m = keyspace_of K X" by (auto simp: db_rep_def)
  have c: "kv_rep (dbExpiresDictType cf) cl (expires db) id X" "kv_alloc (alloc cf)"
    using rel cf by (simp_all add: db_rel_def conf_ok_def)
  from kv_rep_delete [OF this, of key] obtain x where
    x: "kvstoreDictDelete (dbExpiresDictType cf) (alloc cf) (expires db) (db_slot cl key) key = Some (x, X key \<noteq> None)"
      "kv_rep (dbExpiresDictType cf) cl x id (X(key := None))" by blast
  have "db_rel cf cl (db\<lparr>expires := x\<rparr>) K (X(key := None))" using rel x(2) by (auto simp: db_rel_def)
  then have "db_rep cf cl (db\<lparr>expires := x\<rparr>) (m(key := map_option (\<lambda>(v, e). (v, None)) (m key)))"
    by (rule db_repI) (auto simp: m keyspace_of_def fun_eq_iff option.map_comp comp_def)
  moreover have "X key \<noteq> None \<longleftrightarrow> (\<exists>v t. m key = Some (v, Some t))"
    using db_rel_X [OF rel, of key] by (cases "K key") (auto simp: m keyspace_of_at)
  ultimately show ?thesis using x(1) sv by (simp add: removeExpire_def)
qed

lemma setExpire_rep:
  assumes rep: "db_rep cf cl db m" and cf: "conf_ok cf" and sv: "slot_ok cl sv key" and room: "card (dom m) < 2 ^ 64 - 1"
    and old: "m key = Some (v, e)"
  shows "\<exists>db'. setExpire cf sv db key t = Some db' \<and> db_rep cf cl db' (m(key \<mapsto> (v, Some t)))"
proof -
  from rep obtain K X where rel: "db_rel cf cl db K X" and m: "m = keyspace_of K X" by (auto simp: db_rep_def)
  from old m obtain r where r: "K key = Some r" "v = seen r" by (auto simp: keyspace_of_at)
  from dbFind_rel [OF rel cf, of key] r(1) obtain k kde where
    k: "kvstoreDictFind (dbDictType cf) (alloc cf) (keys db) (db_slot cl key) key = Some (k, Some kde)"
      "db_rel cf cl (db\<lparr>keys := k\<rparr>) K X" by (auto split: option.splits)
  have c: "kv_rep (dbExpiresDictType cf) cl (expires db) id X" "kv_alloc (alloc cf)" "\<not> no_value (dbExpiresDictType cf)"
    "card (dom X) < 2 ^ 64 - 1"
    using rel cf room db_rel_card(1) [OF rel] by (auto simp: db_rel_def conf_ok_def m)
  from kv_rep_add [OF c, of key] obtain x1 ret where
    x1: "kvstoreDictAddRaw (dbExpiresDictType cf) (alloc cf) (expires db) (db_slot cl key) key = Some (x1, ret)"
      "case ret of Inl e \<Rightarrow> kv_rep (dbExpiresDictType cf) cl x1 id X \<and> (\<exists>v. X key = Some v
           \<and> kv_entry x1 (db_slot cl key) e = Some (key, Some (id v)) \<and> dictGetVal x1 (db_slot cl key) e = Some (id v))
       | Inr e \<Rightarrow> X key = None \<and> (\<forall>w. \<exists>k'. kvstoreDictSetVal (dbExpiresDictType cf) (alloc cf) x1 (db_slot cl key) e (id w) = Some k'
           \<and> kv_rep (dbExpiresDictType cf) cl k' id (X(key \<mapsto> w)))" by blast
  have "\<exists>x2. (case ret of Inl e \<Rightarrow> kvstoreDictSetVal (dbExpiresDictType cf) (alloc cf) x1 (db_slot cl key) e t
      | Inr e \<Rightarrow> kvstoreDictSetVal (dbExpiresDictType cf) (alloc cf) x1 (db_slot cl key) e t) = Some x2
      \<and> kv_rep (dbExpiresDictType cf) cl x2 id (X(key \<mapsto> t))"
  proof (cases ret)
    case (Inl e)
    with x1(2) obtain v where "kv_rep (dbExpiresDictType cf) cl x1 id X" "kv_entry x1 (db_slot cl key) e = Some (key, Some (id v))" by auto
    from kv_rep_set [OF this(1) c(2,3) this(2), of t] Inl show ?thesis by auto
  qed (use x1(2) in auto)
  then obtain x2 where x2: "(case ret of Inl e \<Rightarrow> kvstoreDictSetVal (dbExpiresDictType cf) (alloc cf) x1 (db_slot cl key) e t
      | Inr e \<Rightarrow> kvstoreDictSetVal (dbExpiresDictType cf) (alloc cf) x1 (db_slot cl key) e t) = Some x2"
      "kv_rep (dbExpiresDictType cf) cl x2 id (X(key \<mapsto> t))" by blast
  let ?db = "db\<lparr>keys := k, expires := x2\<rparr>"
  obtain db' where d: "setExpire cf sv db key t = Some db'" "keys db' = keys ?db" "expires db' = expires ?db"
    using k(1) x1(1) x2(1) sv by (simp add: setExpire_def Let_def)
  have "db_rel cf cl ?db K (X(key \<mapsto> t))" using k(2) x2(2) r(1) by (auto simp: db_rel_def)
  then have "db_rep cf cl ?db (m(key \<mapsto> (v, Some t)))"
    by (rule db_repI) (simp add: m keyspace_of_upd(3) [of K key, OF r(1)] r(2))
  with d(1) db_rep_cong [OF d(2,3)] show ?thesis by blast
qed

end
