(* ===== verification/Db_Keyspace.thy ===== *)
theory Db_Keyspace
  imports Db_Ops
begin

section \<open>Databases: expiry, lookup and commands\<close>

text \<open>
  The behaviour of the functions of db.c in terms of the keyspace that a client sees.  Whether a key
  whose time has come counts as expired, and whether it is then deleted, depends on the role of the
  server.
\<close>

unbundle bit_operations_syntax

definition due :: "'o server \<Rightarrow> int option \<Rightarrow> bool" where
  "due sv e \<longleftrightarrow> \<not> lazy_expire_disabled sv \<and> \<not> loading sv \<and> \<not> (masterhost sv \<and> client_is_master sv)
     \<and> (case e of None \<Rightarrow> False | Some t \<Rightarrow> 0 \<le> t \<and> t < time_snapshot sv)"

definition deletes :: "'o server \<Rightarrow> bool \<Rightarrow> bool \<Rightarrow> bool" where
  "deletes sv force avoid \<longleftrightarrow> (masterhost sv \<longrightarrow> force) \<and> \<not> avoid \<and> \<not> expire_paused sv"

definition gone :: "'o server \<Rightarrow> 'o keyspace \<Rightarrow> key \<Rightarrow> bool" where
  "gone sv m k \<longleftrightarrow> (case m k of None \<Rightarrow> False | Some (v, e) \<Rightarrow> due sv e)"

definition expire_key :: "'o server \<Rightarrow> bool \<Rightarrow> bool \<Rightarrow> 'o keyspace \<Rightarrow> key \<Rightarrow> 'o keyspace" where
  "expire_key sv force avoid m k = (if gone sv m k \<and> deletes sv force avoid then m(k := None) else m)"

subsection \<open>Expiry\<close>

lemma getExpire_rel:
  assumes rel: "db_rel cf cl db K X" and cf: "conf_ok cf" and sv: "slot_ok cl sv key"
  shows "\<exists>db'. getExpire cf sv db key = Some (db', case X key of None \<Rightarrow> -1 | Some t \<Rightarrow> t)
    \<and> db_rel cf cl db' K X \<and> keys db' = keys db"
proof -
  have "kv_rep (dbExpiresDictType cf) cl (expires db) id X" "kv_alloc (alloc cf)"
    using rel cf by (simp_all add: db_rel_def conf_ok_def)
  from kv_rep_find [OF this, of key] obtain x r where
    x: "kvstoreDictFind (dbExpiresDictType cf) (alloc cf) (expires db) (db_slot cl key) key = Some (x, r)"
      "kv_rep (dbExpiresDictType cf) cl x id X"
      "case r of None \<Rightarrow> X key = None | Some e \<Rightarrow> \<exists>t. X key = Some t \<and> dictGetVal x (db_slot cl key) e = Some t"
    by (fastforce split: option.splits)
  have "db_rel cf cl (db\<lparr>expires := x\<rparr>) K X" using rel x(2) by (simp add: db_rel_def)
  moreover have "getExpire cf sv db key = Some (db\<lparr>expires := x\<rparr>, case X key of None \<Rightarrow> -1 | Some t \<Rightarrow> t)"
    using x(1,3) sv by (auto simp: getExpire_def dbFindExpires_def dbFindGeneric_def split: option.splits)
  ultimately show ?thesis by simp
qed

lemma keyIsExpired_rel:
  assumes rel: "db_rel cf cl db K X" and cf: "conf_ok cf" and sv: "slot_ok cl sv key"
  shows "\<exists>db'. keyIsExpired cf sv db key
      = Some (db', \<not> loading sv \<and> (case X key of None \<Rightarrow> False | Some t \<Rightarrow> 0 \<le> t \<and> t < time_snapshot sv))
    \<and> db_rel cf cl db' K X \<and> keys db' = keys db"
proof -
  from getExpire_rel [OF assms] obtain db' where
    d: "getExpire cf sv db key = Some (db', case X key of None \<Rightarrow> -1 | Some t \<Rightarrow> t)" "db_rel cf cl db' K X" "keys db' = keys db"
    by blast
  with rel show ?thesis by (auto simp: keyIsExpired_def split: option.splits)
qed

lemma deleteExpired_rel:
  assumes rel: "db_rel cf cl db K X" and cf: "conf_ok cf" and sv: "slot_ok cl sv key"
  shows "\<exists>db'. deleteExpiredKeyAndPropagate cf sv db key = Some db' \<and> db_rel cf cl db' (K(key := None)) (X(key := None))"
proof -
  from dbGenericDelete_rel [OF assms, of "lazyfree_lazy_expire sv" DB_FLAG_KEY_EXPIRED] obtain db1 b where
    d: "dbGenericDelete cf sv db key (lazyfree_lazy_expire sv) DB_FLAG_KEY_EXPIRED = Some (db1, b)"
      "db_rel cf cl db1 (K(key := None)) (X(key := None))" by blast
  obtain db' where d': "deleteExpiredKeyAndPropagate cf sv db key = Some db'" "keys db' = keys db1" "expires db' = expires db1"
    by (simp add: deleteExpiredKeyAndPropagate_def d(1) Let_def)
  with d(2) db_rel_cong [OF d'(2,3)] show ?thesis by blast
qed

lemma expireIfNeeded_rel:
  fixes flgs :: "32 word"
  assumes rel: "db_rel cf cl db K X" and cf: "conf_ok cf" and sv: "slot_ok cl sv key"
  defines "del \<equiv> deletes sv (flgs AND EXPIRE_FORCE_DELETE_EXPIRED \<noteq> 0) (flgs AND EXPIRE_AVOID_DELETE_EXPIRED \<noteq> 0)"
  shows "\<exists>db'. expireIfNeeded cf sv db key flgs
      = Some (db', if \<not> due sv (X key) then KEY_VALID else if del then KEY_DELETED else KEY_EXPIRED)
    \<and> (if due sv (X key) \<and> del then db_rel cf cl db' (K(key := None)) (X(key := None))
       else db_rel cf cl db' K X \<and> keys db' = keys db)"
proof (cases "lazy_expire_disabled sv")
  case True
  with rel show ?thesis by (simp add: expireIfNeeded_def due_def)
next
  case False
  from keyIsExpired_rel [OF rel cf sv] obtain db1 where
    d1: "keyIsExpired cf sv db key
        = Some (db1, \<not> loading sv \<and> (case X key of None \<Rightarrow> False | Some t \<Rightarrow> 0 \<le> t \<and> t < time_snapshot sv))"
      "db_rel cf cl db1 K X" "keys db1 = keys db" by blast
  have due: "due sv (X key) \<longleftrightarrow> (\<not> loading sv \<and> (case X key of None \<Rightarrow> False | Some t \<Rightarrow> 0 \<le> t \<and> t < time_snapshot sv))
      \<and> \<not> (masterhost sv \<and> client_is_master sv)" using False by (auto simp: due_def)
  from deleteExpired_rel [OF d1(2) cf sv] obtain db2 where
    d2: "deleteExpiredKeyAndPropagate cf sv db1 key = Some db2" "db_rel cf cl db2 (K(key := None)) (X(key := None))" by blast
  show ?thesis using d1(2,3) d2 False unfolding expireIfNeeded_def d1(1) due del_def deletes_def
    by (cases "masterhost sv"; cases "client_is_master sv") auto
qed

lemma gone_rel:
  assumes "db_rel cf cl db K X"
  shows "gone sv (keyspace_of K X) key = due sv (X key)"
  using db_rel_X [OF assms, of key] by (cases "K key") (simp_all add: gone_def keyspace_of_at due_def)

lemma db_rep_del: "db_rel cf cl db (K(k := None)) (X(k := None)) \<Longrightarrow> db_rep cf cl db ((keyspace_of K X)(k := None))"
  by (rule db_repI [OF _ keyspace_of_upd(2) [symmetric]])

lemma expireIfNeeded_rep:
  fixes flgs :: "32 word"
  assumes rep: "db_rep cf cl db m" and cf: "conf_ok cf" and sv: "slot_ok cl sv key"
  defines "force \<equiv> flgs AND EXPIRE_FORCE_DELETE_EXPIRED \<noteq> 0" and "avoid \<equiv> flgs AND EXPIRE_AVOID_DELETE_EXPIRED \<noteq> 0"
  shows "\<exists>db'. expireIfNeeded cf sv db key flgs
      = Some (db', if \<not> gone sv m key then KEY_VALID else if deletes sv force avoid then KEY_DELETED else KEY_EXPIRED)
    \<and> db_rep cf cl db' (expire_key sv force avoid m key)"
proof -
  from rep obtain K X where rel: "db_rel cf cl db K X" and m: "m = keyspace_of K X" by (auto simp: db_rep_def)
  show ?thesis using expireIfNeeded_rel [OF rel cf sv, of flgs]
    unfolding m gone_rel [OF rel] expire_key_def force_def avoid_def
    by (auto intro: db_repI db_rep_del split: if_splits)
qed

subsection \<open>Lookup\<close>

text \<open>What a lookup finds, and which expired keys it deletes.\<close>

definition live :: "'o server \<Rightarrow> 'o keyspace \<Rightarrow> key \<Rightarrow> ((obj_type \<times> 'o) \<times> int option) option" where
  "live sv m k = (if gone sv m k then None else m k)"

definition lookup_expires :: "'o server \<Rightarrow> 32 word \<Rightarrow> 'o keyspace \<Rightarrow> key \<Rightarrow> 'o keyspace" where
  "lookup_expires sv flgs m k =
     expire_key sv (flgs AND LOOKUP_WRITE \<noteq> 0 \<and> \<not> (masterhost sv \<and> repl_slave_ro sv)) (flgs AND LOOKUP_NOEXPIRE \<noteq> 0) m k"

text \<open>The two halves of \<open>lookupKey\<close>: the check of the expiry, and what is done with the object.\<close>

lemma lookup_check:
  fixes flgs :: "32 word"
  assumes rel: "db_rel cf cl db K X" and cf: "conf_ok cf" and sv: "slot_ok cl sv key"
  defines "force \<equiv> flgs AND LOOKUP_WRITE \<noteq> 0 \<and> \<not> (masterhost sv \<and> repl_slave_ro sv)"
  defines "xf \<equiv> (let f = if force then EXPIRE_FORCE_DELETE_EXPIRED else 0
    in if flgs AND LOOKUP_NOEXPIRE \<noteq> 0 then f OR EXPIRE_AVOID_DELETE_EXPIRED else f)"
  shows "\<exists>db' st. expireIfNeeded cf sv db key xf = Some (db', st)
    \<and> (if due sv (X key) then st \<noteq> KEY_VALID else st = KEY_VALID \<and> keys db' = keys db \<and> db_rel cf cl db' K X)
    \<and> db_rep cf cl db' (lookup_expires sv flgs (keyspace_of K X) key)"
proof -
  have "xf AND EXPIRE_FORCE_DELETE_EXPIRED \<noteq> 0 \<longleftrightarrow> force" "xf AND EXPIRE_AVOID_DELETE_EXPIRED \<noteq> 0 \<longleftrightarrow> flgs AND LOOKUP_NOEXPIRE \<noteq> 0"
    unfolding xf_def by (simp_all add: Let_def EXPIRE_FORCE_DELETE_EXPIRED_def EXPIRE_AVOID_DELETE_EXPIRED_def)
  with expireIfNeeded_rel [OF rel cf sv, of xf] show ?thesis
    unfolding lookup_expires_def expire_key_def gone_rel [OF rel] force_def
    by (auto intro: db_repI db_rep_del split: if_splits)
qed

lemma db_rep_simps:
  "keys (lookup_miss db key flgs) = keys db" "expires (lookup_miss db key flgs) = expires db"
  by (simp_all add: lookup_miss_def Let_def)

lemma lookup_hit_rep:
  assumes rel: "db_rel cf cl db K X" and cf: "conf_ok cf" and sv: "slot_ok cl sv key"
    and e: "at_key cl db key e v" and v: "K key = Some v"
  shows "\<exists>db' w. lookup_hit cf sv db key flgs e v = Some (db', w) \<and> seen w = seen v \<and> db_rep cf cl db' (keyspace_of K X)"
proof -
  let ?v = "v\<lparr>lru := touch_lru sv v\<rparr>"
  let ?f = "if client_no_touch sv then flgs OR LOOKUP_NOTOUCH else flgs"
  from write_rel [OF rel cf e v, of ?v] obtain k where
    k: "kvstoreDictSetVal (dbDictType cf) (alloc cf) (keys db) (db_slot cl key) e (Some ?v) = Some k"
      "db_rel cf cl (db\<lparr>keys := k\<rparr>) (K(key \<mapsto> ?v)) X" by blast
  have "keyspace_of K X = keyspace_of (K(key \<mapsto> ?v)) X" by (auto simp: keyspace_of_def fun_eq_iff v seen_def)
  with k(2) have touched: "db_rep cf cl (db\<lparr>keys := k\<rparr>) (keyspace_of K X)" by (rule db_repI)
  have kept: "db_rep cf cl db (keyspace_of K X)" by (rule db_repI [OF rel refl])
  define f where "f = ?f"
  define t where "t \<longleftrightarrow> \<not> active_child sv \<and> f AND LOOKUP_NOTOUCH = 0"
  define db0 where "db0 = (if t then db\<lparr>keys := k\<rparr> else db)"
  define w where "w = (if t then ?v else v)"
  let ?db = "if f AND (LOOKUP_NOSTATS OR LOOKUP_WRITE) = 0 then db0\<lparr>stat_keyspace_hits := stat_keyspace_hits db0 + 1\<rparr> else db0"
  have "lookup_hit cf sv db key flgs e v = Some (?db, w)"
    using k(1) sv unfolding lookup_hit_def Let_def f_def [symmetric] t_def [symmetric] by (cases t) (simp_all add: db0_def w_def)
  moreover have "db_rep cf cl db0 (keyspace_of K X)" using touched kept by (simp add: db0_def)
  then have "db_rep cf cl ?db (keyspace_of K X)" by (subst db_rep_cong [of _ db0]) simp_all
  moreover have "seen w = seen v" by (simp add: w_def seen_def)
  ultimately show ?thesis by blast
qed

lemma lookupKey_rep:
  assumes rep: "db_rep cf cl db m" and cf: "conf_ok cf" and sv: "slot_ok cl sv key"
  shows "\<exists>db' r. lookupKey cf sv db key flgs = Some (db', r) \<and> map_option seen r = map_option fst (live sv m key)
    \<and> db_rep cf cl db' (lookup_expires sv flgs m key)"
proof -
  from rep obtain K X where rel: "db_rel cf cl db K X" and m: "m = keyspace_of K X" by (auto simp: db_rep_def)
  from dbFind_rel [OF rel cf, of key] obtain k r where
    k: "kvstoreDictFind (dbDictType cf) (alloc cf) (keys db) (db_slot cl key) key = Some (k, r)"
      "db_rel cf cl (db\<lparr>keys := k\<rparr>) K X"
      "case r of None \<Rightarrow> K key = None | Some e \<Rightarrow> \<exists>v. K key = Some v \<and> at_key cl (db\<lparr>keys := k\<rparr>) key e v" by blast
  let ?db = "db\<lparr>keys := k\<rparr>"
  have find: "dbFind cf sv db key = Some (?db, r)" using k(1) sv by (simp add: dbFind_def dbFindGeneric_def)
  have miss: "db_rep cf cl (lookup_miss db0 key flgs) m' = db_rep cf cl db0 m'" for db0 m'
    by (rule db_rep_cong) (simp_all add: db_rep_simps)
  show ?thesis
  proof (cases r)
    case None
    with k(3) have no: "m key = None" by (simp add: m keyspace_of_at)
    then have "live sv m key = None" "lookup_expires sv flgs m key = m"
      by (simp_all add: live_def lookup_expires_def expire_key_def gone_def)
    with None find db_repI [OF k(2) m] show ?thesis by (simp add: lookupKey_def miss)
  next
    case (Some e)
    with k(3) obtain v where v: "K key = Some v" "at_key cl ?db key e v" by auto
    from lookup_check [OF k(2) cf sv, of flgs] obtain db1 st where
      d1: "expireIfNeeded cf sv ?db key
          (let f = if flgs AND LOOKUP_WRITE \<noteq> 0 \<and> \<not> (masterhost sv \<and> repl_slave_ro sv) then EXPIRE_FORCE_DELETE_EXPIRED else 0
           in if flgs AND LOOKUP_NOEXPIRE \<noteq> 0 then f OR EXPIRE_AVOID_DELETE_EXPIRED else f) = Some (db1, st)"
        "if due sv (X key) then st \<noteq> KEY_VALID else st = KEY_VALID \<and> keys db1 = k \<and> db_rel cf cl db1 K X"
        "db_rep cf cl db1 (lookup_expires sv flgs m key)" unfolding m by auto
    have g: "dictGetVal k (db_slot cl key) e = Some (Some v)" using v(2) by (simp add: at_key_def)
    have look: "lookupKey cf sv db key flgs = (if st \<noteq> KEY_VALID then Some (lookup_miss db1 key flgs, None)
        else do { (db, val) \<leftarrow> lookup_hit cf sv db1 key flgs e v; Some (db, Some val) })"
      using d1(1) Some find g sv unfolding lookupKey_def Let_def by simp
    show ?thesis
    proof (cases "due sv (X key)")
      case True
      then have "live sv m key = None" by (simp add: live_def m gone_rel [OF rel])
      with True d1(2,3) show ?thesis by (simp add: look miss)
    next
      case False
      then have l: "live sv m key = Some (seen v, X key)" "lookup_expires sv flgs m key = m"
        by (simp_all add: live_def m gone_rel [OF rel] keyspace_of_at v(1) lookup_expires_def expire_key_def)
      have at: "at_key cl db1 key e v" and rel1: "db_rel cf cl db1 K X" and st: "st = KEY_VALID"
        using False d1(2) v(2) by (simp_all add: at_key_def)
      from lookup_hit_rep [OF rel1 cf sv at v(1), of flgs, folded m] show ?thesis by (auto simp: look st l)
    qed
  qed
qed

end
