(* ===== verification/Db_Commands.thy ===== *)
theory Db_Commands
  imports Db_Keyspace
begin

section \<open>Databases: commands\<close>

text \<open>
  The commands of db.c in terms of the keyspace.  A command that writes is not executed on a replica
  that is read only, unless it comes from the master, nor while the expiry of keys is paused; then an
  expired key that it looks up is deleted.
\<close>

unbundle bit_operations_syntax

definition can_write :: "'o server \<Rightarrow> bool" where
  "can_write sv \<longleftrightarrow> \<not> expire_paused sv \<and> \<not> (masterhost sv \<and> repl_slave_ro sv \<and> \<not> client_is_master sv)"

definition purge :: "'o server \<Rightarrow> 'o keyspace \<Rightarrow> key \<Rightarrow> 'o keyspace" where
  "purge sv m k = m(k := live sv m k)"

lemma purge_at [simp]: "purge sv m k k = live sv m k"
  by (simp add: purge_def)

lemma purge_other [simp]: "j \<noteq> k \<Longrightarrow> purge sv m k j = m j"
  by (simp add: purge_def)

lemma live_cong: "m k = m' k \<Longrightarrow> live sv m k = live sv m' k"
  by (simp add: live_def gone_def)

lemma live_None: "m k = None \<Longrightarrow> live sv m k = None"
  by (simp add: live_def)

lemma dom_purge: "dom (purge sv m k) \<subseteq> dom m"
  by (auto simp: purge_def live_def split: if_splits)

lemma db_rep_finite: "db_rep cf cl db m \<Longrightarrow> finite (dom m)"
  using db_rel_card(2) by (auto simp: db_rep_def)

lemma card_le: "db_rep cf cl db m \<Longrightarrow> dom m' \<subseteq> dom m \<Longrightarrow> card (dom m') \<le> card (dom m)"
  using db_rep_finite by (blast intro: card_mono)

lemma card_dom_upd: "db_rep cf cl db m \<Longrightarrow> card (dom (m(k \<mapsto> x))) \<le> Suc (card (dom m))"
  by (simp add: card_insert_if db_rep_finite)

lemma lookupKeyWrite_rep:
  assumes rep: "db_rep cf cl db m" and cf: "conf_ok cf" and sv: "slot_ok cl sv key" and w: "can_write sv"
  shows "\<exists>db' r. lookupKeyWrite cf sv db key = Some (db', r) \<and> map_option seen r = map_option fst (live sv m key)
    \<and> db_rep cf cl db' (purge sv m key)"
proof -
  have "LOOKUP_WRITE AND LOOKUP_WRITE \<noteq> 0" "LOOKUP_WRITE AND LOOKUP_NOEXPIRE = 0"
    by (simp_all add: LOOKUP_WRITE_def LOOKUP_NOEXPIRE_def)
  then have "lookup_expires sv LOOKUP_WRITE m key = purge sv m key"
    using w by (auto simp: lookup_expires_def expire_key_def deletes_def purge_def live_def can_write_def gone_def due_def
        split: option.splits)
  with lookupKey_rep [OF rep cf sv, of LOOKUP_WRITE] show ?thesis
    by (simp add: lookupKeyWrite_def lookupKeyWriteWithFlags_def LOOKUP_NONE_def)
qed

subsection \<open>Setting a key\<close>

definition set_start :: "'o server \<Rightarrow> 32 word \<Rightarrow> 'o keyspace \<Rightarrow> key \<Rightarrow> 'o keyspace" where
  "set_start sv flgs m k =
     (if flgs AND SETKEY_ALREADY_EXIST = 0 \<and> flgs AND SETKEY_ADD_OR_UPDATE = 0 \<and> flgs AND SETKEY_DOESNT_EXIST = 0
      then purge sv m k else m)"

definition set_allowed :: "'o server \<Rightarrow> 32 word \<Rightarrow> 'o keyspace \<Rightarrow> key \<Rightarrow> bool" where
  "set_allowed sv flgs m k \<longleftrightarrow>
     (if flgs AND SETKEY_ALREADY_EXIST \<noteq> 0 then m k \<noteq> None
      else if flgs AND SETKEY_ADD_OR_UPDATE \<noteq> 0 then True
      else if flgs AND SETKEY_DOESNT_EXIST \<noteq> 0 then m k = None
      else can_write sv)"

definition ttl_at :: "'o keyspace \<Rightarrow> key \<Rightarrow> int option" where
  "ttl_at m k = (case m k of None \<Rightarrow> None | Some (v, e) \<Rightarrow> e)"

definition set_result :: "'o server \<Rightarrow> 32 word \<Rightarrow> 'o keyspace \<Rightarrow> key \<Rightarrow> 'o robj \<Rightarrow> 'o keyspace" where
  "set_result sv flgs m k v =
     m(k \<mapsto> (seen v, if flgs AND SETKEY_KEEPTTL \<noteq> 0 then ttl_at (set_start sv flgs m k) k else None))"

lemma setKey_write:
  fixes n :: int
  assumes rep: "db_rep cf cl db m" and cf: "conf_ok cf" and sv: "slot_ok cl sv key" and room: "card (dom m) < 2 ^ 64 - 1"
    and n: "n = 0 \<longrightarrow> m key = None" "n > 0 \<longrightarrow> m key \<noteq> None"
  shows "\<exists>db'. (if n = 0 then map_option fst (dbAdd cf sv db key val)
      else if n < 0 then map_option fst (dbAddInternal cf sv db key val True)
      else dbSetValue cf sv db key val True None) = Some db'
    \<and> db_rep cf cl db' (m(key \<mapsto> (seen val, ttl_at m key)))"
proof -
  note add = dbAddInternal_rep [OF rep cf sv room, of _ val, folded ttl_at_def]
  consider "n = 0" | "n < 0" | "n > 0" by linarith
  then show ?thesis
  proof cases
    case 1
    with n(1) add [of False] show ?thesis by (auto simp: dbAdd_def)
  next
    case 2
    with add [of True] show ?thesis by auto
  next
    case 3
    with n(2) obtain v e where "m key = Some (v, e)" by auto
    with dbSetValue_rep [OF rep cf sv this, of val True] 3 show ?thesis by (simp add: ttl_at_def)
  qed
qed

lemma setKey_find:
  assumes rep: "db_rep cf cl db m" and cf: "conf_ok cf" and sv: "slot_ok cl sv key" and ok: "set_allowed sv flgs m key"
  shows "\<exists>db1 n. (if flgs AND SETKEY_ALREADY_EXIST \<noteq> 0 then Some (db, 1)
      else if flgs AND SETKEY_ADD_OR_UPDATE \<noteq> 0 then Some (db, -1)
      else if flgs AND SETKEY_DOESNT_EXIST = 0
      then do { (db, o') \<leftarrow> lookupKeyWrite cf sv db key; Some (db, if o' \<noteq> None then 1 else 0 :: int) }
      else Some (db, 0)) = Some (db1, n)
    \<and> db_rep cf cl db1 (set_start sv flgs m key) \<and> (n = 0 \<longrightarrow> set_start sv flgs m key key = None)
    \<and> (n > 0 \<longrightarrow> set_start sv flgs m key key \<noteq> None)"
proof (cases "flgs AND SETKEY_ALREADY_EXIST = 0 \<and> flgs AND SETKEY_ADD_OR_UPDATE = 0 \<and> flgs AND SETKEY_DOESNT_EXIST = 0")
  case True
  with ok have "can_write sv" by (simp add: set_allowed_def)
  from lookupKeyWrite_rep [OF rep cf sv this] obtain db1 r where
    r: "lookupKeyWrite cf sv db key = Some (db1, r)" "map_option seen r = map_option fst (live sv m key)"
      "db_rep cf cl db1 (purge sv m key)" by blast
  from r(2) have "r = None \<longleftrightarrow> live sv m key = None" by (cases r; cases "live sv m key") simp_all
  with r(1,3) True show ?thesis by (cases r) (simp_all add: set_start_def)
next
  case False
  with rep ok show ?thesis by (auto simp: set_allowed_def set_start_def)
qed

lemma setKey_rep:
  assumes rep: "db_rep cf cl db m" and cf: "conf_ok cf" and sv: "slot_ok cl sv key" and room: "card (dom m) < 2 ^ 64 - 1"
    and ok: "set_allowed sv flgs m key"
  shows "\<exists>db'. setKey cf sv db key val flgs = Some db' \<and> db_rep cf cl db' (set_result sv flgs m key val)"
proof -
  let ?m = "set_start sv flgs m key"
  obtain db1 n where
    d1: "(if flgs AND SETKEY_ALREADY_EXIST \<noteq> 0 then Some (db, 1)
          else if flgs AND SETKEY_ADD_OR_UPDATE \<noteq> 0 then Some (db, -1)
          else if flgs AND SETKEY_DOESNT_EXIST = 0
          then do { (db, o') \<leftarrow> lookupKeyWrite cf sv db key; Some (db, if o' \<noteq> None then 1 else 0 :: int) }
          else Some (db, 0)) = Some (db1, n)"
      "db_rep cf cl db1 ?m" "n = 0 \<longrightarrow> ?m key = None" "n > 0 \<longrightarrow> ?m key \<noteq> None"
    using setKey_find [OF rep cf sv ok] by blast
  have "card (dom ?m) < 2 ^ 64 - 1"
    using room card_le [OF rep, of ?m] dom_purge [of sv m key] by (auto simp: set_start_def)
  from setKey_write [OF d1(2) cf sv this d1(3,4)] obtain db2 where
    d2: "(if n = 0 then map_option fst (dbAdd cf sv db1 key val)
      else if n < 0 then map_option fst (dbAddInternal cf sv db1 key val True)
      else dbSetValue cf sv db1 key val True None) = Some db2"
      "db_rep cf cl db2 (?m(key \<mapsto> (seen val, ttl_at ?m key)))" by blast
  from removeExpire_rep [OF d2(2) cf sv] obtain db3 b where
    d3: "removeExpire cf sv db2 key = Some (db3, b)" "db_rep cf cl db3 (?m(key \<mapsto> (seen val, None)))" by auto
  have e: "?m(key \<mapsto> x) = m(key \<mapsto> x)" for x by (auto simp: set_start_def purge_def)
  define db4 where "db4 = (if flgs AND SETKEY_KEEPTTL = 0 then db3 else db2)"
  have "setKey cf sv db key val flgs = Some (if flgs AND SETKEY_NO_SIGNAL = 0 then log (SignalModifiedKey key) db4 else db4)"
    unfolding setKey_def d1(1) by (simp add: d2(1) d3(1) db4_def)
  moreover have "db_rep cf cl db4 (set_result sv flgs m key val)"
    using d2(2) d3(2) by (simp add: db4_def set_result_def e)
  ultimately show ?thesis by simp
qed

subsection \<open>Deleting and counting keys\<close>

text \<open>\<open>DEL\<close> does not count the expired keys that it deletes as such.\<close>

definition del_counts :: "'o server \<Rightarrow> 'o keyspace \<Rightarrow> key \<Rightarrow> bool" where
  "del_counts sv m k \<longleftrightarrow> m k \<noteq> None \<and> \<not> (gone sv m k \<and> deletes sv False False)"

lemma del_counts_upd:
  "{k \<in> set (key # argv). del_counts sv m k} = (if del_counts sv m key then insert key else id)
     {k \<in> set argv. del_counts sv (m(key := None)) k}"
  "key \<notin> {k \<in> set argv. del_counts sv (m(key := None)) k}"
  by (auto simp: del_counts_def gone_def)

lemma del_step:
  assumes rep: "db_rep cf cl db m" and cf: "conf_ok cf" and sv: "slot_ok cl sv key"
  shows "\<exists>db'. delGenericCommand cf sv lazy (key # argv) db n
      = delGenericCommand cf sv lazy argv db' (if del_counts sv m key then n + 1 else n)
    \<and> db_rep cf cl db' (m(key := None))"
proof -
  from expireIfNeeded_rep [OF rep cf sv, of 0] obtain db1 st where
    d1: "expireIfNeeded cf sv db key 0 = Some (db1, st)" "db_rep cf cl db1 (expire_key sv False False m key)"
      "st = (if \<not> gone sv m key then KEY_VALID else if deletes sv False False then KEY_DELETED else KEY_EXPIRED)" by auto
  show ?thesis
  proof (cases "gone sv m key \<and> deletes sv False False")
    case True
    with d1 show ?thesis by (auto simp: expire_key_def del_counts_def)
  next
    case False
    with d1(2) have "db_rep cf cl db1 m" by (simp add: expire_key_def)
    from dbGenericDelete_rep [OF this cf sv, of lazy DB_FLAG_KEY_DELETED] obtain db2 where
      d2: "dbGenericDelete cf sv db1 key lazy DB_FLAG_KEY_DELETED = Some (db2, m key \<noteq> None)" "db_rep cf cl db2 (m(key := None))" by blast
    have del: "(if lazy then dbAsyncDelete cf sv db1 key else dbSyncDelete cf sv db1 key) = Some (db2, m key \<noteq> None)"
      using d2(1) by (cases lazy) (simp_all add: dbAsyncDelete_def dbSyncDelete_def)
    have st: "st \<noteq> KEY_DELETED" and c: "del_counts sv m key \<longleftrightarrow> m key \<noteq> None" using False d1(3) by (auto simp: del_counts_def)
    define db3 where "db3 = (log (NotifyKeyspaceEvent ''del'' key) (log (SignalModifiedKey key) db2))"
    let ?db = "if m key \<noteq> None then db3\<lparr>dirty := dirty db3 + 1\<rparr> else db2"
    have "delGenericCommand cf sv lazy (key # argv) db n = delGenericCommand cf sv lazy argv ?db (if del_counts sv m key then n + 1 else n)"
      using st by (simp add: d1(1) del c Let_def db3_def)
    moreover have "db_rep cf cl ?db (m(key := None))"
      using d2(2) by (subst db_rep_cong [of _ db2]) (simp_all add: db3_def)
    ultimately show ?thesis by blast
  qed
qed

lemma delGenericCommand_rep:
  assumes "db_rep cf cl db m" "conf_ok cf" "list_all (slot_ok cl sv) argv"
  shows "\<exists>db'. delGenericCommand cf sv lazy argv db n = Some (db', n + card {k \<in> set argv. del_counts sv m k})
    \<and> db_rep cf cl db' (m |` (- set argv))"
  using assms
proof (induction argv arbitrary: db m n)
  case Nil
  then show ?case by (simp add: restrict_map_def)
next
  case (Cons key argv)
  define m' where "m' = m(key := None)"
  define n' where "n' = (if del_counts sv m key then n + 1 else n)"
  from del_step [OF Cons.prems(1,2), of sv key lazy argv n] Cons.prems(3) obtain db1 where
    d1: "delGenericCommand cf sv lazy (key # argv) db n = delGenericCommand cf sv lazy argv db1 n'"
      "db_rep cf cl db1 m'" by (auto simp: m'_def n'_def)
  from Cons.IH [OF d1(2) Cons.prems(2), of n'] Cons.prems(3) obtain db2 where
    d2: "delGenericCommand cf sv lazy argv db1 n' = Some (db2, n' + card {k \<in> set argv. del_counts sv m' k})"
      "db_rep cf cl db2 (m' |` (- set argv))" by auto
  have "m |` (- set (key # argv)) = m' |` (- set argv)" by (auto simp: m'_def restrict_map_def)
  moreover have "n + card {k \<in> set (key # argv). del_counts sv m k} = n' + card {k \<in> set argv. del_counts sv m' k}"
    unfolding del_counts_upd(1) m'_def n'_def using del_counts_upd(2) [of key argv sv m] by simp
  ultimately show ?case unfolding d1(1) d2(1) using d2(2) by simp
qed

text \<open>\<open>EXISTS\<close> and \<open>TOUCH\<close> count every occurrence of a key, and delete the expired keys they meet.\<close>

definition expire_keys :: "'o server \<Rightarrow> key list \<Rightarrow> 'o keyspace \<Rightarrow> 'o keyspace" where
  "expire_keys sv ks m = m |` {k. \<not> (k \<in> set ks \<and> gone sv m k \<and> deletes sv False False)}"

lemma expire_keys_Cons: "expire_keys sv (k # ks) m = expire_keys sv ks (expire_key sv False False m k)"
  by (auto simp: expire_keys_def expire_key_def restrict_map_def fun_eq_iff gone_def split: if_splits)

lemma live_expire_key: "live sv (expire_key sv force avoid m k) j = live sv m j"
  by (auto simp: live_def expire_key_def gone_def)

lemma lookup_read_rep:
  assumes "db_rep cf cl db m" "conf_ok cf" "slot_ok cl sv key" "flgs AND LOOKUP_WRITE = 0" "flgs AND LOOKUP_NOEXPIRE = 0"
  shows "\<exists>db' r. lookupKeyReadWithFlags cf sv db key flgs = Some (db', r)
    \<and> map_option seen r = map_option fst (live sv m key) \<and> db_rep cf cl db' (expire_key sv False False m key)"
  using lookupKey_rep [OF assms(1-3), of flgs] assms(4,5) by (simp add: lookupKeyReadWithFlags_def lookup_expires_def)

lemma existsCommand_rep:
  assumes "db_rep cf cl db m" "conf_ok cf" "list_all (slot_ok cl sv) argv"
  shows "\<exists>db'. existsCommand cf sv argv db n = Some (db', n + length (filter (\<lambda>k. live sv m k \<noteq> None) argv))
    \<and> db_rep cf cl db' (expire_keys sv argv m)"
  using assms
proof (induction argv arbitrary: db m n)
  case Nil
  then show ?case by (simp add: expire_keys_def)
next
  case (Cons key argv)
  have "LOOKUP_NOTOUCH AND LOOKUP_WRITE = 0" "LOOKUP_NOTOUCH AND LOOKUP_NOEXPIRE = 0"
    by (simp_all add: LOOKUP_NOTOUCH_def LOOKUP_WRITE_def LOOKUP_NOEXPIRE_def)
  from lookup_read_rep [OF Cons.prems(1,2) _ this, of sv key] Cons.prems(3) obtain db1 r where
    d1: "lookupKeyReadWithFlags cf sv db key LOOKUP_NOTOUCH = Some (db1, r)"
      "map_option seen r = map_option fst (live sv m key)" "db_rep cf cl db1 (expire_key sv False False m key)" by auto
  from d1(2) have r: "r = None \<longleftrightarrow> live sv m key = None" by (cases r; cases "live sv m key") simp_all
  from Cons.IH [OF d1(3) Cons.prems(2), of "if r \<noteq> None then n + 1 else n"] Cons.prems(3) show ?case
    using r by (cases "live sv m key"; cases r) (simp_all add: d1(1) live_expire_key expire_keys_Cons del: not_None_eq)
qed

subsection \<open>Renaming\<close>

text \<open>
  A time to live of -1 is read as none by \<open>getExpire\<close>.
\<close>

definition ttl_code :: "int option \<Rightarrow> int" where
  "ttl_code e = (case e of None \<Rightarrow> -1 | Some t \<Rightarrow> t)"

definition ttl_of :: "int \<Rightarrow> int option" where
  "ttl_of t = (if t = -1 then None else Some t)"

definition rename_result :: "'o server \<Rightarrow> key \<Rightarrow> key \<Rightarrow> bool \<Rightarrow> 'o keyspace \<Rightarrow> 'o keyspace \<times> rename_reply" where
  "rename_result sv src dst nx m =
     (case live sv m src of
        None \<Rightarrow> (purge sv m src, NOKEYERR)
      | Some (v, e) \<Rightarrow>
          if src = dst then (m, if nx then CZERO else OK)
          else if nx \<and> live sv m dst \<noteq> None then (m, CZERO)
          else (m(dst \<mapsto> (v, ttl_of (ttl_code e)), src := None), if nx then CONE else OK))"

lemma getExpire_rep:
  assumes rep: "db_rep cf cl db m" and cf: "conf_ok cf" and sv: "slot_ok cl sv key"
  shows "\<exists>db'. getExpire cf sv db key = Some (db', ttl_code (ttl_at m key)) \<and> db_rep cf cl db' m"
proof -
  from rep obtain K X where rel: "db_rel cf cl db K X" and m: "m = keyspace_of K X" by (auto simp: db_rep_def)
  have "ttl_at m key = X key" using db_rel_X [OF rel, of key] by (cases "K key") (simp_all add: ttl_at_def m keyspace_of_at)
  with getExpire_rel [OF rel cf sv] m show ?thesis by (auto simp: ttl_code_def intro: db_repI)
qed

text \<open>The part of the command that puts the object under its new name.\<close>

lemma rename_put:
  assumes rep: "db_rep cf cl db m" and cf: "conf_ok cf" and sv: "slot_ok cl sv dst" and room: "card (dom m) < 2 ^ 64 - 2"
    and there: "there \<longleftrightarrow> m dst \<noteq> None"
  shows "\<exists>db1 db2 de db3. (if there then map_option fst (dbDelete cf sv db dst) else Some db) = Some db1
    \<and> dbAdd cf sv db1 dst obj = Some (db2, de)
    \<and> (if t \<noteq> -1 then setExpire cf sv db2 dst t else Some db2) = Some db3
    \<and> db_rep cf cl db3 (m(dst \<mapsto> (seen obj, ttl_of t)))"
proof -
  obtain db1 where d1: "(if there then map_option fst (dbDelete cf sv db dst) else Some db) = Some db1"
      "db_rep cf cl db1 (m(dst := None))"
    using dbGenericDelete_rep [OF rep cf sv, of "lazyfree_lazy_server_del sv" DB_FLAG_KEY_DELETED] rep there
    by (cases "m dst") (auto simp: dbDelete_def fun_upd_idem)
  have c: "card (dom (m(dst := None))) < 2 ^ 64 - 2" using room card_le [OF rep, of "m(dst := None)"] by auto
  from dbAddInternal_rep [OF d1(2) cf sv, of False obj] c obtain db2 de where
    d2: "dbAdd cf sv db1 dst obj = Some (db2, de)" "db_rep cf cl db2 (m(dst \<mapsto> (seen obj, None)))"
    by (auto simp: dbAdd_def)
  have "card (dom (m(dst \<mapsto> (seen obj, None)))) \<le> Suc (card (dom m))" by (rule card_dom_upd [OF rep])
  then have "card (dom (m(dst \<mapsto> (seen obj, None)))) < 2 ^ 64 - 1" using room by simp
  from setExpire_rep [OF d2(2) cf sv this, of "seen obj" None t] obtain db3 where
    d3: "setExpire cf sv db2 dst t = Some db3" "db_rep cf cl db3 (m(dst \<mapsto> (seen obj, Some t)))" by auto
  show ?thesis using d1(1) d2 d3 by (cases "t = -1"; cases de) (auto simp: ttl_of_def)
qed

lemma renameGenericCommand_rep:
  assumes rep: "db_rep cf cl db m" and cf: "conf_ok cf" and sv: "slot_ok cl sv src" "slot_ok cl sv dst"
    and room: "card (dom m) < 2 ^ 64 - 2" and w: "can_write sv"
  shows "\<exists>db'. renameGenericCommand cf sv src dst nx db = Some (db', snd (rename_result sv src dst nx m))
    \<and> db_rep cf cl db' (fst (rename_result sv src dst nx m))"
proof -
  from lookupKeyWrite_rep [OF rep cf sv(1) w] obtain db1 r where
    d1: "lookupKeyWrite cf sv db src = Some (db1, r)" "map_option seen r = map_option fst (live sv m src)"
      "db_rep cf cl db1 (purge sv m src)" by blast
  show ?thesis
  proof (cases "live sv m src")
    case None
    with d1 show ?thesis by (simp add: renameGenericCommand_def rename_result_def Let_def)
  next
    case (Some ve)
    then obtain v e where l: "live sv m src = Some (v, e)" by (cases ve) auto
    with d1(2) obtain obj where r: "r = Some obj" "seen obj = v" by auto
    have same: "purge sv m src = m" using l by (auto simp: purge_def live_def split: if_splits)
    have at: "m src = Some (v, e)" using l by (auto simp: live_def split: if_splits)
    from getExpire_rep [OF d1(3) cf sv(1)] obtain db2 where
      d2: "getExpire cf sv db1 src = Some (db2, ttl_code e)" "db_rep cf cl db2 m" by (auto simp: same ttl_at_def at)
    from lookupKeyWrite_rep [OF d2(2) cf sv(2) w] obtain db3 r' where
      d3: "lookupKeyWrite cf sv db2 dst = Some (db3, r')" "map_option seen r' = map_option fst (live sv m dst)"
        "db_rep cf cl db3 (purge sv m dst)" by blast
    from d3(2) have r': "r' \<noteq> None \<longleftrightarrow> live sv m dst \<noteq> None" by (cases r'; cases "live sv m dst") simp_all
    have up: "(purge sv m dst)(dst \<mapsto> x) = m(dst \<mapsto> x)" for x by (simp add: purge_def)
    have "card (dom (purge sv m dst)) < 2 ^ 64 - 2" using room card_le [OF rep dom_purge, of sv dst] by simp
    from rename_put [OF d3(3) cf sv(2) this, of "r' \<noteq> None" obj "ttl_code e"] r' r(2) obtain db4 db5 de db6 where
      d4: "(if r' \<noteq> None then map_option fst (dbDelete cf sv db3 dst) else Some db3) = Some db4"
        "dbAdd cf sv db4 dst obj = Some (db5, de)"
        "(if ttl_code e \<noteq> -1 then setExpire cf sv db5 dst (ttl_code e) else Some db5) = Some db6"
        "db_rep cf cl db6 (m(dst \<mapsto> (v, ttl_of (ttl_code e))))" unfolding up by auto
    let ?db = "if otype obj = OBJ_HASH then log (HashTypeRemoveFromExpires src) db6 else db6"
    have "db_rep cf cl ?db (m(dst \<mapsto> (v, ttl_of (ttl_code e))))" using d4(4) by simp
    from dbGenericDelete_rep [OF this cf sv(1), of "lazyfree_lazy_server_del sv" DB_FLAG_KEY_DELETED] obtain db7 b where
      d7: "dbDelete cf sv ?db src = Some (db7, b)" "db_rep cf cl db7 (m(dst \<mapsto> (v, ttl_of (ttl_code e)), src := None))"
      by (auto simp: dbDelete_def)
    show ?thesis
    proof (cases "src = dst \<or> nx \<and> live sv m dst \<noteq> None")
      case True
      have "purge sv m dst = m" if "live sv m dst \<noteq> None" using that by (auto simp: purge_def live_def split: if_splits)
      with True d1 d2 d3 l r r' same at show ?thesis
        by (cases "src = dst") (auto simp: renameGenericCommand_def rename_result_def Let_def)
    next
      case False
      then have c: "src \<noteq> dst" "(r' \<noteq> None \<and> nx) = False" using r' by auto
      have "\<exists>db'. renameGenericCommand cf sv src dst nx db = Some (db', if nx then CONE else OK) \<and> keys db' = keys db7 \<and> expires db' = expires db7"
        unfolding renameGenericCommand_def Let_def
        by (simp add: d1(1) r(1) c d2(1) d3(1) d4(1-3) d7(1) split: option.splits del: not_None_eq)
      then obtain db' where d': "renameGenericCommand cf sv src dst nx db = Some (db', if nx then CONE else OK)"
        "keys db' = keys db7" "expires db' = expires db7" by blast
      with False l db_rep_cong [OF d'(2,3)] d7(2) show ?thesis by (auto simp: rename_result_def)
    qed
  qed
qed

subsection \<open>Whole databases\<close>

lemma kv_rep_new:
  fixes g :: "'a \<Rightarrow> 'v"
  assumes "kv_alloc (alloc cf)"
  shows "\<exists>k. new_kvstore cf sv = Some k \<and> kv_rep env (cluster_enabled sv) k g Map.empty"
proof -
  have m: "cells no_mem = Map.empty" "(if cluster_enabled sv then CLUSTER_SLOT_MASK_BITS else 0) \<le> 16"
    by (simp_all add: no_mem_def CLUSTER_SLOT_MASK_BITS_def)
  let ?f = "if cluster_enabled sv then KVSTORE_ALLOCATE_DICTS_ON_DEMAND OR KVSTORE_FREE_EMPTY_DICTS else KVSTORE_ALLOCATE_DICTS_ON_DEMAND"
  have "slotted cl g Map.empty = (\<lambda>i. Map.empty)" for cl by (simp add: slotted_def fun_eq_iff)
  moreover from kvstoreCreate_correct [OF assms m, of ?f env] obtain k :: "(key, 'v) kvstore" where
    "kvstoreCreate (alloc cf) no_mem (if cluster_enabled sv then CLUSTER_SLOT_MASK_BITS else 0) ?f = Some k" "kv_inv env k"
    "num_dicts k = 2 ^ (if cluster_enabled sv then CLUSTER_SLOT_MASK_BITS else 0)" "kv_map k = (\<lambda>i. Map.empty)" by blast
  ultimately show ?thesis unfolding new_kvstore_def Let_def kv_rep_def by (intro exI [of _ k] conjI) simp_all
qed

lemma kv_rep_empty:
  assumes rep: "kv_rep env cl kvs g M"
  shows "\<exists>k. kvstoreEmpty al kvs = Some k \<and> kv_rep env cl k g Map.empty"
proof -
  from kvstoreEmpty_correct [OF kv_repD(1) [OF rep], of al] obtain k where
    k: "kvstoreEmpty al kvs = Some k" "kv_inv env k" "same_conf kvs k" "kv_map k = (\<lambda>i. Map.empty)" by blast
  have "slotted cl g Map.empty = (\<lambda>i. Map.empty)" by (simp add: slotted_def fun_eq_iff)
  with k rep show ?thesis by (simp add: kv_rep_def same_conf_def)
qed

lemma db_rep_empty:
  assumes "kv_rep (dbDictType cf) cl (keys db) Some Map.empty" "kv_rep (dbExpiresDictType cf) cl (expires db) id Map.empty"
  shows "db_rep cf cl db Map.empty"
proof (rule db_repI)
  show "db_rel cf cl db Map.empty Map.empty" using assms by (simp add: db_rel_def)
qed (simp add: keyspace_of_def)

lemma new_stores:
  fixes sv :: "'o server"
  assumes cf: "conf_ok cf"
  obtains k :: "(key, 'o robj option) kvstore" and x :: "(key, int) kvstore"
  where "new_kvstore cf sv = Some k" "kv_rep (dbDictType cf) (cluster_enabled sv) k Some Map.empty"
    "new_kvstore cf sv = Some x" "kv_rep (dbExpiresDictType cf) (cluster_enabled sv) x id Map.empty"
proof -
  have al: "kv_alloc (alloc cf)" using cf by (simp add: conf_ok_def)
  from kv_rep_new [OF al, of sv "dbDictType cf" Some] obtain k :: "(key, 'o robj option) kvstore" where
    k: "new_kvstore cf sv = Some k" "kv_rep (dbDictType cf) (cluster_enabled sv) k Some Map.empty" by blast
  from kv_rep_new [OF al, of sv "dbExpiresDictType cf" id] obtain x :: "(key, int) kvstore" where
    x: "new_kvstore cf sv = Some x" "kv_rep (dbExpiresDictType cf) (cluster_enabled sv) x id Map.empty" by blast
  from that [OF k x] show thesis .
qed

lemma new_db_rep:
  assumes cf: "conf_ok cf"
  shows "\<exists>db. new_db cf sv = Some db \<and> db_rep cf (cluster_enabled sv) db Map.empty"
  by (rule new_stores [OF cf, of sv]) (simp add: new_db_def db_rep_empty)

lemma empty_db_rep:
  assumes rep: "db_rep cf cl db m" and cf: "conf_ok cf" and sv: "cluster_enabled sv = cl"
  shows "\<exists>db'. empty_db cf sv async db = Some (db', of_nat (card (dom m))) \<and> db_rep cf cl db' Map.empty"
proof -
  from rep obtain K X where rel: "kv_rep (dbDictType cf) cl (keys db) Some K" "kv_rep (dbExpiresDictType cf) cl (expires db) id X"
    and m: "m = keyspace_of K X" by (auto simp: db_rep_def db_rel_def)
  have size: "kvstoreSize (keys db) = Some (of_nat (card (dom m)))"
    using kvstoreSize_correct [OF kv_repD(1) [OF rel(1)]] kv_rep_total(1) [OF rel(1)] by (simp add: m dom_keyspace)
  obtain db' where d': "empty_db cf sv async db = Some (db', of_nat (card (dom m)))"
    "kv_rep (dbDictType cf) cl (keys db') Some Map.empty" "kv_rep (dbExpiresDictType cf) cl (expires db') id Map.empty"
  proof (cases async)
    case True
    show thesis
      by (rule new_stores [OF cf, of sv]) (use True in \<open>simp add: empty_db_def emptyDbAsync_def size sv that\<close>)
  next
    case False
    from kv_rep_empty [OF rel(1), of "alloc cf"] kv_rep_empty [OF rel(2), of "alloc cf"] obtain k x where
      "kvstoreEmpty (alloc cf) (keys db) = Some k" "kv_rep (dbDictType cf) cl k Some Map.empty"
      "kvstoreEmpty (alloc cf) (expires db) = Some x" "kv_rep (dbExpiresDictType cf) cl x id Map.empty" by blast
    with False show thesis by - (rule that, simp add: empty_db_def size Let_def, simp_all)
  qed
  from d'(1) db_rep_empty [OF d'(2,3)] show ?thesis by blast
qed

lemma empty_dbs_rep:
  assumes "list_all2 (db_rep cf cl) dbs ms" "conf_ok cf" "cluster_enabled sv = cl" "distinct js" "\<forall>j \<in> set js. 0 \<le> j \<and> nat j < length dbs"
  shows "\<exists>dbs'. empty_dbs cf sv async js dbs n = Some (dbs', n + of_nat (\<Sum>j \<leftarrow> js. card (dom (ms ! nat j))))
    \<and> list_all2 (db_rep cf cl) dbs' (map (\<lambda>i. if int i \<in> set js then Map.empty else ms ! i) [0..<length ms])"
  using assms
proof (induction js arbitrary: dbs ms n)
  case Nil
  then show ?case by (simp add: map_nth)
next
  case (Cons j js)
  let ?i = "nat j"
  have i: "0 \<le> j" "?i < length dbs" "length dbs = length ms" using Cons.prems(1,5) by (auto simp: list_all2_lengthD)
  from empty_db_rep [OF list_all2_nthD [OF Cons.prems(1) i(2)] Cons.prems(2,3), of async] obtain db where
    d: "empty_db cf sv async (dbs ! ?i) = Some (db, of_nat (card (dom (ms ! ?i))))" "db_rep cf cl db Map.empty" by blast
  have r: "list_all2 (db_rep cf cl) (dbs[?i := db]) (ms[?i := Map.empty])"
    using Cons.prems(1) d(2) by (simp add: list_all2_update_cong)
  have other: "ms[?i := Map.empty] ! nat k = ms ! nat k" if "k \<in> set js" for k
  proof -
    have "k \<noteq> j" "0 \<le> k" using that Cons.prems(4,5) by auto
    with i(1) have "nat k \<noteq> nat j" by simp
    then show ?thesis by simp
  qed
  have s: "(\<Sum>k \<leftarrow> js. card (dom (ms[?i := Map.empty] ! nat k))) = (\<Sum>k \<leftarrow> js. card (dom (ms ! nat k)))"
    by (rule arg_cong [of _ _ sum_list], rule map_cong) (simp_all add: other)
  have f: "map (\<lambda>l. if int l \<in> set js then Map.empty else ms[?i := Map.empty] ! l) [0..<length (ms[?i := Map.empty])]
      = map (\<lambda>l. if int l \<in> set (j # js) then Map.empty else ms ! l) [0..<length ms]"
    using i by (auto simp: nth_list_update)
  from Cons.IH [OF r Cons.prems(2,3), of "n + of_nat (card (dom (ms ! ?i)))"] Cons.prems(4,5) show ?case
    unfolding s f using i by (simp add: d(1) add.assoc)
qed

end
