(* ===== verification/Expire.thy ===== *)
theory Expire
  imports Db_Commands Util "HOL-Library.Signed_Division"
begin

section \<open>Commands on the time to live of keys (expire.c)\<close>

text \<open>
  The commands \<open>EXPIRE\<close>, \<open>PEXPIRE\<close>, \<open>EXPIREAT\<close>, \<open>PEXPIREAT\<close>, \<open>TTL\<close>, \<open>PTTL\<close>, \<open>EXPIRETIME\<close>, \<open>PEXPIRETIME\<close>,
  \<open>PERSIST\<close> and \<open>TOUCH\<close>.  The arguments of a command are lists of bytes.  Times are signed 64-bit
  integers; an addition, subtraction or multiplication whose result is not in the range is undefined
  in C and \<open>None\<close> here (\<open>ll\<close>).  The division rounds toward zero.

  A command that sets a time to live changes its own arguments to what the replicas and the append
  only file get; the changed argument vector is part of the result.
\<close>

unbundle bit_operations_syntax

subsection \<open>Arguments\<close>

definition ll :: "int \<Rightarrow> int option" where
  "ll v = (if LLONG_MIN \<le> v \<and> v \<le> LLONG_MAX then Some v else None)"

definition bytes :: "string \<Rightarrow> byte list" where
  "bytes s = map of_char s"

definition lower_byte :: "byte \<Rightarrow> byte" where
  "lower_byte b = (if 65 \<le> b \<and> b \<le> 90 then b + 32 else b)"

text \<open>\<open>strcasecmp\<close> with a constant in lower case: it compares up to the first zero byte.\<close>

definition strcase_is :: "byte list \<Rightarrow> string \<Rightarrow> bool" where
  "strcase_is opt s \<longleftrightarrow> map lower_byte (takeWhile (\<lambda>b. b \<noteq> 0) opt) = bytes s"

datatype expire_unit = UNIT_SECONDS | UNIT_MILLISECONDS

datatype expire_error =
    Unsupported_option | Incompatible_NX | Incompatible_GT_LT | Not_an_integer | Invalid_expire_time

datatype expire_reply = Error expire_error | Integer int

definition EXPIRE_NX :: "32 word" where "EXPIRE_NX = 1"
definition EXPIRE_XX :: "32 word" where "EXPIRE_XX = 2"
definition EXPIRE_GT :: "32 word" where "EXPIRE_GT = 4"
definition EXPIRE_LT :: "32 word" where "EXPIRE_LT = 8"

record expire_opts =
  oflags :: "32 word"
  nx :: bool
  xx :: bool
  gt :: bool
  lt :: bool

fun expire_options :: "byte list list \<Rightarrow> expire_opts \<Rightarrow> expire_opts option" where
  "expire_options [] r = Some r"
| "expire_options (opt # argv) r =
     (if strcase_is opt ''nx'' then expire_options argv (r\<lparr>oflags := oflags r OR EXPIRE_NX, nx := True\<rparr>)
      else if strcase_is opt ''xx'' then expire_options argv (r\<lparr>oflags := oflags r OR EXPIRE_XX, xx := True\<rparr>)
      else if strcase_is opt ''gt'' then expire_options argv (r\<lparr>oflags := oflags r OR EXPIRE_GT, gt := True\<rparr>)
      else if strcase_is opt ''lt'' then expire_options argv (r\<lparr>oflags := oflags r OR EXPIRE_LT, lt := True\<rparr>)
      else None)"

definition parseExtendedExpireArgumentsOrReply :: "byte list list \<Rightarrow> expire_error + 32 word" where
  "parseExtendedExpireArgumentsOrReply opts =
     (case expire_options opts \<lparr>oflags = 0, nx = False, xx = False, gt = False, lt = False\<rparr> of
        None \<Rightarrow> Inl Unsupported_option
      | Some r \<Rightarrow>
          if nx r \<and> xx r \<or> nx r \<and> gt r \<or> nx r \<and> lt r then Inl Incompatible_NX
          else if gt r \<and> lt r then Inl Incompatible_GT_LT
          else Inr (oflags r))"

definition checkAlreadyExpired :: "'o server \<Rightarrow> int \<Rightarrow> bool" where
  "checkAlreadyExpired sv when' \<longleftrightarrow> when' \<le> time_snapshot sv \<and> \<not> loading sv \<and> \<not> masterhost sv"

text \<open>The new argument is an integer object, which is printed when the command is propagated.\<close>

definition stringFromLongLong :: "int \<Rightarrow> byte list option" where
  "stringFromLongLong v = map_option (\<lambda>(buf, len). takeWhile (\<lambda>b. b \<noteq> 0) buf) (ll2string (replicate 32 0) 32 v)"

subsection \<open>Setting a time to live\<close>

text \<open>The time given by the arguments: an error, or the time in milliseconds.\<close>

definition expire_time :: "byte list \<Rightarrow> int \<Rightarrow> expire_unit \<Rightarrow> (expire_error + int) option" where
  "expire_time param basetime unit' =
     (case string2ll param of
        None \<Rightarrow> Some (Inl Not_an_integer)
      | Some when' \<Rightarrow>
          if unit' = UNIT_SECONDS \<and> (when' > LLONG_MAX sdiv 1000 \<or> when' < LLONG_MIN sdiv 1000)
          then Some (Inl Invalid_expire_time)
          else do { when' \<leftarrow> (if unit' = UNIT_SECONDS then ll (when' * 1000) else Some when');
                    limit \<leftarrow> ll (LLONG_MAX - basetime);
                    if when' > limit then Some (Inl Invalid_expire_time)
                    else map_option Inr (ll (when' + basetime)) })"

text \<open>The checks of the options against the current time to live.\<close>

definition expire_refused :: "32 word \<Rightarrow> int \<Rightarrow> int \<Rightarrow> bool" where
  "expire_refused flag when' current_expire \<longleftrightarrow>
     flag AND EXPIRE_NX \<noteq> 0 \<and> current_expire \<noteq> -1
   \<or> flag AND EXPIRE_XX \<noteq> 0 \<and> current_expire = -1
   \<or> flag AND EXPIRE_GT \<noteq> 0 \<and> (when' \<le> current_expire \<or> current_expire = -1)
   \<or> flag AND EXPIRE_LT \<noteq> 0 \<and> current_expire \<noteq> -1 \<and> when' \<ge> current_expire"

definition expireGenericCommand ::
  "db_conf \<Rightarrow> 'o server \<Rightarrow> bool \<Rightarrow> byte list list \<Rightarrow> int \<Rightarrow> expire_unit \<Rightarrow> 'o redisDb
    \<Rightarrow> ('o redisDb \<times> expire_reply \<times> byte list list) option" where
  "expireGenericCommand cf sv is_pexpireat argv basetime unit' db =
     (case argv of
        cmd # key # param # opts \<Rightarrow>
          (case parseExtendedExpireArgumentsOrReply opts of
             Inl err \<Rightarrow> Some (db, Error err, argv)
           | Inr flag \<Rightarrow>
               do { t \<leftarrow> expire_time param basetime unit';
                    case t of
                      Inl err \<Rightarrow> Some (db, Error err, argv)
                    | Inr when' \<Rightarrow>
                        do { (db, o') \<leftarrow> lookupKeyWrite cf sv db key;
                             if o' = None then Some (db, Integer 0, argv)
                             else do {
                               (db, refused) \<leftarrow>
                                 (if flag \<noteq> 0
                                  then do { (db, current_expire) \<leftarrow> getExpire cf sv db key;
                                            Some (db, expire_refused flag when' current_expire) }
                                  else Some (db, False));
                               if refused then Some (db, Integer 0, argv)
                               else if checkAlreadyExpired sv when'
                               then do { (db, deleted) \<leftarrow> dbGenericDelete cf sv db key (lazyfree_lazy_expire sv) DB_FLAG_KEY_EXPIRED;
                                         if \<not> deleted then None
                                         else do {
                                           let db = db\<lparr>dirty := dirty db + 1\<rparr>;
                                           let db = log (SignalModifiedKey key) db;
                                           let db = log (NotifyKeyspaceEvent ''del'' key) db;
                                           Some (db, Integer 1, [bytes (if lazyfree_lazy_expire sv then ''UNLINK'' else ''DEL''), key]) } }
                               else do { db \<leftarrow> setExpire cf sv db key when';
                                         let cmd = (if is_pexpireat then cmd else bytes ''PEXPIREAT'');
                                         param \<leftarrow> (if basetime \<noteq> 0 \<or> unit' = UNIT_SECONDS then stringFromLongLong when' else Some param);
                                         let db = log (SignalModifiedKey key) db;
                                         let db = log (NotifyKeyspaceEvent ''expire'' key) db;
                                         Some (db\<lparr>dirty := dirty db + 1\<rparr>, Integer 1, cmd # key # param # opts) } } } })
      | _ \<Rightarrow> None)"

definition expireCommand where
  "expireCommand cf sv argv db = expireGenericCommand cf sv False argv (time_snapshot sv) UNIT_SECONDS db"

definition expireatCommand where
  "expireatCommand cf sv argv db = expireGenericCommand cf sv False argv 0 UNIT_SECONDS db"

definition pexpireCommand where
  "pexpireCommand cf sv argv db = expireGenericCommand cf sv False argv (time_snapshot sv) UNIT_MILLISECONDS db"

definition pexpireatCommand where
  "pexpireatCommand cf sv argv db = expireGenericCommand cf sv True argv 0 UNIT_MILLISECONDS db"

subsection \<open>Reading and removing a time to live\<close>

definition ttlGenericCommand ::
  "db_conf \<Rightarrow> 'o server \<Rightarrow> bool \<Rightarrow> bool \<Rightarrow> key \<Rightarrow> 'o redisDb \<Rightarrow> ('o redisDb \<times> int) option" where
  "ttlGenericCommand cf sv output_ms output_abs key db =
     do { (db, o') \<leftarrow> lookupKeyReadWithFlags cf sv db key LOOKUP_NOTOUCH;
          if o' = None then Some (db, -2)
          else do {
            (db, expire) \<leftarrow> getExpire cf sv db key;
            ttl \<leftarrow> (if expire \<noteq> -1
                   then do { ttl \<leftarrow> (if output_abs then Some expire else ll (expire - time_snapshot sv));
                             Some (if ttl < 0 then 0 else ttl) }
                   else Some (-1));
            if ttl = -1 then Some (db, -1)
            else if output_ms then Some (db, ttl)
            else do { s \<leftarrow> ll (ttl + 500); Some (db, s sdiv 1000) } } }"

definition ttlCommand where "ttlCommand cf sv key db = ttlGenericCommand cf sv False False key db"
definition pttlCommand where "pttlCommand cf sv key db = ttlGenericCommand cf sv True False key db"
definition expiretimeCommand where "expiretimeCommand cf sv key db = ttlGenericCommand cf sv False True key db"
definition pexpiretimeCommand where "pexpiretimeCommand cf sv key db = ttlGenericCommand cf sv True True key db"

definition persistCommand :: "db_conf \<Rightarrow> 'o server \<Rightarrow> key \<Rightarrow> 'o redisDb \<Rightarrow> ('o redisDb \<times> int) option" where
  "persistCommand cf sv key db =
     do { (db, o') \<leftarrow> lookupKeyWrite cf sv db key;
          if o' \<noteq> None
          then do { (db, removed) \<leftarrow> removeExpire cf sv db key;
                    if removed
                    then do { let db = log (SignalModifiedKey key) db;
                              let db = log (NotifyKeyspaceEvent ''persist'' key) db;
                              Some (db\<lparr>dirty := dirty db + 1\<rparr>, 1) }
                    else Some (db, 0) }
          else Some (db, 0) }"

text \<open>\<open>CLIENT NO-TOUCH\<close> does not concern the command \<open>TOUCH\<close>.\<close>

fun touchCommand :: "db_conf \<Rightarrow> 'o server \<Rightarrow> key list \<Rightarrow> 'o redisDb \<Rightarrow> nat \<Rightarrow> ('o redisDb \<times> nat) option" where
  "touchCommand cf sv [] db touched = Some (db, touched)"
| "touchCommand cf sv (key # argv) db touched =
     do { (db, o') \<leftarrow> lookupKeyRead cf (sv\<lparr>client_no_touch := False\<rparr>) db key;
          touchCommand cf sv argv db (if o' \<noteq> None then touched + 1 else touched) }"

subsection \<open>The time given by the arguments\<close>

lemma sdiv_1000: "LLONG_MAX sdiv 1000 = 9223372036854775" "LLONG_MIN sdiv 1000 = - 9223372036854775"
  by (simp_all add: LLONG_MAX_def LLONG_MIN_def signed_divide_int_def sgn_if)

definition millis :: "expire_unit \<Rightarrow> int \<Rightarrow> int" where
  "millis u v = (if u = UNIT_SECONDS then v * 1000 else v)"

definition exact_time :: "byte list \<Rightarrow> int \<Rightarrow> expire_unit \<Rightarrow> expire_error + int" where
  "exact_time param basetime u =
     (case string2ll param of None \<Rightarrow> Inl Not_an_integer
      | Some v \<Rightarrow> if LLONG_MIN \<le> millis u v \<and> millis u v + basetime \<le> LLONG_MAX then Inr (millis u v + basetime)
                 else Inl Invalid_expire_time)"

lemma expire_time_correct:
  assumes "0 \<le> basetime" "basetime \<le> LLONG_MAX"
  shows "expire_time param basetime u = Some (exact_time param basetime u)"
proof (cases "string2ll param")
  case None
  then show ?thesis by (simp add: expire_time_def exact_time_def)
next
  case (Some v)
  have v: "LLONG_MIN \<le> v" "v \<le> LLONG_MAX" using string2ll_sound [OF Some] by simp_all
  show ?thesis
  proof (cases u)
    case UNIT_SECONDS
    with assms v Some show ?thesis
      by (auto simp: expire_time_def exact_time_def millis_def ll_def sdiv_1000) (simp_all add: LLONG_MAX_def LLONG_MIN_def)
  next
    case UNIT_MILLISECONDS
    with assms v Some show ?thesis
      by (auto simp: expire_time_def exact_time_def millis_def ll_def) (simp_all add: LLONG_MAX_def LLONG_MIN_def)
  qed
qed

lemma expire_time_Inr:
  assumes "expire_time param basetime u = Some (Inr t)" "0 \<le> basetime" "basetime \<le> LLONG_MAX"
  shows "LLONG_MIN \<le> t \<and> t \<le> LLONG_MAX \<and> (basetime = 0 \<and> u = UNIT_MILLISECONDS \<longrightarrow> param = decimal t)"
proof -
  from assms(1) obtain v where v: "string2ll param = Some v" "LLONG_MIN \<le> millis u v" "millis u v + basetime \<le> LLONG_MAX"
    "t = millis u v + basetime" by (auto simp: expire_time_correct [OF assms(2,3)] exact_time_def split: option.splits if_splits)
  with string2ll_sound [OF v(1)] assms(2) show ?thesis by (auto simp: millis_def)
qed

lemma dec_nat_nonzero: "0 \<notin> set (dec_nat v)"
proof (induction v rule: dec_nat.induct)
  case (1 v)
  have d: "ch_0 + of_nat d \<noteq> 0" if "d < 10" for d
    using digit_of_nat [OF that] by (auto simp: is_digit_def)
  show ?case using 1 d [of v] d [of "v mod 10"] by (cases "v < 10") (auto simp: dec_nat_small dec_nat_step)
qed

lemma stringFromLongLong_decimal:
  assumes "LLONG_MIN \<le> v" "v \<le> LLONG_MAX"
  shows "stringFromLongLong v = Some (decimal v)"
proof -
  have n: "0 \<notin> set (decimal v)" using dec_nat_nonzero by (auto simp: decimal_def)
  have "sdigits10 v < 32" using length_decimal_bound [OF assms] by (simp add: sdigits10_eq assms LONG_STR_SIZE_def)
  with n show ?thesis unfolding stringFromLongLong_def
    by (subst ll2string_correct) (auto simp: assms takeWhile_tail)
qed

subsection \<open>Setting a time to live\<close>

definition expire_result :: "'o server \<Rightarrow> 32 word \<Rightarrow> int \<Rightarrow> key \<Rightarrow> 'o keyspace \<Rightarrow> 'o keyspace \<times> int" where
  "expire_result sv flag t k m =
     (case live sv m k of
        None \<Rightarrow> (purge sv m k, 0)
      | Some (v, e) \<Rightarrow>
          if expire_refused flag t (ttl_code e) then (m, 0)
          else if checkAlreadyExpired sv t then (m(k := None), 1)
          else (m(k \<mapsto> (v, Some t)), 1))"

definition expire_argv :: "'o server \<Rightarrow> bool \<Rightarrow> int \<Rightarrow> byte list list \<Rightarrow> byte list list" where
  "expire_argv sv is_pexpireat t argv =
     (if checkAlreadyExpired sv t then [bytes (if lazyfree_lazy_expire sv then ''UNLINK'' else ''DEL''), argv ! 1]
      else [if is_pexpireat then argv ! 0 else bytes ''PEXPIREAT'', argv ! 1, decimal t] @ drop 3 argv)"

lemma expire_refused_0 [simp]: "\<not> expire_refused 0 t e"
  by (simp add: expire_refused_def)

lemma live_purge: "live sv m k = Some x \<Longrightarrow> purge sv m k = m \<and> m k = Some x"
  by (auto simp: purge_def live_def split: if_splits)

lemma db_rep_dirty [simp]: "db_rep cf cl (db\<lparr>dirty := n\<rparr>) m = db_rep cf cl db m"
  by (rule db_rep_cong) simp_all

lemma expireGenericCommand_errors:
  assumes "0 \<le> basetime" "basetime \<le> LLONG_MAX"
  shows "parseExtendedExpireArgumentsOrReply opts = Inl err \<Longrightarrow>
      expireGenericCommand cf sv p (cmd # key # param # opts) basetime u db = Some (db, Error err, cmd # key # param # opts)"
    "parseExtendedExpireArgumentsOrReply opts = Inr flag \<Longrightarrow> expire_time param basetime u = Some (Inl err) \<Longrightarrow>
      expireGenericCommand cf sv p (cmd # key # param # opts) basetime u db = Some (db, Error err, cmd # key # param # opts)"
  by (simp_all add: expireGenericCommand_def)

lemma expireGenericCommand_rep:
  assumes rep: "db_rep cf cl db m" and cf: "conf_ok cf" and sv: "slot_ok cl sv key" and w: "can_write sv"
    and room: "card (dom m) < 2 ^ 64 - 1" and opts: "parseExtendedExpireArgumentsOrReply opts = Inr flag"
    and t: "expire_time param basetime u = Some (Inr t)" and base: "0 \<le> basetime" "basetime \<le> LLONG_MAX"
  shows "\<exists>db'. expireGenericCommand cf sv p (cmd # key # param # opts) basetime u db
      = Some (db', Integer (snd (expire_result sv flag t key m)),
              if snd (expire_result sv flag t key m) = 1 then expire_argv sv p t (cmd # key # param # opts)
              else cmd # key # param # opts)
    \<and> db_rep cf cl db' (fst (expire_result sv flag t key m))"
proof -
  from lookupKeyWrite_rep [OF rep cf sv w] obtain db1 r where
    d1: "lookupKeyWrite cf sv db key = Some (db1, r)" "map_option seen r = map_option fst (live sv m key)"
      "db_rep cf cl db1 (purge sv m key)" by blast
  show ?thesis
  proof (cases "live sv m key")
    case None
    with d1 show ?thesis by (simp add: expireGenericCommand_def opts t expire_result_def)
  next
    case (Some ve)
    then obtain v e where l: "live sv m key = Some (v, e)" by (cases ve) auto
    with d1(2) obtain obj where r: "r = Some obj" by auto
    have m: "purge sv m key = m" "m key = Some (v, e)" using live_purge [OF l] by simp_all
    have rep1: "db_rep cf cl db1 m" using d1(3) m by simp
    from getExpire_rep [OF rep1 cf sv] obtain db2 where
      d2: "getExpire cf sv db1 key = Some (db2, ttl_code e)" "db_rep cf cl db2 m" by (auto simp: ttl_at_def m)
    obtain db3 where d3: "(if flag \<noteq> 0 then do { (db, current_expire) \<leftarrow> getExpire cf sv db1 key;
        Some (db, expire_refused flag t current_expire) } else Some (db1, False)) = Some (db3, expire_refused flag t (ttl_code e))"
      "db_rep cf cl db3 m" using rep1 d2 by (cases "flag = 0") auto
    have start: "expireGenericCommand cf sv p (cmd # key # param # opts) basetime u db =
      (if expire_refused flag t (ttl_code e) then Some (db3, Integer 0, cmd # key # param # opts)
       else if checkAlreadyExpired sv t
       then do { (db, deleted) \<leftarrow> dbGenericDelete cf sv db3 key (lazyfree_lazy_expire sv) DB_FLAG_KEY_EXPIRED;
                 if \<not> deleted then None
                 else Some (log (NotifyKeyspaceEvent ''del'' key) (log (SignalModifiedKey key) (db\<lparr>dirty := dirty db + 1\<rparr>)), Integer 1,
                        [bytes (if lazyfree_lazy_expire sv then ''UNLINK'' else ''DEL''), key]) }
       else do { db \<leftarrow> setExpire cf sv db3 key t;
                 param' \<leftarrow> (if basetime \<noteq> 0 \<or> u = UNIT_SECONDS then stringFromLongLong t else Some param);
                 let db = log (NotifyKeyspaceEvent ''expire'' key) (log (SignalModifiedKey key) db);
                 Some (db\<lparr>dirty := dirty db + 1\<rparr>, Integer 1,
                   (if p then cmd else bytes ''PEXPIREAT'') # key # param' # opts) })"
      unfolding expireGenericCommand_def Let_def by (simp add: opts t d1(1) r d3(1))
    note result = expire_result_def l expire_argv_def
    show ?thesis
    proof (cases "expire_refused flag t (ttl_code e) \<or> checkAlreadyExpired sv t")
      case True
      from dbGenericDelete_rep [OF d3(2) cf sv, of "lazyfree_lazy_expire sv" DB_FLAG_KEY_EXPIRED] obtain db4 where
        d4: "dbGenericDelete cf sv db3 key (lazyfree_lazy_expire sv) DB_FLAG_KEY_EXPIRED = Some (db4, True)"
          "db_rep cf cl db4 (m(key := None))" by (auto simp: m)
      with True d3(2) show ?thesis unfolding start
        by (cases "expire_refused flag t (ttl_code e)") (simp_all add: result)
    next
      case False
      from setExpire_rep [OF d3(2) cf sv room m(2), of t] obtain db4 where
        d4: "setExpire cf sv db3 key t = Some db4" "db_rep cf cl db4 (m(key \<mapsto> (v, Some t)))" by blast
      have "(if basetime \<noteq> 0 \<or> u = UNIT_SECONDS then stringFromLongLong t else Some param) = Some (decimal t)"
        using expire_time_Inr [OF t base] stringFromLongLong_decimal [of t] by (cases u) auto
      with False d4 show ?thesis unfolding start by (simp add: result Let_def)
    qed
  qed
qed

subsection \<open>Reading and removing a time to live\<close>

text \<open>The remaining or the absolute time, and the reply: seconds are rounded to the nearest.\<close>

definition ttl_value :: "'o server \<Rightarrow> bool \<Rightarrow> int \<Rightarrow> int" where
  "ttl_value sv ab t = max 0 (if ab then t else t - time_snapshot sv)"

definition ttl_reply :: "'o server \<Rightarrow> bool \<Rightarrow> bool \<Rightarrow> ((obj_type \<times> 'o) \<times> int option) option \<Rightarrow> int" where
  "ttl_reply sv ms ab x =
     (case x of
        None \<Rightarrow> -2
      | Some (v, e) \<Rightarrow>
          case ttl_of (ttl_code e) of
            None \<Rightarrow> -1
          | Some t \<Rightarrow> if ms then ttl_value sv ab t else (ttl_value sv ab t + 500) div 1000)"

text \<open>Whether the arithmetic of the command stays in the range of 64 bits.\<close>

definition ttl_in_range :: "'o server \<Rightarrow> bool \<Rightarrow> bool \<Rightarrow> ((obj_type \<times> 'o) \<times> int option) option \<Rightarrow> bool" where
  "ttl_in_range sv ms ab x \<longleftrightarrow>
     (case x of
        Some (v, Some t) \<Rightarrow> t \<noteq> -1 \<longrightarrow> (ab \<or> LLONG_MIN \<le> t - time_snapshot sv \<and> t - time_snapshot sv \<le> LLONG_MAX)
          \<and> (ms \<or> ttl_value sv ab t + 500 \<le> LLONG_MAX)
      | _ \<Rightarrow> True)"

lemma read_flags: "LOOKUP_NOTOUCH AND LOOKUP_WRITE = 0" "LOOKUP_NOTOUCH AND LOOKUP_NOEXPIRE = 0"
  "LOOKUP_NONE AND LOOKUP_WRITE = 0" "LOOKUP_NONE AND LOOKUP_NOEXPIRE = 0"
  by (simp_all add: LOOKUP_NOTOUCH_def LOOKUP_NONE_def LOOKUP_WRITE_def LOOKUP_NOEXPIRE_def)

lemma live_expire: "live sv m k = Some x \<Longrightarrow> expire_key sv f a m k = m \<and> m k = Some x"
  by (auto simp: expire_key_def live_def split: if_splits)

lemma sdiv_round: "0 \<le> n \<Longrightarrow> (n + 500) sdiv 1000 = (n + 500) div (1000 :: int)"
  by (simp add: signed_divide_int_def sgn_if)

lemma ttl_compute:
  assumes "ttl_in_range sv ms ab (Some (v, e))"
  shows "do { ttl \<leftarrow> (if ttl_code e \<noteq> -1
           then do { ttl \<leftarrow> (if ab then Some (ttl_code e) else ll (ttl_code e - time_snapshot sv)); Some (if ttl < 0 then 0 else ttl) }
           else Some (-1));
         if ttl = -1 then Some (db, -1) else if ms then Some (db, ttl)
         else do { s \<leftarrow> ll (ttl + 500); Some (db, s sdiv 1000) } }
    = Some (db, ttl_reply sv ms ab (Some (v, e)))"
proof (cases "ttl_code e = -1")
  case True
  then show ?thesis by (simp add: ttl_reply_def ttl_of_def)
next
  case False
  then obtain t where e: "e = Some t" "t \<noteq> -1" by (auto simp: ttl_code_def split: option.splits)
  let ?u = "ttl_value sv ab t"
  have "(if ab then Some t else ll (t - time_snapshot sv)) = Some (if ab then t else t - time_snapshot sv)"
    using assms e by (auto simp: ttl_in_range_def ll_def)
  then have first: "(if ttl_code e \<noteq> -1
      then do { ttl \<leftarrow> (if ab then Some (ttl_code e) else ll (ttl_code e - time_snapshot sv)); Some (if ttl < 0 then 0 else ttl) }
      else Some (-1)) = Some ?u" using e by (cases ab) (simp_all add: ttl_code_def ttl_value_def max_def)
  have u: "0 \<le> ?u" by (simp add: ttl_value_def)
  then have "ms \<or> ll (?u + 500) = Some (?u + 500)"
    using assms e by (auto simp: ttl_in_range_def ll_def LLONG_MIN_def)
  with u show ?thesis unfolding first using e by (auto simp: ttl_reply_def ttl_code_def ttl_of_def sdiv_round)
qed

lemma ttlGenericCommand_rep:
  assumes rep: "db_rep cf cl db m" and cf: "conf_ok cf" and sv: "slot_ok cl sv key"
    and range: "ttl_in_range sv ms ab (live sv m key)"
  shows "\<exists>db'. ttlGenericCommand cf sv ms ab key db = Some (db', ttl_reply sv ms ab (live sv m key))
    \<and> db_rep cf cl db' (expire_key sv False False m key)"
proof -
  from lookup_read_rep [OF rep cf sv read_flags(1,2)] obtain db1 r where
    d1: "lookupKeyReadWithFlags cf sv db key LOOKUP_NOTOUCH = Some (db1, r)"
      "map_option seen r = map_option fst (live sv m key)" "db_rep cf cl db1 (expire_key sv False False m key)" by blast
  show ?thesis
  proof (cases "live sv m key")
    case None
    with d1 show ?thesis by (simp add: ttlGenericCommand_def ttl_reply_def)
  next
    case (Some ve)
    then obtain v e where l: "live sv m key = Some (v, e)" by (cases ve) auto
    with d1(2) obtain obj where r: "r = Some obj" by auto
    note m = live_expire [OF l, of False False]
    from getExpire_rep [OF d1(3) cf sv] m obtain db2 where
      d2: "getExpire cf sv db1 key = Some (db2, ttl_code e)" "db_rep cf cl db2 m" by (auto simp: ttl_at_def)
    from ttl_compute [of sv ms ab v e db2] range d2(2) m show ?thesis
      unfolding ttlGenericCommand_def by (simp add: d1(1) r d2(1) l)
  qed
qed

definition persist_result :: "'o server \<Rightarrow> key \<Rightarrow> 'o keyspace \<Rightarrow> 'o keyspace \<times> int" where
  "persist_result sv k m =
     (case live sv m k of
        Some (v, Some t) \<Rightarrow> (m(k \<mapsto> (v, None)), 1)
      | _ \<Rightarrow> (purge sv m k, 0))"

lemma persistCommand_rep:
  assumes rep: "db_rep cf cl db m" and cf: "conf_ok cf" and sv: "slot_ok cl sv key" and w: "can_write sv"
  shows "\<exists>db'. persistCommand cf sv key db = Some (db', snd (persist_result sv key m))
    \<and> db_rep cf cl db' (fst (persist_result sv key m))"
proof -
  from lookupKeyWrite_rep [OF rep cf sv w] obtain db1 r where
    d1: "lookupKeyWrite cf sv db key = Some (db1, r)" "map_option seen r = map_option fst (live sv m key)"
      "db_rep cf cl db1 (purge sv m key)" by blast
  from removeExpire_rep [OF d1(3) cf sv] obtain db2 where
    d2: "removeExpire cf sv db1 key = Some (db2, \<exists>v t. live sv m key = Some (v, Some t))"
      "db_rep cf cl db2 (m(key := map_option (\<lambda>(v, e). (v, None)) (live sv m key)))" by (auto simp: purge_def)
  show ?thesis
  proof (cases "live sv m key")
    case None
    with d1 show ?thesis by (simp add: persistCommand_def persist_result_def)
  next
    case (Some ve)
    then obtain v e where l: "live sv m key = Some (v, e)" by (cases ve) auto
    with d1(2) obtain obj where r: "r = Some obj" by auto
    show ?thesis
    proof (cases e)
      case None
      with live_purge [OF l] have "m(key \<mapsto> (v, None)) = m" by auto
      with None l r d1(1) d2 live_purge [OF l] show ?thesis by (simp add: persistCommand_def persist_result_def)
    next
      case (Some t)
      with l r d1(1) d2 show ?thesis by (simp add: persistCommand_def persist_result_def Let_def)
    qed
  qed
qed

lemma touchCommand_rep:
  assumes "db_rep cf cl db m" "conf_ok cf" "list_all (slot_ok cl sv) argv"
  shows "\<exists>db'. touchCommand cf sv argv db n = Some (db', n + length (filter (\<lambda>k. live sv m k \<noteq> None) argv))
    \<and> db_rep cf cl db' (expire_keys sv argv m)"
  using assms
proof (induction argv arbitrary: db m n)
  case Nil
  then show ?case by (simp add: expire_keys_def)
next
  case (Cons key argv)
  let ?sv = "sv\<lparr>client_no_touch := False\<rparr>"
  have sv: "live ?sv m = live sv m" "expire_key ?sv = expire_key sv" for m
    by (auto simp: live_def gone_def due_def expire_key_def deletes_def fun_eq_iff split: option.splits)
  have "slot_ok cl ?sv key" using Cons.prems(3) by (simp add: slot_ok_def)
  from lookup_read_rep [OF Cons.prems(1,2) this read_flags(3,4)] obtain db1 r where
    d1: "lookupKeyRead cf ?sv db key = Some (db1, r)"
      "map_option seen r = map_option fst (live sv m key)" "db_rep cf cl db1 (expire_key sv False False m key)"
    unfolding sv lookupKeyRead_def by blast
  from d1(2) have r: "r = None \<longleftrightarrow> live sv m key = None" by (cases r; cases "live sv m key") simp_all
  from Cons.IH [OF d1(3) Cons.prems(2), of "if r \<noteq> None then n + 1 else n"] Cons.prems(3) show ?case
    using r by (cases "live sv m key"; cases r) (simp_all add: d1(1) live_expire_key expire_keys_Cons del: not_None_eq)
qed

end
