(* ===== verification/Db_Array.thy ===== *)
theory Db_Array
  imports Expire
begin

section \<open>Several databases: MOVE, SWAPDB, loading and flushing (db.c)\<close>

text \<open>
  The databases of a server are an array.  A client has selected one of them; its index is an argument
  of the command.
\<close>

unbundle bit_operations_syntax

datatype move_reply = Move_in_cluster | Move_not_integer | Move_out_of_range | Move_same_db | Moved bool

definition INT_MIN :: int where "INT_MIN = - (2 ^ 31)"
definition INT_MAX :: int where "INT_MAX = 2 ^ 31 - 1"

definition getIntFromObject :: "byte list \<Rightarrow> int option" where
  "getIntFromObject arg =
     (case string2ll arg of None \<Rightarrow> None
      | Some v \<Rightarrow> if v < INT_MIN \<or> v > INT_MAX then None else Some v)"

text \<open>The part of the command after the checks of its arguments, on the two databases.\<close>

definition move_key ::
  "db_conf \<Rightarrow> 'o server \<Rightarrow> key \<Rightarrow> 'o redisDb \<Rightarrow> 'o redisDb \<Rightarrow> (('o redisDb \<times> 'o redisDb) \<times> bool) option" where
  "move_key cf sv key src dst =
     do { (src, o') \<leftarrow> lookupKeyWrite cf sv src key;
          case o' of None \<Rightarrow> Some ((src, dst), False)
          | Some obj \<Rightarrow>
              do { (src, expire) \<leftarrow> getExpire cf sv src key;
                   (dst, there) \<leftarrow> lookupKeyWrite cf sv dst key;
                   if there \<noteq> None then Some ((src, dst), False)
                   else do {
                     (dst, de) \<leftarrow> dbAdd cf sv dst key obj;
                     dst \<leftarrow> (if expire \<noteq> -1 then setExpire cf sv dst key expire else Some dst);
                     let hashExpireTime = (if otype obj = OBJ_HASH then hash_min_expire sv obj else None);
                     let src = (if otype obj = OBJ_HASH then log (HashTypeRemoveFromExpires key) src else src);
                     (src, deleted) \<leftarrow> dbDelete cf sv src key;
                     let dst = (case hashExpireTime of None \<Rightarrow> dst | Some t \<Rightarrow> log (HashTypeAddToExpires key t) dst);
                     let src = log (SignalModifiedKey key) src;
                     let dst = log (SignalModifiedKey key) dst;
                     let src = log (NotifyKeyspaceEvent ''move_from'' key) src;
                     let dst = log (NotifyKeyspaceEvent ''move_to'' key) dst;
                     Some ((src\<lparr>dirty := dirty src + 1\<rparr>, dst), True) } } }"

definition moveCommand ::
  "db_conf \<Rightarrow> 'o server \<Rightarrow> nat \<Rightarrow> key \<Rightarrow> byte list \<Rightarrow> 'o redisDb list \<Rightarrow> ('o redisDb list \<times> move_reply) option" where
  "moveCommand cf sv srcid key arg dbarray =
     (if cluster_enabled sv then Some (dbarray, Move_in_cluster)
      else
        (case getIntFromObject arg of
           None \<Rightarrow> Some (dbarray, Move_not_integer)
         | Some dbid \<Rightarrow>
             if dbid < 0 \<or> dbid \<ge> int (length dbarray) then Some (dbarray, Move_out_of_range)
             else if int srcid = dbid then Some (dbarray, Move_same_db)
             else do { ((src, dst), moved) \<leftarrow> move_key cf sv key (dbarray ! srcid) (dbarray ! nat dbid);
                       Some (dbarray[srcid := src, nat dbid := dst], Moved moved) }))"

text \<open>
  The stores and the state of the expiry change places; what other parts of the server keep for a
  database (here the record of the calls and the counters) stays.  The structure for the expiry of
  fields of hashes, which changes places as well, is not part of the model.
\<close>

definition take_stores :: "'o redisDb \<Rightarrow> 'o redisDb \<Rightarrow> 'o redisDb" where
  "take_stores db aux =
     db\<lparr>keys := keys aux, expires := expires aux, avg_ttl := avg_ttl aux, expires_cursor := expires_cursor aux\<rparr>"

definition dbSwapDatabases :: "int \<Rightarrow> int \<Rightarrow> 'o redisDb list \<Rightarrow> 'o redisDb list \<times> bool" where
  "dbSwapDatabases id1 id2 dbarray =
     (if id1 < 0 \<or> id1 \<ge> int (length dbarray) \<or> id2 < 0 \<or> id2 \<ge> int (length dbarray) then (dbarray, False)
      else if id1 = id2 then (dbarray, True)
      else
        (let aux = dbarray ! nat id1;
             db1 = log ScanDatabaseForDeletedKeys (log TouchAllWatchedKeysInDb (dbarray ! nat id1));
             db2 = log ScanDatabaseForDeletedKeys (log TouchAllWatchedKeysInDb (dbarray ! nat id2));
             db1 = take_stores db1 db2;
             db2 = take_stores db2 aux;
             db1 = log ScanDatabaseForReadyKeys db1;
             db2 = log ScanDatabaseForReadyKeys db2
         in (dbarray[nat id1 := db1, nat id2 := db2], True)))"

text \<open>
  One round of the loop of \<open>swapMainDbWithTempDb\<close>, and the loop.  The two calls after the loop concern the
  tracking table and the keys that a writable replica remembers, which are not part of a database.
\<close>

definition swap_with_temp :: "'o redisDb \<times> 'o redisDb \<Rightarrow> 'o redisDb \<times> 'o redisDb" where
  "swap_with_temp = (\<lambda>(activedb, newdb).
     (let aux = activedb;
          activedb = log ScanDatabaseForDeletedKeys (log TouchAllWatchedKeysInDb activedb);
          activedb = take_stores activedb newdb;
          newdb = take_stores newdb aux
      in (log ScanDatabaseForReadyKeys activedb, newdb)))"

definition swapMainDbWithTempDb :: "'o redisDb list \<Rightarrow> 'o redisDb list \<Rightarrow> 'o redisDb list \<times> 'o redisDb list" where
  "swapMainDbWithTempDb dbarray tempDb =
     (let r = map swap_with_temp (zip dbarray tempDb) in (map fst r, map snd r))"

subsection \<open>Moving a key\<close>

definition move_result :: "'o server \<Rightarrow> key \<Rightarrow> 'o keyspace \<Rightarrow> 'o keyspace \<Rightarrow> ('o keyspace \<times> 'o keyspace) \<times> bool" where
  "move_result sv k ms md =
     (case live sv ms k of
        None \<Rightarrow> ((purge sv ms k, md), False)
      | Some (v, e) \<Rightarrow>
          if live sv md k \<noteq> None then ((ms, md), False)
          else ((ms(k := None), md(k \<mapsto> (v, ttl_of (ttl_code e)))), True))"

lemma move_key_rep:
  assumes src: "db_rep cf cl src ms" and dst: "db_rep cf cl dst md" and cf: "conf_ok cf" and sv: "slot_ok cl sv key"
    and room: "card (dom md) < 2 ^ 64 - 2" and w: "can_write sv"
  shows "\<exists>src' dst'. move_key cf sv key src dst = Some ((src', dst'), snd (move_result sv key ms md))
    \<and> db_rep cf cl src' (fst (fst (move_result sv key ms md))) \<and> db_rep cf cl dst' (snd (fst (move_result sv key ms md)))"
proof -
  from lookupKeyWrite_rep [OF src cf sv w] obtain s1 r where
    s1: "lookupKeyWrite cf sv src key = Some (s1, r)" "map_option seen r = map_option fst (live sv ms key)"
      "db_rep cf cl s1 (purge sv ms key)" by blast
  show ?thesis
  proof (cases "live sv ms key")
    case None
    with s1 dst show ?thesis by (simp add: move_key_def move_result_def)
  next
    case (Some ve)
    then obtain v e where l: "live sv ms key = Some (v, e)" by (cases ve) auto
    with s1(2) obtain obj where r: "r = Some obj" "seen obj = v" by auto
    note m = live_purge [OF l]
    from getExpire_rep [OF s1(3) cf sv] m obtain s2 where
      s2: "getExpire cf sv s1 key = Some (s2, ttl_code e)" "db_rep cf cl s2 ms" by (auto simp: ttl_at_def)
    from lookupKeyWrite_rep [OF dst cf sv w] obtain d1 r' where
      d1: "lookupKeyWrite cf sv dst key = Some (d1, r')" "map_option seen r' = map_option fst (live sv md key)"
        "db_rep cf cl d1 (purge sv md key)" by blast
    show ?thesis
    proof (cases "live sv md key")
      case Some: (Some ve')
      with d1(2) obtain o2 where "r' = Some o2" by auto
      with Some s1(1) r s2 d1 l live_purge [OF Some] show ?thesis by (simp add: move_key_def move_result_def)
    next
      case None
      with d1(2) have r': "r' = None" by simp
      have up: "(purge sv md key)(key \<mapsto> x) = md(key \<mapsto> x)" for x by (simp add: purge_def)
      have "card (dom (purge sv md key)) < 2 ^ 64 - 2" using room card_le [OF dst dom_purge, of sv key] by simp
      from rename_put [OF d1(3) cf sv this, of False obj "ttl_code e"] None r(2) obtain d2 de d3 where
        d2: "dbAdd cf sv d1 key obj = Some (d2, de)" "(if ttl_code e \<noteq> -1 then setExpire cf sv d2 key (ttl_code e) else Some d2) = Some d3"
          "db_rep cf cl d3 (md(key \<mapsto> (v, ttl_of (ttl_code e))))" unfolding up by auto
      let ?s = "if otype obj = OBJ_HASH then log (HashTypeRemoveFromExpires key) s2 else s2"
      have "db_rep cf cl ?s ms" using s2(2) by simp
      from dbGenericDelete_rep [OF this cf sv, of "lazyfree_lazy_server_del sv" DB_FLAG_KEY_DELETED] obtain s3 b where
        s3: "dbDelete cf sv ?s key = Some (s3, b)" "db_rep cf cl s3 (ms(key := None))" by (auto simp: dbDelete_def)
      have "\<exists>s' d'. move_key cf sv key src dst = Some ((s', d'), True) \<and> keys s' = keys s3 \<and> expires s' = expires s3
          \<and> keys d' = keys d3 \<and> expires d' = expires d3"
        unfolding move_key_def Let_def by (simp add: s1(1) r(1) s2(1) d1(1) r' d2(1,2) s3(1) split: option.splits)
      then obtain s' d' where f: "move_key cf sv key src dst = Some ((s', d'), True)" "keys s' = keys s3" "expires s' = expires s3"
        "keys d' = keys d3" "expires d' = expires d3" by blast
      with l None db_rep_cong [OF f(2,3)] db_rep_cong [OF f(4,5)] s3(2) d2(3) show ?thesis by (simp add: move_result_def)
    qed
  qed
qed

subsection \<open>Exchanging and flushing databases\<close>

lemma take_stores_rep [simp]: "db_rep cf cl (take_stores db aux) m = db_rep cf cl aux m"
  by (rule db_rep_cong) (simp_all add: take_stores_def)

lemma dbSwapDatabases_rep:
  assumes dbs: "list_all2 (db_rep cf cl) dbs ms" and ids: "i < length ms" "j < length ms"
  shows "\<exists>dbs'. dbSwapDatabases (int i) (int j) dbs = (dbs', True)
    \<and> list_all2 (db_rep cf cl) dbs' (ms[i := ms ! j, j := ms ! i])"
proof -
  have len: "length dbs = length ms" using dbs by (rule list_all2_lengthD)
  have at: "db_rep cf cl (dbs ! i) (ms ! i)" "db_rep cf cl (dbs ! j) (ms ! j)"
    using list_all2_nthD [OF dbs] ids len by simp_all
  show ?thesis
  proof (cases "i = j")
    case True
    with dbs ids len show ?thesis by (simp add: dbSwapDatabases_def)
  next
    case False
    with dbs at ids len show ?thesis by (simp add: dbSwapDatabases_def Let_def list_all2_update_cong)
  qed
qed

lemma swap_with_temp_rep:
  assumes "list_all2 (db_rep cf cl) dbs ms" "list_all2 (db_rep cf cl) tmp ts" "length ms = length ts"
  shows "list_all2 (db_rep cf cl) (fst (swapMainDbWithTempDb dbs tmp)) ts \<and> list_all2 (db_rep cf cl) (snd (swapMainDbWithTempDb dbs tmp)) ms"
  using assms
  by (auto simp: swapMainDbWithTempDb_def Let_def swap_with_temp_def list_all2_conv_all_nth case_prod_unfold)

lemma initTempDb_rep:
  assumes "conf_ok cf"
  shows "\<exists>dbs. initTempDb cf sv n = Some dbs \<and> length dbs = n \<and> (\<forall>db \<in> set dbs. db_rep cf (cluster_enabled sv) db Map.empty)"
proof (induction n)
  case 0
  show ?case by simp
next
  case (Suc n)
  with new_db_rep [OF assms, of sv] show ?case by auto
qed

lemma emptyDbStructure_rep:
  assumes dbs: "list_all2 (db_rep cf cl) dbs ms" and cf: "conf_ok cf" and sv: "cluster_enabled sv = cl"
    and id: "dbnum = -1 \<or> 0 \<le> dbnum \<and> dbnum < int (length ms)"
  defines "hit i \<equiv> dbnum = -1 \<or> int i = dbnum"
  shows "\<exists>dbs'. emptyDbStructure cf sv dbs dbnum async
      = Some (dbs', of_nat (\<Sum>i \<leftarrow> [0..<length ms]. if hit i then card (dom (ms ! i)) else 0))
    \<and> list_all2 (db_rep cf cl) dbs' (map (\<lambda>i. if hit i then Map.empty else ms ! i) [0..<length ms])"
proof -
  have len: "length dbs = length ms" using dbs by (rule list_all2_lengthD)
  define js where "js = (if dbnum = -1 then [0..int (length dbs) - 1] else [dbnum..dbnum])"
  have e: "emptyDbStructure cf sv dbs dbnum async = empty_dbs cf sv async js dbs 0"
    by (simp add: emptyDbStructure_def js_def)
  have js: "distinct js" "\<forall>j \<in> set js. 0 \<le> j \<and> nat j < length dbs" "\<And>i. i < length ms \<Longrightarrow> int i \<in> set js \<longleftrightarrow> hit i"
    using id len by (auto simp: js_def hit_def)
  have hit: "hit (nat j)" if "j \<in> set js" for j using that js(2) js(3) [of "nat j"] len by simp
  have "(\<Sum>j \<leftarrow> js. card (dom (ms ! nat j))) = (\<Sum>j \<in> set js. card (dom (ms ! nat j)))"
    using js(1) by (simp add: sum_list_distinct_conv_sum_set)
  also have "\<dots> = (\<Sum>i \<in> {i. i < length ms \<and> hit i}. card (dom (ms ! i)))"
    by (rule sum.reindex_bij_witness [of _ int nat]) (use js(2,3) hit len in auto)
  also have "\<dots> = (\<Sum>i \<leftarrow> [0..<length ms]. if hit i then card (dom (ms ! i)) else 0)"
    by (auto simp: sum_list_distinct_conv_sum_set sum.If_cases Int_def intro!: sum.cong)
  finally have s: "(\<Sum>j \<leftarrow> js. card (dom (ms ! nat j))) = (\<Sum>i \<leftarrow> [0..<length ms]. if hit i then card (dom (ms ! i)) else 0)" .
  have f: "map (\<lambda>i. if int i \<in> set js then Map.empty else ms ! i) [0..<length ms] = map (\<lambda>i. if hit i then Map.empty else ms ! i) [0..<length ms]"
    using js(3) by auto
  from empty_dbs_rep [OF dbs cf sv js(1,2), of async 0] show ?thesis unfolding e s f by simp
qed

end
