(* ===== verification/Db_Main.thy ===== *)
theory Db_Main
  imports Db_Array
begin

section \<open>Databases: properties\<close>

text \<open>
  Every command of a sequence comes with the state of the server at the time it is executed, so the
  clock, the role of the server and its configuration may change between the commands.
\<close>

unbundle bit_operations_syntax

datatype expire_proc = EXPIRE | EXPIREAT | PEXPIRE | PEXPIREAT

datatype 'o db_op =
    Lookup "32 word" key
  | SetKey "32 word" key "'o robj"
  | Delete bool "key list"
  | Exists "key list"
  | Touch "key list"
  | Rename bool key key
  | SetExpire expire_proc "byte list list"
  | Ttl bool bool key
  | Persist key
  | Flush bool

datatype 'o db_reply =
    Done
  | Found "(obj_type \<times> 'o) option"
  | Number nat
  | Renamed rename_reply
  | Expiring expire_reply "byte list list"
  | Reply int
  | Removed "64 word"

primrec expire_command ::
  "expire_proc \<Rightarrow> db_conf \<Rightarrow> 'o server \<Rightarrow> byte list list \<Rightarrow> 'o redisDb \<Rightarrow> ('o redisDb \<times> expire_reply \<times> byte list list) option" where
  "expire_command EXPIRE = expireCommand"
| "expire_command EXPIREAT = expireatCommand"
| "expire_command PEXPIRE = pexpireCommand"
| "expire_command PEXPIREAT = pexpireatCommand"

fun db_app :: "db_conf \<Rightarrow> 'o server \<times> 'o db_op \<Rightarrow> 'o redisDb \<Rightarrow> ('o redisDb \<times> 'o db_reply) option" where
  "db_app cf (sv, Lookup flgs k) db = do { (db, r) \<leftarrow> lookupKey cf sv db k flgs; Some (db, Found (map_option seen r)) }"
| "db_app cf (sv, SetKey flgs k v) db = do { db \<leftarrow> setKey cf sv db k v flgs; Some (db, Done) }"
| "db_app cf (sv, Delete unlink ks) db =
     do { (db, n) \<leftarrow> (if unlink then unlinkCommand cf sv ks db else delCommand cf sv ks db); Some (db, Number n) }"
| "db_app cf (sv, Exists ks) db = do { (db, n) \<leftarrow> existsCommand cf sv ks db 0; Some (db, Number n) }"
| "db_app cf (sv, Touch ks) db = do { (db, n) \<leftarrow> touchCommand cf sv ks db 0; Some (db, Number n) }"
| "db_app cf (sv, Rename ex k l) db =
     do { (db, r) \<leftarrow> (if ex then renamenxCommand cf sv k l db else renameCommand cf sv k l db); Some (db, Renamed r) }"
| "db_app cf (sv, SetExpire p argv) db =
     do { (db, r, argv') \<leftarrow> expire_command p cf sv argv db; Some (db, Expiring r argv') }"
| "db_app cf (sv, Ttl ms ab k) db = do { (db, n) \<leftarrow> ttlGenericCommand cf sv ms ab k db; Some (db, Reply n) }"
| "db_app cf (sv, Persist k) db = do { (db, n) \<leftarrow> persistCommand cf sv k db; Some (db, Reply n) }"
| "db_app cf (sv, Flush async) db = do { (db, n) \<leftarrow> empty_db cf sv async db; Some (db, Removed n) }"

subsection \<open>The abstract commands\<close>

definition base_time :: "'o server \<Rightarrow> expire_proc \<Rightarrow> int" where
  "base_time sv p = (if p = EXPIRE \<or> p = PEXPIRE then time_snapshot sv else 0)"

definition unit_of :: "expire_proc \<Rightarrow> expire_unit" where
  "unit_of p = (if p = EXPIRE \<or> p = EXPIREAT then UNIT_SECONDS else UNIT_MILLISECONDS)"

definition expire_spec :: "'o server \<Rightarrow> expire_proc \<Rightarrow> byte list list \<Rightarrow> 'o keyspace \<Rightarrow> 'o keyspace \<times> 'o db_reply" where
  "expire_spec sv p argv m =
     (case parseExtendedExpireArgumentsOrReply (drop 3 argv) of
        Inl err \<Rightarrow> (m, Expiring (Error err) argv)
      | Inr flag \<Rightarrow>
          (case exact_time (argv ! 2) (base_time sv p) (unit_of p) of
             Inl err \<Rightarrow> (m, Expiring (Error err) argv)
           | Inr t \<Rightarrow>
               (let (m', n) = expire_result sv flag t (argv ! 1) m
                in (m', Expiring (Integer n) (if n = 1 then expire_argv sv (p = PEXPIREAT) t argv else argv)))))"

fun db_spec :: "'o server \<times> 'o db_op \<Rightarrow> 'o keyspace \<Rightarrow> 'o keyspace \<times> 'o db_reply" where
  "db_spec (sv, Lookup flgs k) m = (lookup_expires sv flgs m k, Found (map_option fst (live sv m k)))"
| "db_spec (sv, SetKey flgs k v) m = (set_result sv flgs m k v, Done)"
| "db_spec (sv, Delete unlink ks) m = (m |` (- set ks), Number (card {k \<in> set ks. del_counts sv m k}))"
| "db_spec (sv, Exists ks) m = (expire_keys sv ks m, Number (length (filter (\<lambda>k. live sv m k \<noteq> None) ks)))"
| "db_spec (sv, Touch ks) m = (expire_keys sv ks m, Number (length (filter (\<lambda>k. live sv m k \<noteq> None) ks)))"
| "db_spec (sv, Rename ex k l) m = map_prod id Renamed (rename_result sv k l ex m)"
| "db_spec (sv, SetExpire p argv) m = expire_spec sv p argv m"
| "db_spec (sv, Ttl ms ab k) m = (expire_key sv False False m k, Reply (ttl_reply sv ms ab (live sv m k)))"
| "db_spec (sv, Persist k) m = map_prod id Reply (persist_result sv k m)"
| "db_spec (sv, Flush async) m = (Map.empty, Removed (of_nat (card (dom m))))"

text \<open>
  Commands are executed with the slot of their keys, at a time between 1970 and the end of time, and
  those that write only where writing is allowed.
\<close>

fun op_keys :: "'o db_op \<Rightarrow> key list" where
  "op_keys (Lookup flgs k) = [k]"
| "op_keys (SetKey flgs k v) = [k]"
| "op_keys (Delete unlink ks) = ks"
| "op_keys (Exists ks) = ks"
| "op_keys (Touch ks) = ks"
| "op_keys (Rename ex k l) = [k, l]"
| "op_keys (SetExpire p argv) = [argv ! 1]"
| "op_keys (Ttl ms ab k) = [k]"
| "op_keys (Persist k) = [k]"
| "op_keys (Flush async) = []"

fun op_allowed :: "'o server \<Rightarrow> 'o db_op \<Rightarrow> 'o keyspace \<Rightarrow> bool" where
  "op_allowed sv (SetKey flgs k v) m = set_allowed sv flgs m k"
| "op_allowed sv (Rename ex k l) m = can_write sv"
| "op_allowed sv (SetExpire p argv) m = (can_write sv \<and> 3 \<le> length argv)"
| "op_allowed sv (Ttl ms ab k) m = ttl_in_range sv ms ab (live sv m k)"
| "op_allowed sv (Persist k) m = can_write sv"
| "op_allowed sv op' m = True"

definition db_valid :: "bool \<Rightarrow> 'o server \<times> 'o db_op \<Rightarrow> 'o keyspace \<Rightarrow> bool" where
  "db_valid cl = (\<lambda>(sv, op') m. cluster_enabled sv = cl \<and> 0 \<le> time_snapshot sv \<and> time_snapshot sv \<le> LLONG_MAX
     \<and> list_all (slot_ok cl sv) (op_keys op') \<and> op_allowed sv op' m)"

subsection \<open>Every command refines its specification\<close>

lemma expire_command_rep:
  assumes rep: "db_rep cf cl db m" and cf: "conf_ok cf" and sv: "slot_ok cl sv (argv ! 1)" and w: "can_write sv" "3 \<le> length argv"
    and room: "card (dom m) < 2 ^ 64 - 2" and time: "0 \<le> time_snapshot sv" "time_snapshot sv \<le> LLONG_MAX"
  shows "\<exists>db'. db_app cf (sv, SetExpire p argv) db = Some (db', snd (expire_spec sv p argv m))
    \<and> db_rep cf cl db' (fst (expire_spec sv p argv m))"
proof -
  from w(2) obtain cmd key param opts where argv: "argv = cmd # key # param # opts"
    by (metis One_nat_def Suc_le_length_iff numeral_3_eq_3)
  have b: "0 \<le> base_time sv p" "base_time sv p \<le> LLONG_MAX" using time by (simp_all add: base_time_def LLONG_MAX_def)
  have cmd: "expire_command p cf sv argv db = expireGenericCommand cf sv (p = PEXPIREAT) argv (base_time sv p) (unit_of p) db"
    by (cases p) (simp_all add: expireCommand_def expireatCommand_def pexpireCommand_def pexpireatCommand_def base_time_def unit_of_def)
  note t = expire_time_correct [OF b, of param "unit_of p"]
  have room': "card (dom m) < 2 ^ 64 - 1" using room by simp
  have sv': "slot_ok cl sv key" using sv by (simp add: argv)
  show ?thesis
  proof (cases "parseExtendedExpireArgumentsOrReply opts")
    case (Inl err)
    with rep show ?thesis by (simp add: cmd [unfolded argv] argv expireGenericCommand_errors(1) [OF b] expire_spec_def)
  next
    case opts: (Inr flag)
    show ?thesis
    proof (cases "exact_time param (base_time sv p) (unit_of p)")
      case (Inl err)
      with rep opts t show ?thesis by (simp add: cmd [unfolded argv] argv expireGenericCommand_errors(2) [OF b] expire_spec_def)
    next
      case (Inr u)
      with t have "expire_time param (base_time sv p) (unit_of p) = Some (Inr u)" by simp
      from expireGenericCommand_rep [OF rep cf sv' w(1) room' opts this b, of "p = PEXPIREAT" cmd] obtain db' where
        d': "expireGenericCommand cf sv (p = PEXPIREAT) argv (base_time sv p) (unit_of p) db
          = Some (db', Integer (snd (expire_result sv flag u key m)),
                  if snd (expire_result sv flag u key m) = 1 then expire_argv sv (p = PEXPIREAT) u argv else argv)"
          "db_rep cf cl db' (fst (expire_result sv flag u key m))" unfolding argv by blast
      have "expire_spec sv p argv m = (fst (expire_result sv flag u key m), Expiring (Integer (snd (expire_result sv flag u key m)))
          (if snd (expire_result sv flag u key m) = 1 then expire_argv sv (p = PEXPIREAT) u argv else argv))"
        by (simp add: expire_spec_def argv opts Inr case_prod_unfold Let_def)
      with d' show ?thesis by (simp add: cmd)
    qed
  qed
qed

lemma db_app_rep:
  assumes rep: "db_rep cf cl db m" and cf: "conf_ok cf" and ok: "db_valid cl (sv, op') m" and room: "card (dom m) < 2 ^ 64 - 2"
  shows "\<exists>db'. db_app cf (sv, op') db = Some (db', snd (db_spec (sv, op') m)) \<and> db_rep cf cl db' (fst (db_spec (sv, op') m))"
proof -
  note r = rep cf
  have room': "card (dom m) < 2 ^ 64 - 1" using room by simp
  have v: "list_all (slot_ok cl sv) (op_keys op')" "op_allowed sv op' m" "cluster_enabled sv = cl"
    "0 \<le> time_snapshot sv" "time_snapshot sv \<le> LLONG_MAX" using ok by (simp_all add: db_valid_def)
  show ?thesis
  proof (cases op')
    case (Lookup flgs k)
    with v lookupKey_rep [OF r, of sv k flgs] show ?thesis by auto
  next
    case (SetKey flgs k x)
    with v setKey_rep [OF r _ room', of sv k flgs x] show ?thesis by auto
  next
    case (Delete unlink ks)
    with v delGenericCommand_rep [OF r, of sv ks "if unlink then True else lazyfree_lazy_user_del sv" 0] show ?thesis
      by (cases unlink) (auto simp: unlinkCommand_def delCommand_def)
  next
    case (Exists ks)
    with v existsCommand_rep [OF r, of sv ks 0] show ?thesis by auto
  next
    case (Touch ks)
    with v touchCommand_rep [OF r, of sv ks 0] show ?thesis by auto
  next
    case (Rename ex k l)
    with v renameGenericCommand_rep [OF r, of sv k l ex] room show ?thesis
      by (cases ex) (auto simp: renamenxCommand_def renameCommand_def)
  next
    case (SetExpire p argv)
    with v expire_command_rep [OF r, of sv argv p] room show ?thesis by (simp del: db_app.simps)
  next
    case (Ttl ms ab k)
    with v ttlGenericCommand_rep [OF r, of sv k ms ab] show ?thesis by auto
  next
    case (Persist k)
    with v persistCommand_rep [OF r, of sv k] show ?thesis by auto
  next
    case (Flush async)
    with v empty_db_rep [OF r, of sv async] show ?thesis by auto
  qed
qed

lemma card_dom_le:
  assumes "finite (dom m)" "dom m' \<subseteq> insert k (dom m)"
  shows "card (dom m') \<le> Suc (card (dom m))"
proof -
  have "card (dom m') \<le> card (insert k (dom m))" by (rule card_mono) (use assms in auto)
  also have "\<dots> \<le> Suc (card (dom m))" using assms(1) by (simp add: card_insert_if)
  finally show ?thesis .
qed

lemma dbSize_rep: "db_rep cf cl db m \<Longrightarrow> dbSize db = Some (of_nat (card (dom m)))"
  by (auto simp: db_rep_def db_rel_def dbSize_def kvstoreSize_correct [OF kv_repD(1)] kv_rep_total(1) dom_keyspace)

lemma expire_key_dom: "dom (expire_key sv f a m k) \<subseteq> dom m"
  by (auto simp: expire_key_def)

lemma expire_spec_dom: "dom (fst (expire_spec sv p argv m)) \<subseteq> insert (argv ! 1) (dom m)"
  using dom_purge [of sv m "argv ! 1"]
  by (auto simp: expire_spec_def expire_result_def split: sum.splits option.splits if_splits prod.splits)

lemma db_spec_dom: "\<exists>k. dom (fst (db_spec (sv, op') m)) \<subseteq> insert k (dom m)"
proof (cases op')
  case (Rename ex k l)
  have "dom (fst (rename_result sv k l ex m)) \<subseteq> insert l (dom m)"
    using dom_purge [of sv m k] by (auto simp: rename_result_def split: option.splits if_splits)
  with Rename show ?thesis by auto
next
  case (SetExpire p argv)
  with expire_spec_dom [of sv p argv m] show ?thesis by auto
next
  case (Persist k)
  have "dom (fst (persist_result sv k m)) \<subseteq> insert k (dom m)"
    using dom_purge [of sv m k] by (auto simp: persist_result_def split: option.splits)
  with Persist show ?thesis by auto
next
  case (Lookup flgs k)
  then have "dom (fst (db_spec (sv, op') m)) \<subseteq> dom m" by (simp add: lookup_expires_def expire_key_dom)
  then show ?thesis by blast
next
  case (Ttl ms ab k)
  then have "dom (fst (db_spec (sv, op') m)) \<subseteq> dom m" by (simp add: expire_key_dom)
  then show ?thesis by blast
next
  case (Exists ks)
  then show ?thesis by (auto simp: expire_keys_def)
next
  case (Touch ks)
  then show ?thesis by (auto simp: expire_keys_def)
qed (auto simp: set_result_def)

interpretation redis_db: bounded_refinement "db_app cf" "\<lambda>db m. conf_ok cf \<and> db_rep cf cl db m" db_spec "db_valid cl"
  "\<lambda>m. card (dom m)" "2 ^ 64 - 2" for cf cl
proof (unfold_locales, goal_cases)
  case (1 db m oper)
  then show ?case using db_app_rep [of cf cl db m "fst oper" "snd oper"] by simp
next
  case (2 db m oper)
  then show ?case using card_dom_le [OF db_rep_finite] db_spec_dom [of "fst oper" "snd oper" m] by (metis prod.collapse)
qed

subsection \<open>Expiry on a replica\<close>

text \<open>The execution of a command that has been propagated.\<close>

definition exec_propagated :: "db_conf \<Rightarrow> 'o server \<Rightarrow> byte list list \<Rightarrow> 'o redisDb \<Rightarrow> 'o redisDb option" where
  "exec_propagated cf sv argv db =
     (if argv ! 0 = bytes ''DEL'' then map_option fst (delCommand cf sv (tl argv) db)
      else if argv ! 0 = bytes ''UNLINK'' then map_option fst (unlinkCommand cf sv (tl argv) db)
      else if argv ! 0 = bytes ''PEXPIREAT'' then map_option fst (pexpireatCommand cf sv argv db)
      else None)"

lemma names: "bytes ''DEL'' \<noteq> bytes ''UNLINK''" "bytes ''PEXPIREAT'' \<noteq> bytes ''DEL''" "bytes ''PEXPIREAT'' \<noteq> bytes ''UNLINK''"
  by (simp_all add: bytes_def)

lemma replica_live: "masterhost sv \<Longrightarrow> client_is_master sv \<Longrightarrow> live sv m k = m k"
  by (auto simp: live_def gone_def due_def split: option.splits)

lemma exec_delete:
  assumes rep: "db_rep cf cl db m" and cf: "conf_ok cf" and sv: "slot_ok cl sv key"
  shows "\<exists>db'. exec_propagated cf sv [bytes (if lazy then ''UNLINK'' else ''DEL''), key] db = Some db' \<and> db_rep cf cl db' (m(key := None))"
proof -
  have e: "m |` (- {key}) = m(key := None)" by (auto simp: restrict_map_def)
  show ?thesis using delGenericCommand_rep [OF rep cf, of sv "[key]" "lazyfree_lazy_user_del sv" 0]
      delGenericCommand_rep [OF rep cf, of sv "[key]" True 0] sv names
    by (cases lazy) (auto simp: exec_propagated_def delCommand_def unlinkCommand_def e)
qed

lemma exec_pexpireat:
  assumes rep: "db_rep cf cl db m" and cf: "conf_ok cf" and sv: "slot_ok cl sv key" and w: "can_write sv"
    and replica: "masterhost sv" "client_is_master sv" and room: "card (dom m) < 2 ^ 64 - 2"
    and opts: "parseExtendedExpireArgumentsOrReply opts = Inr flag" and t: "LLONG_MIN \<le> t" "t \<le> LLONG_MAX"
    and at: "m key = Some (v, e)" "\<not> expire_refused flag t (ttl_code e)"
  shows "\<exists>db'. exec_propagated cf sv (bytes ''PEXPIREAT'' # key # decimal t # opts) db = Some db'
    \<and> db_rep cf cl db' (m(key \<mapsto> (v, Some t)))"
proof -
  have b: "0 \<le> (0 :: int)" "0 \<le> LLONG_MAX" by (simp_all add: LLONG_MAX_def)
  have u: "expire_time (decimal t) 0 UNIT_MILLISECONDS = Some (Inr t)"
    using t by (simp add: expire_time_correct [OF b] exact_time_def string2ll_decimal millis_def)
  have "expire_result sv flag t key m = (m(key \<mapsto> (v, Some t)), 1)"
    using at replica by (simp add: expire_result_def replica_live checkAlreadyExpired_def)
  moreover have "card (dom m) < 2 ^ 64 - 1" using room by simp
  ultimately show ?thesis using expireGenericCommand_rep [OF rep cf sv w _ opts u b, of True "bytes ''PEXPIREAT''"] names
    by (auto simp: exec_propagated_def pexpireatCommand_def)
qed

lemma expire_spec_done:
  assumes "expire_spec sv p argv m = (m', Expiring (Integer 1) argv')"
  obtains flag t v e where "parseExtendedExpireArgumentsOrReply (drop 3 argv) = Inr flag"
    "exact_time (argv ! 2) (base_time sv p) (unit_of p) = Inr t" "live sv m (argv ! 1) = Some (v, e)"
    "\<not> expire_refused flag t (ttl_code e)" "argv' = expire_argv sv (p = PEXPIREAT) t argv"
    "m' = (if checkAlreadyExpired sv t then m(argv ! 1 := None) else m(argv ! 1 \<mapsto> (v, Some t)))"
  using assms by (auto simp: expire_spec_def expire_result_def split: sum.splits option.splits if_splits prod.splits)

lemma exact_time_range:
  assumes "exact_time param b u = Inr t" "0 \<le> b" "b \<le> LLONG_MAX"
  shows "LLONG_MIN \<le> t" "t \<le> LLONG_MAX"
  using assms by (auto simp: exact_time_def split: option.splits if_splits)

subsection \<open>Example\<close>

definition cf_ex :: db_conf where
  "cf_ex = \<lparr>dbDictType = \<lparr>hashFunction = \<lambda>k. of_nat (length k), resizeAllowed = None, dict_can_resize = DICT_RESIZE_ENABLE, no_value = False\<rparr>,
     dbExpiresDictType = \<lparr>hashFunction = \<lambda>k. of_nat (length k), resizeAllowed = None, dict_can_resize = DICT_RESIZE_ENABLE, no_value = False\<rparr>,
     alloc = al_first\<rparr>"

definition sv_ex :: "nat server" where
  "sv_ex = \<lparr>cluster_enabled = False, client_slot = None, loading = False, lazy_expire_disabled = False, masterhost = False,
     repl_slave_ro = True, client_is_master = False, client_no_touch = False, has_client = True, active_child = False,
     expire_paused = False, lazyfree_lazy_expire = False, lazyfree_lazy_server_del = False, lazyfree_lazy_user_del = False,
     time_snapshot = 1000, init_lru = (\<lambda>v. 1), touch_lru = (\<lambda>v. 2), hash_min_expire = (\<lambda>v. None)\<rparr>"

definition obj_ex :: "nat robj" where
  "obj_ex = \<lparr>otype = OBJ_STRING, lru = 0, contents = 5\<rparr>"

definition replica_ex :: "nat server" where
  "replica_ex = sv_ex\<lparr>masterhost := True, client_is_master := True, time_snapshot := 5\<rparr>"

lemma cf_ex_ok: "conf_ok cf_ex"
  by (simp add: conf_ok_def cf_ex_def al_first_ok)

lemma sv_ex_ok: "slot_ok False sv_ex k" "can_write sv_ex" "cluster_enabled sv_ex = False" "time_snapshot sv_ex = 1000"
  by (simp_all add: slot_ok_def can_write_def sv_ex_def)

text \<open>A database with the key 7, which expires at the time \<open>t\<close>.\<close>

lemma db_ex:
  obtains db where "db_rep cf_ex False db [[7] \<mapsto> ((OBJ_STRING, 5 :: nat), Some t)]"
proof -
  from new_db_rep [OF cf_ex_ok, of sv_ex] obtain db0 where d0: "db_rep cf_ex False db0 (Map.empty :: nat keyspace)"
    by (auto simp: sv_ex_ok)
  have "set_allowed sv_ex 0 Map.empty [7]" by (simp add: set_allowed_def sv_ex_ok)
  from setKey_rep [OF d0 cf_ex_ok sv_ex_ok(1) _ this, of obj_ex] obtain db1 where
    d1: "db_rep cf_ex False db1 [[7] \<mapsto> ((OBJ_STRING, 5 :: nat), None)]" by (auto simp: set_result_def seen_def obj_ex_def)
  from setExpire_rep [OF d1 cf_ex_ok sv_ex_ok(1), of "[7]" "(OBJ_STRING, 5)" None t] that show thesis by auto
qed

subsection \<open>Properties\<close>

text \<open>
  C38. Any sequence of commands on a new database, in which the clock, the role and the configuration
  of the server change freely, behaves like the abstract commands on the keyspace: every command ends
  without a failed assertion, gives the specified reply, and leaves a database whose dictionaries hold
  exactly the keys of the keyspace, with their objects and their times to live.  The commands that
  write are run where writing is allowed and while the expiry is not paused, those that report a time
  to live where the result fits 64 bits; the number of commands is bounded by the range of the
  counters.
\<close>

theorem db_refines_keyspace:
  assumes "conf_ok cf" "run_valid (db_valid (cluster_enabled sv)) db_spec ops Map.empty" "length ops \<le> 2 ^ 64 - 2"
  shows "\<exists>db0 db. new_db cf sv = Some db0
    \<and> run_ops (db_app cf) ops db0 = Some (db, snd (run_spec db_spec ops Map.empty))
    \<and> db_rep cf (cluster_enabled sv) db (fst (run_spec db_spec ops Map.empty))
    \<and> dbSize db = Some (of_nat (card (dom (fst (run_spec db_spec ops Map.empty)))))"
proof -
  from new_db_rep [OF assms(1), of sv] obtain db0 where
    d0: "new_db cf sv = Some db0" "db_rep cf (cluster_enabled sv) db0 Map.empty" by blast
  from redis_db.run_refines [of cf "cluster_enabled sv" db0 Map.empty ops] assms d0(2) obtain db where
    "run_ops (db_app cf) ops db0 = Some (db, snd (run_spec db_spec ops Map.empty))"
    "db_rep cf (cluster_enabled sv) db (fst (run_spec db_spec ops Map.empty))" by auto
  with d0(1) dbSize_rep show ?thesis by blast
qed

text \<open>A key is set, read, deleted by a command that names it twice, and then renamed in vain.\<close>

definition ops_ex :: "(nat server \<times> nat db_op) list" where
  "ops_ex = [(sv_ex, SetKey 0 [7] obj_ex), (sv_ex, Lookup 0 [7]), (sv_ex, Delete False [[7], [7]]), (sv_ex, Rename False [7] [8])]"

theorem db_refines_keyspace_witness:
  "conf_ok cf_ex \<and> (\<exists>db0 db. new_db cf_ex sv_ex = Some db0
    \<and> run_ops (db_app cf_ex) ops_ex db0 = Some (db, [Done, Found (Some (OBJ_STRING, 5)), Number 1, Renamed NOKEYERR])
    \<and> db_rep cf_ex False db Map.empty \<and> dbSize db = Some 0)"
proof -
  have c: "{k. k = [7] \<and> P k} = (if P [7 :: byte] then {[7]} else {})" for P by auto
  have e: "[[7] \<mapsto> x] |` (- {[7 :: byte]}) = Map.empty" for x :: "(obj_type \<times> nat) \<times> int option" by (auto simp: restrict_map_def)
  note d = ops_ex_def set_result_def seen_def obj_ex_def live_def gone_def due_def lookup_expires_def expire_key_def
    del_counts_def rename_result_def purge_def c e
  have r: "run_spec db_spec ops_ex Map.empty = (Map.empty, [Done, Found (Some (OBJ_STRING, 5)), Number 1, Renamed NOKEYERR])"
    by (simp add: d)
  have "run_valid (db_valid (cluster_enabled sv_ex)) db_spec ops_ex Map.empty"
    by (simp add: ops_ex_def db_valid_def sv_ex_ok set_allowed_def LLONG_MAX_def)
  from db_refines_keyspace [OF cf_ex_ok this] cf_ex_ok show ?thesis unfolding r by (simp add: sv_ex_ok ops_ex_def)
qed

text \<open>
  C39. A lookup never returns a key whose time has come, whatever the role of the server, except to the
  connection from the master, while loading, and while lazy expiry is disabled.  It deletes such a key
  unless the server is a replica (which waits for the deletion from its master, and is forced to delete
  by a write only if it is writable), the caller forbids it, or the expiry is paused; it changes no
  other key.
\<close>

theorem lookupKey_expiry:
  assumes "db_rep cf cl db m" "conf_ok cf" "slot_ok cl sv key"
  shows "\<exists>db' r. lookupKey cf sv db key flgs = Some (db', r)
    \<and> (let expired = (\<exists>v t. m key = Some (v, Some t) \<and> 0 \<le> t \<and> t < time_snapshot sv \<and> \<not> loading sv \<and> \<not> lazy_expire_disabled sv
                        \<and> \<not> (masterhost sv \<and> client_is_master sv));
           may_delete = (flgs AND LOOKUP_NOEXPIRE = 0 \<and> \<not> expire_paused sv
                        \<and> (\<not> masterhost sv \<or> flgs AND LOOKUP_WRITE \<noteq> 0 \<and> \<not> repl_slave_ro sv))
       in map_option seen r = (if expired then None else map_option fst (m key))
        \<and> db_rep cf cl db' (if expired \<and> may_delete then m(key := None) else m))"
proof -
  have g: "(\<exists>v t. m key = Some (v, Some t) \<and> 0 \<le> t \<and> t < time_snapshot sv \<and> \<not> loading sv \<and> \<not> lazy_expire_disabled sv
      \<and> \<not> (masterhost sv \<and> client_is_master sv)) \<longleftrightarrow> gone sv m key"
    by (auto simp: gone_def due_def split: option.splits)
  have l: "map_option fst (live sv m key) = (if gone sv m key then None else map_option fst (m key))" by (simp add: live_def)
  have x: "lookup_expires sv flgs m key = (if gone sv m key \<and> flgs AND LOOKUP_NOEXPIRE = 0 \<and> \<not> expire_paused sv
      \<and> (\<not> masterhost sv \<or> flgs AND LOOKUP_WRITE \<noteq> 0 \<and> \<not> repl_slave_ro sv) then m(key := None) else m)"
    by (auto simp: lookup_expires_def expire_key_def deletes_def)
  show ?thesis using lookupKey_rep [OF assms, of flgs] unfolding g Let_def l x .
qed

theorem lookupKey_expiry_witness:
  "\<exists>db :: nat redisDb. db_rep cf_ex False db [[7] \<mapsto> ((OBJ_STRING, 5), Some 999)]
    \<and> (\<exists>db'. lookupKey cf_ex sv_ex db [7] 0 = Some (db', None) \<and> db_rep cf_ex False db' Map.empty)"
proof -
  obtain db :: "nat redisDb" where d: "db_rep cf_ex False db [[7] \<mapsto> ((OBJ_STRING, 5), Some 999)]" by (rule db_ex)
  from lookupKey_expiry [OF d cf_ex_ok sv_ex_ok(1), of "[7]" 0] have
    "\<exists>db'. lookupKey cf_ex sv_ex db [7] 0 = Some (db', None) \<and> db_rep cf_ex False db' Map.empty"
    by (simp add: sv_ex_def Let_def)
  with d show ?thesis by blast
qed

text \<open>
  \<open>RENAME\<close> and \<open>RENAMENX\<close>.  The source must exist and not be expired.  Then its object and its time to
  live get the new name, whatever was there before (\<open>RENAMENX\<close> refuses if a key is there that has not
  expired), the old name is free, and no other key changes.
\<close>

theorem rename_spec:
  assumes "db_rep cf cl db m" "conf_ok cf" "slot_ok cl sv src" "slot_ok cl sv dst" "card (dom m) < 2 ^ 64 - 2" "can_write sv"
  shows "\<exists>db' m' reply. renameGenericCommand cf sv src dst ex db = Some (db', reply) \<and> db_rep cf cl db' m'
    \<and> (case live sv m src of
         None \<Rightarrow> reply = NOKEYERR \<and> m' = m(src := None)
       | Some (v, e) \<Rightarrow>
           if src = dst then reply = (if ex then CZERO else OK) \<and> m' = m
           else if ex \<and> live sv m dst \<noteq> None then reply = CZERO \<and> m' = m
           else reply = (if ex then CONE else OK) \<and> m' src = None \<and> map_option fst (m' dst) = Some v
             \<and> (e \<noteq> Some (-1) \<longrightarrow> m' dst = Some (v, e)) \<and> (\<forall>k. k \<noteq> src \<and> k \<noteq> dst \<longrightarrow> m' k = m k))"
proof -
  have p: "live sv m src = None \<Longrightarrow> purge sv m src = m(src := None)" by (simp add: purge_def)
  have t: "e \<noteq> Some (-1) \<Longrightarrow> ttl_of (ttl_code e) = e" for e by (cases e) (auto simp: ttl_of_def ttl_code_def)
  from renameGenericCommand_rep [OF assms, of ex] obtain db' where
    d: "renameGenericCommand cf sv src dst ex db = Some (db', snd (rename_result sv src dst ex m))"
      "db_rep cf cl db' (fst (rename_result sv src dst ex m))" by blast
  show ?thesis
    by (intro exI [of _ db'] exI [of _ "fst (rename_result sv src dst ex m)"] exI [of _ "snd (rename_result sv src dst ex m)"] conjI d)
      (auto simp: rename_result_def p t split: option.splits)
qed

theorem rename_spec_witness:
  "\<exists>db :: nat redisDb. db_rep cf_ex False db [[7] \<mapsto> ((OBJ_STRING, 5), Some 2000)]
    \<and> (\<exists>db' m'. renameGenericCommand cf_ex sv_ex [7] [8] False db = Some (db', OK) \<and> db_rep cf_ex False db' m'
         \<and> m' [7] = None \<and> m' [8] = Some ((OBJ_STRING, 5), Some 2000))"
proof -
  obtain db :: "nat redisDb" where d: "db_rep cf_ex False db [[7] \<mapsto> ((OBJ_STRING, 5), Some 2000)]" by (rule db_ex)
  have "live sv_ex [[7] \<mapsto> ((OBJ_STRING, 5), Some 2000)] [7] = Some ((OBJ_STRING, 5), Some 2000)"
    by (simp add: live_def gone_def due_def sv_ex_ok)
  with rename_spec [OF d cf_ex_ok sv_ex_ok(1,1) _ sv_ex_ok(2), of "[7]" "[8]" False] have
    "\<exists>db' m'. renameGenericCommand cf_ex sv_ex [7] [8] False db = Some (db', OK) \<and> db_rep cf_ex False db' m'
       \<and> m' [7] = None \<and> m' [8] = Some ((OBJ_STRING, 5), Some 2000)" by auto
  with d show ?thesis by blast
qed

text \<open>
  The time that \<open>EXPIRE\<close>, \<open>PEXPIRE\<close>, \<open>EXPIREAT\<close> and \<open>PEXPIREAT\<close> compute.  No step of the computation
  overflows, and the error for an invalid time is given exactly when the number of milliseconds or the
  resulting time is not a 64-bit integer.
\<close>

theorem expire_time_exact:
  assumes "0 \<le> basetime" "basetime \<le> LLONG_MAX" "LLONG_MIN \<le> v" "v \<le> LLONG_MAX"
  shows "expire_time (decimal v) basetime u =
    (let ms = (case u of UNIT_SECONDS \<Rightarrow> v * 1000 | UNIT_MILLISECONDS \<Rightarrow> v)
     in if LLONG_MIN \<le> ms \<and> ms \<le> LLONG_MAX \<and> ms + basetime \<le> LLONG_MAX then Some (Inr (ms + basetime))
        else Some (Inl Invalid_expire_time))"
  using assms string2ll_decimal [of v]
  by (cases u) (auto simp: expire_time_correct exact_time_def millis_def Let_def)

theorem expire_time_exact_witness:
  "expire_time (decimal 2) 1700000000000 UNIT_SECONDS = Some (Inr 1700000002000)
   \<and> expire_time (decimal 9223372036854775) 1700000000000 UNIT_SECONDS = Some (Inl Invalid_expire_time)"
  using expire_time_exact [of 1700000000000 2 UNIT_SECONDS] expire_time_exact [of 1700000000000 9223372036854775 UNIT_SECONDS]
  by (simp add: LLONG_MAX_def LLONG_MIN_def Let_def)

text \<open>
  C40. Setting a time to live is propagated as a command that does not depend on the clock.  If a server
  executes one of the four commands with the reply 1 (the name of \<open>PEXPIREAT\<close> being in upper case, the
  others are rewritten), then a replica with the same keyspace that executes the propagated command, at
  any time and with any configuration of its own, has the same keyspace as its master afterwards, also
  when the time was in the past and the master has deleted the key instead.
\<close>

theorem expire_replicates:
  assumes master: "db_rep cf cl db m" "conf_ok cf" "slot_ok cl sv (argv ! 1)" "can_write sv"
    "0 \<le> time_snapshot sv" "time_snapshot sv \<le> LLONG_MAX"
    and command: "3 \<le> length argv" "p = PEXPIREAT \<Longrightarrow> argv ! 0 = bytes ''PEXPIREAT''"
      "expire_command p cf sv argv db = Some (db', Integer 1, argv')"
    and replica: "db_rep cf' cl rdb m" "conf_ok cf'" "slot_ok cl rsv (argv ! 1)" "can_write rsv"
      "masterhost rsv" "client_is_master rsv"
    and room: "card (dom m) < 2 ^ 64 - 2"
  shows "\<exists>m' rdb'. db_rep cf cl db' m' \<and> exec_propagated cf' rsv argv' rdb = Some rdb' \<and> db_rep cf' cl rdb' m'"
proof -
  from expire_command_rep [OF master(1-4) command(1) room master(5,6), of p] command(3)
  have "snd (expire_spec sv p argv m) = Expiring (Integer 1) argv'" "db_rep cf cl db' (fst (expire_spec sv p argv m))" by auto
  then obtain m' where m': "expire_spec sv p argv m = (m', Expiring (Integer 1) argv')" "db_rep cf cl db' m'"
    by (cases "expire_spec sv p argv m") auto
  from m'(1) obtain flag t v e where
    s: "parseExtendedExpireArgumentsOrReply (drop 3 argv) = Inr flag"
      "exact_time (argv ! 2) (base_time sv p) (unit_of p) = Inr t" "live sv m (argv ! 1) = Some (v, e)"
      "\<not> expire_refused flag t (ttl_code e)" "argv' = expire_argv sv (p = PEXPIREAT) t argv"
      "m' = (if checkAlreadyExpired sv t then m(argv ! 1 := None) else m(argv ! 1 \<mapsto> (v, Some t)))"
    by (rule expire_spec_done)
  have at: "m (argv ! 1) = Some (v, e)" using live_purge [OF s(3)] by simp
  have "\<exists>rdb'. exec_propagated cf' rsv argv' rdb = Some rdb' \<and> db_rep cf' cl rdb' m'"
  proof (cases "checkAlreadyExpired sv t")
    case True
    with exec_delete [OF replica(1-3), of "lazyfree_lazy_expire sv"] s(5,6) show ?thesis by (simp add: expire_argv_def)
  next
    case False
    have "0 \<le> base_time sv p" "base_time sv p \<le> LLONG_MAX" using master(5,6) by (simp_all add: base_time_def LLONG_MAX_def)
    note t = exact_time_range [OF s(2) this]
    have "argv' = bytes ''PEXPIREAT'' # argv ! 1 # decimal t # drop 3 argv"
      using False s(5) command(2) by (simp add: expire_argv_def)
    with exec_pexpireat [OF replica(1-6) room s(1) t at s(4)] False s(6) show ?thesis by simp
  qed
  with m'(2) show ?thesis by blast
qed

text \<open>A time in the past: the master deletes the key, and so does the replica, in its own time.\<close>

theorem expire_replicates_witness:
  "\<exists>db db' rdb' :: nat redisDb. \<exists>argv' m'. db_rep cf_ex False db [[7] \<mapsto> ((OBJ_STRING, 5), Some 2000)]
    \<and> expire_command EXPIREAT cf_ex sv_ex [bytes ''EXPIREAT'', [7], decimal 0] db = Some (db', Integer 1, argv')
    \<and> db_rep cf_ex False db' m' \<and> exec_propagated cf_ex replica_ex argv' db = Some rdb' \<and> db_rep cf_ex False rdb' m'"
proof -
  let ?argv = "[bytes ''EXPIREAT'', [7], decimal 0]" and ?m = "[[7] \<mapsto> ((OBJ_STRING, 5 :: nat), Some 2000)]"
  obtain db :: "nat redisDb" where d: "db_rep cf_ex False db ?m" by (rule db_ex)
  have sv: "slot_ok False sv_ex (?argv ! 1)" "can_write sv_ex" "3 \<le> length ?argv" "card (dom ?m) < 2 ^ 64 - 2"
    "0 \<le> time_snapshot sv_ex" "time_snapshot sv_ex \<le> LLONG_MAX" by (simp_all add: sv_ex_ok LLONG_MAX_def)
  have r: "slot_ok False replica_ex (?argv ! 1)" "can_write replica_ex" "masterhost replica_ex" "client_is_master replica_ex"
    by (simp_all add: replica_ex_def slot_ok_def can_write_def sv_ex_def)
  have "\<exists>argv'. snd (expire_spec sv_ex EXPIREAT ?argv ?m) = Expiring (Integer 1) argv'"
    by (simp add: expire_spec_def exact_time_def base_time_def unit_of_def millis_def string2ll_decimal LLONG_MIN_def LLONG_MAX_def
      parseExtendedExpireArgumentsOrReply_def expire_result_def live_def gone_def due_def sv_ex_def checkAlreadyExpired_def)
  with expire_command_rep [OF d cf_ex_ok sv, of EXPIREAT] obtain db' argv' where
    c: "expire_command EXPIREAT cf_ex sv_ex ?argv db = Some (db', Integer 1, argv')" by (auto simp: bind_eq_Some_conv)
  from expire_replicates [OF d cf_ex_ok sv(1,2,5,6,3) _ c d cf_ex_ok r sv(4)] obtain m' rdb' where
    "db_rep cf_ex False db' m'" "exec_propagated cf_ex replica_ex argv' db = Some rdb'" "db_rep cf_ex False rdb' m'" by auto
  with d c show ?thesis by blast
qed

subsection \<open>Further results\<close>

text \<open>
  The largest time is accepted by \<open>PEXPIREAT\<close>, but then \<open>EXPIRETIME\<close> overflows when it rounds the time to
  seconds.
\<close>

theorem expiretime_overflow:
  assumes "db_rep cf cl db m" "conf_ok cf" "slot_ok cl sv key" "can_write sv" "card (dom m) < 2 ^ 64 - 2"
    "live sv m key \<noteq> None" "time_snapshot sv < LLONG_MAX"
  shows "\<exists>db' argv'. pexpireatCommand cf sv [bytes ''PEXPIREAT'', key, decimal LLONG_MAX] db = Some (db', Integer 1, argv')
    \<and> expiretimeCommand cf sv key db' = None"
proof -
  obtain v e where ve: "live sv m key = Some (v, e)" using assms(6) by auto
  have b: "0 \<le> (0 :: int)" "0 \<le> LLONG_MAX" "LLONG_MIN \<le> LLONG_MAX" by (simp_all add: LLONG_MAX_def LLONG_MIN_def)
  have u: "expire_time (decimal LLONG_MAX) 0 UNIT_MILLISECONDS = Some (Inr LLONG_MAX)"
    using b by (simp add: expire_time_correct exact_time_def string2ll_decimal millis_def)
  have opts: "parseExtendedExpireArgumentsOrReply [] = Inr 0" by (simp add: parseExtendedExpireArgumentsOrReply_def)
  have na: "\<not> checkAlreadyExpired sv LLONG_MAX" using assms(7) by (simp add: checkAlreadyExpired_def)
  let ?m = "m(key \<mapsto> (v, Some LLONG_MAX))"
  have res: "expire_result sv 0 LLONG_MAX key m = (?m, 1)"
    using ve na live_purge [OF ve] by (simp add: expire_result_def)
  from expireGenericCommand_rep [OF assms(1-4) _ opts u b(1,2), of True "bytes ''PEXPIREAT''"] assms(5) res obtain db' argv' where
    d: "pexpireatCommand cf sv [bytes ''PEXPIREAT'', key, decimal LLONG_MAX] db = Some (db', Integer 1, argv')"
      "db_rep cf cl db' ?m" by (auto simp: pexpireatCommand_def)
  have l: "live sv ?m key = Some (v, Some LLONG_MAX)" "expire_key sv False False ?m key = ?m"
    using assms(7) by (simp_all add: live_def gone_def due_def expire_key_def)
  from lookup_read_rep [OF d(2) assms(2,3) read_flags(1,2)] l obtain db1 r where
    d1: "lookupKeyReadWithFlags cf sv db' key LOOKUP_NOTOUCH = Some (db1, r)" "r \<noteq> None" "db_rep cf cl db1 ?m" by auto
  from getExpire_rep [OF d1(3) assms(2,3)] obtain db2 where
    "getExpire cf sv db1 key = Some (db2, LLONG_MAX)" by (auto simp: ttl_at_def ttl_code_def)
  with d1(1,2) have "expiretimeCommand cf sv key db' = None"
    by (simp add: expiretimeCommand_def ttlGenericCommand_def ll_def) (simp add: LLONG_MAX_def)
  with d(1) show ?thesis by blast
qed

text \<open>
  \<open>MOVE\<close> between two databases: the object and the time to live of a key that has not expired go to the
  other database, unless the key exists there; the other keys and databases stay as they are.
\<close>

theorem moveCommand_spec:
  assumes "list_all2 (db_rep cf False) dbs ms" "conf_ok cf" "slot_ok False sv key" "can_write sv" "\<not> cluster_enabled sv"
    "i < length ms" "j < length ms" "i \<noteq> j" "j < 2 ^ 31" "card (dom (ms ! j)) < 2 ^ 64 - 2"
  shows "\<exists>dbs' ms'. moveCommand cf sv i key (decimal (int j)) dbs = Some (dbs', Moved (snd (move_result sv key (ms ! i) (ms ! j))))
    \<and> list_all2 (db_rep cf False) dbs' ms'
    \<and> ms' = ms[i := fst (fst (move_result sv key (ms ! i) (ms ! j))), j := snd (fst (move_result sv key (ms ! i) (ms ! j)))]"
proof -
  have len: "length dbs = length ms" using assms(1) by (rule list_all2_lengthD)
  have at: "db_rep cf False (dbs ! i) (ms ! i)" "db_rep cf False (dbs ! j) (ms ! j)"
    using assms(1,6,7) len by (simp_all add: list_all2_conv_all_nth)
  have n: "getIntFromObject (decimal (int j)) = Some (int j)"
    using assms(9) by (simp add: getIntFromObject_def string2ll_decimal LLONG_MIN_def LLONG_MAX_def INT_MIN_def INT_MAX_def)
  from move_key_rep [OF at assms(2,3,10,4)] obtain s d where
    "move_key cf sv key (dbs ! i) (dbs ! j) = Some ((s, d), snd (move_result sv key (ms ! i) (ms ! j)))"
    "db_rep cf False s (fst (fst (move_result sv key (ms ! i) (ms ! j))))"
    "db_rep cf False d (snd (fst (move_result sv key (ms ! i) (ms ! j))))" by blast
  then show ?thesis using assms(1,5,7,8) len n
    by (auto simp: moveCommand_def intro!: list_all2_update_cong)
qed

end
