(* ===== verification/Spec2Isabelle.thy ===== *)
theory Spec2Isabelle
  imports Glob Intset Listpack_Main Adlist_Main Db_Main
begin

text \<open>
  \<^bold>\<open>A verification of the data structures and the keyspace of Redis.\<close>

  The program is the Redis server under \<^verbatim>\<open>src/project/redis/backend/redis-src/src\<close>; all file names
  below are relative to that directory.  Modelled are the data structures that hold the data, and on
  top of them the databases and the commands on whole keys:

  \<^item> \<^verbatim>\<open>util.c\<close> converts numbers and matches glob patterns;
  \<^item> \<^verbatim>\<open>intset.c\<close> and \<^verbatim>\<open>listpack.c\<close> are compact encodings of sets of integers and of lists of strings in one
    block of bytes;
  \<^item> \<^verbatim>\<open>adlist.c\<close> is a doubly linked list, \<^verbatim>\<open>dict.c\<close> a chained hash table that is resized incrementally;
  \<^item> \<^verbatim>\<open>kvstore.c\<close> is an array of dictionaries, one for each cluster slot (or one only), with counters, a
    binary indexed tree of their sizes and a list (of \<^verbatim>\<open>adlist.c\<close>) of those that are being rehashed;
  \<^item> \<^verbatim>\<open>crc16.c\<close> and \<^verbatim>\<open>cluster.h\<close> compute the slot of a key;
  \<^item> \<^verbatim>\<open>db.c\<close> makes a database of two such stores, the objects and the times to live, with the expiry of
    keys when they are accessed; \<^verbatim>\<open>expire.c\<close> has the commands on times to live.

  \<^bold>\<open>Conventions.\<close>  A C function is a definition of the same name; an apostrophe at the end replaces
  an underscore in front (\<open>dictRehashStep'\<close> for \<open>_dictRehashStep\<close>), and a name of its own ending in \<open>_loop\<close> is a
  loop of the function named before.  A \<open>struct\<close> is a record; what a function changes is passed and
  returned.  A failed assertion, an access outside of a block or through a dangling or null pointer,
  and signed overflow are the value \<open>None\<close> of the option type, so \<open>f x = Some y\<close> says that the call is
  safe.  Unsigned integers whose wrap-around matters are words; signed ones are integers whose range is
  checked.  Hash functions, random numbers, the clock, the allocator, the resize policy and the
  callbacks are parameters, and the theorems hold for all of them, or for all that satisfy a named
  hypothesis (\<open>alloc_ok\<close>: an allocator returns NULL or memory not in use; \<open>kv_alloc\<close>: in addition it does
  not fail below 65536 nodes, the number of dictionaries a store can have).

  \<^bold>\<open>Theories.\<close>
  \<^item> \<^verbatim>\<open>Prelude\<close>: bytes, words and lists shared by all; the locale \<open>fixed_codec\<close> of encodings of fixed width.
  \<^item> \<^verbatim>\<open>Interfaces\<close>: the contracts as locales, each with the abstract machine and the lemma that any
    sequence of operations refines it: \<open>bounded_set\<close> (interpreted by intsets), \<open>map_store\<close>
    (dictionaries), \<open>packed_list\<close> (listpacks), \<open>linked_seq\<close> (linked lists), \<open>cursor_scan\<close>
    (the cursors of dictionaries and of stores) and \<open>bounded_refinement\<close> (databases).
  \<^item> \<^verbatim>\<open>Util\<close>: \<open>string2ll\<close>, \<open>ll2string\<close> and others; the parser accepts exactly the canonical notation, and the
    printer is its inverse.  \<^verbatim>\<open>Glob\<close>: \<open>stringmatchlen\<close> with its nesting limit and its cut of longer matches,
    against an inductive definition of the language of a pattern.
  \<^item> \<^verbatim>\<open>Intset\<close>: the byte-level operations, the refinement of finite sets, validation.
  \<^item> \<^verbatim>\<open>Listpack\<close> (model), \<^verbatim>\<open>Listpack_Codec\<close>, \<^verbatim>\<open>Listpack_Ops\<close>, \<^verbatim>\<open>Listpack_Edit\<close>, \<^verbatim>\<open>Listpack_Batch\<close>, \<^verbatim>\<open>Listpack_Valid\<close>:
    encodings, navigation, insertion and deletion, batches and merging, validation of untrusted
    bytes; \<^verbatim>\<open>Listpack_Main\<close> has the results.
  \<^item> \<^verbatim>\<open>Adlist\<close> (model on an explicit heap), \<^verbatim>\<open>Adlist_Ops\<close> (representation predicate, one lemma for each
    operation with its frame), \<^verbatim>\<open>Adlist_Main\<close> (refinement of sequences, iteration with deletion,
    duplication).  A refused allocation is tied to \<open>zmalloc\<close> returning NULL at that very call.
  \<^item> \<^verbatim>\<open>Dict\<close> (model), \<^verbatim>\<open>Dict_Ops\<close> (invariant, rehashing, resizing, search), \<^verbatim>\<open>Dict_Map\<close> (refinement of maps,
    progress of the rehashing), \<^verbatim>\<open>Dict_Scan\<close> (the reverse-binary cursor and the guarantee of SCAN).
  \<^item> \<^verbatim>\<open>Kvstore_Index\<close> (the binary indexed tree), \<^verbatim>\<open>Kvstore\<close> (model), \<^verbatim>\<open>Kvstore_Ops\<close> and \<^verbatim>\<open>Kvstore_Map\<close> (invariant
    and one lemma for each operation), \<^verbatim>\<open>Kvstore_Main\<close> (creation, emptying, releasing, key numbers),
    \<^verbatim>\<open>Kvstore_Scan\<close> (the cursor over all dictionaries), \<^verbatim>\<open>Kvstore_Results\<close> (reachable stores, counters,
    absence of failures, SCAN).
  \<^item> \<^verbatim>\<open>Crc16\<close>: the table-driven checksum equals the bitwise one; hash tags.
  \<^item> \<^verbatim>\<open>Db\<close> (model), \<^verbatim>\<open>Db_Ops\<close> and \<^verbatim>\<open>Db_Keyspace\<close> (the relation between a database and an abstract keyspace, expiry
    on access), \<^verbatim>\<open>Db_Commands\<close> (the commands), \<^verbatim>\<open>Expire\<close> (\<^verbatim>\<open>expire.c\<close>), \<^verbatim>\<open>Db_Array\<close> (several databases: MOVE,
    SWAPDB, loading, flushing), \<^verbatim>\<open>Db_Main\<close> (refinement of a keyspace by any sequence of commands, expiry on
    masters and replicas, propagation of times to live).

  \<^bold>\<open>How the results compose.\<close>  The invariant of a store contains that of its dictionaries and of its
  list, and the invariant of a database that of its two stores; each operation is shown once to keep
  the invariant and to change the abstract contents as specified, and the layer above uses only these
  lemmas.  A sequence of commands on a database is therefore carried down to the buckets of the hash
  tables and the nodes of the list of rehashing dictionaries.

  \<^bold>\<open>Bounds.\<close>  Sizes are bounded where the code computes them in a fixed width: an intset of fewer than
  \<open>2 ^ 29\<close> elements (beyond, \<open>intsetMoveTail\<close> wraps, which is shown), a listpack below 4 GB (beyond, it
  refuses), \<open>n * 10\<close> in \<open>dictRehash\<close>, a store of fewer than \<open>2 ^ 64 - 1\<close> keys, glob patterns with at most 1000 stars
  (the nesting limit of the matcher).  Loops are structural or have a termination proof; those over a
  linked list, which would not end on a corrupted heap, are partial functions shown to return.
  \<open>dictRehashMicroseconds\<close> and \<open>kvstoreIncrementallyRehash\<close> take the number of rounds that the clock allows
  as an argument: the first round is always made.  The loops that walk through a listpack until its end
  byte (\<open>lpCount_loop\<close>, \<open>lpFindCb_loop\<close>, \<open>lpValidate_loop\<close>) have fuel, the number of bytes of the block (one
  more where the loop also visits the end): every entry takes at least two bytes, and the loops are
  shown not to run out of it.

  \<^bold>\<open>Simplifications.\<close>  A pointer to a dictionary entry is the place of the entry; \<open>no_value\<close> dictionaries
  keep their keys in the same records as others.  Counters that the code holds in \<open>int\<close> and that cannot
  reach its limits (\<open>pauserehash\<close>, the counts of dictionaries) are integers.  The position in
  \<open>intsetValidateIntegrity\<close>, the lengths in \<open>stringmatchlen\<close> and in \<open>keyHashSlot\<close> are natural numbers, for inputs
  that fit an \<open>int\<close>.  The callback of a scan only reads.  What a command asks of other parts of the server
  (notifications, propagation, watched keys, blocked clients, the expiry of hash fields, freeing) is
  recorded in \<open>calls\<close>; the contents of a value are an arbitrary type.

  \<^bold>\<open>Not modelled.\<close>  The types of values (\<^verbatim>\<open>t_*.c\<close>), quicklists, radix trees and the old formats; the event
  loop, networking, persistence, replication, cluster and Sentinel protocols, modules, scripting,
  configuration and the client programs, which are input and output or rest on libraries outside of
  these sources; of \<^verbatim>\<open>dict.c\<close> and \<^verbatim>\<open>kvstore.c\<close> the iterators, random keys, defragmentation and statistics; of
  \<^verbatim>\<open>listpack.c\<close> the random selections and printing; of \<^verbatim>\<open>db.c\<close> the commands KEYS, SCAN and COPY and the
  extraction of keys from arguments; of \<^verbatim>\<open>expire.c\<close> the active expire cycle.  The other directories of the
  repository are samples of languages and platforms.
\<close>

end
